(* ===== verification/Prelude.thy ===== *)
theory Prelude
  imports Main "HOL-Library.Word" "HOL-Library.Sublist" "HOL-Library.List_Lexorder"
    "HOL-Library.Char_ord"
begin

text \<open>
  Shared vocabulary of the development: the machine integers of the Rust code, the
  state-and-error actions that an \<open>async fn\<close> returning a \<open>Result\<close> is translated to, the
  string functions of the Rust standard library that the key layouts use, and the generic
  lemmas and proof collections that the component theories share.
\<close>

section \<open>Machine integers\<close>

text \<open>
  Unsigned integers are words of their width. A signed \<open>i64\<close> (every unix timestamp of the
  code) is an \<open>int\<close> whose arithmetic is wrapped explicitly, so that \<open>checked_sub\<close>, the
  \<open>as\<close> casts and \<open>try_from\<close> are all visible in the definitions.
\<close>

type_synonym u64 = "64 word"
type_synonym u32 = "32 word"
type_synonym i64 = int

definition i64_min :: int where "i64_min = - (2 ^ 63)"
definition i64_max :: int where "i64_max = 2 ^ 63 - 1"

definition in_i64 :: "int \<Rightarrow> bool" where
  "in_i64 x \<longleftrightarrow> i64_min \<le> x \<and> x \<le> i64_max"

definition wrap_i64 :: "int \<Rightarrow> i64" where
  "wrap_i64 x = (x + 2 ^ 63) mod 2 ^ 64 - 2 ^ 63"

text \<open>\<open>i64::checked_sub\<close>: \<open>None\<close> exactly on overflow of the 64-bit range.\<close>

definition checked_sub_i64 :: "i64 \<Rightarrow> i64 \<Rightarrow> i64 option" where
  "checked_sub_i64 a b = (if in_i64 (a - b) then Some (a - b) else None)"

text \<open>\<open>u64::try_from\<close> on an \<open>i64\<close>: \<open>None\<close> exactly for a negative value.\<close>

definition u64_try_from :: "i64 \<Rightarrow> u64 option" where
  "u64_try_from x = (if 0 \<le> x then Some (word_of_int x) else None)"

text \<open>\<open>i64::try_from\<close> on a \<open>u64\<close>, and the \<open>as i64\<close> cast.\<close>

definition i64_try_from :: "u64 \<Rightarrow> i64 option" where
  "i64_try_from w = (if uint w \<le> i64_max then Some (uint w) else None)"

definition u64_as_i64 :: "u64 \<Rightarrow> i64" where
  "u64_as_i64 w = wrap_i64 (uint w)"

definition checked_sub_u64 :: "u64 \<Rightarrow> u64 \<Rightarrow> u64 option" where
  "checked_sub_u64 a b = (if b \<le> a then Some (a - b) else None)"

definition saturating_add_u32 :: "u32 \<Rightarrow> u32 \<Rightarrow> u32" where
  "saturating_add_u32 a b = (if unat a + unat b < 2 ^ 32 then a + b else - 1)"

definition saturating_sub_u32 :: "u32 \<Rightarrow> u32 \<Rightarrow> u32" where
  "saturating_sub_u32 a b = (if b \<le> a then a - b else 0)"

lemma wrap_i64_id: "in_i64 x \<Longrightarrow> wrap_i64 x = x"
  by (simp add: wrap_i64_def in_i64_def i64_min_def i64_max_def)

lemma wrap_i64_in: "in_i64 (wrap_i64 x)"
proof -
  have "0 \<le> (x + 2 ^ 63) mod 2 ^ 64" and "(x + 2 ^ 63) mod 2 ^ 64 < (2 ^ 64 :: int)"
    by (rule pos_mod_sign, simp) (rule pos_mod_bound, simp)
  then show ?thesis
    by (simp add: wrap_i64_def in_i64_def i64_min_def i64_max_def)
qed

lemma uint_u64_try_from:
  assumes "0 \<le> x" and "in_i64 x"
  shows "uint (word_of_int x :: u64) = x"
proof -
  have "x mod 2 ^ 64 = x"
    using assms by (simp add: in_i64_def i64_max_def)
  then show ?thesis by (simp add: uint_word_of_int)
qed

lemma unat_u32_less: "unat (a :: u32) < 4294967296"
  using unsigned_less [of a] by simp

lemma unat_saturating_add_u32:
  "unat (saturating_add_u32 a 1) = (if unat a = 2 ^ 32 - 1 then 2 ^ 32 - 1 else unat a + 1)"
proof -
  have "unat a < 2 ^ 32" using unsigned_less [of a] by simp
  then show ?thesis
    by (auto simp: saturating_add_u32_def unat_word_ariths unsigned_minus_1_eq_mask mask_eq_exp_minus_1)
qed

lemma unat_saturating_sub_u32: "unat (saturating_sub_u32 a 1) = unat a - 1"
proof (cases "1 \<le> a")
  case True
  then show ?thesis by (simp add: saturating_sub_u32_def unat_sub)
next
  case False
  then have "unat a = 0" by (simp add: word_le_nat_alt)
  then have "a = 0" by (simp add: unsigned_eq_0_iff)
  then show ?thesis by (simp add: saturating_sub_u32_def)
qed

section \<open>Actions: state passing with a result\<close>

text \<open>
  An \<open>async fn\<close> of the crate that returns \<open>Result<A, E>\<close> and changes a state of type
  \<open>'w\<close> becomes an \<^emph>\<open>action\<close>. The state is returned on the error path too: an early return
  with \<open>?\<close> keeps every effect that happened before it.
\<close>

type_synonym ('w, 'e, 'a) act = "'w \<Rightarrow> ('e + 'a) \<times> 'w"

definition ok_act :: "'a \<Rightarrow> ('w, 'e, 'a) act" where
  "ok_act x w = (Inr x, w)"

definition err_act :: "'e \<Rightarrow> ('w, 'e, 'a) act" where
  "err_act e w = (Inl e, w)"

definition bind_act :: "('w, 'e, 'a) act \<Rightarrow> ('a \<Rightarrow> ('w, 'e, 'b) act) \<Rightarrow> ('w, 'e, 'b) act" where
  "bind_act m f w = (case m w of (Inl e, w') \<Rightarrow> (Inl e, w') | (Inr x, w') \<Rightarrow> f x w')"

text \<open>\<open>map_err\<close>, and running an action to inspect its result with \<open>match\<close> or \<open>is_ok\<close>.\<close>

definition map_err_act :: "('e \<Rightarrow> 'd) \<Rightarrow> ('w, 'e, 'a) act \<Rightarrow> ('w, 'd, 'a) act" where
  "map_err_act g m w = (case m w of (Inl e, w') \<Rightarrow> (Inl (g e), w') | (Inr x, w') \<Rightarrow> (Inr x, w'))"

definition try_act :: "('w, 'e, 'a) act \<Rightarrow> ('w, 'd, 'e + 'a) act" where
  "try_act m w = (case m w of (r, w') \<Rightarrow> (Inr r, w'))"

text \<open>\<open>option.ok_or(e)?\<close> and a bare \<open>Result\<close> value used with \<open>?\<close>.\<close>

definition some_act :: "'e \<Rightarrow> 'a option \<Rightarrow> ('w, 'e, 'a) act" where
  "some_act e x = (case x of None \<Rightarrow> err_act e | Some y \<Rightarrow> ok_act y)"

definition res_act :: "'e + 'a \<Rightarrow> ('w, 'e, 'a) act" where
  "res_act r w = (r, w)"

text \<open>An action on one field of a larger state.\<close>

definition focus_act ::
  "('w \<Rightarrow> 's) \<Rightarrow> ('s \<Rightarrow> 'w \<Rightarrow> 'w) \<Rightarrow> ('s, 'e, 'a) act \<Rightarrow> ('w, 'e, 'a) act" where
  "focus_act get put m w = (case m (get w) of (r, s') \<Rightarrow> (r, put s' w))"

text \<open>A \<open>for\<close> loop whose body may return early with \<open>?\<close>.\<close>

fun for_act :: "'i list \<Rightarrow> ('i \<Rightarrow> 'x \<Rightarrow> ('w, 'e, 'x) act) \<Rightarrow> 'x \<Rightarrow> ('w, 'e, 'x) act" where
  "for_act [] body acc = ok_act acc"
| "for_act (i # is) body acc = bind_act (body i acc) (for_act is body)"

named_theorems act_defs "the action combinators, unfolded for evaluation"

lemmas [act_defs] =
  ok_act_def err_act_def bind_act_def map_err_act_def try_act_def some_act_def res_act_def
  focus_act_def

lemma ok_act_eq [simp]: "ok_act x w = (r, w') \<longleftrightarrow> r = Inr x \<and> w' = w"
  by (auto simp: ok_act_def)

lemma err_act_eq [simp]: "err_act e w = (r, w') \<longleftrightarrow> r = Inl e \<and> w' = w"
  by (auto simp: err_act_def)

lemma res_act_eq [simp]: "res_act x w = (r, w') \<longleftrightarrow> r = x \<and> w' = w"
  by (auto simp: res_act_def)

lemma bind_act_split:
  "P (bind_act m f w) \<longleftrightarrow>
     (\<forall>e w'. m w = (Inl e, w') \<longrightarrow> P (Inl e, w')) \<and>
     (\<forall>x w'. m w = (Inr x, w') \<longrightarrow> P (f x w'))"
  by (cases "m w"; cases "fst (m w)") (auto simp: bind_act_def)

lemma bind_act_eq:
  "bind_act m f w = (r, w'') \<longleftrightarrow>
     (\<exists>e. m w = (Inl e, w'') \<and> r = Inl e) \<or> (\<exists>x w'. m w = (Inr x, w') \<and> f x w' = (r, w''))"
  by (auto simp: bind_act_def split: prod.splits sum.splits)

lemma bind_act_okE:
  assumes "bind_act m f w = (Inr y, w'')"
  obtains x w' where "m w = (Inr x, w')" and "f x w' = (Inr y, w'')"
  using assms by (auto simp: bind_act_eq)

lemma bind_act_run: "m w = (Inr x, w') \<Longrightarrow> bind_act m f w = f x w'"
  by (simp add: bind_act_def)

lemma bind_act_run_err: "m w = (Inl e, w') \<Longrightarrow> bind_act m f w = (Inl e, w')"
  by (simp add: bind_act_def)

lemma bind_ok_act [simp]: "bind_act (ok_act x) f = f x"
  by (rule ext) (simp add: bind_act_def ok_act_def)

lemma bind_err_act [simp]: "bind_act (err_act e) f = err_act e"
  by (rule ext) (simp add: bind_act_def err_act_def)

lemma map_err_act_eq:
  "map_err_act g m w = (r, w') \<longleftrightarrow>
     (\<exists>e. m w = (Inl e, w') \<and> r = Inl (g e)) \<or> (\<exists>x. m w = (Inr x, w') \<and> r = Inr x)"
  by (auto simp: map_err_act_def split: prod.splits sum.splits)

lemma try_act_eq: "try_act m w = (r, w') \<longleftrightarrow> (\<exists>q. m w = (q, w') \<and> r = Inr q)"
  by (auto simp: try_act_def split: prod.splits)

lemma some_act_eq:
  "some_act e x w = (r, w') \<longleftrightarrow>
     w' = w \<and> (case x of None \<Rightarrow> r = Inl e | Some y \<Rightarrow> r = Inr y)"
  by (cases x) (auto simp: some_act_def)

lemma focus_act_eq:
  "focus_act get put m w = (r, w') \<longleftrightarrow> (\<exists>s'. m (get w) = (r, s') \<and> w' = put s' w)"
  by (auto simp: focus_act_def split: prod.splits)

lemmas act_eqs = bind_act_eq map_err_act_eq try_act_eq some_act_eq focus_act_eq

text \<open>
  An action keeps a predicate of the state when no outcome, error included, leaves a state
  outside it. The rules below let an invariant of a whole operation follow from the same
  invariant of its calls.
\<close>

definition keeps :: "('w \<Rightarrow> bool) \<Rightarrow> ('w, 'e, 'a) act \<Rightarrow> bool" where
  "keeps P m \<longleftrightarrow> (\<forall>w. P w \<longrightarrow> P (snd (m w)))"

named_theorems keeps_rules "invariance of an action from the invariance of its parts"

lemma keepsD: "keeps P m \<Longrightarrow> m w = (r, w') \<Longrightarrow> P w \<Longrightarrow> P w'"
  unfolding keeps_def by (metis snd_conv)

lemma keepsI: "(\<And>w r w'. m w = (r, w') \<Longrightarrow> P w \<Longrightarrow> P w') \<Longrightarrow> keeps P m"
  unfolding keeps_def by (metis prod.collapse)

lemma keeps_ok [keeps_rules]: "keeps P (ok_act x)"
  by (simp add: keeps_def ok_act_def)

lemma keeps_err [keeps_rules]: "keeps P (err_act e)"
  by (simp add: keeps_def err_act_def)

lemma keeps_res [keeps_rules]: "keeps P (res_act r)"
  by (simp add: keeps_def res_act_def)

lemma keeps_some [keeps_rules]: "keeps P (some_act e x)"
  by (simp add: keeps_def some_act_def ok_act_def err_act_def split: option.split)

lemma keeps_bind [keeps_rules]:
  "keeps P m \<Longrightarrow> (\<And>x. keeps P (f x)) \<Longrightarrow> keeps P (bind_act m f)"
  unfolding keeps_def by (simp add: bind_act_def split: prod.split sum.split) (metis snd_conv)

lemma keeps_map_err [keeps_rules]: "keeps P m \<Longrightarrow> keeps P (map_err_act g m)"
  unfolding keeps_def by (simp add: map_err_act_def split: prod.split sum.split) (metis snd_conv)

lemma keeps_try [keeps_rules]: "keeps P m \<Longrightarrow> keeps P (try_act m)"
  unfolding keeps_def by (simp add: try_act_def split: prod.split) (metis snd_conv)

lemma keeps_if [keeps_rules]: "keeps P m \<Longrightarrow> keeps P n \<Longrightarrow> keeps P (if b then m else n)"
  by simp

lemma keeps_for [keeps_rules]:
  "(\<And>i acc. i \<in> set is \<Longrightarrow> keeps P (body i acc)) \<Longrightarrow> keeps P (for_act is body acc)"
  by (induction "is" arbitrary: acc) (auto intro!: keeps_rules)

text \<open>
  The weakest precondition of an action for a postcondition on its result and final state.
  A call of another component enters a proof through one rule per call, collected in
  \<open>wp_rules\<close>; the rule has one premise for each way the call can end.
\<close>

definition wp :: "('w, 'e, 'a) act \<Rightarrow> ('e + 'a \<Rightarrow> 'w \<Rightarrow> bool) \<Rightarrow> 'w \<Rightarrow> bool" where
  "wp m Q w \<longleftrightarrow> (case m w of (r, w') \<Rightarrow> Q r w')"

named_theorems wp_rules "one rule per call, with a premise for each outcome"

lemma wpI: "(\<And>r w'. m w = (r, w') \<Longrightarrow> Q r w') \<Longrightarrow> wp m Q w"
  by (simp add: wp_def split: prod.split)

lemma wpD: "wp m Q w \<Longrightarrow> m w = (r, w') \<Longrightarrow> Q r w'"
  by (simp add: wp_def)

lemma wp_ok [simp]: "wp (ok_act x) Q w \<longleftrightarrow> Q (Inr x) w"
  by (simp add: wp_def ok_act_def)

lemma wp_err [simp]: "wp (err_act e) Q w \<longleftrightarrow> Q (Inl e) w"
  by (simp add: wp_def err_act_def)

lemma wp_res [simp]: "wp (res_act r) Q w \<longleftrightarrow> Q r w"
  by (simp add: wp_def res_act_def)

lemma wp_bind [simp]:
  "wp (bind_act m f) Q w \<longleftrightarrow>
     wp m (\<lambda>r w'. case r of Inl e \<Rightarrow> Q (Inl e) w' | Inr x \<Rightarrow> wp (f x) Q w') w"
  by (simp add: wp_def bind_act_def split: prod.split sum.split)

lemma wp_map_err [simp]:
  "wp (map_err_act g m) Q w \<longleftrightarrow>
     wp m (\<lambda>r w'. case r of Inl e \<Rightarrow> Q (Inl (g e)) w' | Inr x \<Rightarrow> Q (Inr x) w') w"
  by (simp add: wp_def map_err_act_def split: prod.split sum.split)

lemma wp_try [simp]: "wp (try_act m) Q w \<longleftrightarrow> wp m (\<lambda>r. Q (Inr r)) w"
  by (simp add: wp_def try_act_def split: prod.split)

lemma wp_some [simp]:
  "wp (some_act e x) Q w \<longleftrightarrow> (case x of None \<Rightarrow> Q (Inl e) w | Some y \<Rightarrow> Q (Inr y) w)"
  by (simp add: some_act_def split: option.split)

lemma wp_focus [simp]:
  "wp (focus_act get put m) Q w \<longleftrightarrow> wp m (\<lambda>r s'. Q r (put s' w)) (get w)"
  by (simp add: wp_def focus_act_def split: prod.split)

lemma wp_if [simp]: "wp (if b then m else n) Q w \<longleftrightarrow> (if b then wp m Q w else wp n Q w)"
  by simp

lemma wp_mono: "wp m Q w \<Longrightarrow> (\<And>r w'. Q r w' \<Longrightarrow> R r w') \<Longrightarrow> wp m R w"
  by (simp add: wp_def split: prod.splits)

text \<open>A loop: an invariant of the items still to do, kept by the body; errors leave at once.\<close>

lemma wp_for:
  assumes "I is acc w"
    and "\<And>i is acc w. I (i # is) acc w \<Longrightarrow>
           wp (body i acc) (\<lambda>r w'. case r of Inl e \<Rightarrow> Q (Inl e) w' | Inr a \<Rightarrow> I is a w') w"
    and "\<And>acc w. I [] acc w \<Longrightarrow> Q (Inr acc) w"
  shows "wp (for_act is body acc) Q w"
  using assms(1)
proof (induction "is" arbitrary: acc w)
  case Nil
  then show ?case by (simp add: assms(3))
next
  case (Cons i "is")
  have "wp (body i acc) (\<lambda>r w'. case r of Inl e \<Rightarrow> Q (Inl e) w' | Inr a \<Rightarrow> I is a w') w"
    using Cons.prems by (rule assms(2))
  then have "wp (body i acc)
      (\<lambda>r w'. case r of Inl e \<Rightarrow> Q (Inl e) w' | Inr x \<Rightarrow> wp (for_act is body x) Q w') w"
    by (rule wp_mono) (auto split: sum.splits intro: Cons.IH)
  then show ?case by simp
qed

section \<open>Strings\<close>

text \<open>\<open>str::strip_prefix\<close> and \<open>str::split_once\<close>.\<close>

definition strip_prefix :: "string \<Rightarrow> string \<Rightarrow> string option" where
  "strip_prefix p s = (if prefix p s then Some (drop (length p) s) else None)"

fun split_once :: "char \<Rightarrow> string \<Rightarrow> (string \<times> string) option" where
  "split_once c [] = None"
| "split_once c (x # xs) =
     (if x = c then Some ([], xs)
      else case split_once c xs of None \<Rightarrow> None | Some (a, b) \<Rightarrow> Some (x # a, b))"

lemma strip_prefix_append [simp]: "strip_prefix p (p @ s) = Some s"
  by (simp add: strip_prefix_def)

lemma split_once_append: "c \<notin> set a \<Longrightarrow> split_once c (a @ c # b) = Some (a, b)"
  by (induction a) auto

lemma split_colon: "CHR '':'' \<notin> set a \<Longrightarrow> split_once CHR '':'' (a @ '':'' @ b) = Some (a, b)"
  by (simp only: append.simps split_once_append not_False_eq_True)

lemma split_once_Some: "split_once c s = Some (a, b) \<Longrightarrow> s = a @ c # b \<and> c \<notin> set a"
  by (induction s arbitrary: a) (auto split: if_splits option.splits)

lemma split_once_None: "split_once c s = None \<longleftrightarrow> c \<notin> set s"
  by (induction s) (auto split: option.splits)

text \<open>\<open>str::split\<close> with a character, \<open>str::strip_suffix\<close>, and \<open>str::trim\<close>, where \<open>is_ws\<close> is \<open>char::is_whitespace\<close>.\<close>

fun split_on :: "char \<Rightarrow> string \<Rightarrow> string list" where
  "split_on c [] = [[]]"
| "split_on c (x # xs) = (if x = c then [] # split_on c xs else (x # hd (split_on c xs)) # tl (split_on c xs))"

definition strip_suffix :: "string \<Rightarrow> string \<Rightarrow> string option" where
  "strip_suffix p s = (if suffix p s then Some (take (length s - length p) s) else None)"

definition trim :: "(char \<Rightarrow> bool) \<Rightarrow> string \<Rightarrow> string" where
  "trim is_ws s = rev (dropWhile is_ws (rev (dropWhile is_ws s)))"

lemma split_on_none: "c \<notin> set s \<Longrightarrow> split_on c s = [s]"
  by (induction s) auto

lemma split_on_append: "c \<notin> set a \<Longrightarrow> split_on c (a @ c # b) = a # split_on c b"
  by (induction a) auto

text \<open>
  \<open>HeaderValue::to_str\<close>: a header that is read as text holds visible characters, spaces and tabs, so those two are the white space of it.
\<close>

definition header_str :: "string option \<Rightarrow> string option" where
  "header_str h = Option.bind h (\<lambda>s. if list_all (\<lambda>c. c = CHR 0x09 \<or> (CHR '' '' \<le> c \<and> c \<le> CHR ''~'')) s then Some s else None)"

definition is_blank :: "char \<Rightarrow> bool" where
  "is_blank c \<longleftrightarrow> c = CHR '' '' \<or> c = CHR 0x09"

text \<open>A suffix \<open>:id\<close> determines the last colon-separated component.\<close>

lemma last_component_unique:
  fixes c :: char
  assumes "a @ c # x = b @ c # y" and "c \<notin> set x" and "c \<notin> set y"
  shows "a = b \<and> x = y"
proof -
  have "rev x @ c # rev a = rev y @ c # rev b"
    using arg_cong [OF assms(1), of rev] by simp
  then have "split_once c (rev x @ c # rev a) = split_once c (rev y @ c # rev b)"
    by simp
  then have "(rev x, rev a) = (rev y, rev b)"
    using assms(2,3) by (simp add: split_once_append)
  then show ?thesis by simp
qed

section \<open>Decimal numerals\<close>

text \<open>
  \<open>format!("{n}")\<close> and \<open>format!("{n:020}")\<close>: the digits of a number, most significant
  first, and the same padded with zeroes to a width. A shorter field never truncates.
\<close>

definition digit_char :: "nat \<Rightarrow> char" where
  "digit_char d = char_of (48 + d)"

fun decimal :: "nat \<Rightarrow> string" where
  "decimal n = (if n < 10 then [digit_char n] else decimal (n div 10) @ [digit_char (n mod 10)])"

declare decimal.simps [simp del]

definition pad_decimal :: "nat \<Rightarrow> nat \<Rightarrow> string" where
  "pad_decimal w n = replicate (w - length (decimal n)) CHR ''0'' @ decimal n"

definition digit_val :: "char \<Rightarrow> nat" where
  "digit_val c = of_char c - 48"

definition read_decimal :: "string \<Rightarrow> nat" where
  "read_decimal s = foldl (\<lambda>n c. 10 * n + digit_val c) 0 s"

lemma digit_val_char: "d < 10 \<Longrightarrow> digit_val (digit_char d) = d"
  by (simp add: digit_val_def digit_char_def)

lemma read_decimal_snoc: "read_decimal (s @ [c]) = 10 * read_decimal s + digit_val c"
  by (simp add: read_decimal_def)

lemma read_decimal_decimal: "read_decimal (decimal n) = n"
proof (induction n rule: decimal.induct)
  case (1 n)
  show ?case
  proof (cases "n < 10")
    case True
    then show ?thesis
      by (subst decimal.simps) (simp add: read_decimal_def digit_val_char)
  next
    case False
    with "1.IH" show ?thesis
      by (subst decimal.simps) (simp add: read_decimal_snoc digit_val_char)
  qed
qed

lemma read_decimal_zeroes: "read_decimal (replicate k CHR ''0'' @ s) = read_decimal s"
  by (induction k) (auto simp: read_decimal_def digit_val_def)

lemma read_pad_decimal: "read_decimal (pad_decimal w n) = n"
  by (simp add: pad_decimal_def read_decimal_zeroes read_decimal_decimal)

lemma pad_decimal_inj: "pad_decimal w m = pad_decimal w n \<longleftrightarrow> m = n"
  by (metis read_pad_decimal)

lemma decimal_inj: "decimal m = decimal n \<longleftrightarrow> m = n"
  by (metis read_decimal_decimal)

lemma decimal_nonempty: "decimal n \<noteq> []"
  by (subst decimal.simps) simp

lemma digit_char_digit: "d < 10 \<Longrightarrow> of_char (digit_char d) \<in> {48..<58 :: nat}"
  by (simp add: digit_char_def)

lemma decimal_digits: "c \<in> set (decimal n) \<Longrightarrow> of_char c \<in> {48..<58 :: nat}"
proof (induction n rule: decimal.induct)
  case (1 n)
  show ?case
  proof (cases "n < 10")
    case True
    then have "c = digit_char n" using "1.prems" by (subst (asm) decimal.simps) simp
    with True show ?thesis using digit_char_digit by blast
  next
    case False
    then have "c \<in> set (decimal (n div 10)) \<or> c = digit_char (n mod 10)"
      using "1.prems" by (subst (asm) decimal.simps) auto
    then show ?thesis using "1.IH" [OF False] digit_char_digit [of "n mod 10"] by auto
  qed
qed

lemma pad_decimal_digits: "c \<in> set (pad_decimal w n) \<Longrightarrow> of_char c \<in> {48..<58 :: nat}"
  by (auto simp: pad_decimal_def dest: decimal_digits)

lemma digit_not: "of_char c \<notin> {48..<58 :: nat} \<Longrightarrow> c \<notin> set (decimal n)"
  using decimal_digits by blast

text \<open>\<open>str::parse::<u64>\<close>: an optional plus sign and decimal digits that fit.\<close>

definition is_digit :: "char \<Rightarrow> bool" where
  "is_digit c \<longleftrightarrow> of_char c \<in> {48..<58 :: nat}"

definition parse_u64 :: "string \<Rightarrow> u64 option" where
  "parse_u64 s =
     (let d = (case s of [] \<Rightarrow> [] | c # r \<Rightarrow> if c = CHR ''+'' then r else s) in
      if d = [] \<or> \<not> list_all is_digit d \<or> 2 ^ 64 \<le> read_decimal d then None else Some (of_nat (read_decimal d)))"

lemma parse_u64_decimal:
  assumes "n < 2 ^ 64"
  shows "parse_u64 (decimal n) = Some (of_nat n)"
proof (cases "decimal n")
  case (Cons c r)
  have "list_all is_digit (decimal n)" using decimal_digits by (auto simp: list_all_iff is_digit_def)
  moreover have "c \<noteq> CHR ''+''" using decimal_digits [of c n] by (auto simp: Cons)
  moreover have "read_decimal (c # r) = n" using read_decimal_decimal [of n] by (simp add: Cons)
  ultimately show ?thesis using assms by (simp add: parse_u64_def Cons)
qed (simp add: decimal_nonempty)

section \<open>Association lists\<close>

lemma map_of_filter_key: "map_of (filter (\<lambda>(j, _). j \<noteq> k) d) = (map_of d)(k := None)"
  by (induction d) (auto simp: fun_eq_iff)

lemma map_filter_set: "set (List.map_filter f xs) = {y. \<exists>x \<in> set xs. f x = Some y}"
  by (induction xs) (auto simp: map_filter_simps split: option.splits)

section \<open>Ordered maps\<close>

text \<open>
  A \<open>BTreeMap\<close> is the list of its entries in key order: \<open>insert\<close> is \<open>bt_insert\<close>, \<open>get\<close> is
  \<open>map_of\<close>, iteration is the list itself.
\<close>

fun bt_insert :: "'k::linorder \<Rightarrow> 'v \<Rightarrow> ('k \<times> 'v) list \<Rightarrow> ('k \<times> 'v) list" where
  "bt_insert k v [] = [(k, v)]"
| "bt_insert k v ((j, w) # m) =
     (if k < j then (k, v) # (j, w) # m else if k = j then (k, v) # m else (j, w) # bt_insert k v m)"

definition bt_inv :: "('k::linorder \<times> 'v) list \<Rightarrow> bool" where
  "bt_inv m \<longleftrightarrow> sorted_wrt (<) (map fst m)"

lemma bt_inv_Nil [simp]: "bt_inv []"
  by (simp add: bt_inv_def)

lemma fst_bt_insert: "fst ` set (bt_insert k v m) = insert k (fst ` set m)"
  by (induction k v m rule: bt_insert.induct) auto

lemma map_of_bt_insert: "bt_inv m \<Longrightarrow> map_of (bt_insert k v m) = (map_of m)(k \<mapsto> v)"
  by (induction k v m rule: bt_insert.induct) (auto simp: bt_inv_def fun_eq_iff)

lemma bt_inv_insert [intro]: "bt_inv m \<Longrightarrow> bt_inv (bt_insert k v m)"
proof (induction k v m rule: bt_insert.induct)
  case (2 k v j w m)
  moreover have "bt_inv m" using 2 by (simp add: bt_inv_def)
  ultimately show ?case
    using fst_bt_insert [of k v m] by (auto simp: bt_inv_def)
qed (simp add: bt_inv_def)

lemma bt_inv_map_values [simp]: "bt_inv (map (\<lambda>(k, v). (k, f v)) m) = bt_inv m"
  by (simp add: bt_inv_def comp_def case_prod_unfold)

lemma map_of_map_values: "map_of (map (\<lambda>(k, v). (k, f v)) m) k = map_option f (map_of m k)"
  by (induction m) auto

lemma bt_inv_distinct: "bt_inv m \<Longrightarrow> distinct (map fst m)"
  by (auto simp: bt_inv_def strict_sorted_iff)

section \<open>Characters\<close>

text \<open>The order of characters by their bits, for evaluation.\<close>

lemma bit_step:
  "of_bool b + 2 * x < of_bool c + 2 * (y :: nat) \<longleftrightarrow> x < y \<or> x = y \<and> \<not> b \<and> c"
  "of_bool b + 2 * x = of_bool c + 2 * (y :: nat) \<longleftrightarrow> x = y \<and> b = c"
  by (cases b; cases c; simp; arith)+

lemma less_char_code [code]:
  "Char b0 b1 b2 b3 b4 b5 b6 b7 < Char c0 c1 c2 c3 c4 c5 c6 c7 \<longleftrightarrow>
     (if b7 \<noteq> c7 then c7 else if b6 \<noteq> c6 then c6 else if b5 \<noteq> c5 then c5 else if b4 \<noteq> c4 then c4
      else if b3 \<noteq> c3 then c3 else if b2 \<noteq> c2 then c2 else if b1 \<noteq> c1 then c1 else \<not> b0 \<and> c0)"
proof -
  have char: "of_char (Char d0 d1 d2 d3 d4 d5 d6 d7) = (of_bool d0 + 2 * (of_bool d1 + 2 * (of_bool d2 + 2 * (of_bool d3 +
      2 * (of_bool d4 + 2 * (of_bool d5 + 2 * (of_bool d6 + 2 * (of_bool d7 + 2 * 0))))))) :: nat)" for d0 d1 d2 d3 d4 d5 d6 d7
    by (simp add: algebra_simps)
  show ?thesis
    unfolding less_char_def char bit_step by auto
qed

lemma less_eq_char_code [code]: "(c :: char) \<le> d \<longleftrightarrow> c = d \<or> c < d"
  by (rule le_less [THEN trans]) auto

end
