(* ===== verification/Fencing.thy ===== *)
theory Fencing
  imports Prelude
begin

text \<open>
  The process-wide latch of \<^verbatim>\<open>src/src/fencing.rs\<close>: a one-way flag that records the loss of a
  primary write session, and the log lines its \<open>trip\<close> writes. The first loss is written at
  \<open>error\<close>, every later one at \<open>debug\<close>.
\<close>

datatype log_level = LError | LDebug

record latch =
  tripped :: bool
  latch_log :: "(log_level \<times> string \<times> string) list"

definition latch_new :: latch where
  "latch_new = \<lparr>tripped = False, latch_log = []\<rparr>"

definition trip :: "string \<Rightarrow> string \<Rightarrow> latch \<Rightarrow> latch" where
  "trip source reason l =
     (if tripped l
      then l\<lparr>tripped := True, latch_log := latch_log l @ [(LDebug, source, reason)]\<rparr>
      else l\<lparr>tripped := True, latch_log := latch_log l @ [(LError, source, reason)]\<rparr>)"

definition is_tripped :: "latch \<Rightarrow> bool" where
  "is_tripped l = tripped l"

text \<open>The two free functions over the process latch.\<close>

definition note_primary_loss :: "string \<Rightarrow> string \<Rightarrow> latch \<Rightarrow> latch" where
  "note_primary_loss source reason l = trip source reason l"

definition primary_loss :: "latch \<Rightarrow> bool" where
  "primary_loss l = is_tripped l"

lemma tripped_trip [simp]: "tripped (trip s r l)"
  by (simp add: trip_def)

text \<open>A well-formed latch logs its first loss, and only that one, at \<open>error\<close>.\<close>

definition latch_inv :: "latch \<Rightarrow> bool" where
  "latch_inv l \<longleftrightarrow>
     (if tripped l
      then \<exists>s r rest. latch_log l = (LError, s, r) # rest \<and> (\<forall>(lv, _) \<in> set rest. lv = LDebug)
      else latch_log l = [])"

lemma latch_inv_new [simp]: "latch_inv latch_new"
  by (simp add: latch_inv_def latch_new_def)

lemma latch_inv_trip: "latch_inv l \<Longrightarrow> latch_inv (trip s r l)"
  by (auto simp: latch_inv_def trip_def split: if_splits)

fun trip_all :: "(string \<times> string) list \<Rightarrow> latch \<Rightarrow> latch" where
  "trip_all [] l = l"
| "trip_all ((s, r) # xs) l = trip_all xs (note_primary_loss s r l)"

lemma trip_all_tripped: "tripped l \<Longrightarrow>
    tripped (trip_all xs l) \<and> latch_log (trip_all xs l) = latch_log l @ map (\<lambda>(s, r). (LDebug, s, r)) xs"
  by (induction xs arbitrary: l) (auto simp: note_primary_loss_def trip_def)

text \<open>
  Reporting any number of losses to a fresh latch leaves it tripped exactly when there
  was one, and writes the first loss, and no other, at \<open>error\<close>: the operator sees one error
  line, which names the first prefix that died.
\<close>

theorem losses_log_one_error:
  "primary_loss (trip_all xs latch_new) = (xs \<noteq> []) \<and>
   filter (\<lambda>(lv, _). lv = LError) (latch_log (trip_all xs latch_new)) =
     map (\<lambda>(s, r). (LError, s, r)) (take 1 xs)"
proof (cases xs)
  case Nil
  then show ?thesis by (simp add: latch_new_def primary_loss_def is_tripped_def)
next
  case (Cons x rest)
  obtain s r where x: "x = (s, r)" by (cases x)
  have "filter (\<lambda>(lv, _). lv = LError) (map (\<lambda>(s, r). (LDebug, s, r)) rest) = []"
    by (auto simp: filter_empty_conv)
  then show ?thesis
    using trip_all_tripped [of "trip s r latch_new" rest]
    by (simp add: Cons x note_primary_loss_def primary_loss_def is_tripped_def)
       (simp add: trip_def latch_new_def)
qed

end
