(* ===== verification/Fs_Error.thy ===== *)
theory Fs_Error
  imports Prelude
begin

text \<open>
  The errors of \<^verbatim>\<open>src/src/fs/error.rs\<close>: the classification of a store failure, the
  server-side detail and display text, and the sanitized HTTP response of each class.
\<close>

text \<open>
  An error of the \<open>oxkv\<close> crate. The code distinguishes a lost epoch from everything else and
  reads nothing but the text of the rest.
\<close>

datatype store_error = SFenced string | SOther string

datatype fs_error =
    BadRequest string
  | PayloadTooLarge
  | Forbidden
  | NotFound string
  | Internal string
  | Store string
  | TooManyRequests
  | Fenced string

fun fs_of_store :: "store_error \<Rightarrow> fs_error" where
  "fs_of_store (SFenced reason) = Fenced reason"
| "fs_of_store (SOther text) = Store text"

fun is_fencing_loss :: "fs_error \<Rightarrow> bool" where
  "is_fencing_loss (Fenced _) = True"
| "is_fencing_loss _ = False"

fun detail :: "fs_error \<Rightarrow> string" where
  "detail (BadRequest d) = d"
| "detail (NotFound d) = d"
| "detail (Internal d) = d"
| "detail (Store d) = d"
| "detail (Fenced d) = d"
| "detail PayloadTooLarge = ''''"
| "detail Forbidden = ''''"
| "detail TooManyRequests = ''''"

text \<open>The \<open>Display\<close> text of the derive, which is for the log.\<close>

fun fs_display :: "fs_error \<Rightarrow> string" where
  "fs_display (BadRequest d) = d"
| "fs_display PayloadTooLarge = ''payload too large''"
| "fs_display Forbidden = ''forbidden''"
| "fs_display (NotFound d) = d"
| "fs_display (Internal _) = ''internal server error''"
| "fs_display (Store _) = ''internal server error''"
| "fs_display TooManyRequests = ''too many requests''"
| "fs_display (Fenced _) = ''internal server error''"

fun client_message :: "fs_error \<Rightarrow> string" where
  "client_message (BadRequest _) = ''bad request''"
| "client_message Forbidden = ''forbidden''"
| "client_message (NotFound _) = ''not found''"
| "client_message PayloadTooLarge = ''payload too large''"
| "client_message (Internal _) = ''internal server error''"
| "client_message (Store _) = ''internal server error''"
| "client_message (Fenced _) = ''internal server error''"
| "client_message TooManyRequests = ''too many requests''"

fun code :: "fs_error \<Rightarrow> string" where
  "code (BadRequest _) = ''invalid_request''"
| "code PayloadTooLarge = ''payload_too_large''"
| "code Forbidden = ''forbidden''"
| "code (NotFound _) = ''not_found''"
| "code (Internal _) = ''internal_error''"
| "code (Store _) = ''internal_error''"
| "code (Fenced _) = ''internal_error''"
| "code TooManyRequests = ''too_many_requests''"

fun status_code :: "fs_error \<Rightarrow> nat" where
  "status_code (BadRequest _) = 400"
| "status_code PayloadTooLarge = 413"
| "status_code Forbidden = 403"
| "status_code (NotFound _) = 404"
| "status_code (Internal _) = 500"
| "status_code (Store _) = 500"
| "status_code (Fenced _) = 500"
| "status_code TooManyRequests = 429"

text \<open>The envelope that reaches the client: the status, the message and the code.\<close>

definition error_response :: "fs_error \<Rightarrow> nat \<times> string \<times> string option" where
  "error_response e = (status_code e, client_message e, Some (code e))"

lemma is_fencing_loss_of_store [simp]: "is_fencing_loss (fs_of_store e) \<longleftrightarrow> (\<exists>r. e = SFenced r)"
  by (cases e) auto

lemma is_fencing_loss_iff: "is_fencing_loss e \<longleftrightarrow> (\<exists>r. e = Fenced r)"
  by (cases e) auto

text \<open>
  The response of a failure is a function of its status alone. No request input and no
  store detail, which the error values carry, can reach the client: two failures with the
  same status produce the same envelope.
\<close>

theorem error_response_sanitized:
  "error_response e = error_response e' \<longleftrightarrow> status_code e = status_code e'"
  by (cases e; cases e'; simp add: error_response_def)

end
