(* ===== verification/Records.thy ===== *)
theory Records
  imports Prelude
begin

text \<open>
  The vocabulary of the change feed, \<^verbatim>\<open>src/src/records.rs\<close>, and the contract of
  \<open>ChangeSink\<close>: what a producer may rely on after it announced an operation.
\<close>

record file_record =
  fr_id :: string
  fr_name :: string
  fr_mimetype :: string
  fr_size :: u64
  fr_s3_key :: string
  fr_owner_sub :: string
  fr_created_at :: i64

datatype wal_op =
    PolicyAdd string
  | PolicyRemove string
  | PolicyRuleAdd string string string
  | PolicyRuleRemove string string string
  | GroupAdd string string
  | GroupRemove string string
  | GroupDelete string
  | Attach string string string
  | Detach string string string
  | FileCreate file_record
  | FileDelete string

fun is_legacy_policy_mark :: "wal_op \<Rightarrow> bool" where
  "is_legacy_policy_mark (PolicyAdd _) = True"
| "is_legacy_policy_mark (PolicyRemove _) = True"
| "is_legacy_policy_mark _ = False"

record wal_entry =
  we_seq :: u64
  we_op :: wal_op
  we_ts :: i64

section \<open>The contract of a change sink\<close>

text \<open>
  \<open>ChangeSink::append\<close> returns only after the operation is durable, and appends are
  serialized. A failed append may or may not have landed: a producer learns nothing else.
  The abstraction \<open>feed\<close> is the sequence of operations a reader of the feed can obtain;
  \<open>capacity\<close> bounds its length (the sequence numbers are 64 bits wide). The first argument of
  \<open>append\<close> is the reading of the clock that the entry is stamped with.
\<close>

locale change_sink =
  fixes append :: "i64 \<Rightarrow> wal_op \<Rightarrow> ('f, string, unit) act"
    and feed :: "'f \<Rightarrow> wal_op list"
    and inv :: "'f \<Rightarrow> bool"
    and capacity :: nat
  assumes append_ok: "\<lbrakk>inv s; length (feed s) < capacity; append now op s = (Inr u, s')\<rbrakk>
      \<Longrightarrow> inv s' \<and> feed s' = feed s @ [op]"
    and append_err: "\<lbrakk>inv s; length (feed s) < capacity; append now op s = (Inl e, s')\<rbrakk>
      \<Longrightarrow> inv s' \<and> (feed s' = feed s \<or> feed s' = feed s @ [op])"
begin

lemma append_grows:
  assumes "inv s" and "length (feed s) < capacity" and "append now op s = (r, s')"
  shows "inv s' \<and> (feed s' = feed s \<or> feed s' = feed s @ [op])"
  using append_ok [OF assms(1,2), of now op] append_err [OF assms(1,2), of now op] assms(3)
  by (cases r) auto

text \<open>A retried announcement: after a failure and a success the operation is in the feed.\<close>

lemma append_retry:
  assumes "inv s" and "Suc (length (feed s)) < capacity"
    and "append now op s = (Inl e, s1)" and "append now' op s1 = (Inr u, s2)"
  shows "inv s2 \<and> (feed s2 = feed s @ [op] \<or> feed s2 = feed s @ [op, op])"
proof -
  from append_err [OF assms(1) _ assms(3)] assms(2)
  have s1: "inv s1" "feed s1 = feed s \<or> feed s1 = feed s @ [op]" by auto
  then have "length (feed s1) < capacity" using assms(2) by auto
  from append_ok [OF s1(1) this assms(4)] s1(2) show ?thesis by auto
qed

end

end
