(* ===== verification/Kv_Store.thy ===== *)
theory Kv_Store
  imports Fs_Error
begin

text \<open>
  The interface of the \<open>oxkv\<close> crate that the stores of this program are built on
  (\<open>GetSet\<close>, \<open>Store\<close> and \<open>Transaction\<close>). The crate is a dependency, so its operations are a
  parameter of every definition that uses them: a record of actions over the handle's state
  \<open>'s\<close>, with \<open>'t\<close> an open transaction and \<open>'v\<close> a stored byte string, which the program never
  looks into except through the codecs. What the program relies on is the locale
  \<open>kv_store\<close>; an in-memory store, fenced or not, satisfies it.
\<close>

record ('s, 't, 'v) kv_ops =
  kv_get :: "string \<Rightarrow> ('s, store_error, 'v option) act"
  kv_set :: "string \<Rightarrow> 'v \<Rightarrow> ('s, store_error, unit) act"
  kv_delete :: "string \<Rightarrow> ('s, store_error, unit) act"
  kv_gets :: "nat option \<Rightarrow> string option \<Rightarrow> string option \<Rightarrow>
      ('s, store_error, (string \<times> 'v) list) act"
  kv_begin :: "('s, store_error, 't) act"
  tx_get :: "'t \<Rightarrow> string \<Rightarrow> ('s, store_error, 'v option) act"
  tx_set :: "'t \<Rightarrow> string \<Rightarrow> 'v \<Rightarrow> ('s, store_error, 't) act"
  tx_delete :: "'t \<Rightarrow> string \<Rightarrow> ('s, store_error, 't) act"
  tx_gets :: "'t \<Rightarrow> nat option \<Rightarrow> string option \<Rightarrow> string option \<Rightarrow>
      ('s, store_error, (string \<times> 'v) list) act"
  tx_commit :: "'t \<Rightarrow> ('s, store_error, unit) act"
  tx_rollback :: "'t \<Rightarrow> ('s, store_error, unit) act"

text \<open>The staged writes of a transaction, seen through: \<open>Some None\<close> is a staged delete.\<close>

definition overlay :: "('k \<rightharpoonup> 'v) \<Rightarrow> ('k \<rightharpoonup> 'v option) \<Rightarrow> ('k \<rightharpoonup> 'v)" where
  "overlay m w = (\<lambda>k. case w k of None \<Rightarrow> m k | Some x \<Rightarrow> x)"

lemma overlay_empty [simp]: "overlay m Map.empty = m"
  by (simp add: overlay_def)

lemma overlay_upd [simp]: "overlay m (w(k \<mapsto> x)) = (overlay m w)(k := x)"
  by (auto simp: overlay_def fun_eq_iff)

text \<open>
  A scan lists entries of the store in key order. It is complete strictly below its upper
  bound and reads nothing outside the closed range; whether the bound itself is included is
  left open, because no use of it depends on that.
\<close>

definition in_range :: "string option \<Rightarrow> string option \<Rightarrow> string \<Rightarrow> bool" where
  "in_range lo hi k \<longleftrightarrow>
     (case lo of None \<Rightarrow> True | Some l \<Rightarrow> l \<le> k) \<and> (case hi of None \<Rightarrow> True | Some h \<Rightarrow> k \<le> h)"

definition below_range :: "string option \<Rightarrow> string option \<Rightarrow> string \<Rightarrow> bool" where
  "below_range lo hi k \<longleftrightarrow>
     (case lo of None \<Rightarrow> True | Some l \<Rightarrow> l \<le> k) \<and> (case hi of None \<Rightarrow> True | Some h \<Rightarrow> k < h)"

definition scan_of ::
  "(string \<rightharpoonup> 'v) \<Rightarrow> string option \<Rightarrow> string option \<Rightarrow> (string \<times> 'v) list \<Rightarrow> bool" where
  "scan_of m lo hi kvs \<longleftrightarrow>
     sorted (map fst kvs) \<and> distinct (map fst kvs) \<and>
     (\<forall>(k, v) \<in> set kvs. in_range lo hi k \<and> m k = Some v) \<and>
     (\<forall>k. below_range lo hi k \<longrightarrow> map_of kvs k = m k)"

definition limit_of :: "nat option \<Rightarrow> 'a list \<Rightarrow> 'a list" where
  "limit_of lim xs = (case lim of None \<Rightarrow> xs | Some n \<Rightarrow> take n xs)"

locale kv_store =
  fixes ops :: "('s, 't, 'v) kv_ops"
    and kvabs :: "'s \<Rightarrow> (string \<rightharpoonup> 'v)"
    and txov :: "'t \<Rightarrow> (string \<rightharpoonup> 'v option)"
  assumes get_keeps: "kv_get ops k s = (r, s') \<Longrightarrow> kvabs s' = kvabs s"
    and get_val: "kv_get ops k s = (Inr v, s') \<Longrightarrow> v = kvabs s k"
    and set_ok: "kv_set ops k x s = (Inr u, s') \<Longrightarrow> kvabs s' = (kvabs s)(k \<mapsto> x)"
    and set_err: "kv_set ops k x s = (Inl e, s') \<Longrightarrow>
        kvabs s' = kvabs s \<or> kvabs s' = (kvabs s)(k \<mapsto> x)"
    and delete_ok: "kv_delete ops k s = (Inr u, s') \<Longrightarrow> kvabs s' = (kvabs s)(k := None)"
    and delete_err: "kv_delete ops k s = (Inl e, s') \<Longrightarrow>
        kvabs s' = kvabs s \<or> kvabs s' = (kvabs s)(k := None)"
    and gets_keeps: "kv_gets ops lim lo hi s = (q, s') \<Longrightarrow> kvabs s' = kvabs s"
    and gets_val: "kv_gets ops lim lo hi s = (Inr kvs, s') \<Longrightarrow>
        \<exists>all. scan_of (kvabs s) lo hi all \<and> kvs = limit_of lim all"
    and begin_keeps: "kv_begin ops s = (b, s') \<Longrightarrow> kvabs s' = kvabs s"
    and begin_empty: "kv_begin ops s = (Inr t, s') \<Longrightarrow> txov t = Map.empty"
    and tget_keeps: "tx_get ops t k s = (r, s') \<Longrightarrow> kvabs s' = kvabs s"
    and tget_val: "tx_get ops t k s = (Inr v, s') \<Longrightarrow> v = overlay (kvabs s) (txov t) k"
    and tset_keeps: "tx_set ops t k x s = (b, s') \<Longrightarrow> kvabs s' = kvabs s"
    and tset_val: "tx_set ops t k x s = (Inr t', s') \<Longrightarrow> txov t' = (txov t)(k \<mapsto> Some x)"
    and tdelete_keeps: "tx_delete ops t k s = (b, s') \<Longrightarrow> kvabs s' = kvabs s"
    and tdelete_val: "tx_delete ops t k s = (Inr t', s') \<Longrightarrow> txov t' = (txov t)(k \<mapsto> None)"
    and tgets_keeps: "tx_gets ops t lim lo hi s = (q, s') \<Longrightarrow> kvabs s' = kvabs s"
    and tgets_val: "tx_gets ops t lim lo hi s = (Inr kvs, s') \<Longrightarrow>
        \<exists>all. scan_of (overlay (kvabs s) (txov t)) lo hi all \<and> kvs = limit_of lim all"
    and commit_ok: "tx_commit ops t s = (Inr u, s') \<Longrightarrow> kvabs s' = overlay (kvabs s) (txov t)"
    and commit_err: "tx_commit ops t s = (Inl e, s') \<Longrightarrow>
        kvabs s' = kvabs s \<or> kvabs s' = overlay (kvabs s) (txov t)"
    and rollback_keeps: "tx_rollback ops t s = (u', s') \<Longrightarrow> kvabs s' = kvabs s"
begin

lemmas reads_keep = get_keeps gets_keeps begin_keeps tget_keeps tset_keeps tdelete_keeps
  tgets_keeps rollback_keeps

text \<open>One rule per call of the interface: what may be assumed of each outcome.\<close>

lemma wp_get [wp_rules]:
  assumes "\<And>s'. kvabs s' = kvabs s \<Longrightarrow> Q (Inr (kvabs s k)) s'"
    and "\<And>e s'. kvabs s' = kvabs s \<Longrightarrow> Q (Inl e) s'"
  shows "wp (kv_get ops k) Q s"
proof (rule wpI)
  fix r s'
  assume "kv_get ops k s = (r, s')"
  then show "Q r s'" using assms get_val get_keeps by (cases r) blast+
qed

lemma wp_set [wp_rules]:
  assumes "\<And>s'. kvabs s' = (kvabs s)(k \<mapsto> x) \<Longrightarrow> Q (Inr ()) s'"
    and "\<And>e s'. kvabs s' = kvabs s \<or> kvabs s' = (kvabs s)(k \<mapsto> x) \<Longrightarrow> Q (Inl e) s'"
  shows "wp (kv_set ops k x) Q s"
proof (rule wpI)
  fix r s'
  assume run: "kv_set ops k x s = (r, s')"
  show "Q r s'"
  proof (cases r)
    case (Inl e)
    with run have "kv_set ops k x s = (Inl e, s')" by simp
    from assms(2) [OF set_err [OF this]] show ?thesis by (simp add: Inl)
  next
    case (Inr u)
    with run have "kv_set ops k x s = (Inr u, s')" by simp
    from assms(1) [OF set_ok [OF this]] show ?thesis by (simp add: Inr)
  qed
qed

lemma wp_delete [wp_rules]:
  assumes "\<And>s'. kvabs s' = (kvabs s)(k := None) \<Longrightarrow> Q (Inr ()) s'"
    and "\<And>e s'. kvabs s' = kvabs s \<or> kvabs s' = (kvabs s)(k := None) \<Longrightarrow> Q (Inl e) s'"
  shows "wp (kv_delete ops k) Q s"
proof (rule wpI)
  fix r s'
  assume run: "kv_delete ops k s = (r, s')"
  show "Q r s'"
  proof (cases r)
    case (Inl e)
    with run have "kv_delete ops k s = (Inl e, s')" by simp
    from assms(2) [OF delete_err [OF this]] show ?thesis by (simp add: Inl)
  next
    case (Inr u)
    with run have "kv_delete ops k s = (Inr u, s')" by simp
    from assms(1) [OF delete_ok [OF this]] show ?thesis by (simp add: Inr)
  qed
qed

lemma wp_gets [wp_rules]:
  assumes "\<And>all s'. kvabs s' = kvabs s \<Longrightarrow> scan_of (kvabs s) lo hi all \<Longrightarrow>
      Q (Inr (limit_of lim all)) s'"
    and "\<And>e s'. kvabs s' = kvabs s \<Longrightarrow> Q (Inl e) s'"
  shows "wp (kv_gets ops lim lo hi) Q s"
proof (rule wpI)
  fix r s'
  assume "kv_gets ops lim lo hi s = (r, s')"
  then show "Q r s'" using assms gets_val gets_keeps by (cases r) blast+
qed

lemma wp_begin [wp_rules]:
  assumes "\<And>t s'. kvabs s' = kvabs s \<Longrightarrow> txov t = Map.empty \<Longrightarrow> Q (Inr t) s'"
    and "\<And>e s'. kvabs s' = kvabs s \<Longrightarrow> Q (Inl e) s'"
  shows "wp (kv_begin ops) Q s"
proof (rule wpI)
  fix r s'
  assume "kv_begin ops s = (r, s')"
  then show "Q r s'" using assms begin_empty begin_keeps by (cases r) blast+
qed

lemma wp_tget [wp_rules]:
  assumes "\<And>s'. kvabs s' = kvabs s \<Longrightarrow> Q (Inr (overlay (kvabs s) (txov t) k)) s'"
    and "\<And>e s'. kvabs s' = kvabs s \<Longrightarrow> Q (Inl e) s'"
  shows "wp (tx_get ops t k) Q s"
proof (rule wpI)
  fix r s'
  assume "tx_get ops t k s = (r, s')"
  then show "Q r s'" using assms tget_val tget_keeps by (cases r) blast+
qed

lemma wp_tset [wp_rules]:
  assumes "\<And>t' s'. kvabs s' = kvabs s \<Longrightarrow> txov t' = (txov t)(k \<mapsto> Some x) \<Longrightarrow> Q (Inr t') s'"
    and "\<And>e s'. kvabs s' = kvabs s \<Longrightarrow> Q (Inl e) s'"
  shows "wp (tx_set ops t k x) Q s"
proof (rule wpI)
  fix r s'
  assume "tx_set ops t k x s = (r, s')"
  then show "Q r s'" using assms tset_val tset_keeps by (cases r) blast+
qed

lemma wp_tdelete [wp_rules]:
  assumes "\<And>t' s'. kvabs s' = kvabs s \<Longrightarrow> txov t' = (txov t)(k \<mapsto> None) \<Longrightarrow> Q (Inr t') s'"
    and "\<And>e s'. kvabs s' = kvabs s \<Longrightarrow> Q (Inl e) s'"
  shows "wp (tx_delete ops t k) Q s"
proof (rule wpI)
  fix r s'
  assume "tx_delete ops t k s = (r, s')"
  then show "Q r s'" using assms tdelete_val tdelete_keeps by (cases r) blast+
qed

lemma wp_tgets [wp_rules]:
  assumes "\<And>all s'. kvabs s' = kvabs s \<Longrightarrow> scan_of (overlay (kvabs s) (txov t)) lo hi all \<Longrightarrow>
      Q (Inr (limit_of lim all)) s'"
    and "\<And>e s'. kvabs s' = kvabs s \<Longrightarrow> Q (Inl e) s'"
  shows "wp (tx_gets ops t lim lo hi) Q s"
proof (rule wpI)
  fix r s'
  assume "tx_gets ops t lim lo hi s = (r, s')"
  then show "Q r s'" using assms tgets_val tgets_keeps by (cases r) blast+
qed

lemma wp_commit [wp_rules]:
  assumes "\<And>s'. kvabs s' = overlay (kvabs s) (txov t) \<Longrightarrow> Q (Inr ()) s'"
    and "\<And>e s'. kvabs s' = kvabs s \<or> kvabs s' = overlay (kvabs s) (txov t) \<Longrightarrow> Q (Inl e) s'"
  shows "wp (tx_commit ops t) Q s"
proof (rule wpI)
  fix r s'
  assume run: "tx_commit ops t s = (r, s')"
  show "Q r s'"
  proof (cases r)
    case (Inl e)
    with run have "tx_commit ops t s = (Inl e, s')" by simp
    from assms(2) [OF commit_err [OF this]] show ?thesis by (simp add: Inl)
  next
    case (Inr u)
    with run have "tx_commit ops t s = (Inr u, s')" by simp
    from assms(1) [OF commit_ok [OF this]] show ?thesis by (simp add: Inr)
  qed
qed

lemma wp_rollback [wp_rules]:
  assumes "\<And>r s'. kvabs s' = kvabs s \<Longrightarrow> Q r s'"
  shows "wp (tx_rollback ops t) Q s"
  by (rule wpI) (metis assms rollback_keeps)

end

text \<open>
  A store whose reads answer. The claims that a read returns a value, and not only that a
  returned value is right, are stated for such a store.
\<close>

locale kv_readable = kv_store +
  assumes get_total: "\<exists>v s'. kv_get ops k s = (Inr v, s')"
    and gets_total: "\<exists>kvs s'. kv_gets ops lim lo hi s = (Inr kvs, s')"

text \<open>The two error conversions the clients apply: a codec's message, a store's error.\<close>

definition internal_of :: "string + 'a \<Rightarrow> ('s, fs_error, 'a) act" where
  "internal_of r = (case r of Inl e \<Rightarrow> err_act (Internal e) | Inr x \<Rightarrow> ok_act x)"

definition store_act :: "('s, store_error, 'a) act \<Rightarrow> ('s, fs_error, 'a) act" where
  "store_act = map_err_act fs_of_store"

section \<open>An in-memory store\<close>

text \<open>
  The kind of store the tests of the crate run on: an association list, with the flag that
  another session took the prefix. A fenced store still reads; every write fails.
\<close>

record 'v mem_kv =
  mem_data :: "(string \<times> 'v) list"
  mem_fenced :: bool

definition mem_abs :: "'v mem_kv \<Rightarrow> (string \<rightharpoonup> 'v)" where
  "mem_abs s = map_of (mem_data s)"

definition mem_list :: "(string \<times> 'v) list \<Rightarrow> (string \<times> 'v) list" where
  "mem_list d = map (\<lambda>k. (k, the (map_of d k))) (sort (remdups (map fst d)))"

definition mem_gets ::
  "(string \<times> 'v) list \<Rightarrow> nat option \<Rightarrow> string option \<Rightarrow> string option \<Rightarrow> (string \<times> 'v) list" where
  "mem_gets d lim lo hi = limit_of lim (filter (\<lambda>(k, _). in_range lo hi k) (mem_list d))"

fun mem_apply :: "(string \<times> 'v option) list \<Rightarrow> (string \<times> 'v) list \<Rightarrow> (string \<times> 'v) list" where
  "mem_apply [] d = d"
| "mem_apply ((k, Some x) # ws) d = (k, x) # mem_apply ws d"
| "mem_apply ((k, None) # ws) d = filter (\<lambda>(j, _). j \<noteq> k) (mem_apply ws d)"

definition mem_write :: "(string \<times> 'v option) list \<Rightarrow> ('v mem_kv, store_error, unit) act" where
  "mem_write ws s =
     (if mem_fenced s then (Inl (SFenced ''epoch superseded''), s)
      else (Inr (), s\<lparr>mem_data := mem_apply ws (mem_data s)\<rparr>))"

definition mem_ops :: "('v mem_kv, (string \<times> 'v option) list, 'v) kv_ops" where
  "mem_ops = \<lparr>
     kv_get = (\<lambda>k s. (Inr (map_of (mem_data s) k), s)),
     kv_set = (\<lambda>k x. mem_write [(k, Some x)]),
     kv_delete = (\<lambda>k. mem_write [(k, None)]),
     kv_gets = (\<lambda>lim lo hi s. (Inr (mem_gets (mem_data s) lim lo hi), s)),
     kv_begin = (\<lambda>s. (Inr [], s)),
     tx_get = (\<lambda>t k s. (Inr (map_of (mem_apply t (mem_data s)) k), s)),
     tx_set = (\<lambda>t k x s. (Inr ((k, Some x) # t), s)),
     tx_delete = (\<lambda>t k s. (Inr ((k, None) # t), s)),
     tx_gets = (\<lambda>t lim lo hi s. (Inr (mem_gets (mem_apply t (mem_data s)) lim lo hi), s)),
     tx_commit = mem_write,
     tx_rollback = (\<lambda>t s. (Inr (), s)) \<rparr>"

lemma map_of_mem_apply: "map_of (mem_apply ws d) = overlay (map_of d) (map_of ws)"
  by (induction ws d rule: mem_apply.induct) (auto simp: map_of_filter_key overlay_def fun_eq_iff)

lemma map_of_key_list: "map_of (map (\<lambda>k. (k, f k)) ks) k = (if k \<in> set ks then Some (f k) else None)"
  by (induction ks) auto

lemma map_of_mem_list: "map_of (mem_list d) = map_of d"
proof
  fix k
  have "k \<in> fst ` set d \<Longrightarrow> \<exists>v. map_of d k = Some v"
    by (cases "map_of d k") (auto simp: map_of_eq_None_iff)
  moreover have "k \<notin> fst ` set d \<Longrightarrow> map_of d k = None"
    by (auto simp: map_of_eq_None_iff)
  ultimately show "map_of (mem_list d) k = map_of d k"
    unfolding mem_list_def map_of_key_list by auto
qed

lemma mem_list_keys: "sorted (map fst (mem_list d))" "distinct (map fst (mem_list d))"
  by (simp_all add: mem_list_def comp_def)

lemma mem_list_entry: "(k, v) \<in> set (mem_list d) \<Longrightarrow> map_of d k = Some v"
  using map_of_is_SomeI [OF mem_list_keys(2)] by (simp add: map_of_mem_list)

lemma below_in_range: "below_range lo hi k \<Longrightarrow> in_range lo hi k"
  by (auto simp: below_range_def in_range_def split: option.splits)

lemma map_of_filter_range:
  "distinct (map fst d) \<Longrightarrow>
   map_of (filter (\<lambda>(k, _). P k) d) k = (if P k then map_of d k else None)"
  by (induction d) (auto simp: map_of_eq_None_iff rev_image_eqI)

lemma mem_scan: "scan_of (map_of d) lo hi (filter (\<lambda>(k, _). in_range lo hi k) (mem_list d))"
  unfolding scan_of_def
proof (intro conjI allI impI)
  show "sorted (map fst (filter (\<lambda>(k, _). in_range lo hi k) (mem_list d)))"
    by (rule sorted_filter) (rule mem_list_keys(1))
  show "distinct (map fst (filter (\<lambda>(k, _). in_range lo hi k) (mem_list d)))"
    using mem_list_keys(2) by (rule distinct_map_filter)
  show "\<forall>(k, v) \<in> set (filter (\<lambda>(k, _). in_range lo hi k) (mem_list d)).
      in_range lo hi k \<and> map_of d k = Some v"
    by (auto dest: mem_list_entry)
  fix k
  assume "below_range lo hi k"
  then show "map_of (filter (\<lambda>(k, _). in_range lo hi k) (mem_list d)) k = map_of d k"
    by (subst map_of_filter_range [OF mem_list_keys(2)]) (simp add: below_in_range map_of_mem_list)
qed

lemma mem_write_eq:
  "mem_write ws s = (r, s') \<longleftrightarrow>
     (if mem_fenced s then r = Inl (SFenced ''epoch superseded'') \<and> s' = s
      else r = Inr () \<and> s' = s\<lparr>mem_data := mem_apply ws (mem_data s)\<rparr>)"
  by (auto simp: mem_write_def)

interpretation mem: kv_readable mem_ops mem_abs map_of
proof (unfold_locales, goal_cases)
  case (8 lim lo hi s kvs s')
  then show ?case using mem_scan by (force simp: mem_ops_def mem_abs_def mem_gets_def)
next
  case (18 t lim lo hi s kvs s')
  then show ?case
    using mem_scan [of "mem_apply t (mem_data s)"]
    by (force simp: mem_ops_def mem_abs_def mem_gets_def map_of_mem_apply)
qed (auto simp: mem_ops_def mem_abs_def mem_write_eq map_of_mem_apply map_of_filter_key
    split: if_splits)

end
