(* ===== verification/Wal.thy ===== *)
theory Wal
  imports Kv_Store Records Fencing
begin

text \<open>
  The durable change feed of \<^verbatim>\<open>src/src/sync/wal.rs\<close>: sequence-numbered entries and a head
  pointer in one key-value store, appended in one transaction, read back by range. The
  invariant is that the entries \<open>1..head\<close> are all present and carry their own number; the
  abstraction is the list of operations they hold.
\<close>

section \<open>The code\<close>

text \<open>\<open>serde_json\<close> on the head pointer and on an entry. A failure carries its message.\<close>

record 'v wal_codec =
  enc_seq :: "u64 \<Rightarrow> string + 'v"
  dec_seq :: "'v \<Rightarrow> string + u64"
  enc_entry :: "wal_entry \<Rightarrow> string + 'v"
  dec_entry :: "'v \<Rightarrow> string + wal_entry"

record 's wal =
  wal_store :: 's
  wal_latch :: latch

definition wal_prefix :: string where
  "wal_prefix = ''{db}/wal''"

definition seq_key :: string where
  "seq_key = ''wal:seq''"

definition entry_key :: "u64 \<Rightarrow> string" where
  "entry_key seq = ''wal:'' @ pad_decimal 20 (unat seq)"

text \<open>
  \<open>append_entry_locked\<close>. The increment of the head is \<open>u64\<close> addition; \<open>now\<close> is the reading
  of the clock.
\<close>

definition append_entry_locked ::
  "('s, 't, 'v) kv_ops \<Rightarrow> 'v wal_codec \<Rightarrow> i64 \<Rightarrow> wal_op \<Rightarrow> ('s, fs_error, u64) act" where
  "append_entry_locked ops cod now op =
     bind_act (store_act (kv_get ops seq_key)) (\<lambda>head.
     bind_act (case head of
         None \<Rightarrow> ok_act 0
       | Some b \<Rightarrow> (case dec_seq cod b of
           Inl e \<Rightarrow> err_act (Internal (''wal head pointer is undecodable: '' @ e))
         | Inr n \<Rightarrow> ok_act n)) (\<lambda>cur.
     let seq = cur + 1; entry = \<lparr>we_seq = seq, we_op = op, we_ts = now\<rparr> in
     bind_act (internal_of (enc_entry cod entry)) (\<lambda>val.
     bind_act (internal_of (enc_seq cod seq)) (\<lambda>seq_val.
     bind_act (store_act (kv_begin ops)) (\<lambda>tx.
     bind_act (store_act (tx_set ops tx (entry_key seq) val)) (\<lambda>tx.
     bind_act (store_act (tx_set ops tx seq_key seq_val)) (\<lambda>tx.
     bind_act (store_act (tx_commit ops tx)) (\<lambda>_.
     ok_act seq))))))))"

definition append_entry ::
  "('s, 't, 'v) kv_ops \<Rightarrow> 'v wal_codec \<Rightarrow> i64 \<Rightarrow> wal_op \<Rightarrow> ('s wal, fs_error, u64) act" where
  "append_entry ops cod now op w =
     (case append_entry_locked ops cod now op (wal_store w) of
        (Inl e, s) \<Rightarrow>
          (Inl e, w\<lparr>wal_store := s,
                    wal_latch := (if is_fencing_loss e
                                  then trip wal_prefix (detail e) (wal_latch w)
                                  else wal_latch w)\<rparr>)
      | (Inr seq, s) \<Rightarrow> (Inr seq, w\<lparr>wal_store := s\<rparr>))"

text \<open>\<open>ChangeSink::append\<close>: the number is dropped, the error becomes its display text.\<close>

definition wal_append ::
  "('s, 't, 'v) kv_ops \<Rightarrow> 'v wal_codec \<Rightarrow> i64 \<Rightarrow> wal_op \<Rightarrow> ('s wal, string, unit) act" where
  "wal_append ops cod now op =
     map_err_act fs_display (bind_act (append_entry ops cod now op) (\<lambda>_. ok_act ()))"

definition wal_head :: "('s, 't, 'v) kv_ops \<Rightarrow> 'v wal_codec \<Rightarrow> ('s, fs_error, u64) act" where
  "wal_head ops cod =
     bind_act (store_act (kv_get ops seq_key)) (\<lambda>head.
       case head of None \<Rightarrow> ok_act 0 | Some b \<Rightarrow> internal_of (dec_seq cod b))"

text \<open>
  \<open>Wal::range\<close>: the loop \<open>for seq in from..=to\<close>, and its body. The bounds of the loop are
  read as numbers, so it also covers the greatest sequence number.
\<close>

definition range_seqs :: "u64 \<Rightarrow> u64 \<Rightarrow> u64 list" where
  "range_seqs from to = map of_nat [unat from ..< Suc (unat to)]"

definition range_body ::
  "('s, 't, 'v) kv_ops \<Rightarrow> 'v wal_codec \<Rightarrow> u64 \<Rightarrow> wal_entry list \<Rightarrow> ('s, fs_error, wal_entry list) act"
where
  "range_body ops cod seq out =
     bind_act (store_act (kv_get ops (entry_key seq))) (\<lambda>b.
       case b of
         None \<Rightarrow> err_act (Store (''wal entry '' @ decimal (unat seq) @ '' missing''))
       | Some b \<Rightarrow>
           (case dec_entry cod b of
              Inl e \<Rightarrow> err_act (Internal (''wal entry '' @ decimal (unat seq) @ '' undecodable: '' @ e))
            | Inr entry \<Rightarrow>
                if we_seq entry \<noteq> seq
                then err_act (Internal (''wal entry '' @ decimal (unat seq) @ '' holds sequence '' @
                       decimal (unat (we_seq entry))))
                else ok_act (out @ [entry])))"

definition wal_range ::
  "('s, 't, 'v) kv_ops \<Rightarrow> 'v wal_codec \<Rightarrow> u64 \<Rightarrow> u64 \<Rightarrow> ('s, fs_error, wal_entry list) act" where
  "wal_range ops cod from to =
     (if from > to
      then err_act (Store (''wal range '' @ decimal (unat from) @ ''..='' @ decimal (unat to) @
             '' runs backwards: the head cannot be behind a reader that has applied '' @
             decimal (unat from)))
      else for_act (range_seqs from to) (range_body ops cod) [])"

section \<open>The feed a store holds\<close>

definition stored_head :: "'v wal_codec \<Rightarrow> (string \<rightharpoonup> 'v) \<Rightarrow> u64 option" where
  "stored_head cod m =
     (case m seq_key of
        None \<Rightarrow> Some 0
      | Some b \<Rightarrow> (case dec_seq cod b of Inl _ \<Rightarrow> None | Inr n \<Rightarrow> Some n))"

definition stored_entry :: "'v wal_codec \<Rightarrow> (string \<rightharpoonup> 'v) \<Rightarrow> u64 \<Rightarrow> wal_entry option" where
  "stored_entry cod m seq =
     (case m (entry_key seq) of
        None \<Rightarrow> None
      | Some b \<Rightarrow> (case dec_entry cod b of
          Inl _ \<Rightarrow> None
        | Inr e \<Rightarrow> if we_seq e = seq then Some e else None))"

definition wal_inv :: "'v wal_codec \<Rightarrow> (string \<rightharpoonup> 'v) \<Rightarrow> bool" where
  "wal_inv cod m \<longleftrightarrow>
     (case stored_head cod m of
        None \<Rightarrow> False
      | Some h \<Rightarrow> (\<forall>i \<in> set (range_seqs 1 h). stored_entry cod m i \<noteq> None))"

definition stored_entries :: "'v wal_codec \<Rightarrow> (string \<rightharpoonup> 'v) \<Rightarrow> wal_entry list" where
  "stored_entries cod m =
     map (\<lambda>i. the (stored_entry cod m i)) (range_seqs 1 (the (stored_head cod m)))"

definition stored_feed :: "'v wal_codec \<Rightarrow> (string \<rightharpoonup> 'v) \<Rightarrow> wal_op list" where
  "stored_feed cod m = map we_op (stored_entries cod m)"

text \<open>The greatest length of a feed whose next append still has a number.\<close>

definition wal_capacity :: nat where
  "wal_capacity = 2 ^ 64 - 1"

section \<open>Keys and ranges\<close>

lemma entry_key_inj [simp]: "entry_key a = entry_key b \<longleftrightarrow> a = b"
  by (simp add: entry_key_def pad_decimal_inj word_unat_eq_iff)

lemma entry_key_not_seq [simp]: "entry_key a \<noteq> seq_key" "seq_key \<noteq> entry_key a"
proof -
  have "CHR ''s'' \<notin> set (pad_decimal 20 (unat a))"
    using pad_decimal_digits [of "CHR ''s''" 20 "unat a"] by auto
  then have "pad_decimal 20 (unat a) \<noteq> ''seq''" by auto
  then show "entry_key a \<noteq> seq_key" by (simp add: entry_key_def seq_key_def)
  then show "seq_key \<noteq> entry_key a" by simp
qed

lemma length_range_seqs: "length (range_seqs 1 h) = unat h"
  by (simp add: range_seqs_def)

lemma range_seqs_Suc:
  assumes "unat h < wal_capacity"
  shows "range_seqs 1 (h + 1) = range_seqs 1 h @ [h + 1]"
proof -
  have u: "unat (h + 1) = Suc (unat h)"
    using assms by (simp add: wal_capacity_def unat_word_ariths)
  have "of_nat (Suc (unat h)) = h + 1"
    by (simp add: add.commute)
  then show ?thesis by (simp add: range_seqs_def u del: of_nat_Suc)
qed

lemma set_range_seqs: "i \<in> set (range_seqs 1 h) \<longleftrightarrow> 1 \<le> i \<and> i \<le> h"
proof
  assume "i \<in> set (range_seqs 1 h)"
  then obtain n where n: "i = of_nat n" "1 \<le> n" "n \<le> unat h"
    by (auto simp: range_seqs_def simp del: upt_Suc)
  have "unat h < 2 ^ 64" using unsigned_less [of h] by simp
  then have "unat i = n"
    using n by (simp add: unat_of_nat)
  then show "1 \<le> i \<and> i \<le> h" using n by (simp add: word_le_nat_alt)
next
  assume "1 \<le> i \<and> i \<le> h"
  then have "unat i \<in> set [unat (1 :: u64) ..< Suc (unat h)]"
    by (simp add: word_le_nat_alt del: upt_Suc)
  then have "of_nat (unat i) \<in> set (range_seqs 1 h)"
    unfolding range_seqs_def set_map by (rule imageI)
  then show "i \<in> set (range_seqs 1 h)" by simp
qed

lemma stored_entry_upd_other [simp]:
  "stored_entry cod (m(seq_key \<mapsto> x)) i = stored_entry cod m i"
  "i \<noteq> j \<Longrightarrow> stored_entry cod (m(entry_key j \<mapsto> x)) i = stored_entry cod m i"
  by (simp_all add: stored_entry_def)

lemma stored_entry_upd_same:
  "dec_entry cod x = Inr e \<Longrightarrow> we_seq e = j \<Longrightarrow> stored_entry cod (m(entry_key j \<mapsto> x)) j = Some e"
  by (simp add: stored_entry_def)

lemma stored_head_upd_entry [simp]: "stored_head cod (m(entry_key j \<mapsto> x)) = stored_head cod m"
  by (simp add: stored_head_def)

text \<open>What a committed append does to the feed: one operation more, nothing else changed.\<close>

lemma feed_extend:
  assumes inv: "wal_inv cod m" and h: "stored_head cod m = Some h" and room: "unat h < wal_capacity"
    and e: "dec_entry cod x = Inr e" "we_seq e = h + 1" and y: "dec_seq cod y = Inr (h + 1)"
  defines "m' \<equiv> m(entry_key (h + 1) \<mapsto> x, seq_key \<mapsto> y)"
  shows "wal_inv cod m'" and "stored_entries cod m' = stored_entries cod m @ [e]"
proof -
  have head': "stored_head cod m' = Some (h + 1)"
    using y by (simp add: m'_def stored_head_def)
  have last: "stored_entry cod m' (h + 1) = Some e"
    using e by (simp add: m'_def stored_entry_upd_same)
  have old: "stored_entry cod m' i = stored_entry cod m i" if "i \<in> set (range_seqs 1 h)" for i
  proof -
    have "i \<noteq> h + 1"
      using that room by (auto simp: set_range_seqs word_le_nat_alt unat_word_ariths wal_capacity_def)
    then show ?thesis by (simp add: m'_def)
  qed
  have "\<forall>i \<in> set (range_seqs 1 h). stored_entry cod m i \<noteq> None"
    using inv h by (simp add: wal_inv_def)
  then show "wal_inv cod m'"
    using room by (auto simp: wal_inv_def head' range_seqs_Suc old last)
  show "stored_entries cod m' = stored_entries cod m @ [e]"
    using room by (simp add: stored_entries_def head' h range_seqs_Suc old last)
qed

section \<open>The feed over any store that keeps its contract\<close>

locale wal_over = kv_store ops kvabs txov
  for ops :: "('s, 't, 'v) kv_ops" and kvabs :: "'s \<Rightarrow> (string \<rightharpoonup> 'v)" and txov +
  fixes cod :: "'v wal_codec"
  assumes seq_codec: "enc_seq cod n = Inr b \<Longrightarrow> dec_seq cod b = Inr n"
    and entry_codec: "enc_entry cod e = Inr b \<Longrightarrow> dec_entry cod b = Inr e"
begin

abbreviation feed_of :: "'s wal \<Rightarrow> wal_op list" where
  "feed_of w \<equiv> stored_feed cod (kvabs (wal_store w))"

abbreviation inv_of :: "'s wal \<Rightarrow> bool" where
  "inv_of w \<equiv> wal_inv cod (kvabs (wal_store w))"

lemma append_locked_cases:
  assumes h: "stored_head cod (kvabs s) = Some h"
  shows "wp (append_entry_locked ops cod now op) (\<lambda>r s'.
     (\<exists>x y. enc_entry cod \<lparr>we_seq = h + 1, we_op = op, we_ts = now\<rparr> = Inr x \<and>
        enc_seq cod (h + 1) = Inr y \<and>
        kvabs s' = (kvabs s)(entry_key (h + 1) \<mapsto> x, seq_key \<mapsto> y) \<and>
        (\<forall>q. r = Inr q \<longrightarrow> q = h + 1)) \<or>
     (\<exists>e. r = Inl e) \<and> kvabs s' = kvabs s) s"
  using h unfolding append_entry_locked_def store_act_def internal_of_def stored_head_def
  by (auto simp: Let_def intro!: wp_rules split: option.splits sum.splits)

lemma append_entry_spec:
  assumes inv: "inv_of w" and room: "length (feed_of w) < wal_capacity"
  shows "wp (append_entry ops cod now op) (\<lambda>r w'. inv_of w' \<and>
     (case r of Inr q \<Rightarrow> feed_of w' = feed_of w @ [op] \<and> unat q = length (feed_of w')
      | Inl e \<Rightarrow> feed_of w' = feed_of w \<or> feed_of w' = feed_of w @ [op])) w"
proof (rule wpI)
  fix r w'
  assume run: "append_entry ops cod now op w = (r, w')"
  obtain q s where lock: "append_entry_locked ops cod now op (wal_store w) = (q, s)"
    by (cases "append_entry_locked ops cod now op (wal_store w)")
  with run have rq: "r = q" and ws: "wal_store w' = s"
    by (auto simp: append_entry_def split: sum.splits)
  from inv obtain h where h: "stored_head cod (kvabs (wal_store w)) = Some h"
    by (auto simp: wal_inv_def split: option.splits)
  have len: "length (feed_of w) = unat h"
    by (simp add: stored_feed_def stored_entries_def h length_range_seqs)
  from wpD [OF append_locked_cases [OF h] lock]
  show "inv_of w' \<and>
     (case r of Inr q \<Rightarrow> feed_of w' = feed_of w @ [op] \<and> unat q = length (feed_of w')
      | Inl e \<Rightarrow> feed_of w' = feed_of w \<or> feed_of w' = feed_of w @ [op])"
  proof (elim disjE exE conjE)
    fix x y
    assume x: "enc_entry cod \<lparr>we_seq = h + 1, we_op = op, we_ts = now\<rparr> = Inr x"
      and y: "enc_seq cod (h + 1) = Inr y"
      and abs: "kvabs s = (kvabs (wal_store w))(entry_key (h + 1) \<mapsto> x, seq_key \<mapsto> y)"
      and q: "\<forall>n. q = Inr n \<longrightarrow> n = h + 1"
    have hc: "unat h < wal_capacity" using room len by simp
    note ext = feed_extend [OF inv h hc entry_codec [OF x] _ seq_codec [OF y], simplified, folded abs]
    have "unat (h + 1) = Suc (unat h)"
      using hc by (simp add: wal_capacity_def unat_word_ariths)
    then show ?thesis
      using ext q len by (auto simp: rq ws stored_feed_def split: sum.splits)
  next
    fix e
    assume "q = Inl e" and "kvabs s = kvabs (wal_store w)"
    then show ?thesis using inv by (simp add: rq ws)
  qed
qed

lemma append_undecodable_head:
  assumes "kvabs s seq_key = Some b" and "dec_seq cod b = Inl e"
  shows "wp (append_entry_locked ops cod now op) (\<lambda>r s'. (\<exists>e'. r = Inl e') \<and> kvabs s' = kvabs s) s"
  using assms unfolding append_entry_locked_def store_act_def
  by (auto intro!: wp_rules)

text \<open>Whatever the store holds, a range that is returned has exactly the numbers asked for.\<close>

lemma range_body_spec:
  "wp (range_body ops cod seq out) (\<lambda>r s'. kvabs s' = kvabs s \<and>
     (\<forall>out'. r = Inr out' \<longrightarrow> (\<exists>e. out' = out @ [e] \<and> stored_entry cod (kvabs s) seq = Some e))) s"
  unfolding range_body_def store_act_def
  by (simp, rule wp_get) (auto simp: stored_entry_def split: option.split sum.split)

lemma range_loop_spec:
  "wp (for_act is (range_body ops cod) out) (\<lambda>r s'. kvabs s' = kvabs s \<and>
     (\<forall>es. r = Inr es \<longrightarrow> map Some es = map Some out @ map (stored_entry cod (kvabs s)) is)) s"
proof (induction "is" arbitrary: out s)
  case Nil
  then show ?case by simp
next
  case (Cons seq "is")
  show ?case
    by (simp, rule wp_mono [OF range_body_spec])
       (auto split: sum.splits intro!: wp_mono [OF Cons.IH])
qed

end

lemma stored_entry_seq: "stored_entry cod m i = Some e \<Longrightarrow> we_seq e = i"
  by (auto simp: stored_entry_def split: option.splits sum.splits if_splits)

sublocale wal_over \<subseteq> sink: change_sink "wal_append ops cod"
  "\<lambda>w. stored_feed cod (kvabs (wal_store w))" "\<lambda>w. wal_inv cod (kvabs (wal_store w))" wal_capacity
proof (unfold_locales, goal_cases)
  case (1 s now op u s')
  then obtain q where "append_entry ops cod now op s = (Inr q, s')"
    by (auto simp: wal_append_def map_err_act_eq elim: bind_act_okE)
  from wpD [OF append_entry_spec [OF 1(1,2)] this] show ?case by simp
next
  case (2 s now op e s')
  then obtain e' where "append_entry ops cod now op s = (Inl e', s')"
    by (auto simp: wal_append_def map_err_act_eq bind_act_eq)
  from wpD [OF append_entry_spec [OF 2(1,2)] this] show ?case by simp
qed

locale wal_readable = wal_over ops kvabs txov cod + kv_readable ops kvabs txov
  for ops :: "('s, 't, 'v) kv_ops" and kvabs :: "'s \<Rightarrow> (string \<rightharpoonup> 'v)" and txov and cod
begin

lemma range_body_run:
  assumes "stored_entry cod (kvabs s) seq = Some e"
  shows "\<exists>s'. range_body ops cod seq out s = (Inr (out @ [e]), s') \<and> kvabs s' = kvabs s"
proof -
  obtain v s' where g: "kv_get ops (entry_key seq) s = (Inr v, s')" using get_total by blast
  have v: "v = kvabs s (entry_key seq)" and s': "kvabs s' = kvabs s"
    using get_val [OF g] get_keeps [OF g] by auto
  have "range_body ops cod seq out s = (Inr (out @ [e]), s')"
    using assms g
    by (auto simp: range_body_def store_act_def bind_act_def map_err_act_def stored_entry_def ok_act_def
        simp flip: v split: option.splits sum.splits if_splits)
  then show ?thesis using s' by blast
qed

lemma range_loop_run:
  assumes "\<forall>i \<in> set is. stored_entry cod (kvabs s) i \<noteq> None"
  shows "\<exists>s'. for_act is (range_body ops cod) out s =
      (Inr (out @ map (\<lambda>i. the (stored_entry cod (kvabs s) i)) is), s') \<and> kvabs s' = kvabs s"
  using assms
proof (induction "is" arbitrary: out s)
  case Nil
  then show ?case by (simp add: ok_act_def)
next
  case (Cons seq "is")
  then obtain e where e: "stored_entry cod (kvabs s) seq = Some e" by auto
  obtain s1 where b: "range_body ops cod seq out s = (Inr (out @ [e]), s1)" "kvabs s1 = kvabs s"
    using range_body_run [OF e] by blast
  then show ?case
    using Cons.IH [of s1 "out @ [e]"] Cons.prems by (auto simp: bind_act_def e)
qed

end

lemma range_seqs_slice:
  assumes "1 \<le> from" and "from \<le> to" and "to \<le> h"
  shows "range_seqs from to = take (unat to - unat from + 1) (drop (unat from - 1) (range_seqs 1 h))"
proof -
  have "1 \<le> unat from" "unat from \<le> unat to" "unat to \<le> unat h"
    using assms by (simp_all add: word_le_nat_alt)
  then have "take (unat to - unat from + 1) (drop (unat from - 1) [1 ..< Suc (unat h)])
      = [unat from ..< Suc (unat to)]"
    by (simp add: drop_upt take_upt del: upt_Suc)
  then show ?thesis by (simp add: range_seqs_def take_map drop_map del: upt_Suc)
qed

section \<open>A tagged codec\<close>

text \<open>
  A codec that keeps each value under its own tag, with a tag for bytes that are neither. It
  satisfies the round trips the feed relies on, so the feed can be run on the in-memory store.
\<close>

datatype wal_val = VSeq u64 | VEntry wal_entry | VRaw string

fun tag_dec_seq :: "wal_val \<Rightarrow> string + u64" where
  "tag_dec_seq (VSeq n) = Inr n"
| "tag_dec_seq _ = Inl ''invalid type''"

fun tag_dec_entry :: "wal_val \<Rightarrow> string + wal_entry" where
  "tag_dec_entry (VEntry e) = Inr e"
| "tag_dec_entry _ = Inl ''invalid type''"

definition tag_codec :: "wal_val wal_codec" where
  "tag_codec = \<lparr>enc_seq = (\<lambda>n. Inr (VSeq n)), dec_seq = tag_dec_seq,
                enc_entry = (\<lambda>e. Inr (VEntry e)), dec_entry = tag_dec_entry\<rparr>"

interpretation memwal: wal_readable mem_ops mem_abs map_of tag_codec
  by unfold_locales (auto simp: tag_codec_def)

definition empty_wal :: "wal_val mem_kv wal" where
  "empty_wal = \<lparr>wal_store = \<lparr>mem_data = [], mem_fenced = False\<rparr>, wal_latch = latch_new\<rparr>"

definition two_entry_kv :: "wal_val mem_kv" where
  "two_entry_kv =
     wal_store (snd (append_entry mem_ops tag_codec 11 (GroupDelete ''h'')
       (snd (append_entry mem_ops tag_codec 10 (GroupDelete ''g'') empty_wal))))"

lemmas wal_run_defs = append_entry_def append_entry_locked_def store_act_def internal_of_def
  mem_ops_def mem_write_def tag_codec_def empty_wal_def Let_def act_defs

lemma two_entry_kv_data:
  "two_entry_kv = \<lparr>mem_data =
     [(seq_key, VSeq 2), (entry_key 2, VEntry \<lparr>we_seq = 2, we_op = GroupDelete ''h'', we_ts = 11\<rparr>),
      (seq_key, VSeq 1), (entry_key 1, VEntry \<lparr>we_seq = 1, we_op = GroupDelete ''g'', we_ts = 10\<rparr>)],
     mem_fenced = False\<rparr>"
  by (simp add: two_entry_kv_def wal_run_defs)

lemma range_seqs_12: "range_seqs 1 2 = [1, 2]"
  by (simp add: range_seqs_def upt_rec)

lemma two_entry_kv_state:
  "stored_head tag_codec (mem_abs two_entry_kv) = Some 2"
  "wal_inv tag_codec (mem_abs two_entry_kv)"
  "stored_feed tag_codec (mem_abs two_entry_kv) = [GroupDelete ''g'', GroupDelete ''h'']"
proof -
  show h: "stored_head tag_codec (mem_abs two_entry_kv) = Some 2"
    by (simp add: two_entry_kv_data stored_head_def mem_abs_def tag_codec_def)
  show "wal_inv tag_codec (mem_abs two_entry_kv)"
    by (simp add: wal_inv_def h range_seqs_12)
       (simp add: two_entry_kv_data stored_entry_def mem_abs_def tag_codec_def)
  show "stored_feed tag_codec (mem_abs two_entry_kv) = [GroupDelete ''g'', GroupDelete ''h'']"
    by (simp add: stored_feed_def stored_entries_def h range_seqs_12)
       (simp add: two_entry_kv_data stored_entry_def mem_abs_def tag_codec_def)
qed

section \<open>Properties\<close>

text \<open>
  C8: an append of the durable feed refines appending to the abstract list of operations. In
  a store that keeps its contract, from a state with entries \<open>1..head\<close> intact, a successful
  append returns the next sequence number and adds exactly that operation; a failed append
  leaves the entries intact and either adds exactly that operation or nothing.
\<close>

theorem wal_append_refines_feed:
  assumes "wal_over ops kvabs txov cod"
    and "wal_inv cod (kvabs (wal_store w))"
    and "length (stored_feed cod (kvabs (wal_store w))) < wal_capacity"
    and "append_entry ops cod now op w = (r, w')"
  shows "wal_inv cod (kvabs (wal_store w')) \<and>
    (case r of
       Inr q \<Rightarrow> stored_feed cod (kvabs (wal_store w')) = stored_feed cod (kvabs (wal_store w)) @ [op] \<and>
                unat q = length (stored_feed cod (kvabs (wal_store w')))
     | Inl e \<Rightarrow> stored_feed cod (kvabs (wal_store w')) = stored_feed cod (kvabs (wal_store w)) \<or>
                stored_feed cod (kvabs (wal_store w')) = stored_feed cod (kvabs (wal_store w)) @ [op])"
  using wpD [OF wal_over.append_entry_spec [OF assms(1-3)] assms(4)] by simp

theorem wal_append_refines_feed_witness:
  "(let w = \<lparr>wal_store = two_entry_kv, wal_latch = latch_new\<rparr>;
        (r, w') = append_entry mem_ops tag_codec 12 (FileDelete ''f'') w
    in r = Inr 3 \<and> stored_feed tag_codec (mem_abs (wal_store w')) =
         [GroupDelete ''g'', GroupDelete ''h'', FileDelete ''f''])"
proof -
  let ?w = "\<lparr>wal_store = two_entry_kv, wal_latch = latch_new\<rparr>"
  obtain w' where run: "append_entry mem_ops tag_codec 12 (FileDelete ''f'') ?w = (Inr 3, w')"
    by (simp add: wal_run_defs two_entry_kv_data)
  have "wal_over mem_ops mem_abs map_of tag_codec" by unfold_locales
  from wal_append_refines_feed [OF this _ _ run]
  show ?thesis by (simp add: run two_entry_kv_state wal_capacity_def)
qed

text \<open>
  On an intact feed whose store answers reads, \<open>range from to\<close> returns, for every
  \<open>1 \<le> from \<le> to \<le> head\<close>, exactly the entries with those positions of the feed, in order.
\<close>

theorem wal_range_roundtrip:
  assumes "wal_readable ops kvabs txov cod"
    and "wal_inv cod (kvabs s)" and "stored_head cod (kvabs s) = Some h"
    and "1 \<le> from" and "from \<le> to" and "to \<le> h"
  shows "\<exists>s'. wal_range ops cod from to s =
      (Inr (take (unat to - unat from + 1) (drop (unat from - 1) (stored_entries cod (kvabs s)))), s')"
proof -
  have all: "\<forall>i \<in> set (range_seqs 1 h). stored_entry cod (kvabs s) i \<noteq> None"
    using assms(2,3) by (simp add: wal_inv_def)
  have "set (range_seqs from to) \<subseteq> set (range_seqs 1 h)"
    by (simp add: range_seqs_slice [OF assms(4-6)] set_take_subset set_drop_subset subset_trans
        [OF set_take_subset])
  then have "\<forall>i \<in> set (range_seqs from to). stored_entry cod (kvabs s) i \<noteq> None" using all by blast
  from wal_readable.range_loop_run [OF assms(1) this, of "[]"]
  show ?thesis
    using assms(5)
    by (auto simp: wal_range_def stored_entries_def assms(3) range_seqs_slice [OF assms(4-6)]
        take_map drop_map not_less)
qed

theorem wal_range_roundtrip_witness:
  "\<exists>s'. wal_range mem_ops tag_codec 1 2 two_entry_kv =
     (Inr (take (Suc (Suc 0)) (stored_entries tag_codec (mem_abs two_entry_kv))), s')"
  using wal_range_roundtrip
    [OF memwal.wal_readable_axioms two_entry_kv_state(2,1), of 1 2] by simp

text \<open>
  Whatever the store holds, a range is never returned with a gap, a duplicate or an entry
  under a wrong number: the sequence numbers of a returned range are exactly \<open>from..to\<close>, and
  a backwards range is an error.
\<close>

theorem wal_range_no_gap:
  assumes "wal_over ops kvabs txov cod" and "wal_range ops cod from to s = (Inr es, s')"
  shows "from \<le> to \<and> map we_seq es = range_seqs from to"
proof -
  have le: "from \<le> to" and run: "for_act (range_seqs from to) (range_body ops cod) [] s = (Inr es, s')"
    using assms(2) by (auto simp: wal_range_def not_less split: if_splits)
  from wpD [OF wal_over.range_loop_spec [OF assms(1)] run]
  have eq: "map Some es = map (stored_entry cod (kvabs s)) (range_seqs from to)" by simp
  have "map we_seq es = map (\<lambda>x. we_seq (the x)) (map Some es)" by simp
  also have "\<dots> = map (\<lambda>i. we_seq (the (stored_entry cod (kvabs s) i))) (range_seqs from to)"
    by (simp add: eq)
  also have "\<dots> = map (\<lambda>i. i) (range_seqs from to)"
  proof (rule map_cong [OF refl])
    fix i assume "i \<in> set (range_seqs from to)"
    then have "stored_entry cod (kvabs s) i \<in> set (map Some es)" by (simp add: eq)
    then obtain e where "stored_entry cod (kvabs s) i = Some e" by auto
    then show "we_seq (the (stored_entry cod (kvabs s) i)) = i" by (simp add: stored_entry_seq)
  qed
  finally show ?thesis using le by simp
qed

theorem wal_range_no_gap_witness:
  "\<exists>es s'. wal_range mem_ops tag_codec 1 2 two_entry_kv = (Inr es, s') \<and> map we_seq es = [1, 2]"
proof -
  obtain es s' where run: "wal_range mem_ops tag_codec 1 2 two_entry_kv = (Inr es, s')"
    by (simp add: wal_range_def range_seqs_12 range_body_def wal_run_defs two_entry_kv_data)
  have "wal_over mem_ops mem_abs map_of tag_codec" by unfold_locales
  from wal_range_no_gap [OF this run] run show ?thesis by (auto simp: range_seqs_12)
qed

text \<open>
  A head pointer that does not decode refuses the append and leaves every key of the
  store as it was; it is never read as an empty feed, so no sequence number is used twice.
\<close>

theorem wal_corrupt_head_refused:
  assumes "wal_over ops kvabs txov cod"
    and "kvabs (wal_store w) seq_key = Some b" and "dec_seq cod b = Inl msg"
    and "append_entry ops cod now op w = (r, w')"
  shows "(\<exists>e. r = Inl e) \<and> kvabs (wal_store w') = kvabs (wal_store w)"
proof -
  obtain q s where lock: "append_entry_locked ops cod now op (wal_store w) = (q, s)"
    by (cases "append_entry_locked ops cod now op (wal_store w)")
  with assms(4) have "r = q" and "wal_store w' = s"
    by (auto simp: append_entry_def split: sum.splits)
  then show ?thesis
    using wpD [OF wal_over.append_undecodable_head [OF assms(1-3)] lock] by simp
qed


theorem wal_corrupt_head_refused_witness:
  "(let w = \<lparr>wal_store = \<lparr>mem_data = [(seq_key, VRaw ''junk'')], mem_fenced = False\<rparr>,
              wal_latch = latch_new\<rparr>;
        (r, w') = append_entry mem_ops tag_codec 12 (FileDelete ''f'') w
    in (\<exists>e. r = Inl e) \<and> mem_abs (wal_store w') = mem_abs (wal_store w))"
proof -
  let ?w = "\<lparr>wal_store = \<lparr>mem_data = [(seq_key, VRaw ''junk'')], mem_fenced = False\<rparr>,
              wal_latch = latch_new\<rparr>"
  obtain r w' where run: "append_entry mem_ops tag_codec 12 (FileDelete ''f'') ?w = (r, w')"
    by (cases "append_entry mem_ops tag_codec 12 (FileDelete ''f'') ?w")
  have "wal_over mem_ops mem_abs map_of tag_codec" by unfold_locales
  from wal_corrupt_head_refused [OF this _ _ run, of "VRaw ''junk''" "''invalid type''"]
  have "(\<exists>e. r = Inl e) \<and> mem_abs (wal_store w') = mem_abs (wal_store ?w)"
    by (simp add: mem_abs_def) (simp add: tag_codec_def)
  then show ?thesis by (simp add: run)
qed

text \<open>
  The feed reports a lost epoch to the latch, and only that. After an append the latch is
  tripped exactly if it was before or the append failed because the store was fenced; every
  other failure leaves the instance in rotation.
\<close>

theorem wal_latch_iff_fenced:
  assumes "append_entry ops cod now op w = (r, w')"
  shows "is_tripped (wal_latch w') \<longleftrightarrow> is_tripped (wal_latch w) \<or> (\<exists>reason. r = Inl (Fenced reason))"
  using assms by (auto simp: append_entry_def is_tripped_def is_fencing_loss_iff split: prod.splits sum.splits if_splits)

theorem wal_latch_iff_fenced_witness:
  "(let w = \<lparr>wal_store = \<lparr>mem_data = [], mem_fenced = True\<rparr>, wal_latch = latch_new\<rparr>;
        (r, w') = append_entry mem_ops tag_codec 12 (FileDelete ''f'') w
    in r = Inl (Fenced ''epoch superseded'') \<and> is_tripped (wal_latch w'))"
proof -
  let ?w = "\<lparr>wal_store = \<lparr>mem_data = [], mem_fenced = True\<rparr>, wal_latch = latch_new\<rparr>"
  obtain w' where run: "append_entry mem_ops tag_codec 12 (FileDelete ''f'') ?w =
      (Inl (Fenced ''epoch superseded''), w')"
    by (simp add: wal_run_defs)
  from wal_latch_iff_fenced [OF run] show ?thesis by (simp add: run)
qed

end
