(* ===== verification/Lease.thy ===== *)
theory Lease
  imports Prelude
begin

text \<open>
  The single-writer lease of \<^verbatim>\<open>src/src/lease.rs\<close>: one object in the bucket that names the
  writer of a prefix, claimed by a conditional create, taken over by a compare-and-set when
  stale, renewed by a timer and deleted at a clean shutdown. The object store is a dependency
  and enters as a record of operations over the bucket's state, which all processes share.
\<close>

section \<open>The object store interface\<close>

datatype os_error = OsNotFound string | OsPrecondition string | OsOther string

datatype 'ver put_mode = PutCreate | PutOverwrite | PutUpdate 'ver

text \<open>
  \<open>os_get\<close> answers with the version of the object and the outcome of reading its body;
  \<open>os_path\<close> is the normalisation of \<open>ObjectPath::from\<close>.
\<close>

record ('o, 'v, 'ver) os_ops =
  os_get :: "string \<Rightarrow> ('o, os_error, 'ver \<times> (os_error + 'v)) act"
  os_put :: "string \<Rightarrow> 'v \<Rightarrow> 'ver put_mode \<Rightarrow> ('o, os_error, unit) act"
  os_delete :: "string \<Rightarrow> ('o, os_error, unit) act"
  os_path :: "string \<Rightarrow> string"

section \<open>The code\<close>

record lease_record =
  lr_instance :: string
  lr_claimed_at :: i64
  lr_renewed_at :: i64
  lr_ttl_secs :: u64
  lr_pid :: u32

record 'v lease_codec =
  enc_lease :: "lease_record \<Rightarrow> string + 'v"
  dec_lease :: "'v \<Rightarrow> string + lease_record"

definition is_live_at :: "lease_record \<Rightarrow> i64 \<Rightarrow> bool" where
  "is_live_at r now =
     (case checked_sub_i64 now (lr_renewed_at r) of
        Some age \<Rightarrow> (case u64_try_from age of None \<Rightarrow> False | Some a \<Rightarrow> a < lr_ttl_secs r)
      | None \<Rightarrow> True)"

datatype lease_error =
    Held (held_prefix: string) (held_instance: string) (held_pid: u32) (held_age: i64)
      (held_ttl: u64) (held_wait: i64)
  | Corrupt string string
  | LeaseIo string os_error

definition lease_key :: string where
  "lease_key = ''_rust-api-writer-lease.json''"

definition lease_path :: "('o, 'v, 'ver) os_ops \<Rightarrow> string \<Rightarrow> string" where
  "lease_path ops p = os_path ops (if p = [] then lease_key else p @ ''/'' @ lease_key)"

text \<open>\<open>trim_matches('/')\<close>.\<close>

definition trim_slashes :: "string \<Rightarrow> string" where
  "trim_slashes s = rev (dropWhile (\<lambda>c. c = CHR ''/'') (rev (dropWhile (\<lambda>c. c = CHR ''/'') s)))"

definition held_error :: "string \<Rightarrow> lease_record \<Rightarrow> i64 \<Rightarrow> lease_error" where
  "held_error pfx r age =
     (let wait = (case u64_try_from age of
                    None \<Rightarrow> 0
                  | Some a \<Rightarrow> (case checked_sub_u64 (lr_ttl_secs r) a of None \<Rightarrow> 0 | Some w \<Rightarrow> w))
      in Held pfx (lr_instance r) (lr_pid r) age (lr_ttl_secs r)
           (case i64_try_from wait of None \<Rightarrow> i64_max | Some w \<Rightarrow> w))"

definition fetch :: "('o, 'v, 'ver) os_ops \<Rightarrow> 'v lease_codec \<Rightarrow> string \<Rightarrow> string \<Rightarrow>
    ('o, lease_error, (lease_record \<times> 'ver) option) act" where
  "fetch ops cod path pfx =
     bind_act (try_act (os_get ops path)) (\<lambda>out.
       case out of
         Inl (OsNotFound _) \<Rightarrow> ok_act None
       | Inl source \<Rightarrow> err_act (LeaseIo pfx source)
       | Inr (version, body) \<Rightarrow>
           (case body of
              Inl source \<Rightarrow> err_act (LeaseIo pfx source)
            | Inr bytes \<Rightarrow>
                (case dec_lease cod bytes of
                   Inl e \<Rightarrow> err_act (Corrupt pfx e)
                 | Inr r \<Rightarrow> ok_act (Some (r, version)))))"

definition write_record :: "('o, 'v, 'ver) os_ops \<Rightarrow> 'v lease_codec \<Rightarrow> string \<Rightarrow> lease_record \<Rightarrow>
    'ver put_mode \<Rightarrow> ('o, os_error, unit) act" where
  "write_record ops cod path r mode =
     (case enc_lease cod r of
        Inl e \<Rightarrow> err_act (OsOther e)
      | Inr bytes \<Rightarrow> os_put ops path bytes mode)"

record writer_lease =
  wl_path :: string
  wl_record :: lease_record
  wl_lost :: bool

text \<open>What one start brings to \<open>acquire\<close>: its arguments, its clock, its identity.\<close>

record claim =
  cl_db_prefix :: string
  cl_ttl :: u64
  cl_now :: i64
  cl_instance :: string
  cl_pid :: u32

definition claim_record :: "claim \<Rightarrow> lease_record" where
  "claim_record c = \<lparr>lr_instance = cl_instance c, lr_claimed_at = cl_now c, lr_renewed_at = cl_now c,
     lr_ttl_secs = cl_ttl c, lr_pid = cl_pid c\<rparr>"

definition claim_path :: "('o, 'v, 'ver) os_ops \<Rightarrow> claim \<Rightarrow> string" where
  "claim_path ops c = lease_path ops (trim_slashes (cl_db_prefix c))"

definition new_lease :: "string \<Rightarrow> lease_record \<Rightarrow> writer_lease" where
  "new_lease path r = \<lparr>wl_path = path, wl_record = r, wl_lost = False\<rparr>"

definition acquire :: "('o, 'v, 'ver) os_ops \<Rightarrow> 'v lease_codec \<Rightarrow> claim \<Rightarrow>
    ('o, lease_error, writer_lease) act" where
  "acquire ops cod c =
     (let pfx = trim_slashes (cl_db_prefix c); path = claim_path ops c; r = claim_record c;
          now = cl_now c in
      bind_act (try_act (write_record ops cod path r PutCreate)) (\<lambda>created.
      case created of
        Inr _ \<Rightarrow> ok_act (new_lease path r)
      | Inl _ \<Rightarrow>
          bind_act (fetch ops cod path pfx) (\<lambda>found.
          bind_act (some_act (LeaseIo pfx (OsNotFound path)) found) (\<lambda>(held, version).
          if is_live_at held now
          then err_act (held_error pfx held (wrap_i64 (now - lr_renewed_at held)))
          else
            bind_act (try_act (write_record ops cod path r (PutUpdate version))) (\<lambda>taken.
            case taken of
              Inr _ \<Rightarrow> ok_act (new_lease path r)
            | Inl (OsPrecondition _) \<Rightarrow>
                bind_act (fetch ops cod path pfx) (\<lambda>found.
                bind_act (some_act (LeaseIo pfx (OsNotFound path)) found) (\<lambda>(winner, _).
                err_act (held_error pfx winner 0)))
            | Inl other \<Rightarrow> err_act (LeaseIo pfx other))))))"

text \<open>\<open>renew\<close> and \<open>release\<close>; \<open>now\<close> is the clock at the write of the renewal.\<close>

definition renew :: "('o, 'v, 'ver) os_ops \<Rightarrow> 'v lease_codec \<Rightarrow> i64 \<Rightarrow> writer_lease \<Rightarrow> 'o \<Rightarrow>
    bool \<times> writer_lease \<times> 'o" where
  "renew ops cod now l s =
     (if wl_lost l then (False, l, s)
      else
        let (found, s1) = fetch ops cod (wl_path l) '''' s;
            lost = l\<lparr>wl_lost := True\<rparr>;
            write = (\<lambda>_ :: unit.
              let l' = l\<lparr>wl_record := (wl_record l)\<lparr>lr_renewed_at := now\<rparr>\<rparr>;
                  (w, s2) = write_record ops cod (wl_path l) (wl_record l') PutOverwrite s1
              in (case w of Inl _ \<Rightarrow> (False, l'\<lparr>wl_lost := True\<rparr>, s2) | Inr _ \<Rightarrow> (True, l', s2)))
        in (case found of
              Inl _ \<Rightarrow> (False, lost, s1)
            | Inr None \<Rightarrow> write ()
            | Inr (Some (cur, _)) \<Rightarrow>
                if lr_instance cur \<noteq> lr_instance (wl_record l) then (False, lost, s1) else write ()))"

definition release :: "('o, 'v, 'ver) os_ops \<Rightarrow> 'v lease_codec \<Rightarrow> writer_lease \<Rightarrow> 'o \<Rightarrow> 'o" where
  "release ops cod l s =
     (let (found, s1) = fetch ops cod (wl_path l) '''' s in
      (case found of
         Inl _ \<Rightarrow> s1
       | Inr None \<Rightarrow> snd (os_delete ops (wl_path l) s1)
       | Inr (Some (cur, _)) \<Rightarrow>
           if lr_instance cur \<noteq> lr_instance (wl_record l) then s1
           else snd (os_delete ops (wl_path l) s1)))"

text \<open>
  The renewal task. Between two ticks the other processes of the bucket move, so a tick comes
  with what they did since the last one; \<open>shutdown\<close> is what they did before the guard was released.
\<close>

fun renew_ticks :: "('o, 'v, 'ver) os_ops \<Rightarrow> 'v lease_codec \<Rightarrow> (('o \<Rightarrow> 'o) \<times> i64) list \<Rightarrow> writer_lease \<Rightarrow> 'o \<Rightarrow>
    writer_lease \<times> 'o" where
  "renew_ticks ops cod [] l s = (l, s)"
| "renew_ticks ops cod ((env, now) # ticks) l s =
     (case renew ops cod now l (env s) of (_, l', s') \<Rightarrow> renew_ticks ops cod ticks l' s')"

definition spawn_renewer :: "('o, 'v, 'ver) os_ops \<Rightarrow> 'v lease_codec \<Rightarrow> (('o \<Rightarrow> 'o) \<times> i64) list \<Rightarrow>
    ('o \<Rightarrow> 'o) \<Rightarrow> writer_lease \<Rightarrow> 'o \<Rightarrow> writer_lease \<times> 'o" where
  "spawn_renewer ops cod ticks shutdown l s =
     (case renew_ticks ops cod ticks l s of (l', s') \<Rightarrow> (l', release ops cod l' (shutdown s')))"

section \<open>The claim, one store call at a time\<close>

text \<open>
  Several processes run \<open>acquire\<close> against one bucket. The program point of one of them is the
  next store call it makes; every step makes exactly one.
\<close>

datatype 'ver acq_pc =
    AtCreate
  | AtRead
  | AtTakeover lease_record 'ver
  | AtWinner
  | Finished "lease_error + writer_lease"

definition after_read :: "claim \<Rightarrow> string \<Rightarrow> lease_error + (lease_record \<times> 'ver) option \<Rightarrow> 'ver acq_pc" where
  "after_read c path found =
     (let pfx = trim_slashes (cl_db_prefix c) in
      case found of
        Inl e \<Rightarrow> Finished (Inl e)
      | Inr None \<Rightarrow> Finished (Inl (LeaseIo pfx (OsNotFound path)))
      | Inr (Some (held, version)) \<Rightarrow>
          if is_live_at held (cl_now c)
          then Finished (Inl (held_error pfx held (wrap_i64 (cl_now c - lr_renewed_at held))))
          else AtTakeover held version)"

fun acquire_step :: "('o, 'v, 'ver) os_ops \<Rightarrow> 'v lease_codec \<Rightarrow> claim \<Rightarrow> 'ver acq_pc \<Rightarrow> 'o \<Rightarrow>
    'ver acq_pc \<times> 'o" where
  "acquire_step ops cod c AtCreate s =
     (let path = claim_path ops c;
          (w, s1) = write_record ops cod path (claim_record c) PutCreate s in
      (case w of Inr _ \<Rightarrow> Finished (Inr (new_lease path (claim_record c))) | Inl _ \<Rightarrow> AtRead, s1))"
| "acquire_step ops cod c AtRead s =
     (let path = claim_path ops c;
          (f, s1) = fetch ops cod path (trim_slashes (cl_db_prefix c)) s in
      (after_read c path f, s1))"
| "acquire_step ops cod c (AtTakeover held version) s =
     (let path = claim_path ops c;
          (w, s1) = write_record ops cod path (claim_record c) (PutUpdate version) s in
      (case w of
         Inr _ \<Rightarrow> Finished (Inr (new_lease path (claim_record c)))
       | Inl (OsPrecondition _) \<Rightarrow> AtWinner
       | Inl other \<Rightarrow> Finished (Inl (LeaseIo (trim_slashes (cl_db_prefix c)) other)), s1))"
| "acquire_step ops cod c AtWinner s =
     (let path = claim_path ops c; pfx = trim_slashes (cl_db_prefix c);
          (f, s1) = fetch ops cod path pfx s in
      (case f of
         Inl e \<Rightarrow> Finished (Inl e)
       | Inr None \<Rightarrow> Finished (Inl (LeaseIo pfx (OsNotFound path)))
       | Inr (Some (winner, _)) \<Rightarrow> Finished (Inl (held_error pfx winner 0)), s1))"
| "acquire_step ops cod c (Finished r) s = (Finished r, s)"

fun acquire_run :: "nat \<Rightarrow> ('o, 'v, 'ver) os_ops \<Rightarrow> 'v lease_codec \<Rightarrow> claim \<Rightarrow> 'ver acq_pc \<Rightarrow> 'o \<Rightarrow>
    'ver acq_pc \<times> 'o" where
  "acquire_run 0 ops cod c pc s = (pc, s)"
| "acquire_run (Suc n) ops cod c pc s =
     (case acquire_step ops cod c pc s of (pc', s') \<Rightarrow> acquire_run n ops cod c pc' s')"

text \<open>Any number of starts, numbered, over one bucket; which one moves is not determined.\<close>

record ('o, 'ver) contention =
  pcs :: "nat \<Rightarrow> 'ver acq_pc"
  bucket :: 'o

inductive contend :: "('o, 'v, 'ver) os_ops \<Rightarrow> 'v lease_codec \<Rightarrow> (nat \<Rightarrow> claim) \<Rightarrow>
    ('o, 'ver) contention \<Rightarrow> ('o, 'ver) contention \<Rightarrow> bool"
  for ops cod cl where
  move: "acquire_step ops cod (cl i) (pcs st i) (bucket st) = (pc', s') \<Longrightarrow>
     contend ops cod cl st (st\<lparr>pcs := (pcs st)(i := pc'), bucket := s'\<rparr>)"

inductive contended :: "('o, 'v, 'ver) os_ops \<Rightarrow> 'v lease_codec \<Rightarrow> (nat \<Rightarrow> claim) \<Rightarrow> 'o \<Rightarrow>
    ('o, 'ver) contention \<Rightarrow> bool"
  for ops cod cl s0 where
  start: "contended ops cod cl s0 \<lparr>pcs = (\<lambda>_. AtCreate), bucket = s0\<rparr>"
| step: "contended ops cod cl s0 st \<Longrightarrow> contend ops cod cl st st' \<Longrightarrow> contended ops cod cl s0 st'"

inductive_cases contendE: "contend ops cod cl st st'"

definition claimed :: "('o, 'ver) contention \<Rightarrow> nat \<Rightarrow> bool" where
  "claimed st i \<longleftrightarrow> (case pcs st i of Finished (Inr _) \<Rightarrow> True | _ \<Rightarrow> False)"

section \<open>What a start decides\<close>

text \<open>
  The specification, as the comments have it: a lease is live until its time to live has passed since the last renewal, also
  on a clock that is behind it. It is a function of the lease object that is found, absent, not decodable, or a record, over
  whole numbers; the age and the wait of a refusal are those of the message.
\<close>

definition lease_live :: "lease_record \<Rightarrow> i64 \<Rightarrow> bool" where
  "lease_live r now \<longleftrightarrow> now < lr_renewed_at r + uint (lr_ttl_secs r) \<or> now < lr_renewed_at r"

definition acquire_spec :: "string \<Rightarrow> claim \<Rightarrow> (string + lease_record) option \<Rightarrow> lease_error + writer_lease" where
  "acquire_spec path c found =
     (let pfx = trim_slashes (cl_db_prefix c); won = \<lparr>wl_path = path, wl_record = claim_record c, wl_lost = False\<rparr> in
      case found of
        None \<Rightarrow> Inr won
      | Some (Inl e) \<Rightarrow> Inl (Corrupt pfx e)
      | Some (Inr held) \<Rightarrow>
          let age = cl_now c - lr_renewed_at held in
          if lease_live held (cl_now c)
          then Inl (Held pfx (lr_instance held) (lr_pid held) age (lr_ttl_secs held) (min i64_max (uint (lr_ttl_secs held) - age)))
          else Inr won)"

text \<open>A record that was renewed after the reading of the clock of the start.\<close>

definition renewed_after :: "claim \<Rightarrow> (string + lease_record) option \<Rightarrow> bool" where
  "renewed_after c found \<longleftrightarrow> (\<exists>held. found = Some (Inr held) \<and> cl_now c < lr_renewed_at held)"

text \<open>The decision of the code, with its own test of liveness.\<close>

definition acquire_decision :: "string \<Rightarrow> claim \<Rightarrow> (string + lease_record) option \<Rightarrow> lease_error + writer_lease" where
  "acquire_decision path c found =
     (let pfx = trim_slashes (cl_db_prefix c) in
      case found of
        None \<Rightarrow> Inr (new_lease path (claim_record c))
      | Some (Inl e) \<Rightarrow> Inl (Corrupt pfx e)
      | Some (Inr held) \<Rightarrow>
          if is_live_at held (cl_now c)
          then Inl (held_error pfx held (wrap_i64 (cl_now c - lr_renewed_at held)))
          else Inr (new_lease path (claim_record c)))"

section \<open>What the object store promises\<close>

fun admits :: "'ver put_mode \<Rightarrow> ('v \<times> 'ver) option \<Rightarrow> bool" where
  "admits PutCreate obj = (obj = None)"
| "admits PutOverwrite obj = True"
| "admits (PutUpdate ver) obj = (case obj of None \<Rightarrow> False | Some (_, ver') \<Rightarrow> ver = ver')"

text \<open>
  A version identifies content. A write lands only where its mode admits it; one that
  answers \<open>Ok\<close> has landed, one that answers \<open>Precondition\<close> has not, and any other failure
  leaves it open. Reads change nothing.
\<close>

locale bucket_store =
  fixes ops :: "('o, 'v, 'ver) os_ops"
    and osabs :: "'o \<Rightarrow> (string \<rightharpoonup> 'v \<times> 'ver)"
    and vcontent :: "'ver \<Rightarrow> 'v"
  assumes version_content: "osabs s p = Some (v, ver) \<Longrightarrow> vcontent ver = v"
    and oget_keeps: "os_get ops p s = (g, s') \<Longrightarrow> osabs s' = osabs s"
    and oget_val: "os_get ops p s = (Inr (ver, Inr v), s') \<Longrightarrow> osabs s p = Some (v, ver)"
    and oget_none: "os_get ops p s = (Inl (OsNotFound x), s') \<Longrightarrow> osabs s p = None"
    and put_cases: "os_put ops p v mode s = (r, s') \<Longrightarrow>
        osabs s' = osabs s \<and> (\<exists>e. r = Inl e) \<or>
        admits mode (osabs s p) \<and> (\<exists>ver. osabs s' = (osabs s)(p \<mapsto> (v, ver))) \<and>
        (\<forall>x. r \<noteq> Inl (OsPrecondition x))"
    and odelete_cases: "os_delete ops p s = (r, s') \<Longrightarrow>
        osabs s' = osabs s \<and> (\<exists>e. r = Inl e) \<or> osabs s' = (osabs s)(p := None)"

locale lease_over = bucket_store ops osabs vcontent
  for ops :: "('o, 'v, 'ver) os_ops" and osabs and vcontent +
  fixes cod :: "'v lease_codec"
  assumes lease_codec: "enc_lease cod r = Inr b \<Longrightarrow> dec_lease cod b = Inr r"
begin

lemma wp_fetch [wp_rules]:
  assumes "\<And>s'. osabs s' = osabs s \<Longrightarrow> osabs s p = None \<Longrightarrow> Q (Inr None) s'"
    and "\<And>v ver r s'. osabs s' = osabs s \<Longrightarrow> osabs s p = Some (v, ver) \<Longrightarrow> dec_lease cod v = Inr r \<Longrightarrow>
        Q (Inr (Some (r, ver))) s'"
    and "\<And>e s'. osabs s' = osabs s \<Longrightarrow> Q (Inl e) s'"
  shows "wp (fetch ops cod p pfx) Q s"
proof (rule wpI)
  fix r s'
  assume run: "fetch ops cod p pfx s = (r, s')"
  obtain g s1 where g: "os_get ops p s = (g, s1)" by (cases "os_get ops p s")
  have k: "osabs s1 = osabs s" by (rule oget_keeps [OF g])
  show "Q r s'"
  proof (cases g)
    case (Inl e)
    then show ?thesis
      using run g k oget_none [of p s _ s1] assms(1,3) [of s1]
      by (cases e) (auto simp: fetch_def act_defs)
  next
    case (Inr vb)
    obtain ver body where vb: "vb = (ver, body)" by (cases vb)
    show ?thesis
    proof (cases body)
      case (Inl e)
      then show ?thesis using run g k Inr vb assms(3) [of s1] by (auto simp: fetch_def act_defs)
    next
      case b: (Inr v)
      have "osabs s p = Some (v, ver)" using oget_val g Inr vb b by simp
      then show ?thesis
        using run g k Inr vb b assms(2) [of s1 v ver] assms(3) [of s1]
        by (auto simp: fetch_def act_defs split: sum.splits)
    qed
  qed
qed

lemma write_record_cases:
  assumes "write_record ops cod p r mode s = (q, s')"
  shows "osabs s' = osabs s \<and> (\<exists>e. q = Inl e) \<or>
     admits mode (osabs s p) \<and>
     (\<exists>b ver. enc_lease cod r = Inr b \<and> osabs s' = (osabs s)(p \<mapsto> (b, ver))) \<and>
     (\<forall>x. q \<noteq> Inl (OsPrecondition x))"
  using assms put_cases by (fastforce simp: write_record_def split: sum.splits)

text \<open>The claimers of one prefix, each of whose fresh records is live for every other.\<close>

definition excl_inv :: "string \<Rightarrow> (nat \<Rightarrow> claim) \<Rightarrow> ('o, 'ver) contention \<Rightarrow> bool" where
  "excl_inv p cl st \<longleftrightarrow>
     (\<forall>i held ver. pcs st i = AtTakeover held ver \<longrightarrow>
        dec_lease cod (vcontent ver) = Inr held \<and> \<not> is_live_at held (cl_now (cl i))) \<and>
     (\<forall>i. claimed st i \<longrightarrow>
        (\<exists>b ver. enc_lease cod (claim_record (cl i)) = Inr b \<and> osabs (bucket st) p = Some (b, ver)))"

lemma no_claim_if_admitted:
  assumes inv: "excl_inv p cl st"
    and live: "\<And>i j. is_live_at (claim_record (cl i)) (cl_now (cl j))"
    and adm: "admits mode (osabs (bucket st) p)"
    and mode: "mode = PutCreate \<or> (\<exists>held ver. mode = PutUpdate ver \<and> pcs st j = AtTakeover held ver)"
  shows "\<not> claimed st i"
proof
  assume "claimed st i"
  then obtain b ver where b: "enc_lease cod (claim_record (cl i)) = Inr b"
    and obj: "osabs (bucket st) p = Some (b, ver)"
    using inv unfolding excl_inv_def by blast
  from mode adm obj obtain held where pc: "pcs st j = AtTakeover held ver"
    by (auto split: option.splits)
  then have "dec_lease cod b = Inr held" and "\<not> is_live_at held (cl_now (cl j))"
    using inv version_content [OF obj] unfolding excl_inv_def by auto
  then show False using lease_codec [OF b] live by auto
qed

lemma excl_inv_write:
  assumes inv: "excl_inv p cl st"
    and live: "\<And>i j. is_live_at (claim_record (cl i)) (cl_now (cl j))"
    and mode: "mode = PutCreate \<or> (\<exists>held ver. mode = PutUpdate ver \<and> pcs st j = AtTakeover held ver)"
    and w: "write_record ops cod p (claim_record (cl j)) mode (bucket st) = (q, s')"
    and pc: "\<And>held ver. pc \<noteq> AtTakeover held ver"
      "(\<exists>l. pc = Finished (Inr l)) \<longleftrightarrow> (\<exists>u. q = Inr u)"
  shows "excl_inv p cl (st\<lparr>pcs := (pcs st)(j := pc), bucket := s'\<rparr>)"
proof -
  let ?st = "st\<lparr>pcs := (pcs st)(j := pc), bucket := s'\<rparr>"
  have other: "claimed ?st i \<Longrightarrow> i \<noteq> j \<Longrightarrow> claimed st i" for i
    by (simp add: claimed_def)
  have own: "claimed ?st j \<Longrightarrow> \<exists>u. q = Inr u"
    using pc(2) by (auto simp: claimed_def split: acq_pc.splits sum.splits)
  from write_record_cases [OF w] show ?thesis
  proof
    assume same: "osabs s' = osabs (bucket st) \<and> (\<exists>e. q = Inl e)"
    then have "claimed ?st i \<Longrightarrow> claimed st i" for i using other own by (cases "i = j") auto
    then show ?thesis using inv pc(1) same by (auto simp: excl_inv_def)
  next
    assume landed: "admits mode (osabs (bucket st) p) \<and>
       (\<exists>b ver. enc_lease cod (claim_record (cl j)) = Inr b \<and>
          osabs s' = (osabs (bucket st))(p \<mapsto> (b, ver))) \<and> (\<forall>x. q \<noteq> Inl (OsPrecondition x))"
    then have "\<not> claimed st i" for i using no_claim_if_admitted [OF inv live _ mode] by blast
    then have only: "claimed ?st i \<Longrightarrow> i = j" for i using other by blast
    then show ?thesis using inv pc(1) landed by (auto simp: excl_inv_def dest!: only)
  qed
qed

lemma excl_inv_read:
  assumes inv: "excl_inv p cl st"
    and s': "osabs s' = osabs (bucket st)"
    and pc: "\<And>l. pc \<noteq> Finished (Inr l)"
      "\<And>held ver. pc = AtTakeover held ver \<Longrightarrow>
         dec_lease cod (vcontent ver) = Inr held \<and> \<not> is_live_at held (cl_now (cl j))"
  shows "excl_inv p cl (st\<lparr>pcs := (pcs st)(j := pc), bucket := s'\<rparr>)"
proof -
  have "claimed (st\<lparr>pcs := (pcs st)(j := pc), bucket := s'\<rparr>) i \<Longrightarrow> i \<noteq> j \<and> claimed st i" for i
    using pc(1) by (cases "i = j") (auto simp: claimed_def split: acq_pc.splits sum.splits)
  then show ?thesis using inv s' pc(2) by (auto simp: excl_inv_def)
qed

lemma read_pc:
  assumes f: "fetch ops cod p pfx s = (f, s')"
  shows "osabs s' = osabs s \<and>
    (\<forall>held ver. f = Inr (Some (held, ver)) \<longrightarrow> dec_lease cod (vcontent ver) = Inr held)"
proof -
  have "wp (fetch ops cod p pfx) (\<lambda>f s'. osabs s' = osabs s \<and>
      (\<forall>held ver. f = Inr (Some (held, ver)) \<longrightarrow> dec_lease cod (vcontent ver) = Inr held)) s"
    by (rule wp_fetch) (auto dest: version_content)
  from wpD [OF this f] show ?thesis .
qed

lemma excl_inv_step:
  assumes inv: "excl_inv p cl st"
    and live: "\<And>i j. is_live_at (claim_record (cl i)) (cl_now (cl j))"
    and path: "\<And>i. claim_path ops (cl i) = p"
    and st': "contend ops cod cl st st'"
  shows "excl_inv p cl st'"
proof -
  from st' obtain j pc s' where st'_def: "st' = st\<lparr>pcs := (pcs st)(j := pc), bucket := s'\<rparr>"
    and run: "acquire_step ops cod (cl j) (pcs st j) (bucket st) = (pc, s')"
    by (elim contendE) blast
  show ?thesis
  proof (cases "pcs st j")
    case AtCreate
    then obtain q where w: "write_record ops cod p (claim_record (cl j)) PutCreate (bucket st) = (q, s')"
      and pc: "pc = (case q of Inr _ \<Rightarrow> Finished (Inr (new_lease p (claim_record (cl j)))) | Inl _ \<Rightarrow> AtRead)"
      using run by (auto simp: path Let_def split: prod.splits)
    show ?thesis unfolding st'_def
      by (rule excl_inv_write [OF inv live _ w]) (auto simp: pc split: sum.splits)
  next
    case AtRead
    then obtain f where f: "fetch ops cod p (trim_slashes (cl_db_prefix (cl j))) (bucket st) = (f, s')"
      and pc: "pc = after_read (cl j) p f"
      using run by (auto simp: path Let_def split: prod.splits)
    show ?thesis unfolding st'_def
      by (rule excl_inv_read [OF inv]; insert read_pc [OF f])
         (auto simp: pc after_read_def Let_def split: sum.splits option.splits if_splits)
  next
    case (AtTakeover held ver)
    then obtain q where w: "write_record ops cod p (claim_record (cl j)) (PutUpdate ver) (bucket st) = (q, s')"
      and pc: "pc = (case q of Inr _ \<Rightarrow> Finished (Inr (new_lease p (claim_record (cl j))))
         | Inl (OsPrecondition _) \<Rightarrow> AtWinner
         | Inl other \<Rightarrow> Finished (Inl (LeaseIo (trim_slashes (cl_db_prefix (cl j))) other)))"
      using run by (auto simp: path Let_def split: prod.splits)
    show ?thesis unfolding st'_def
      by (rule excl_inv_write [OF inv live _ w]) (auto simp: AtTakeover pc split: sum.splits os_error.splits)
  next
    case AtWinner
    then obtain f where f: "fetch ops cod p (trim_slashes (cl_db_prefix (cl j))) (bucket st) = (f, s')"
      and pc: "pc = (case f of Inl e \<Rightarrow> Finished (Inl e)
         | Inr None \<Rightarrow> Finished (Inl (LeaseIo (trim_slashes (cl_db_prefix (cl j))) (OsNotFound p)))
         | Inr (Some (winner, _)) \<Rightarrow>
             Finished (Inl (held_error (trim_slashes (cl_db_prefix (cl j))) winner 0)))"
      using run by (auto simp: path Let_def split: prod.splits)
    show ?thesis unfolding st'_def
      by (rule excl_inv_read [OF inv]; insert read_pc [OF f])
         (auto simp: pc split: sum.splits option.splits)
  next
    case (Finished r)
    then have "st' = st" using run st'_def by auto
    then show ?thesis using inv by simp
  qed
qed

lemma contended_excl_inv:
  assumes "contended ops cod cl s0 st"
    and live: "\<And>i j. is_live_at (claim_record (cl i)) (cl_now (cl j))"
    and path: "\<And>i. claim_path ops (cl i) = p"
  shows "excl_inv p cl st"
  using assms(1)
proof (induction rule: contended.induct)
  case start
  show ?case by (simp add: excl_inv_def claimed_def)
next
  case (step st st')
  then show ?case using excl_inv_step [of p cl st st', OF _ live path] by blast
qed

text \<open>A lease object that a process other than \<open>me\<close> wrote.\<close>

definition held_by_other :: "string \<Rightarrow> string \<Rightarrow> 'o \<Rightarrow> bool" where
  "held_by_other p me s \<longleftrightarrow>
     (\<exists>v ver r. osabs s p = Some (v, ver) \<and> dec_lease cod v = Inr r \<and> lr_instance r \<noteq> me)"

lemma fetch_other:
  assumes "held_by_other p me s" and "fetch ops cod p pfx s = (f, s')"
  shows "osabs s' = osabs s" "(\<exists>e. f = Inl e) \<or> (\<exists>r ver. f = Inr (Some (r, ver)) \<and> lr_instance r \<noteq> me)"
proof -
  have "wp (fetch ops cod p pfx) (\<lambda>f s'. osabs s' = osabs s \<and>
      ((\<exists>e. f = Inl e) \<or> (\<exists>r ver. f = Inr (Some (r, ver)) \<and> lr_instance r \<noteq> me))) s"
    using assms(1) by (intro wp_fetch) (auto simp: held_by_other_def)
  from wpD [OF this assms(2)] show "osabs s' = osabs s"
    "(\<exists>e. f = Inl e) \<or> (\<exists>r ver. f = Inr (Some (r, ver)) \<and> lr_instance r \<noteq> me)" by auto
qed

lemma renew_spares:
  assumes other: "held_by_other (wl_path l) (lr_instance (wl_record l)) s"
    and run: "renew ops cod now l s = (b, l', s')"
  shows "\<not> b \<and> l' = l\<lparr>wl_lost := True\<rparr> \<and> osabs s' = osabs s"
proof (cases "wl_lost l")
  case True
  then show ?thesis using run by (auto simp: renew_def)
next
  case False
  obtain f s1 where f: "fetch ops cod (wl_path l) '''' s = (f, s1)"
    by (cases "fetch ops cod (wl_path l) '''' s")
  show ?thesis using run False fetch_other [OF other f] by (auto simp: renew_def f)
qed

lemma release_spares:
  assumes other: "held_by_other (wl_path l) (lr_instance (wl_record l)) s"
  shows "osabs (release ops cod l s) = osabs s"
proof -
  obtain f s1 where f: "fetch ops cod (wl_path l) '''' s = (f, s1)"
    by (cases "fetch ops cod (wl_path l) '''' s")
  show ?thesis using fetch_other [OF other f] by (auto simp: release_def f)
qed

lemma held_by_other_abs: "osabs s' = osabs s \<Longrightarrow> held_by_other p me s' = held_by_other p me s"
  by (simp add: held_by_other_def)

lemma renew_ticks_spares:
  assumes "renew_ticks ops cod ticks l s = (l', s')"
    and "held_by_other (wl_path l) (lr_instance (wl_record l)) s"
    and "\<forall>(env, now) \<in> set ticks. \<forall>s. held_by_other (wl_path l) (lr_instance (wl_record l)) s \<longrightarrow>
        held_by_other (wl_path l) (lr_instance (wl_record l)) (env s)"
  shows "held_by_other (wl_path l) (lr_instance (wl_record l)) s' \<and> wl_path l' = wl_path l \<and>
    wl_record l' = wl_record l \<and> (ticks \<noteq> [] \<longrightarrow> wl_lost l') \<and> (wl_lost l \<longrightarrow> wl_lost l')"
  using assms
proof (induction ticks arbitrary: l s)
  case (Cons tick ticks)
  obtain env now where tick: "tick = (env, now)" by (cases tick)
  obtain b l1 s1 where r: "renew ops cod now l (env s) = (b, l1, s1)"
    by (cases "renew ops cod now l (env s)") auto
  have "held_by_other (wl_path l) (lr_instance (wl_record l)) (env s)"
    using Cons.prems(2,3) by (simp add: tick)
  note sp = renew_spares [OF this r]
  show ?case
    using Cons.IH [of l1 s1] Cons.prems sp r held_by_other_abs [of s1 "env s"]
      \<open>held_by_other (wl_path l) (lr_instance (wl_record l)) (env s)\<close>
    by (auto simp: tick)
qed auto

lemma contended_unique:
  assumes run: "contended ops cod cl s0 st"
    and live: "\<And>i j. is_live_at (claim_record (cl i)) (cl_now (cl j))"
    and path: "\<And>i. claim_path ops (cl i) = p"
    and ij: "claimed st i" "claimed st j"
  shows "cl_instance (cl i) = cl_instance (cl j)"
proof -
  have inv: "excl_inv p cl st" by (rule contended_excl_inv [OF run live path])
  then obtain b ver where b: "enc_lease cod (claim_record (cl i)) = Inr b" "osabs (bucket st) p = Some (b, ver)"
    using ij(1) unfolding excl_inv_def by blast
  moreover obtain b' ver' where "enc_lease cod (claim_record (cl j)) = Inr b'" "osabs (bucket st) p = Some (b', ver')"
    using inv ij(2) unfolding excl_inv_def by blast
  ultimately have "claim_record (cl i) = claim_record (cl j)"
    using lease_codec [of "claim_record (cl i)" b] lease_codec [of "claim_record (cl j)" b'] by simp
  then show ?thesis by (simp add: claim_record_def)
qed

lemma spawn_renewer_spares:
  assumes "spawn_renewer ops cod ticks shutdown l s = (l', s')"
    and "held_by_other (wl_path l) (lr_instance (wl_record l)) s"
    and "\<forall>(env, now) \<in> set ticks. \<forall>s. held_by_other (wl_path l) (lr_instance (wl_record l)) s \<longrightarrow>
        held_by_other (wl_path l) (lr_instance (wl_record l)) (env s)"
    and "\<And>s. held_by_other (wl_path l) (lr_instance (wl_record l)) s \<Longrightarrow>
        held_by_other (wl_path l) (lr_instance (wl_record l)) (shutdown s)"
  shows "held_by_other (wl_path l) (lr_instance (wl_record l)) s' \<and> (ticks \<noteq> [] \<longrightarrow> wl_lost l')"
proof -
  obtain l1 s1 where r: "renew_ticks ops cod ticks l s = (l1, s1)" by (cases "renew_ticks ops cod ticks l s")
  note sp = renew_ticks_spares [OF r assms(2) assms(3)]
  have o: "held_by_other (wl_path l1) (lr_instance (wl_record l1)) (shutdown s1)"
    using sp assms(4) [of s1] by simp
  have "s' = release ops cod l1 (shutdown s1)" and "l' = l1"
    using assms(1) by (auto simp: spawn_renewer_def r)
  then show ?thesis using sp o release_spares [OF o] held_by_other_abs [of s' "shutdown s1"] by simp
qed

end

text \<open>A bucket that also answers every call: no failure but the refusals its contract has.\<close>

locale bucket_reliable = lease_over ops osabs vcontent cod
  for ops :: "('o, 'v, 'ver) os_ops" and osabs and vcontent and cod +
  assumes put_total: "admits mode (osabs s p) \<Longrightarrow> \<exists>s'. os_put ops p v mode s = (Inr (), s')"
    and oget_total: "osabs s p = Some (v, ver) \<Longrightarrow> \<exists>s'. os_get ops p s = (Inr (ver, Inr v), s')"
    and enc_total: "\<exists>b. enc_lease cod r = Inr b"
begin

lemma upd_some_version [simp]: "\<exists>ver'. m(p \<mapsto> (b, ver)) = m(p \<mapsto> (b, ver'))"
  by blast

lemma write_lands:
  assumes "admits mode (osabs s p)"
  shows "\<exists>s' b ver. write_record ops cod p r mode s = (Inr (), s') \<and> enc_lease cod r = Inr b \<and>
     osabs s' = (osabs s)(p \<mapsto> (b, ver))"
proof -
  obtain b where b: "enc_lease cod r = Inr b" using enc_total by blast
  obtain s' where s': "os_put ops p b mode s = (Inr (), s')" using put_total [OF assms] by blast
  with b have w: "write_record ops cod p r mode s = (Inr (), s')" by (simp add: write_record_def)
  from write_record_cases [OF w] w b show ?thesis by auto
qed

lemma create_refused:
  assumes "osabs s p = Some obj"
  shows "\<exists>e s'. write_record ops cod p r PutCreate s = (Inl e, s') \<and> osabs s' = osabs s"
proof -
  obtain q s' where w: "write_record ops cod p r PutCreate s = (q, s')"
    by (cases "write_record ops cod p r PutCreate s")
  from write_record_cases [OF w] assms w show ?thesis by auto
qed

lemma fetch_runs:
  assumes "osabs s p = Some (v, ver)"
  shows "\<exists>s'. osabs s' = osabs s \<and> fetch ops cod p pfx s =
     ((case dec_lease cod v of Inl e \<Rightarrow> Inl (Corrupt pfx e) | Inr r \<Rightarrow> Inr (Some (r, ver))), s')"
proof -
  obtain s' where g: "os_get ops p s = (Inr (ver, Inr v), s')" using oget_total [OF assms] by blast
  then show ?thesis using oget_keeps [OF g]
    by (intro exI [of _ s']) (auto simp: fetch_def act_defs split: sum.splits)
qed

lemma acquire_decides:
  assumes p: "claim_path ops c = p" and run: "acquire ops cod c s = (r, s')"
  shows "r = acquire_decision p c (map_option (\<lambda>(v, _). dec_lease cod v) (osabs s p)) \<and>
    (case r of
       Inl _ \<Rightarrow> osabs s' = osabs s
     | Inr _ \<Rightarrow> (\<exists>b ver. enc_lease cod (claim_record c) = Inr b \<and> osabs s' = (osabs s)(p \<mapsto> (b, ver))))"
proof (cases "osabs s p")
  case None
  then have "admits PutCreate (osabs s p)" by simp
  from write_lands [OF this, of "claim_record c"] show ?thesis
    using run p None by (auto simp: acquire_def acquire_decision_def Let_def act_defs)
next
  case (Some obj)
  obtain v ver where obj: "obj = (v, ver)" by (cases obj)
  obtain e s1 where w: "write_record ops cod p (claim_record c) PutCreate s = (Inl e, s1)"
    and s1: "osabs s1 = osabs s"
    using create_refused [OF Some] by blast
  have obj1: "osabs s1 p = Some (v, ver)" using s1 Some obj by simp
  obtain s2 where s2: "osabs s2 = osabs s"
    and f: "fetch ops cod p (trim_slashes (cl_db_prefix c)) s1 =
     ((case dec_lease cod v of Inl e \<Rightarrow> Inl (Corrupt (trim_slashes (cl_db_prefix c)) e)
       | Inr r \<Rightarrow> Inr (Some (r, ver))), s2)"
    using fetch_runs [OF obj1] s1 by auto
  have "admits (PutUpdate ver) (osabs s2 p)" using s2 Some obj by simp
  from write_lands [OF this, of "claim_record c"] show ?thesis
    using run p w f s2 Some obj
    by (auto simp: acquire_def acquire_decision_def Let_def act_defs split: sum.splits if_splits)
qed

end

section \<open>A bucket in memory\<close>

text \<open>
  An association list whose versions are the contents, and a codec whose bytes are the record
  itself or junk. It meets the contracts above, so that they can be met.
\<close>

definition mem_os :: "((string \<times> 'v) list, 'v, 'v) os_ops" where
  "mem_os = \<lparr>
     os_get = (\<lambda>p s. (case map_of s p of None \<Rightarrow> Inl (OsNotFound p) | Some v \<Rightarrow> Inr (v, Inr v), s)),
     os_put = (\<lambda>p v mode s. if admits mode (map_option (\<lambda>v. (v, v)) (map_of s p))
        then (Inr (), (p, v) # s) else (Inl (OsPrecondition p), s)),
     os_delete = (\<lambda>p s. (Inr (), filter (\<lambda>(q, _). q \<noteq> p) s)),
     os_path = (\<lambda>p. p)\<rparr>"

definition mem_os_abs :: "(string \<times> 'v) list \<Rightarrow> (string \<rightharpoonup> 'v \<times> 'v)" where
  "mem_os_abs s p = map_option (\<lambda>v. (v, v)) (map_of s p)"

definition plain_lease_codec :: "lease_record option lease_codec" where
  "plain_lease_codec = \<lparr>enc_lease = (\<lambda>r. Inr (Some r)),
     dec_lease = (\<lambda>b. case b of None \<Rightarrow> Inl ''expected value'' | Some r \<Rightarrow> Inr r)\<rparr>"

lemmas mem_lease_defs = mem_os_def mem_os_abs_def plain_lease_codec_def

lemma mem_os_simps [simp]:
  "os_get mem_os p s = (case map_of s p of None \<Rightarrow> Inl (OsNotFound p) | Some v \<Rightarrow> Inr (v, Inr v), s)"
  "os_put mem_os p v mode s = (if admits mode (mem_os_abs s p)
     then (Inr (), (p, v) # s) else (Inl (OsPrecondition p), s))"
  "os_delete mem_os p s = (Inr (), filter (\<lambda>(q, _). q \<noteq> p) s)"
  "os_path mem_os p = p"
  by (simp_all add: mem_os_def mem_os_abs_def)

lemma plain_lease_codec_simps [simp]:
  "enc_lease plain_lease_codec r = Inr (Some r)"
  "dec_lease plain_lease_codec None = Inl ''expected value''"
  "dec_lease plain_lease_codec (Some r) = Inr r"
  by (simp_all add: plain_lease_codec_def)

interpretation memlease: bucket_reliable mem_os mem_os_abs "\<lambda>v. v" plain_lease_codec
proof unfold_locales
  fix p :: string and v mode s r s'
  assume "os_put (mem_os :: (_, lease_record option, _) os_ops) p v mode s = (r, s')"
  then show "mem_os_abs s' = mem_os_abs s \<and> (\<exists>e. r = Inl e) \<or>
        admits mode (mem_os_abs s p) \<and> (\<exists>ver. mem_os_abs s' = (mem_os_abs s)(p \<mapsto> (v, ver))) \<and>
        (\<forall>x. r \<noteq> Inl (OsPrecondition x))"
    by (auto simp: mem_lease_defs fun_eq_iff split: if_splits)
next
  fix p :: string and s r s'
  assume "os_delete (mem_os :: (_, lease_record option, _) os_ops) p s = (r, s')"
  then show "mem_os_abs s' = mem_os_abs s \<and> (\<exists>e. r = Inl e) \<or> mem_os_abs s' = (mem_os_abs s)(p := None)"
    by (auto simp: mem_lease_defs fun_eq_iff map_of_filter_key)
qed (auto simp: mem_lease_defs split: option.splits)

section \<open>Properties\<close>

lemma is_live_at_iff:
  assumes "in_i64 now" and "in_i64 (lr_renewed_at r)"
  shows "is_live_at r now \<longleftrightarrow>
    (if in_i64 (now - lr_renewed_at r)
     then lr_renewed_at r \<le> now \<and> now - lr_renewed_at r < uint (lr_ttl_secs r) else True)"
  using uint_u64_try_from [of "now - lr_renewed_at r"]
  by (auto simp: is_live_at_def checked_sub_i64_def u64_try_from_def word_less_def)

text \<open>What the code decides about a record that is found, by its age.\<close>

lemma decision_of_record:
  assumes "\<And>held. found = Some (Inr held) \<Longrightarrow> in_i64 (cl_now c - lr_renewed_at held)" and "found = Some (Inr held)"
  shows "is_live_at held (cl_now c) \<longleftrightarrow> lr_renewed_at held \<le> cl_now c \<and> cl_now c - lr_renewed_at held < uint (lr_ttl_secs held)"
    and "lr_renewed_at held \<le> cl_now c \<Longrightarrow> cl_now c - lr_renewed_at held < uint (lr_ttl_secs held) \<Longrightarrow>
      held_error pfx held (wrap_i64 (cl_now c - lr_renewed_at held)) =
      Held pfx (lr_instance held) (lr_pid held) (cl_now c - lr_renewed_at held) (lr_ttl_secs held)
        (min i64_max (uint (lr_ttl_secs held) - (cl_now c - lr_renewed_at held)))"
proof -
  define age where "age = cl_now c - lr_renewed_at held"
  have in64: "in_i64 age" using assms by (simp add: age_def)
  have a: "0 \<le> age \<Longrightarrow> uint (word_of_int age :: u64) = age" using in64 by (intro uint_u64_try_from)
  show "is_live_at held (cl_now c) \<longleftrightarrow> lr_renewed_at held \<le> cl_now c \<and> cl_now c - lr_renewed_at held < uint (lr_ttl_secs held)"
    using in64 a by (auto simp: is_live_at_def checked_sub_i64_def u64_try_from_def word_less_def age_def)
  assume "lr_renewed_at held \<le> cl_now c" and "cl_now c - lr_renewed_at held < uint (lr_ttl_secs held)"
  then have pos: "0 \<le> age" and lt: "age < uint (lr_ttl_secs held)" by (simp_all add: age_def)
  then have le: "(word_of_int age :: u64) \<le> lr_ttl_secs held" by (simp add: word_le_def a)
  have "uint (lr_ttl_secs held - word_of_int age :: u64) = uint (lr_ttl_secs held) - age"
    using uint_minus_simple_alt [THEN iffD1, OF le] by (simp add: a [OF pos])
  then show "held_error pfx held (wrap_i64 (cl_now c - lr_renewed_at held)) =
      Held pfx (lr_instance held) (lr_pid held) (cl_now c - lr_renewed_at held) (lr_ttl_secs held)
        (min i64_max (uint (lr_ttl_secs held) - (cl_now c - lr_renewed_at held)))"
    using pos le in64 by (auto simp: held_error_def Let_def u64_try_from_def checked_sub_u64_def i64_try_from_def age_def [symmetric] wrap_i64_id)
qed

text \<open>
  C1: at most one writer. Any number of processes start against one prefix of one bucket, in
  any interleaving of their store calls, with any failure the bucket's contract allows. If the
  record each of them writes is live on the clock of every other, no two of them return a lease.
\<close>

theorem acquire_exclusive:
  assumes "lease_over ops osabs vcontent cod"
    and "contended ops cod cl s0 st"
    and "\<And>i j. is_live_at (claim_record (cl i)) (cl_now (cl j))"
    and "\<And>i. claim_path ops (cl i) = p"
    and "inj (\<lambda>i. cl_instance (cl i))"
    and "claimed st i" and "claimed st j"
  shows "i = j"
  using lease_over.contended_unique [OF assms(1-4,6,7)] assms(5) by (simp add: inj_def)

definition start_of :: "nat \<Rightarrow> claim" where
  "start_of i = \<lparr>cl_db_prefix = ''oxkv'', cl_ttl = 60, cl_now = 1000,
     cl_instance = replicate i CHR ''i'', cl_pid = 7\<rparr>"

text \<open>
  Two starts within the same second: the first holds the lease, the second has created
  nothing and gone on to read it.
\<close>

definition one_winner :: "((string \<times> lease_record option) list, lease_record option) contention" where
  "one_winner = (let p = ''oxkv/'' @ lease_key in
     \<lparr>pcs = (\<lambda>_. AtCreate)(1 := Finished (Inr (new_lease p (claim_record (start_of 1)))), 0 := AtRead),
      bucket = [(p, Some (claim_record (start_of 1)))]\<rparr>)"

lemma start_of_path [simp]: "claim_path mem_os (start_of i) = ''oxkv/'' @ lease_key"
  by (simp add: claim_path_def start_of_def lease_path_def trim_slashes_def)

lemma one_winner_reached: "contended mem_os plain_lease_codec start_of [] one_winner"
proof -
  let ?p = "''oxkv/'' @ lease_key"
  let ?s = "[(?p, Some (claim_record (start_of 1)))]"
  let ?st = "\<lparr>pcs = (\<lambda>_. AtCreate)(1 := Finished (Inr (new_lease ?p (claim_record (start_of 1))))), bucket = ?s\<rparr>"
  have "contend mem_os plain_lease_codec start_of \<lparr>pcs = (\<lambda>_. AtCreate), bucket = []\<rparr> ?st"
    using contend.move [of mem_os plain_lease_codec start_of 1 "\<lparr>pcs = (\<lambda>_. AtCreate), bucket = []\<rparr>"]
    by (simp add: write_record_def mem_os_abs_def Let_def)
  then have "contended mem_os plain_lease_codec start_of [] ?st"
    by (rule contended.step [OF contended.start])
  moreover have "contend mem_os plain_lease_codec start_of ?st one_winner"
    using contend.move [of mem_os plain_lease_codec start_of 0 ?st]
    by (simp add: write_record_def mem_os_abs_def one_winner_def Let_def)
  ultimately show ?thesis by (rule contended.step)
qed

theorem acquire_exclusive_witness:
  "contended mem_os plain_lease_codec start_of [] one_winner \<and> {j. claimed one_winner j} = {1}"
proof -
  have live: "is_live_at (claim_record (start_of i)) (cl_now (start_of j))" for i j
    by (subst is_live_at_iff) (simp_all add: claim_record_def start_of_def in_i64_def i64_min_def i64_max_def)
  have inj: "inj (\<lambda>i. cl_instance (start_of i))"
    by (rule injI) (drule arg_cong [where f = length], simp add: start_of_def)
  have c: "claimed one_winner 1" by (simp add: claimed_def one_winner_def Let_def)
  have "claimed one_winner j \<Longrightarrow> j = 1" for j
    using acquire_exclusive [OF memlease.lease_over_axioms one_winner_reached live start_of_path inj _ c] by simp
  then have "{j. claimed one_winner j} = {1}" using c by blast
  then show ?thesis using one_winner_reached by (rule conjI [rotated])
qed

text \<open>
  The four store calls of \<open>acquire\<close>, taken one at a time as other processes may interleave
  them, compute what \<open>acquire\<close> computes when nothing interleaves, and always finish.
\<close>

theorem acquire_steps_equiv:
  "acquire_run 4 ops cod c AtCreate s = (case acquire ops cod c s of (r, s') \<Rightarrow> (Finished r, s'))"
  by (simp add: numeral_eq_Suc acquire_def after_read_def Let_def act_defs
      split: prod.splits sum.splits option.splits os_error.splits)

lemma decision_meets_spec:
  assumes fits: "\<And>held. found = Some (Inr held) \<Longrightarrow> in_i64 (cl_now c - lr_renewed_at held)"
  shows "if renewed_after c found then (\<exists>e. acquire_spec p c found = Inl e) \<and> acquire_decision p c found = Inr (new_lease p (claim_record c))
      else acquire_decision p c found = acquire_spec p c found"
proof (cases "\<exists>held. found = Some (Inr held)")
  case True
  then obtain held where f: "found = Some (Inr held)" by blast
  note code = decision_of_record [OF fits f]
  have pos: "0 \<le> uint (lr_ttl_secs held)" by simp
  show ?thesis
  proof (cases "cl_now c < lr_renewed_at held")
    case True
    then have "renewed_after c found" "lease_live held (cl_now c)" "\<not> is_live_at held (cl_now c)"
      using pos code(1) by (simp_all add: renewed_after_def lease_live_def f)
    then show ?thesis by (simp add: acquire_spec_def acquire_decision_def f Let_def)
  next
    case False
    then have same: "is_live_at held (cl_now c) \<longleftrightarrow> lease_live held (cl_now c)" and late: "\<not> renewed_after c found"
      using code(1) by (auto simp: lease_live_def renewed_after_def f)
    show ?thesis using late False code(2)
      by (auto simp: acquire_spec_def acquire_decision_def f Let_def new_lease_def same lease_live_def)
  qed
next
  case False
  then show ?thesis
    by (auto simp: renewed_after_def acquire_spec_def acquire_decision_def new_lease_def Let_def split: option.splits sum.splits)
qed

text \<open>
  C9: on a bucket that answers every call a start decides as \<open>acquire_spec\<close> does, except where it finds a record that was renewed
  after its own reading of the clock. A free prefix and a record whose time to live has passed are claimed and the record is written; a live record is reported with
  its holder, its exact age and the exact wait; a record that does not decode is refused; a refused start leaves the bucket as it was. A record
  from a clock ahead is live by the specification, and the code takes it over.
\<close>

theorem acquire_refines_spec:
  assumes "bucket_reliable ops osabs vcontent cod"
    and "claim_path ops c = p" and "acquire ops cod c s = (r, s')"
    and "found = map_option (\<lambda>(v, _). dec_lease cod v) (osabs s p)"
    and "\<And>held. found = Some (Inr held) \<Longrightarrow> in_i64 (cl_now c - lr_renewed_at held)"
  shows "(if renewed_after c found
      then (\<exists>e. acquire_spec p c found = Inl e) \<and> r = Inr (new_lease p (claim_record c))
      else r = acquire_spec p c found) \<and>
    (case r of
       Inl _ \<Rightarrow> osabs s' = osabs s
     | Inr _ \<Rightarrow> (\<exists>b ver. enc_lease cod (claim_record c) = Inr b \<and> osabs s' = (osabs s)(p \<mapsto> (b, ver))))"
proof -
  note decided = bucket_reliable.acquire_decides [OF assms(1-3), folded assms(4)]
  have "if renewed_after c found then (\<exists>e. acquire_spec p c found = Inl e) \<and> acquire_decision p c found = Inr (new_lease p (claim_record c))
      else acquire_decision p c found = acquire_spec p c found"
    using assms(5) by (rule decision_meets_spec)
  then show ?thesis using decided by (auto split: if_splits)
qed

theorem acquire_refines_spec_witness:
  "fst (acquire mem_os plain_lease_codec (start_of 0) [(''oxkv/'' @ lease_key, Some (claim_record (start_of 1)))]) =
     Inl (Held ''oxkv'' (cl_instance (start_of 1)) (cl_pid (start_of 1)) 0 60 60)"
proof -
  let ?s = "[(''oxkv/'' @ lease_key, Some (claim_record (start_of 1)))]"
  obtain r s' where run: "acquire mem_os plain_lease_codec (start_of 0) ?s = (r, s')"
    by (cases "acquire mem_os plain_lease_codec (start_of 0) ?s")
  have "r = acquire_spec (''oxkv/'' @ lease_key) (start_of 0) (Some (Inr (claim_record (start_of 1))))"
    using acquire_refines_spec [OF memlease.bucket_reliable_axioms start_of_path run refl]
    by (simp add: mem_os_abs_def renewed_after_def claim_record_def start_of_def in_i64_def i64_min_def i64_max_def)
  then show ?thesis
    using run by (simp add: acquire_spec_def lease_live_def claim_record_def start_of_def trim_slashes_def i64_max_def)
qed

text \<open>
  A displaced writer never takes its lease back. Once the object is another instance's and
  the other processes keep it so, a renewal task that ticks any number of times and then releases
  leaves the object another instance's, and from its first tick on the lease is marked lost.
\<close>

theorem renewer_spares_successor:
  assumes "lease_over ops osabs vcontent cod"
    and "\<And>s. other s \<longleftrightarrow> (\<exists>v ver r. osabs s (wl_path l) = Some (v, ver) \<and> dec_lease cod v = Inr r \<and>
            lr_instance r \<noteq> lr_instance (wl_record l))"
    and "\<forall>(env, now) \<in> set ticks. \<forall>s. other s \<longrightarrow> other (env s)"
    and "\<And>s. other s \<Longrightarrow> other (shutdown s)"
    and "other s" and "spawn_renewer ops cod ticks shutdown l s = (l', s')"
  shows "other s' \<and> (ticks \<noteq> [] \<longrightarrow> wl_lost l')"
proof -
  have o: "other s = lease_over.held_by_other osabs cod (wl_path l) (lr_instance (wl_record l)) s" for s
    by (simp add: assms(2) lease_over.held_by_other_def [OF assms(1)])
  show ?thesis
    using lease_over.spawn_renewer_spares [OF assms(1,6)] assms(3-5) unfolding o by simp
qed

theorem renewer_spares_successor_witness:
  "(let l = new_lease ''p'' (claim_record (start_of 0)); s = [(''p'', Some (claim_record (start_of 1)))];
        (l', s') = spawn_renewer mem_os plain_lease_codec [(\<lambda>s. s, 1030)] (\<lambda>s. s) l s
    in s' = s \<and> wl_lost l')"
proof -
  let ?l = "new_lease ''p'' (claim_record (start_of 0))"
  let ?s = "[(''p'', Some (claim_record (start_of 1)))]"
  obtain l' s' where run: "spawn_renewer mem_os plain_lease_codec [(\<lambda>s. s, 1030)] (\<lambda>s. s) ?l ?s = (l', s')"
    by (cases "spawn_renewer mem_os plain_lease_codec [(\<lambda>s. s, 1030)] (\<lambda>s. s) ?l ?s")
  have "s' = ?s" using run
    by (auto simp: spawn_renewer_def renew_def release_def fetch_def act_defs new_lease_def
        claim_record_def start_of_def)
  with renewer_spares_successor [OF memlease.lease_over_axioms refl _ _ _ run] run show ?thesis
    by (simp add: mem_os_abs_def new_lease_def claim_record_def start_of_def)
qed

text \<open>
  The wait a refused start reports is exact. For a record whose age on the reader's clock is
  not negative and whose TTL is below \<open>2^63\<close>, the record is live at every second before
  the reported wait has passed and stale at the second where it has.
\<close>

theorem held_error_wait_exact:
  assumes "in_i64 now" and "in_i64 (lr_renewed_at r)" and "in_i64 (now - lr_renewed_at r)"
    and "lr_renewed_at r \<le> now" and "is_live_at r now"
    and "in_i64 (lr_renewed_at r + uint (lr_ttl_secs r))" and "uint (lr_ttl_secs r) \<le> i64_max"
  shows "(let w = held_wait (held_error pfx r (now - lr_renewed_at r)) in
    0 < w \<and> (\<forall>t \<in> {now ..< now + w}. is_live_at r t) \<and> \<not> is_live_at r (now + w))"
proof -
  define age where "age = now - lr_renewed_at r"
  have a: "uint (word_of_int age :: u64) = age"
    using assms(3,4) by (intro uint_u64_try_from) (simp_all add: age_def)
  have lt: "age < uint (lr_ttl_secs r)" using assms by (simp add: is_live_at_iff age_def)
  then have le: "(word_of_int age :: u64) \<le> lr_ttl_secs r" by (simp add: word_le_def a)
  have w: "held_wait (held_error pfx r age) = uint (lr_ttl_secs r) - age"
    using assms(3,4,7) le uint_minus_simple_alt [THEN iffD1, OF le]
    by (simp add: held_error_def Let_def u64_try_from_def checked_sub_u64_def i64_try_from_def a age_def [symmetric])
       (simp add: age_def)
  show ?thesis
    unfolding age_def [symmetric] w Let_def using assms lt
    by (auto simp: is_live_at_iff in_i64_def i64_min_def i64_max_def age_def)
qed

theorem held_error_wait_exact_witness:
  "(let r = claim_record (start_of 0) in
      \<not> is_live_at r (1010 + held_wait (held_error ''oxkv'' r 10)))"
proof -
  have [simp]: "lr_renewed_at (claim_record (start_of 0)) = 1000"
    "lr_ttl_secs (claim_record (start_of 0)) = 60"
    by (simp_all add: claim_record_def start_of_def)
  have "is_live_at (claim_record (start_of 0)) 1010"
    by (subst is_live_at_iff) (simp_all add: in_i64_def i64_min_def i64_max_def)
  from held_error_wait_exact [OF _ _ _ _ this, of "''oxkv''"] show ?thesis
    by (simp add: in_i64_def i64_min_def i64_max_def Let_def)
qed

text \<open>
  A start whose clock reading is older than the record it finds takes the lease, whatever
  the TTL, unless the difference overflows. The age is negative, so it has no unsigned value
  and the record reads as stale: a start that was slow to reach the bucket, or whose clock is a
  second behind, displaces a holder that is alive.
\<close>

theorem acquire_displaces_newer_record:
  assumes "bucket_reliable ops osabs vcontent cod"
    and "osabs s (claim_path ops c) = Some (v, ver)" and "dec_lease cod v = Inr held"
    and "cl_now c < lr_renewed_at held" and "in_i64 (cl_now c - lr_renewed_at held)"
    and "acquire ops cod c s = (r, s')"
  shows "r = Inr (new_lease (claim_path ops c) (claim_record c))"
  using bucket_reliable.acquire_decides [OF assms(1) refl assms(6)] assms(2-5)
  by (simp add: acquire_decision_def is_live_at_def checked_sub_i64_def u64_try_from_def Let_def)

theorem acquire_displaces_newer_record_witness:
  "fst (acquire mem_os plain_lease_codec (start_of 0)
      [(''oxkv/'' @ lease_key, Some ((claim_record (start_of 1))\<lparr>lr_renewed_at := 1001\<rparr>))]) =
     Inr (new_lease (''oxkv/'' @ lease_key) (claim_record (start_of 0)))"
proof -
  let ?h = "(claim_record (start_of 1))\<lparr>lr_renewed_at := 1001\<rparr>"
  let ?s = "[(''oxkv/'' @ lease_key, Some ?h)]"
  obtain r s' where run: "acquire mem_os plain_lease_codec (start_of 0) ?s = (r, s')"
    by (cases "acquire mem_os plain_lease_codec (start_of 0) ?s")
  have "cl_now (start_of 0) = 1000" by (simp add: start_of_def)
  with acquire_displaces_newer_record [OF memlease.bucket_reliable_axioms _ _ _ _ run, of "Some ?h" "Some ?h" ?h]
  have "r = Inr (new_lease (''oxkv/'' @ lease_key) (claim_record (start_of 0)))"
    by (simp add: mem_os_abs_def in_i64_def i64_min_def i64_max_def)
  with run show ?thesis by (simp only: fst_conv)
qed

end
