(* ===== verification/Retry.thy ===== *)
theory Retry
  imports Prelude
begin

text \<open>
  The retry helper of \<^verbatim>\<open>src/src/retry.rs\<close>. The operation is an action of its caller's state; the
  sleeps it asks for are recorded, in nanoseconds. \<open>attempts == 0\<close> panics, which is \<open>None\<close>.
\<close>

text \<open>\<open>Duration::MAX\<close> and \<open>Duration::saturating_mul\<close>.\<close>

definition duration_max :: nat where
  "duration_max = (2 ^ 64 - 1) * 10 ^ 9 + 999999999"

definition saturating_mul :: "nat \<Rightarrow> u32 \<Rightarrow> nat" where
  "saturating_mul d f = min (d * unat f) duration_max"

definition backoff_factor :: "nat \<Rightarrow> u32" where
  "backoff_factor attempt = push_bit (min attempt 31) 1"

fun retry_loop :: "nat list \<Rightarrow> nat \<Rightarrow> nat \<Rightarrow> ('w, 'e, 'a) act \<Rightarrow> 'e option \<Rightarrow> nat list \<Rightarrow> 'w \<Rightarrow>
    ('e + 'a) option \<times> nat list \<times> 'w" where
  "retry_loop [] attempts base f last_error slept w =
     (case last_error of Some e \<Rightarrow> (Some (Inl e), slept, w) | None \<Rightarrow> (None, slept, w))"
| "retry_loop (attempt # rest) attempts base f last_error slept w =
     (case f w of
        (Inr v, w') \<Rightarrow> (Some (Inr v), slept, w')
      | (Inl e, w') \<Rightarrow>
          retry_loop rest attempts base f (Some e)
            (if attempt + 1 < attempts then slept @ [saturating_mul base (backoff_factor attempt)] else slept) w')"

definition retry_with_backoff :: "nat \<Rightarrow> nat \<Rightarrow> ('w, 'e, 'a) act \<Rightarrow> 'w \<Rightarrow> ('e + 'a) option \<times> nat list \<times> 'w" where
  "retry_with_backoff attempts base f w = retry_loop [0..<attempts] attempts base f None [] w"

text \<open>The state after \<open>n\<close> failed calls, if each of the first \<open>n\<close> calls fails.\<close>

fun failing :: "nat \<Rightarrow> ('w, 'e, 'a) act \<Rightarrow> 'w \<Rightarrow> 'w option" where
  "failing 0 f w = Some w"
| "failing (Suc n) f w = (case f w of (Inl _, w') \<Rightarrow> failing n f w' | (Inr _, _) \<Rightarrow> None)"

lemma unat_backoff_factor: "unat (backoff_factor k) = 2 ^ min k 31"
proof -
  have "(2 :: nat) ^ min k 31 < 2 ^ 32" by (rule power_strict_increasing) auto
  then have "take_bit 32 ((2 :: nat) ^ min k 31) = 2 ^ min k 31" by (rule take_bit_nat_eq_self)
  moreover have "backoff_factor k = word_of_nat (2 ^ min k 31)"
    by (simp add: backoff_factor_def push_bit_eq_mult)
  ultimately show ?thesis by (simp only: unsigned_of_nat) simp
qed

lemma retry_loop_skips:
  assumes "failing n f w = Some w'" and "k + n \<le> attempts" and "0 < n"
  shows "\<exists>e. retry_loop [k..<attempts] attempts base f le slept w =
     retry_loop [k + n..<attempts] attempts base f (Some e)
       (slept @ map (\<lambda>i. saturating_mul base (backoff_factor i)) [k..<min (k + n) (attempts - 1)]) w'"
  using assms
proof (induction n arbitrary: k w le slept)
  case (Suc n)
  then obtain e w1 where f: "f w = (Inl e, w1)" and rest: "failing n f w1 = Some w'"
    by (auto split: prod.splits sum.splits)
  have up: "[k..<attempts] = k # [Suc k..<attempts]" using Suc.prems(2) by (simp add: upt_conv_Cons)
  show ?case
  proof (cases "n = 0")
    case True
    then have "w' = w1" using rest by simp
    moreover have "[k..<min (k + 1) (attempts - 1)] = (if k + 1 < attempts then [k] else [])" by auto
    ultimately show ?thesis using True f by (auto simp: up)
  next
    case False
    let ?slept = "if k + 1 < attempts then slept @ [saturating_mul base (backoff_factor k)] else slept"
    from Suc.IH [OF rest, of "Suc k" "Some e" ?slept] False Suc.prems(2) obtain e' where
      "retry_loop [Suc k..<attempts] attempts base f (Some e) ?slept w1 =
       retry_loop [Suc k + n..<attempts] attempts base f (Some e')
         (?slept @ map (\<lambda>i. saturating_mul base (backoff_factor i)) [Suc k..<min (Suc k + n) (attempts - 1)]) w'"
      by auto
    moreover have "k + 1 < attempts" using False Suc.prems(2) by simp
    moreover from this have "[k..<min (k + Suc n) (attempts - 1)] = k # [Suc k..<min (Suc k + n) (attempts - 1)]"
      using False Suc.prems(2) by (auto simp: upt_conv_Cons)
    ultimately show ?thesis using f by (auto simp: up)
  qed
qed simp

text \<open>
  The helper returns the first success, or the last error when every call fails. It calls
  the operation once more after each failure up to the number of attempts and never again, sleeps exactly
  between two calls, and the sleep after the \<open>i\<close>-th failure is the base delay times \<open>2^i\<close> (at most \<open>2^31\<close>), cut
  off at the longest duration.
\<close>

theorem retry_backoff_exact:
  assumes "failing n f w = Some w'" and "n \<le> attempts" and "0 < attempts"
  shows "(n < attempts \<and> f w' = (Inr v, w'') \<longrightarrow> retry_with_backoff attempts base f w =
        (Some (Inr v), map (\<lambda>i. min (base * 2 ^ min i 31) duration_max) [0..<n], w'')) \<and>
    (n = attempts \<longrightarrow> (\<exists>e. retry_with_backoff attempts base f w =
        (Some (Inl e), map (\<lambda>i. min (base * 2 ^ min i 31) duration_max) [0..<attempts - 1], w')))"
proof -
  have mul: "saturating_mul base (backoff_factor i) = min (base * 2 ^ min i 31) duration_max" for i
    by (simp add: saturating_mul_def unat_backoff_factor)
  have skip: "0 < n \<Longrightarrow> \<exists>e. retry_with_backoff attempts base f w =
      retry_loop [n..<attempts] attempts base f (Some e)
        (map (\<lambda>i. min (base * 2 ^ min i 31) duration_max) [0..<min n (attempts - 1)]) w'"
    using retry_loop_skips [of n f w w' 0 attempts base None "[]"] assms(1,2)
    by (simp add: retry_with_backoff_def mul)
  have "retry_with_backoff attempts base f w =
        (Some (Inr v), map (\<lambda>i. min (base * 2 ^ min i 31) duration_max) [0..<n], w'')"
    if lt: "n < attempts" and f: "f w' = (Inr v, w'')"
  proof (cases "n = 0")
    case True
    then show ?thesis using assms(1) lt f by (simp add: retry_with_backoff_def upt_conv_Cons)
  next
    case False
    have "min n (attempts - 1) = n" using lt by simp
    then show ?thesis using skip False lt f by (auto simp: upt_conv_Cons)
  qed
  moreover have "\<exists>e. retry_with_backoff attempts base f w =
        (Some (Inl e), map (\<lambda>i. min (base * 2 ^ min i 31) duration_max) [0..<attempts - 1], w')" if "n = attempts"
    using skip that assms(3) by auto
  ultimately show ?thesis by blast
qed

theorem retry_backoff_exact_witness:
  "retry_with_backoff 3 100 (\<lambda>n :: nat. if n < 2 then (Inl n, n + 1) else (Inr n, n)) 0 =
     (Some (Inr 2), [100, 200], 2)"
proof -
  let ?f = "\<lambda>n :: nat. if n < 2 then (Inl n, n + 1) else (Inr n, n)"
  have "failing 2 ?f 0 = Some 2" by (simp add: numeral_2_eq_2)
  from retry_backoff_exact [OF this, of 3 2 2 100] show ?thesis
    by (simp add: duration_max_def upt_rec)
qed

end
