(* ===== verification/Queue_Types.thy ===== *)
theory Queue_Types
  imports Prelude "HOL-Library.Product_Lexorder"
begin

text \<open>
  The value types of \<^verbatim>\<open>src/src/queue.rs\<close> and the contract of its trait \<open>JobQueue\<close>: what each
  operation does to an abstract queue, a map from job ids to a job and its status together
  with the idempotency keys in use. The locale \<open>job_queue\<close> states it for any backend; the
  in-memory and the durable backend are instances, and the worker is a client.
\<close>

section \<open>Jobs\<close>

type_synonym uuid = "128 word"
type_synonym bytes = "8 word list"

record job =
  job_id :: uuid
  job_kind :: string
  job_payload :: bytes
  job_priority :: int
  job_attempt :: u32
  job_max_attempts :: u32
  job_created_at :: i64
  job_scheduled_at :: i64
  job_idempotency_key :: "string option"
  job_headers :: "(string \<times> string) list"

record leased_job =
  lj_job :: job
  lj_lease_expires_at :: i64

datatype job_status =
    Queued
  | Leased string i64
  | Succeeded "bytes option" i64
  | Failed string i64
  | Dead string i64

datatype retry_policy = NoRetry | Retry u64

datatype queue_error =
    QStore string
  | QNotFound uuid
  | AlreadyLeased
  | LeaseExpired
  | DuplicateIdempotency string
  | QInvalid string
  | QUnsupported string
  | QIo string

text \<open>\<open>lease.as_secs() as i64\<close> added to a clock reading.\<close>

definition after_secs :: "i64 \<Rightarrow> u64 \<Rightarrow> i64" where
  "after_secs now d = wrap_i64 (now + u64_as_i64 d)"

text \<open>The comparison both backends sort candidates by: priority first, then age.\<close>

definition run_key :: "job \<Rightarrow> int \<times> int" where
  "run_key j = (- job_priority j, job_created_at j)"

section \<open>The contract\<close>

type_synonym queue_abs = "uuid \<rightharpoonup> job \<times> job_status"

text \<open>A lease that has expired returns its job to the queue; a sweep does so for all of them.\<close>

fun expire_status :: "i64 \<Rightarrow> job_status \<Rightarrow> job_status" where
  "expire_status now (Leased w e) = (if e \<le> now then Queued else Leased w e)"
| "expire_status now st = st"

lemma expire_status_id: "(\<And>w e. st = Leased w e \<Longrightarrow> now < e) \<Longrightarrow> expire_status now st = st"
  by (cases st) (auto simp: not_le)

definition sweep_abs :: "i64 \<Rightarrow> queue_abs \<Rightarrow> queue_abs" where
  "sweep_abs now q = (\<lambda>i. map_option (\<lambda>(j, st). (j, expire_status now st)) (q i))"

lemma sweep_abs_leased: "sweep_abs t q i = Some (j, Leased w e) \<Longrightarrow> q i = Some (j, Leased w e)"
proof -
  have st: "expire_status t st = Leased w e \<Longrightarrow> st = Leased w e" for st by (cases "(t, st)" rule: expire_status.cases) (auto split: if_splits)
  assume "sweep_abs t q i = Some (j, Leased w e)"
  then show "q i = Some (j, Leased w e)" by (auto simp: sweep_abs_def dest: st)
qed

definition due :: "i64 \<Rightarrow> job \<times> job_status \<Rightarrow> bool" where
  "due now e \<longleftrightarrow> snd e = Queued \<and> job_scheduled_at (fst e) \<le> now"

definition nack_abs :: "i64 \<Rightarrow> string \<Rightarrow> retry_policy \<Rightarrow> job \<Rightarrow> job \<times> job_status" where
  "nack_abs now err pol j =
     (case pol of
        NoRetry \<Rightarrow> (j, Failed err now)
      | Retry d \<Rightarrow>
          if job_max_attempts j \<le> saturating_add_u32 (job_attempt j) 1 then (j, Dead err now)
          else (j\<lparr>job_attempt := saturating_add_u32 (job_attempt j) 1,
                  job_scheduled_at := after_secs now d\<rparr>, Queued))"

text \<open>
  The postconditions. An operation may fail in its store; then it has happened or it has not,
  except that a failed reservation may have leased part of its batch.
\<close>

definition enqueue_post ::
  "(job \<Rightarrow> job) \<Rightarrow> job \<Rightarrow> queue_abs \<Rightarrow> (string \<rightharpoonup> uuid) \<Rightarrow> queue_error + uuid \<Rightarrow> queue_abs \<Rightarrow> (string \<rightharpoonup> uuid) \<Rightarrow> bool" where
  "enqueue_post inject j q ks r q' ks' \<longleftrightarrow>
     (let stored = (q' = q(job_id j \<mapsto> (inject j, Queued)) \<and>
                    ks' = (case job_idempotency_key j of None \<Rightarrow> ks | Some k \<Rightarrow> ks(k \<mapsto> job_id j)));
          unchanged = (q' = q \<and> ks' = ks) in
      if job_max_attempts j = 0
      then r = Inl (QInvalid ''max_attempts must be positive'') \<and> unchanged
      else (case Option.bind (job_idempotency_key j) ks of
              Some i \<Rightarrow> unchanged \<and> (case r of Inl _ \<Rightarrow> True | Inr i' \<Rightarrow> i' = i)
            | None \<Rightarrow> (case r of Inl _ \<Rightarrow> stored \<or> unchanged | Inr i \<Rightarrow> i = job_id j \<and> stored)))"

definition lease_all :: "string \<Rightarrow> leased_job list \<Rightarrow> queue_abs \<Rightarrow> queue_abs" where
  "lease_all w out q = (\<lambda>i.
     case map_of (map (\<lambda>l. (job_id (lj_job l), l)) out) i of
       None \<Rightarrow> q i
     | Some l \<Rightarrow> Some (lj_job l, Leased w (lj_lease_expires_at l)))"

definition reserve_post ::
  "i64 \<Rightarrow> string \<Rightarrow> nat \<Rightarrow> u64 \<Rightarrow> queue_abs \<Rightarrow> leased_job list \<Rightarrow> queue_abs \<Rightarrow> bool" where
  "reserve_post now w limit lease q out q' \<longleftrightarrow>
     length out \<le> limit \<and>
     distinct (map (\<lambda>l. job_id (lj_job l)) out) \<and>
     sorted (map (\<lambda>l. run_key (lj_job l)) out) \<and>
     (\<forall>l \<in> set out. lj_lease_expires_at l = after_secs now lease \<and>
        (\<exists>i. q i = Some (lj_job l, Queued)) \<and> job_scheduled_at (lj_job l) \<le> now) \<and>
     (\<forall>i j. q i = Some (j, Queued) \<and> job_scheduled_at j \<le> now \<and> j \<notin> lj_job ` set out \<longrightarrow>
        length out = limit \<and> (\<forall>l \<in> set out. run_key (lj_job l) \<le> run_key j)) \<and>
     q' = lease_all w out q"

text \<open>
  Every job sits under its own id. \<open>t\<close> is the clock of the sweep, \<open>now\<close> the clock of the
  operation; the code reads them one after the other.
\<close>

definition own_ids :: "queue_abs \<Rightarrow> bool" where
  "own_ids q \<longleftrightarrow> (\<forall>i j st. q i = Some (j, st) \<longrightarrow> job_id j = i)"

locale job_queue =
  fixes q_enqueue :: "job \<Rightarrow> ('s, queue_error, uuid) act"
    and q_reserve :: "i64 \<Rightarrow> i64 \<Rightarrow> string \<Rightarrow> nat \<Rightarrow> u64 \<Rightarrow> ('s, queue_error, leased_job list) act"
    and q_ack :: "i64 \<Rightarrow> uuid \<Rightarrow> bytes option \<Rightarrow> ('s, queue_error, unit) act"
    and q_nack :: "i64 \<Rightarrow> uuid \<Rightarrow> string \<Rightarrow> retry_policy \<Rightarrow> ('s, queue_error, unit) act"
    and q_extend :: "i64 \<Rightarrow> i64 \<Rightarrow> uuid \<Rightarrow> u64 \<Rightarrow> ('s, queue_error, unit) act"
    and q_status :: "i64 \<Rightarrow> uuid \<Rightarrow> ('s, queue_error, job_status) act"
    and inject :: "job \<Rightarrow> job"
    and qinv :: "'s \<Rightarrow> bool"
    and qabs :: "'s \<Rightarrow> queue_abs"
    and qkeys :: "'s \<Rightarrow> (string \<rightharpoonup> uuid)"
  assumes qinv_own: "qinv s \<Longrightarrow> own_ids (qabs s)"
    and enqueue_law: "qinv s \<Longrightarrow> q_enqueue j s = (r, s') \<Longrightarrow>
        qinv s' \<and> enqueue_post inject j (qabs s) (qkeys s) r (qabs s') (qkeys s')"
    and reserve_inv: "qinv s \<Longrightarrow> q_reserve t now w limit lease s = (batch, s') \<Longrightarrow> qinv s' \<and> qkeys s' = qkeys s"
    and reserve_law: "qinv s \<Longrightarrow> q_reserve t now w limit lease s = (Inr out, s') \<Longrightarrow>
        reserve_post now w limit lease (sweep_abs t (qabs s)) out (qabs s')"
    and ack_inv: "qinv s \<Longrightarrow> q_ack now i res s = (d, s') \<Longrightarrow> qinv s' \<and> qkeys s' = qkeys s"
    and ack_law: "qinv s \<Longrightarrow> q_ack now i res s = (Inr u, s') \<Longrightarrow>
        \<exists>j st. qabs s i = Some (j, st) \<and> qabs s' = (qabs s)(i \<mapsto> (j, Succeeded res now))"
    and ack_err: "qinv s \<Longrightarrow> q_ack now i res s = (Inl e, s') \<Longrightarrow>
        qabs s' = qabs s \<or> (\<exists>j st. qabs s i = Some (j, st) \<and> qabs s' = (qabs s)(i \<mapsto> (j, Succeeded res now)))"
    and nack_inv: "qinv s \<Longrightarrow> q_nack now i err pol s = (d, s') \<Longrightarrow> qinv s' \<and> qkeys s' = qkeys s"
    and nack_law: "qinv s \<Longrightarrow> q_nack now i err pol s = (Inr u, s') \<Longrightarrow>
        \<exists>j st. qabs s i = Some (j, st) \<and> qabs s' = (qabs s)(i \<mapsto> nack_abs now err pol j)"
    and nack_err: "qinv s \<Longrightarrow> q_nack now i err pol s = (Inl e, s') \<Longrightarrow>
        qabs s' = qabs s \<or> (\<exists>j st. qabs s i = Some (j, st) \<and> qabs s' = (qabs s)(i \<mapsto> nack_abs now err pol j))"
    and extend_inv: "qinv s \<Longrightarrow> q_extend t now i lease s = (d, s') \<Longrightarrow> qinv s' \<and> qkeys s' = qkeys s"
    and extend_jobs: "qinv s \<Longrightarrow> q_extend t now i lease s = (d, s') \<Longrightarrow>
        map_option fst (qabs s' k) = map_option fst (qabs s k)"
    and extend_others: "qinv s \<Longrightarrow> q_extend t now i lease s = (d, s') \<Longrightarrow> k \<noteq> i \<Longrightarrow>
        qabs s' k = qabs s k \<or> qabs s' k = sweep_abs t (qabs s) k"
    and extend_law: "qinv s \<Longrightarrow> q_extend t now i lease s = (Inr u, s') \<Longrightarrow>
        \<exists>j w e. sweep_abs t (qabs s) i = Some (j, Leased w e) \<and> now < e \<and>
          qabs s' = (sweep_abs t (qabs s))(i \<mapsto> (j, Leased w (after_secs now lease)))"
    and status_law: "qinv s \<Longrightarrow> q_status t i s = (answer, s') \<Longrightarrow> qinv s' \<and> qkeys s' = qkeys s \<and>
        (case answer of Inr st \<Rightarrow> qabs s' = sweep_abs t (qabs s) \<and> (\<exists>j. qabs s' i = Some (j, st)) | Inl _ \<Rightarrow> True)"
    and extend_own: "qinv s \<Longrightarrow> q_extend t now i lease s = (d, s') \<Longrightarrow>
        qabs s' i = qabs s i \<or> qabs s' i = sweep_abs t (qabs s) i \<or>
        (\<exists>j w e x. qabs s i = Some (j, Leased w e) \<and> qabs s' i = Some (j, Leased w x))"

section \<open>Choosing a batch\<close>

lemma insort_key_map: "map g (insort_key (\<lambda>x. f (g x)) a xs) = insort_key f (g a) (map g xs)"
  by (induction xs) auto

lemma sort_key_map: "map g (sort_key (\<lambda>x. f (g x)) xs) = sort_key f (map g xs)"
  by (induction xs) (auto simp: sort_key_def insort_key_map)

lemma sorted_take_drop:
  assumes "sorted (map f xs)" and "x \<in> set (take n xs)" and "y \<in> set (drop n xs)"
  shows "f x \<le> f y"
proof -
  have "sorted (map f (take n xs) @ map f (drop n xs))"
    using assms(1) by (simp flip: map_append)
  then show ?thesis using assms(2,3) by (auto simp: sorted_append)
qed

definition lease_of :: "i64 \<Rightarrow> job \<Rightarrow> leased_job" where
  "lease_of e j = \<lparr>lj_job = j, lj_lease_expires_at = e\<rparr>"

lemma lease_of_simps [simp]: "lj_job (lease_of e j) = j" "lj_lease_expires_at (lease_of e j) = e"
  by (simp_all add: lease_of_def)

lemma lj_job_lease_of [simp]: "lj_job ` lease_of e ` A = A"
  by (force simp: image_image)

definition chosen :: "nat \<Rightarrow> job list \<Rightarrow> job list" where
  "chosen limit cands = take limit (sort_key run_key cands)"

lemma set_chosen: "set (chosen limit cands) \<subseteq> set cands"
  unfolding chosen_def using set_take_subset by fastforce

lemma distinct_chosen: "distinct (map job_id cands) \<Longrightarrow> distinct (map job_id (chosen limit cands))"
  unfolding chosen_def
  by (simp add: take_map [symmetric] distinct_take distinct_map)

lemma chosen_complete:
  assumes "j \<in> set cands" and "j \<notin> set (chosen limit cands)"
  shows "length (chosen limit cands) = limit" "\<And>x. x \<in> set (chosen limit cands) \<Longrightarrow> run_key x \<le> run_key j"
proof -
  have "set (take limit (sort_key run_key cands)) \<union> set (drop limit (sort_key run_key cands)) = set cands"
    by (metis append_take_drop_id set_append set_sort)
  then have d: "j \<in> set (drop limit (sort_key run_key cands))"
    using assms by (auto simp: chosen_def)
  then have "limit \<le> length cands" by (cases "limit \<le> length cands") auto
  then show "length (chosen limit cands) = limit" by (simp add: chosen_def)
  show "run_key x \<le> run_key j" if "x \<in> set (chosen limit cands)" for x
    using sorted_take_drop [of run_key "sort_key run_key cands" x limit j] that d by (simp add: chosen_def)
qed

lemma sorted_chosen: "sorted (map run_key (chosen limit cands))"
  unfolding chosen_def by (metis sorted_sort_key sorted_wrt_take take_map)

lemma lease_all_Nil [simp]: "lease_all w [] q = q"
  by (simp add: lease_all_def)

lemma lease_all_Cons:
  "job_id (lj_job l) \<notin> job_id ` lj_job ` set ls \<Longrightarrow>
   lease_all w (l # ls) q =
     lease_all w ls (q(job_id (lj_job l) \<mapsto> (lj_job l, Leased w (lj_lease_expires_at l))))"
  by (auto simp: lease_all_def fun_eq_iff map_of_eq_None_iff image_image split: option.splits
      dest!: map_of_SomeD)

lemma own_ids_lease_all:
  "own_ids q \<Longrightarrow> own_ids (lease_all w ls q)"
  by (auto simp: own_ids_def lease_all_def split: option.splits dest!: map_of_SomeD)

lemma own_ids_sweep [simp]: "own_ids (sweep_abs t q) = own_ids q"
  by (fastforce simp: own_ids_def sweep_abs_def)

lemma chosen_reserves:
  assumes cands: "set cands = {j. \<exists>i. q i = Some (j, Queued) \<and> job_scheduled_at j \<le> now}"
    and ids: "distinct (map job_id cands)"
  shows "reserve_post now w limit lease q (map (lease_of (after_secs now lease)) (chosen limit cands))
    (lease_all w (map (lease_of (after_secs now lease)) (chosen limit cands)) q)"
proof -
  let ?c = "chosen limit cands"
  have len: "length ?c \<le> limit" by (simp add: chosen_def)
  have all: "x \<in> set ?c \<Longrightarrow> (\<exists>i. q i = Some (x, Queued)) \<and> job_scheduled_at x \<le> now" for x
    using set_chosen [of limit cands] cands by blast
  have rest: "length ?c = limit \<and> (\<forall>x \<in> set ?c. run_key x \<le> run_key j)"
    if "q i = Some (j, Queued)" "job_scheduled_at j \<le> now" "j \<notin> set ?c" for i j
    using chosen_complete [of j cands limit] that cands by blast
  show ?thesis
    unfolding reserve_post_def
    using all rest sorted_chosen distinct_chosen [OF ids] len
    by (auto simp: comp_def)
qed

section \<open>What every backend gives its callers\<close>

context job_queue
begin

lemma reserved_leased:
  assumes "qinv s" and "q_reserve t now w limit lease s = (Inr out, s')" and "l \<in> set out"
  shows "qabs s' (job_id (lj_job l)) = Some (lj_job l, Leased w (after_secs now lease))"
proof -
  note post = reserve_law [OF assms(1,2)]
  then have "distinct (map (\<lambda>l. job_id (lj_job l)) out)" and abs: "qabs s' = lease_all w out (sweep_abs t (qabs s))"
    by (simp_all add: reserve_post_def)
  then have "map_of (map (\<lambda>l. (job_id (lj_job l), l)) out) (job_id (lj_job l)) = Some l"
    using assms(3) by (intro map_of_is_SomeI) (auto simp: comp_def)
  then show ?thesis using post assms(3) by (simp add: abs lease_all_def reserve_post_def)
qed

lemma reservations_disjoint:
  assumes inv: "qinv s" and r1: "q_reserve t1 n1 w1 k1 d1 s = (Inr out1, s1)"
    and r2: "q_reserve t2 n2 w2 k2 d2 s1 = (Inr out2, s2)" and early: "t2 < after_secs n1 d1"
  shows "(\<lambda>l. job_id (lj_job l)) ` set out1 \<inter> (\<lambda>l. job_id (lj_job l)) ` set out2 = {}"
proof (rule ccontr)
  assume "\<not> ?thesis"
  then obtain l1 l2 where l: "l1 \<in> set out1" "l2 \<in> set out2" "job_id (lj_job l1) = job_id (lj_job l2)"
    by blast
  have inv1: "qinv s1" using reserve_inv [OF inv r1] by simp
  from reserve_law [OF inv1 r2] l(2) obtain i where i: "sweep_abs t2 (qabs s1) i = Some (lj_job l2, Queued)"
    by (auto simp: reserve_post_def)
  moreover have "own_ids (sweep_abs t2 (qabs s1))" using qinv_own [OF inv1] by simp
  ultimately have "i = job_id (lj_job l1)" using l(3) by (auto simp: own_ids_def)
  with i reserved_leased [OF inv r1 l(1)] early show False by (simp add: sweep_abs_def)
qed

lemma enqueue_twice:
  assumes "qinv s" and "q_enqueue j s = (Inr i, s1)" and "job_idempotency_key j = Some k"
    and "q_enqueue j' s1 = (Inr i', s2)" and "job_idempotency_key j' = Some k"
  shows "i' = i \<and> qabs s2 = qabs s1 \<and> qkeys s2 = qkeys s1"
proof -
  have inv1: "qinv s1" and p1: "enqueue_post inject j (qabs s) (qkeys s) (Inr i) (qabs s1) (qkeys s1)"
    using enqueue_law [OF assms(1,2)] by simp_all
  have p2: "enqueue_post inject j' (qabs s1) (qkeys s1) (Inr i') (qabs s2) (qkeys s2)"
    using enqueue_law [OF inv1 assms(4)] by simp
  have "qkeys s1 k = Some i"
    using p1 assms(3) by (auto simp: enqueue_post_def Let_def split: if_splits option.splits)
  then show ?thesis
    using p2 assms(5) by (auto simp: enqueue_post_def Let_def split: if_splits)
qed

end

text \<open>A backend that always answers: a reservation, and the ack or nack of a job it holds.\<close>

locale job_queue_total = job_queue +
  assumes ack_total: "qinv s \<Longrightarrow> qabs s i \<noteq> None \<Longrightarrow> \<exists>s'. q_ack now i res s = (Inr (), s')"
    and reserve_total: "qinv s \<Longrightarrow> \<exists>out s'. q_reserve t now w limit lease s = (Inr out, s')"
    and nack_total: "qinv s \<Longrightarrow> qabs s i \<noteq> None \<Longrightarrow> \<exists>s'. q_nack now i err pol s = (Inr (), s')"

end
