(* ===== verification/Memory_Queue.thy ===== *)
theory Memory_Queue
  imports Queue_Types
begin

text \<open>
  The in-memory backend of \<^verbatim>\<open>src/src/queue/memory.rs\<close>. Its mutex makes every operation one
  action on the state; the metrics handle, which only counts, is left out. The backend is an
  instance of the contract \<open>job_queue\<close>.
\<close>

section \<open>The code\<close>

record mrec =
  mr_job :: job
  mr_status :: job_status
  mr_worker :: "string option"
  mr_lease_expires_at :: "i64 option"
  mr_result :: "bytes option"
  mr_error :: "string option"
  mr_finished_at :: "i64 option"

record memory_queue =
  mq_records :: "(uuid \<times> mrec) list"
  mq_idempotency :: "(string \<times> uuid) list"

definition memory_new :: memory_queue where
  "memory_new = \<lparr>mq_records = [], mq_idempotency = []\<rparr>"

definition sweep_rec :: "i64 \<Rightarrow> mrec \<Rightarrow> mrec" where
  "sweep_rec now r =
     (case mr_status r of
        Leased w expires_at \<Rightarrow>
          if expires_at \<le> now
          then r\<lparr>mr_status := Queued, mr_worker := None, mr_lease_expires_at := None\<rparr> else r
      | _ \<Rightarrow> r)"

definition memory_sweep_expired :: "i64 \<Rightarrow> memory_queue \<Rightarrow> memory_queue" where
  "memory_sweep_expired now st = st\<lparr>mq_records := map (\<lambda>(k, r). (k, sweep_rec now r)) (mq_records st)\<rparr>"

text \<open>\<open>inject\<close> stands for the propagator that \<open>inject_trace_context\<close> runs on the headers.\<close>

definition memory_enqueue :: "((string \<times> string) list \<Rightarrow> (string \<times> string) list) \<Rightarrow> job \<Rightarrow>
    (memory_queue, queue_error, uuid) act" where
  "memory_enqueue inject j0 st =
     (if job_max_attempts j0 = 0 then (Inl (QInvalid ''max_attempts must be positive''), st)
      else
        let j = j0\<lparr>job_headers := inject (job_headers j0)\<rparr> in
        case Option.bind (job_idempotency_key j) (map_of (mq_idempotency st)) of
          Some existing \<Rightarrow> (Inr existing, st)
        | None \<Rightarrow>
            let i = job_id j;
                r = \<lparr>mr_job = j, mr_status = Queued, mr_worker = None, mr_lease_expires_at = None,
                     mr_result = None, mr_error = None, mr_finished_at = None\<rparr>;
                st1 = (case job_idempotency_key j of
                         None \<Rightarrow> st
                       | Some key \<Rightarrow> st\<lparr>mq_idempotency := bt_insert key i (mq_idempotency st)\<rparr>)
            in (Inr i, st1\<lparr>mq_records := bt_insert i r (mq_records st1)\<rparr>))"

fun memory_lease_loop :: "string \<Rightarrow> i64 \<Rightarrow> uuid list \<Rightarrow> memory_queue \<Rightarrow> leased_job list \<Rightarrow>
    leased_job list \<times> memory_queue" where
  "memory_lease_loop worker expiry [] st out = (out, st)"
| "memory_lease_loop worker expiry (i # ids) st out =
     (case map_of (mq_records st) i of
        None \<Rightarrow> memory_lease_loop worker expiry ids st out
      | Some r \<Rightarrow>
          memory_lease_loop worker expiry ids
            (st\<lparr>mq_records := bt_insert i
               (r\<lparr>mr_status := Leased worker expiry, mr_worker := Some worker,
                 mr_lease_expires_at := Some expiry\<rparr>) (mq_records st)\<rparr>)
            (out @ [\<lparr>lj_job = mr_job r, lj_lease_expires_at = expiry\<rparr>]))"

definition memory_reserve :: "i64 \<Rightarrow> i64 \<Rightarrow> string \<Rightarrow> nat \<Rightarrow> u64 \<Rightarrow>
    (memory_queue, queue_error, leased_job list) act" where
  "memory_reserve t now worker limit lease st0 =
     (let st = memory_sweep_expired t st0;
          candidates = map fst (filter (\<lambda>(_, r). mr_status r = Queued \<and> job_scheduled_at (mr_job r) \<le> now)
                                  (mq_records st));
          ordered = sort_key (\<lambda>i. run_key (mr_job (the (map_of (mq_records st) i)))) candidates;
          (out, st') = memory_lease_loop worker (after_secs now lease) (take limit ordered) st []
      in (Inr out, st'))"

definition memory_ack :: "i64 \<Rightarrow> uuid \<Rightarrow> bytes option \<Rightarrow> (memory_queue, queue_error, unit) act" where
  "memory_ack finished i result st =
     (case map_of (mq_records st) i of
        None \<Rightarrow> (Inl (QNotFound i), st)
      | Some r \<Rightarrow>
          (Inr (), st\<lparr>mq_records := bt_insert i
             (r\<lparr>mr_status := Succeeded result finished, mr_result := result,
               mr_finished_at := Some finished, mr_worker := None, mr_lease_expires_at := None\<rparr>)
             (mq_records st)\<rparr>))"

definition memory_nack :: "i64 \<Rightarrow> uuid \<Rightarrow> string \<Rightarrow> retry_policy \<Rightarrow> (memory_queue, queue_error, unit) act" where
  "memory_nack finished i error retry st =
     (case map_of (mq_records st) i of
        None \<Rightarrow> (Inl (QNotFound i), st)
      | Some r \<Rightarrow>
          let r' = (case retry of
                NoRetry \<Rightarrow>
                  r\<lparr>mr_status := Failed error finished, mr_error := Some error,
                    mr_finished_at := Some finished, mr_worker := None, mr_lease_expires_at := None\<rparr>
              | Retry delay \<Rightarrow>
                  let attempt = job_attempt (mr_job r) in
                  if job_max_attempts (mr_job r) \<le> saturating_add_u32 attempt 1
                  then r\<lparr>mr_status := Dead error finished, mr_error := Some error,
                    mr_finished_at := Some finished, mr_worker := None, mr_lease_expires_at := None\<rparr>
                  else r\<lparr>mr_job := (mr_job r)\<lparr>job_attempt := saturating_add_u32 attempt 1,
                                            job_scheduled_at := after_secs finished delay\<rparr>,
                    mr_status := Queued, mr_error := Some error,
                    mr_worker := None, mr_lease_expires_at := None\<rparr>)
          in (Inr (), st\<lparr>mq_records := bt_insert i r' (mq_records st)\<rparr>))"

definition memory_extend_lease :: "i64 \<Rightarrow> i64 \<Rightarrow> uuid \<Rightarrow> u64 \<Rightarrow> (memory_queue, queue_error, unit) act" where
  "memory_extend_lease t now i lease st0 =
     (let st = memory_sweep_expired t st0 in
      case map_of (mq_records st) i of
        None \<Rightarrow> (Inl (QNotFound i), st)
      | Some r \<Rightarrow>
          (case mr_status r of
             Leased w expires_at \<Rightarrow>
               if expires_at \<le> now then (Inl LeaseExpired, st)
               else
                 let expiry = after_secs now lease in
                 (Inr (), st\<lparr>mq_records := bt_insert i
                    (r\<lparr>mr_status := Leased (case mr_worker r of None \<Rightarrow> '''' | Some w \<Rightarrow> w) expiry,
                      mr_lease_expires_at := Some expiry\<rparr>) (mq_records st)\<rparr>)
           | _ \<Rightarrow> (Inl AlreadyLeased, st)))"

definition memory_status :: "i64 \<Rightarrow> uuid \<Rightarrow> (memory_queue, queue_error, job_status) act" where
  "memory_status t i st0 =
     (let st = memory_sweep_expired t st0 in
      case map_of (mq_records st) i of
        None \<Rightarrow> (Inl (QNotFound i), st)
      | Some r \<Rightarrow> (Inr (mr_status r), st))"

section \<open>Invariant and abstraction\<close>

definition mrec_inv :: "uuid \<Rightarrow> mrec \<Rightarrow> bool" where
  "mrec_inv i r \<longleftrightarrow> job_id (mr_job r) = i \<and>
     (case mr_status r of
        Leased w e \<Rightarrow> mr_worker r = Some w \<and> mr_lease_expires_at r = Some e
      | _ \<Rightarrow> mr_worker r = None \<and> mr_lease_expires_at r = None)"

definition mq_inv :: "memory_queue \<Rightarrow> bool" where
  "mq_inv st \<longleftrightarrow> bt_inv (mq_records st) \<and> bt_inv (mq_idempotency st) \<and>
     (\<forall>i r. map_of (mq_records st) i = Some r \<longrightarrow> mrec_inv i r)"

definition mrec_abs :: "mrec \<Rightarrow> job \<times> job_status" where
  "mrec_abs r = (mr_job r, mr_status r)"

definition mq_abs :: "memory_queue \<Rightarrow> queue_abs" where
  "mq_abs st i = map_option mrec_abs (map_of (mq_records st) i)"

definition mq_keys :: "memory_queue \<Rightarrow> (string \<rightharpoonup> uuid)" where
  "mq_keys st = map_of (mq_idempotency st)"

lemma mq_inv_rec: "mq_inv st \<Longrightarrow> map_of (mq_records st) i = Some r \<Longrightarrow> mrec_inv i r"
  by (simp add: mq_inv_def)

lemma mq_inv_put:
  "mq_inv st \<Longrightarrow> mrec_inv i r \<Longrightarrow> mq_inv (st\<lparr>mq_records := bt_insert i r (mq_records st)\<rparr>)"
  by (auto simp: mq_inv_def map_of_bt_insert)

lemma mq_abs_put:
  "mq_inv st \<Longrightarrow> mq_abs (st\<lparr>mq_records := bt_insert i r (mq_records st)\<rparr>) = (mq_abs st)(i \<mapsto> mrec_abs r)"
  by (auto simp: mq_inv_def mq_abs_def fun_eq_iff map_of_bt_insert)

lemma mq_keys_put [simp]: "mq_keys (st\<lparr>mq_records := x\<rparr>) = mq_keys st"
  by (simp add: mq_keys_def)

lemma mrec_inv_sweep: "mrec_inv i r \<Longrightarrow> mrec_inv i (sweep_rec t r)"
  by (cases "mr_status r") (simp_all add: mrec_inv_def sweep_rec_def)

lemma mq_inv_sweep: "mq_inv st \<Longrightarrow> mq_inv (memory_sweep_expired t st)"
  by (auto simp: mq_inv_def memory_sweep_expired_def map_of_map_values mrec_inv_sweep)

lemma mrec_abs_sweep: "mrec_abs (sweep_rec t r) = (\<lambda>(j, st). (j, expire_status t st)) (mrec_abs r)"
  by (cases "mr_status r") (simp_all add: sweep_rec_def mrec_abs_def)

lemma mq_abs_sweep: "mq_abs (memory_sweep_expired t st) = sweep_abs t (mq_abs st)"
  by (simp add: mq_abs_def sweep_abs_def memory_sweep_expired_def map_of_map_values fun_eq_iff
      option.map_comp comp_def mrec_abs_sweep)

lemma mq_keys_sweep [simp]: "mq_keys (memory_sweep_expired t st) = mq_keys st"
  by (simp add: memory_sweep_expired_def)

lemma mq_own_ids: "mq_inv st \<Longrightarrow> own_ids (mq_abs st)"
  by (auto simp: own_ids_def mq_abs_def mrec_abs_def dest: mq_inv_rec simp: mrec_inv_def)

lemmas mq_facts = mq_inv_put mq_abs_put mq_inv_sweep mq_abs_sweep mq_own_ids

section \<open>The operations meet the contract\<close>

lemma enqueue_meets:
  assumes "mq_inv st" and "memory_enqueue inject j st = (r, st')"
  shows "mq_inv st' \<and>
    enqueue_post (\<lambda>j. j\<lparr>job_headers := inject (job_headers j)\<rparr>) j (mq_abs st) (mq_keys st) r (mq_abs st') (mq_keys st')"
proof -
  have new: "mrec_inv (job_id j) \<lparr>mr_job = j\<lparr>job_headers := h\<rparr>, mr_status = Queued, mr_worker = None,
      mr_lease_expires_at = None, mr_result = None, mr_error = None, mr_finished_at = None\<rparr>" for h
    by (simp add: mrec_inv_def)
  have keys: "map_of (mq_idempotency st) = mq_keys st" by (simp add: mq_keys_def)
  show ?thesis
  proof (cases "job_max_attempts j = 0 \<or> Option.bind (job_idempotency_key j) (mq_keys st) \<noteq> None")
    case True
    then show ?thesis using assms by (auto simp: memory_enqueue_def enqueue_post_def keys Let_def)
  next
    case False
    then show ?thesis using assms
      by (cases "job_idempotency_key j")
         (auto simp: memory_enqueue_def enqueue_post_def Let_def mq_inv_def mq_abs_def mq_keys_def
           map_of_bt_insert new mrec_abs_def fun_eq_iff split: if_splits)
  qed
qed

lemma lease_loop_runs:
  assumes "mq_inv st" and "distinct ids" and "\<forall>i \<in> set ids. map_of (mq_records st) i \<noteq> None"
    and "memory_lease_loop w e ids st out = (out', st')"
  shows "mq_inv st' \<and> mq_keys st' = mq_keys st \<and>
    out' = out @ map (\<lambda>i. lease_of e (mr_job (the (map_of (mq_records st) i)))) ids \<and>
    mq_abs st' = lease_all w (map (\<lambda>i. lease_of e (mr_job (the (map_of (mq_records st) i)))) ids) (mq_abs st)"
  using assms
proof (induction w e ids st out rule: memory_lease_loop.induct)
  case (2 w e i ids st out)
  then obtain r where r: "map_of (mq_records st) i = Some r" by auto
  let ?r = "r\<lparr>mr_status := Leased w e, mr_worker := Some w, mr_lease_expires_at := Some e\<rparr>"
  let ?st = "st\<lparr>mq_records := bt_insert i ?r (mq_records st)\<rparr>"
  have rinv: "mrec_inv i r" by (rule mq_inv_rec [OF "2.prems"(1) r])
  then have inv: "mq_inv ?st" using "2.prems"(1) by (intro mq_inv_put) (auto simp: mrec_inv_def)
  have look: "map_of (bt_insert i ?r (mq_records st)) = (map_of (mq_records st))(i \<mapsto> ?r)"
    using "2.prems"(1) by (simp add: mq_inv_def map_of_bt_insert)
  have same: "map (\<lambda>i. lease_of e (mr_job (the (map_of (mq_records ?st) i)))) ids =
      map (\<lambda>i. lease_of e (mr_job (the (map_of (mq_records st) i)))) ids"
    using "2.prems"(2) by (auto simp: look)
  have ids: "job_id (mr_job (the (map_of (mq_records st) k))) = k" if "k \<in> set ids" for k
    using "2.prems"(1,3) that mq_inv_rec [OF "2.prems"(1), of k] by (auto simp: mrec_inv_def)
  have "i \<notin> job_id ` lj_job ` set (map (\<lambda>i. lease_of e (mr_job (the (map_of (mq_records st) i)))) ids)"
    using ids "2.prems"(2) by (auto simp: image_image)
  moreover have "job_id (mr_job r) = i" using rinv by (simp add: mrec_inv_def)
  ultimately have cons: "lease_all w (map (\<lambda>i. lease_of e (mr_job (the (map_of (mq_records st) i)))) (i # ids)) (mq_abs st) =
      lease_all w (map (\<lambda>i. lease_of e (mr_job (the (map_of (mq_records st) i)))) ids) (mq_abs ?st)"
    using r mq_abs_put [OF "2.prems"(1), of i ?r] by (simp add: lease_all_Cons mrec_abs_def)
  have all: "\<forall>k \<in> set ids. map_of (mq_records ?st) k \<noteq> None" using "2.prems"(3) look by simp
  have dist: "distinct ids" using "2.prems"(2) by simp
  have run: "memory_lease_loop w e ids ?st (out @ [\<lparr>lj_job = mr_job r, lj_lease_expires_at = e\<rparr>]) = (out', st')"
    using "2.prems"(4) r by simp
  show ?case
    using "2.IH"(2) [OF r inv dist all run] unfolding same cons by (simp add: r lease_of_def)
qed simp

lemma candidates_jobs:
  assumes "mq_inv st"
    and "ids = map fst (filter (\<lambda>(_, r). mr_status r = Queued \<and> job_scheduled_at (mr_job r) \<le> now) (mq_records st))"
    and "jobs = map (\<lambda>i. mr_job (the (map_of (mq_records st) i))) ids"
  shows "distinct ids" "\<forall>i \<in> set ids. map_of (mq_records st) i \<noteq> None" "map job_id jobs = ids"
    "set jobs = {j. \<exists>i. mq_abs st i = Some (j, Queued) \<and> job_scheduled_at j \<le> now}"
proof -
  have d: "distinct (map fst (mq_records st))" using assms(1) by (simp add: mq_inv_def bt_inv_distinct)
  then show "distinct ids" unfolding assms(2) by (rule distinct_map_filter)
  have in_ids: "i \<in> set ids \<longleftrightarrow>
      (\<exists>r. map_of (mq_records st) i = Some r \<and> mr_status r = Queued \<and> job_scheduled_at (mr_job r) \<le> now)" for i
    using d by (force simp: assms(2) map_of_eq_Some_iff)
  then show all: "\<forall>i \<in> set ids. map_of (mq_records st) i \<noteq> None" by auto
  have own: "job_id (mr_job (the (map_of (mq_records st) i))) = i" if "i \<in> set ids" for i
    using that in_ids mq_inv_rec [OF assms(1)] by (auto simp: mrec_inv_def)
  then show "map job_id jobs = ids" by (simp add: assms(3) map_idI)
  show "set jobs = {j. \<exists>i. mq_abs st i = Some (j, Queued) \<and> job_scheduled_at j \<le> now}"
  proof (intro set_eqI iffI)
    fix j
    assume "j \<in> set jobs"
    then obtain i where "i \<in> set ids" and j: "j = mr_job (the (map_of (mq_records st) i))"
      by (auto simp: assms(3))
    then show "j \<in> {j. \<exists>i. mq_abs st i = Some (j, Queued) \<and> job_scheduled_at j \<le> now}"
      using in_ids [of i] by (auto simp: mq_abs_def mrec_abs_def intro!: exI [of _ i])
  next
    fix j
    assume "j \<in> {j. \<exists>i. mq_abs st i = Some (j, Queued) \<and> job_scheduled_at j \<le> now}"
    then obtain i r where r: "map_of (mq_records st) i = Some r" "mr_job r = j" "mr_status r = Queued"
        "job_scheduled_at j \<le> now"
      by (auto simp: mq_abs_def mrec_abs_def)
    then have "i \<in> set ids" using in_ids by auto
    then show "j \<in> set jobs" using r by (force simp: assms(3))
  qed
qed

lemma reserve_meets:
  assumes inv: "mq_inv st" and run: "memory_reserve t now w limit lease st = (r, st')"
  shows "mq_inv st' \<and> mq_keys st' = mq_keys st \<and>
    (\<exists>out. r = Inr out \<and> reserve_post now w limit lease (sweep_abs t (mq_abs st)) out (mq_abs st'))"
proof -
  define sw where "sw = memory_sweep_expired t st"
  define job_of where "job_of = (\<lambda>i. mr_job (the (map_of (mq_records sw) i)))"
  define ids where "ids = map fst (filter (\<lambda>(_, r). mr_status r = Queued \<and> job_scheduled_at (mr_job r) \<le> now) (mq_records sw))"
  define sel where "sel = take limit (sort_key (\<lambda>i. run_key (job_of i)) ids)"
  have sw: "mq_inv sw" "mq_abs sw = sweep_abs t (mq_abs st)" "mq_keys sw = mq_keys st"
    using inv by (simp_all add: sw_def mq_facts)
  note cands = candidates_jobs [OF sw(1) ids_def refl]
  obtain out where loop: "memory_lease_loop w (after_secs now lease) sel sw [] = (out, st')" and r: "r = Inr out"
    using run unfolding memory_reserve_def sel_def ids_def job_of_def sw_def
    by (auto simp: Let_def split: prod.splits)
  have sub: "set sel \<subseteq> set ids" unfolding sel_def using set_take_subset by fastforce
  have dist: "distinct sel" unfolding sel_def by (simp add: cands(1) distinct_take)
  have jobs: "map job_of sel = chosen limit (map job_of ids)"
    by (simp add: sel_def chosen_def take_map [symmetric] sort_key_map)
  have "\<forall>i \<in> set sel. map_of (mq_records sw) i \<noteq> None" using cands(2) sub by blast
  note res = lease_loop_runs [OF sw(1) dist this loop, folded job_of_def]
  have leases: "map (\<lambda>i. lease_of (after_secs now lease) (mr_job (the (map_of (mq_records sw) i)))) sel =
      map (lease_of (after_secs now lease)) (chosen limit (map job_of ids))"
    unfolding jobs [symmetric] by (simp add: job_of_def)
  have "distinct (map job_id (map job_of ids))"
    using cands(1,3) by (simp only: job_of_def)
  from chosen_reserves [OF _ this, of "mq_abs sw" now w limit lease] cands(4)
  have "reserve_post now w limit lease (mq_abs sw) (map (lease_of (after_secs now lease)) (chosen limit (map job_of ids)))
     (lease_all w (map (lease_of (after_secs now lease)) (chosen limit (map job_of ids))) (mq_abs sw))"
    by (simp add: job_of_def)
  then show ?thesis using res sw r by (simp add: leases)
qed

lemma ack_meets:
  assumes "mq_inv st" and "memory_ack now i res st = (r, st')"
  shows "mq_inv st' \<and> mq_keys st' = mq_keys st \<and>
    (case r of
       Inl e \<Rightarrow> st' = st \<and> mq_abs st i = None \<and> e = QNotFound i
     | Inr _ \<Rightarrow> (\<exists>j s0. mq_abs st i = Some (j, s0) \<and> mq_abs st' = (mq_abs st)(i \<mapsto> (j, Succeeded res now))))"
proof (cases "map_of (mq_records st) i")
  case None
  then show ?thesis using assms by (auto simp: memory_ack_def mq_abs_def)
next
  case (Some rc)
  have "mrec_inv i rc" by (rule mq_inv_rec [OF assms(1) Some])
  then show ?thesis using assms Some
    by (auto simp: memory_ack_def mq_abs_put mrec_abs_def mrec_inv_def intro!: mq_inv_put)
       (auto simp: mq_abs_def mrec_abs_def)
qed

lemma nack_meets:
  assumes "mq_inv st" and "memory_nack now i err pol st = (r, st')"
  shows "mq_inv st' \<and> mq_keys st' = mq_keys st \<and>
    (case r of
       Inl e \<Rightarrow> st' = st \<and> mq_abs st i = None \<and> e = QNotFound i
     | Inr _ \<Rightarrow> (\<exists>j s0. mq_abs st i = Some (j, s0) \<and> mq_abs st' = (mq_abs st)(i \<mapsto> nack_abs now err pol j)))"
proof (cases "map_of (mq_records st) i")
  case None
  then show ?thesis using assms by (auto simp: memory_nack_def mq_abs_def)
next
  case (Some rc)
  have rinv: "mrec_inv i rc" by (rule mq_inv_rec [OF assms(1) Some])
  have abs: "mq_abs st i = Some (mr_job rc, mr_status rc)" by (simp add: mq_abs_def mrec_abs_def Some)
  obtain rc' where st': "st' = st\<lparr>mq_records := bt_insert i rc' (mq_records st)\<rparr>" and r: "r = Inr ()"
    and "mrec_inv i rc'" and "mrec_abs rc' = nack_abs now err pol (mr_job rc)"
    using assms(2) rinv Some
    by (cases pol) (auto simp: memory_nack_def Let_def mrec_inv_def mrec_abs_def nack_abs_def)
  then show ?thesis using abs assms(1) by (auto simp: mq_abs_put mq_inv_put)
qed

lemma extend_meets:
  assumes "mq_inv st" and "memory_extend_lease t now i lease st = (r, st')"
  shows "mq_inv st' \<and> mq_keys st' = mq_keys st \<and>
    (case r of
       Inl e \<Rightarrow> mq_abs st' = sweep_abs t (mq_abs st) \<and>
         (case sweep_abs t (mq_abs st) i of
            None \<Rightarrow> e = QNotFound i
          | Some (j, Leased w x) \<Rightarrow> x \<le> now \<and> e = LeaseExpired
          | Some _ \<Rightarrow> e = AlreadyLeased)
     | Inr _ \<Rightarrow> (\<exists>j w e. sweep_abs t (mq_abs st) i = Some (j, Leased w e) \<and> now < e \<and>
          mq_abs st' = (sweep_abs t (mq_abs st))(i \<mapsto> (j, Leased w (after_secs now lease)))))"
proof -
  define sw where "sw = memory_sweep_expired t st"
  have sw: "mq_inv sw" "mq_abs sw = sweep_abs t (mq_abs st)" "mq_keys sw = mq_keys st"
    using assms(1) by (simp_all add: sw_def mq_facts)
  show ?thesis
  proof (cases "map_of (mq_records sw) i")
    case None
    then show ?thesis
      using assms(2) sw by (auto simp: memory_extend_lease_def sw_def [symmetric] Let_def mq_abs_def
          simp flip: sw(2))
  next
    case (Some rc)
    have rinv: "mrec_inv i rc" by (rule mq_inv_rec [OF sw(1) Some])
    have abs: "sweep_abs t (mq_abs st) i = Some (mr_job rc, mr_status rc)"
      by (simp flip: sw(2) add: mq_abs_def mrec_abs_def Some)
    show ?thesis
    proof (cases "mr_status rc")
      case (Leased w x)
      have "mrec_inv i (rc\<lparr>mr_status := Leased w (after_secs now lease), mr_lease_expires_at := Some (after_secs now lease)\<rparr>)"
        using rinv Leased by (simp add: mrec_inv_def)
      then show ?thesis using assms(2) sw Some abs Leased rinv
        by (auto simp: memory_extend_lease_def sw_def [symmetric] Let_def mq_abs_put mq_inv_put mrec_abs_def
            mrec_inv_def split: if_splits)
    qed (use assms(2) sw Some abs in
        \<open>auto simp: memory_extend_lease_def sw_def [symmetric] Let_def\<close>)
  qed
qed

lemma status_meets:
  assumes "mq_inv st" and "memory_status t i st = (r, st')"
  shows "mq_inv st' \<and> mq_keys st' = mq_keys st \<and> mq_abs st' = sweep_abs t (mq_abs st) \<and>
    (case r of Inr x \<Rightarrow> (\<exists>j. mq_abs st' i = Some (j, x)) | Inl e \<Rightarrow> mq_abs st' i = None \<and> e = QNotFound i)"
proof -
  have st': "st' = memory_sweep_expired t st" using assms(2)
    by (auto simp: memory_status_def Let_def split: option.splits)
  then show ?thesis using assms
    by (simp add: mq_facts) (auto simp: memory_status_def Let_def mq_abs_def mrec_abs_def
        simp flip: mq_abs_sweep split: option.splits)
qed

lemma sweep_abs_jobs: "map_option fst (sweep_abs t q k) = map_option fst (q k)"
  by (simp add: sweep_abs_def option.map_comp comp_def case_prod_unfold)

interpretation memq: job_queue_total "memory_enqueue inject" memory_reserve memory_ack memory_nack
  memory_extend_lease memory_status "\<lambda>j. j\<lparr>job_headers := inject (job_headers j)\<rparr>" mq_inv mq_abs mq_keys
  for inject
proof (unfold_locales, goal_cases)
  case 1 then show ?case by (rule mq_own_ids)
next
  case 2 then show ?case by (rule enqueue_meets)
next
  case 3 then show ?case using reserve_meets by blast
next
  case 4 then show ?case using reserve_meets [OF 4] by simp
next
  case 5 then show ?case using ack_meets by blast
next
  case 6 then show ?case using ack_meets [OF 6] by simp
next
  case 7 then show ?case using ack_meets [OF 7] by simp
next
  case 8 then show ?case using nack_meets by blast
next
  case 9 then show ?case using nack_meets [OF 9] by simp
next
  case 10 then show ?case using nack_meets [OF 10] by simp
next
  case 11 then show ?case using extend_meets by blast
next
  case (12 s t now i lease d s' k)
  then show ?case using extend_meets [OF 12] sweep_abs_jobs [of t "mq_abs s" k]
    by (auto split: sum.splits)
next
  case 13 then show ?case using extend_meets [OF 13(1,2)] by (auto split: sum.splits)
next
  case 14 then show ?case using extend_meets [OF 14] by simp
next
  case 15 then show ?case using status_meets [OF 15] by (auto split: sum.splits)
next
  case (16 s t now i lease d s')
  then show ?case using extend_meets [OF 16] sweep_abs_leased [of t "mq_abs s" i] by (auto split: sum.splits)
next
  case 17 then show ?case by (auto simp: memory_ack_def mq_abs_def)
next
  case 18 then show ?case using reserve_meets [OF 18 surjective_pairing] by (metis surjective_pairing)
next
  case 19 then show ?case by (auto simp: memory_nack_def mq_abs_def)
qed

section \<open>Runs of the backend\<close>

text \<open>The calls of the trait, with the clock readings each of them makes.\<close>

datatype queue_call =
    CallEnqueue job
  | CallReserve i64 i64 string nat u64
  | CallAck i64 uuid "bytes option"
  | CallNack i64 uuid string retry_policy
  | CallExtend i64 i64 uuid u64
  | CallStatus i64 uuid

fun memory_call :: "((string \<times> string) list \<Rightarrow> (string \<times> string) list) \<Rightarrow> queue_call \<Rightarrow> memory_queue \<Rightarrow> memory_queue" where
  "memory_call inject (CallEnqueue j) st = snd (memory_enqueue inject j st)"
| "memory_call inject (CallReserve t now w limit lease) st = snd (memory_reserve t now w limit lease st)"
| "memory_call inject (CallAck now i res) st = snd (memory_ack now i res st)"
| "memory_call inject (CallNack now i err pol) st = snd (memory_nack now i err pol st)"
| "memory_call inject (CallExtend t now i lease) st = snd (memory_extend_lease t now i lease st)"
| "memory_call inject (CallStatus t i) st = snd (memory_status t i st)"

lemma memory_call_inv: "mq_inv st \<Longrightarrow> mq_inv (memory_call inject c st)"
  by (cases c) (auto simp: prod_eq_iff intro!: surjective_pairing
      dest: enqueue_meets [OF _ surjective_pairing] reserve_meets [OF _ surjective_pairing]
        ack_meets [OF _ surjective_pairing] nack_meets [OF _ surjective_pairing]
        extend_meets [OF _ surjective_pairing] status_meets [OF _ surjective_pairing])

lemma mq_inv_new: "mq_inv memory_new"
  by (simp add: mq_inv_def memory_new_def)

definition demo_job :: "uuid \<Rightarrow> int \<Rightarrow> i64 \<Rightarrow> job" where
  "demo_job i prio at = \<lparr>job_id = i, job_kind = ''mail'', job_payload = [], job_priority = prio,
     job_attempt = 0, job_max_attempts = 2, job_created_at = at, job_scheduled_at = at,
     job_idempotency_key = Some ''k'', job_headers = []\<rparr>"

definition demo_queue :: memory_queue where
  "demo_queue = snd (memory_enqueue id ((demo_job 2 5 11)\<lparr>job_idempotency_key := None\<rparr>)
     (snd (memory_enqueue id (demo_job 1 0 10) memory_new)))"

lemma demo_queue_inv: "mq_inv demo_queue"
  using memory_call_inv [of _ id "CallEnqueue _"] mq_inv_new by (simp add: demo_queue_def)

section \<open>Properties\<close>

text \<open>
  Whatever calls are made, in whatever order and with whatever clock readings, the
  records stay consistent: both maps ordered, every job under its own id, and a worker and an expiry recorded
  exactly for the leased jobs, equal to those of the lease.
\<close>

theorem memory_queue_invariant:
  "mq_inv (fold (memory_call inject) calls memory_new)"
proof -
  have "mq_inv st \<Longrightarrow> mq_inv (fold (memory_call inject) calls st)" for st
    by (induction calls arbitrary: st) (auto simp: memory_call_inv)
  then show ?thesis using mq_inv_new by blast
qed

text \<open>
  C12: a reservation always returns a batch that meets the contract: after the expired leases
  have been returned, at most \<open>limit\<close> distinct due jobs, in order of priority and age,
  none of them passed over for a later one, each leased to the worker until the lease expires, and no
  other job changed.
\<close>

theorem memory_reserve_refines:
  assumes "mq_inv st" and "memory_reserve t now w limit lease st = (r, st')"
  shows "\<exists>out. r = Inr out \<and> reserve_post now w limit lease (sweep_abs t (mq_abs st)) out (mq_abs st')"
  using reserve_meets [OF assms] by blast

theorem memory_reserve_refines_witness:
  "\<exists>out st'. memory_reserve 20 20 ''w'' 1 30 demo_queue = (Inr out, st') \<and>
     reserve_post 20 ''w'' 1 30 (sweep_abs 20 (mq_abs demo_queue)) out (mq_abs st') \<and>
     map (\<lambda>l. job_id (lj_job l)) out = [2]"
proof -
  obtain out st' where run: "memory_reserve 20 20 ''w'' 1 30 demo_queue = (Inr out, st')"
    and "map (\<lambda>l. job_id (lj_job l)) out = [2]"
    by (simp add: memory_reserve_def memory_sweep_expired_def sweep_rec_def demo_queue_def demo_job_def
        memory_enqueue_def memory_new_def run_key_def Let_def)
  with memory_reserve_refines [OF demo_queue_inv run] show ?thesis by auto
qed

text \<open>
  No job is handed out twice while its lease runs. Two reservations, by the same or
  different workers, share no job if the second one's sweep comes before the first one's leases expire.
\<close>

theorem memory_reservations_disjoint:
  assumes "mq_inv st" and "memory_reserve t1 n1 w1 k1 d1 st = (Inr out1, st1)"
    and "memory_reserve t2 n2 w2 k2 d2 st1 = (Inr out2, st2)" and "t2 < after_secs n1 d1"
  shows "(\<lambda>l. job_id (lj_job l)) ` set out1 \<inter> (\<lambda>l. job_id (lj_job l)) ` set out2 = {}"
  using assms by (rule memq.reservations_disjoint)

theorem memory_reservations_disjoint_witness:
  "\<exists>out1 st1 out2 st2. memory_reserve 20 20 ''a'' 1 30 demo_queue = (Inr out1, st1) \<and>
     memory_reserve 21 21 ''b'' 5 30 st1 = (Inr out2, st2) \<and>
     (\<lambda>l. job_id (lj_job l)) ` set out1 \<inter> (\<lambda>l. job_id (lj_job l)) ` set out2 = {}"
proof -
  obtain out1 st1 where r1: "memory_reserve 20 20 ''a'' 1 30 demo_queue = (Inr out1, st1)"
    using reserve_meets [OF demo_queue_inv surjective_pairing] by (metis surjective_pairing)
  have inv1: "mq_inv st1" using reserve_meets [OF demo_queue_inv r1] by simp
  obtain out2 st2 where r2: "memory_reserve 21 21 ''b'' 5 30 st1 = (Inr out2, st2)"
    using reserve_meets [OF inv1 surjective_pairing] by (metis surjective_pairing)
  have "(21 :: int) < after_secs 20 30"
    by (simp add: after_secs_def u64_as_i64_def wrap_i64_def)
  from memory_reservations_disjoint [OF demo_queue_inv r1 r2 this] r1 r2 show ?thesis by blast
qed

text \<open>
  An enqueue with an idempotency key that was used before returns the job stored then and
  changes nothing, whatever the second job is.
\<close>

theorem memory_enqueue_idempotent:
  assumes "mq_inv st" and "memory_enqueue inject j st = (Inr i, st1)" and "job_idempotency_key j = Some k"
    and "memory_enqueue inject j' st1 = (Inr i', st2)" and "job_idempotency_key j' = Some k"
  shows "i' = i \<and> mq_abs st2 = mq_abs st1 \<and> mq_keys st2 = mq_keys st1"
  using assms by (rule memq.enqueue_twice)

theorem memory_enqueue_idempotent_witness:
  "(let (r1, st1) = memory_enqueue id (demo_job 1 0 10) memory_new;
        (r2, st2) = memory_enqueue id (demo_job 2 0 10) st1
    in r1 = Inr 1 \<and> r2 = Inr 1 \<and> mq_abs st2 = mq_abs st1)"
proof -
  obtain st1 where r1: "memory_enqueue id (demo_job 1 0 10) memory_new = (Inr 1, st1)"
    by (simp add: memory_enqueue_def memory_new_def demo_job_def)
  moreover obtain st2 where r2: "memory_enqueue id (demo_job 2 0 10) st1 = (Inr 1, st2)"
    using r1 by (auto simp: memory_enqueue_def memory_new_def demo_job_def)
  ultimately show ?thesis
    using memory_enqueue_idempotent [OF mq_inv_new r1 _ r2] by (simp add: demo_job_def)
qed

text \<open>Failing a job again and again with a retry, at given times and delays.\<close>

fun memory_nack_all :: "uuid \<Rightarrow> (i64 \<times> string \<times> u64) list \<Rightarrow> memory_queue \<Rightarrow> memory_queue" where
  "memory_nack_all i [] st = st"
| "memory_nack_all i ((now, err, delay) # fs) st = memory_nack_all i fs (snd (memory_nack now i err (Retry delay) st))"

lemma nack_step:
  assumes "mq_inv st" and "mq_abs st i = Some (j, s0)"
  shows "mq_inv (snd (memory_nack now i err (Retry d) st)) \<and>
    mq_abs (snd (memory_nack now i err (Retry d) st)) = (mq_abs st)(i \<mapsto> nack_abs now err (Retry d) j)"
proof -
  obtain r st' where run: "memory_nack now i err (Retry d) st = (r, st')" by (cases "memory_nack now i err (Retry d) st")
  from nack_meets [OF assms(1) run] assms(2) run show ?thesis by (auto split: sum.splits)
qed

lemma last_attempt_dead:
  "mq_inv st \<Longrightarrow> mq_abs st i = Some (j, s0) \<Longrightarrow> unat (job_max_attempts j) \<le> unat (job_attempt j) + 1 \<Longrightarrow> fs \<noteq> [] \<Longrightarrow>
   \<exists>err now. mq_abs (memory_nack_all i fs st) i = Some (j, Dead err now)"
proof (induction i fs st arbitrary: s0 rule: memory_nack_all.induct)
  case (2 i now err d fs st)
  let ?st = "snd (memory_nack now i err (Retry d) st)"
  have "job_max_attempts j \<le> saturating_add_u32 (job_attempt j) 1"
    using "2.prems"(3) unat_saturating_add_u32 [of "job_attempt j"] unat_u32_less [of "job_max_attempts j"]
    by (simp add: word_le_nat_alt)
  then have st: "mq_inv ?st" "mq_abs ?st i = Some (j, Dead err now)"
    using nack_step [OF "2.prems"(1,2), of now err d] by (simp_all add: nack_abs_def)
  show ?case
  proof (cases "fs = []")
    case False
    then show ?thesis using "2.IH" [OF st "2.prems"(3)] by simp
  qed (simp add: st)
qed simp

text \<open>
  A job that keeps failing is retried until its attempts are used up and then stays dead.
  From \<open>a\<close> attempts of \<open>m\<close>, with \<open>a < m\<close>, any \<open>k\<close> failures leave it queued with \<open>a + k\<close> attempts while
  \<open>a + k < m\<close>, and dead from then on; the counter never passes \<open>m\<close>.
\<close>

theorem memory_retries_bounded:
  assumes "mq_inv st" and "mq_abs st i = Some (j, s0)"
    and "unat (job_attempt j) < unat (job_max_attempts j)" and "fs \<noteq> []"
  shows "\<exists>j' s'. mq_abs (memory_nack_all i fs st) i = Some (j', s') \<and>
    (if unat (job_attempt j) + length fs < unat (job_max_attempts j)
     then s' = Queued \<and> unat (job_attempt j') = unat (job_attempt j) + length fs
     else (\<exists>err now. s' = Dead err now) \<and> unat (job_attempt j') + 1 = unat (job_max_attempts j))"
  using assms
proof (induction i fs st arbitrary: j s0 rule: memory_nack_all.induct)
  case (2 i now err d fs st)
  let ?st = "snd (memory_nack now i err (Retry d) st)"
  let ?j = "j\<lparr>job_attempt := saturating_add_u32 (job_attempt j) 1, job_scheduled_at := after_secs now d\<rparr>"
  have add: "unat (saturating_add_u32 (job_attempt j) 1) = unat (job_attempt j) + 1"
    using "2.prems"(3) unat_saturating_add_u32 [of "job_attempt j"] unat_u32_less [of "job_max_attempts j"] by simp
  have new: "unat (job_attempt ?j) = unat (job_attempt j) + 1" "job_max_attempts ?j = job_max_attempts j"
    using add by simp_all
  note step = nack_step [OF "2.prems"(1,2), of now err d]
  show ?case
  proof (cases "unat (job_attempt j) + 1 < unat (job_max_attempts j)")
    case False
    then have le: "unat (job_max_attempts j) \<le> unat (job_attempt j) + 1" by simp
    from last_attempt_dead [OF "2.prems"(1,2) le, of "(now, err, d) # fs"] False "2.prems"(3)
    show ?thesis by auto
  next
    case True
    then have abs: "mq_abs ?st i = Some (?j, Queued)"
      using step add by (simp add: nack_abs_def word_le_nat_alt)
    show ?thesis
    proof (cases "fs = []")
      case False
      then obtain j' s' where "mq_abs (memory_nack_all i fs ?st) i = Some (j', s')"
        and "if unat (job_attempt j) + 1 + length fs < unat (job_max_attempts j)
          then s' = Queued \<and> unat (job_attempt j') = unat (job_attempt j) + 1 + length fs
          else (\<exists>err now. s' = Dead err now) \<and> unat (job_attempt j') + 1 = unat (job_max_attempts j)"
        using "2.IH" [OF conjunct1 [OF step] abs, unfolded new, OF True False] by blast
      then show ?thesis by (auto split: if_splits)
    qed (use abs add True in simp)
  qed
qed simp

theorem memory_retries_bounded_witness:
  "\<exists>j' err now. mq_abs (memory_nack_all 1 [(20, ''e'', 1), (30, ''f'', 1)] demo_queue) 1 = Some (j', Dead err now) \<and>
     job_attempt j' = 1"
proof -
  have "mq_abs demo_queue 1 = Some (demo_job 1 0 10, Queued)"
    by (simp add: demo_queue_def demo_job_def memory_enqueue_def memory_new_def Let_def mq_abs_def mrec_abs_def)
  from memory_retries_bounded [OF demo_queue_inv this, of "[(20, ''e'', 1), (30, ''f'', 1)]"]
  show ?thesis by (auto simp: demo_job_def word_unat_eq_iff)
qed

text \<open>
  Extending the lease of a job that exists and is not leased any more, because its lease
  expired or it finished, answers \<open>AlreadyLeased\<close>.
\<close>

theorem memory_extend_without_lease:
  assumes "mq_inv st" and "mq_abs st i = Some (j, s0)"
    and "\<And>w x. expire_status t s0 \<noteq> Leased w x"
  shows "fst (memory_extend_lease t now i lease st) = Inl AlreadyLeased"
proof -
  obtain r st' where run: "memory_extend_lease t now i lease st = (r, st')"
    by (cases "memory_extend_lease t now i lease st")
  have "sweep_abs t (mq_abs st) i = Some (j, expire_status t s0)" using assms(2) by (simp add: sweep_abs_def)
  with extend_meets [OF assms(1) run] assms(3) run show ?thesis
    by (auto split: sum.splits job_status.splits)
qed


theorem memory_extend_without_lease_witness:
  "fst (memory_extend_lease 60 60 2 30 (snd (memory_reserve 20 20 ''w'' 1 30 demo_queue))) = Inl AlreadyLeased"
proof -
  let ?st = "snd (memory_reserve 20 20 ''w'' 1 30 demo_queue)"
  have inv: "mq_inv ?st" using reserve_meets [OF demo_queue_inv surjective_pairing] by blast
  have "\<exists>j. mq_abs ?st 2 = Some (j, Leased ''w'' 50)"
    by (simp add: memory_reserve_def memory_sweep_expired_def sweep_rec_def demo_queue_def demo_job_def
        memory_enqueue_def memory_new_def run_key_def Let_def mq_abs_def mrec_abs_def after_secs_def
        u64_as_i64_def wrap_i64_def)
  then obtain j where "mq_abs ?st 2 = Some (j, Leased ''w'' 50)" ..
  from memory_extend_without_lease [OF inv this] show ?thesis by simp
qed

end
