(* ===== verification/Durable_Queue.thy ===== *)
theory Durable_Queue
  imports Queue_Types Kv_Store
begin

text \<open>
  The durable backend of \<^verbatim>\<open>src/src/queue/durable.rs\<close>: job records and idempotency keys in a
  key-value store, every change one transaction. The store, the JSON codec and the text form of
  a UUID are parameters. The backend meets the same contract \<open>job_queue\<close> as the in-memory one.
\<close>

section \<open>The code\<close>

record stored_job =
  sj_job :: job
  sj_status :: job_status

record 'v queue_codec =
  enc_stored :: "stored_job \<Rightarrow> string + 'v"
  dec_stored :: "'v \<Rightarrow> string + stored_job"
  of_text :: "string \<Rightarrow> 'v"
  to_text :: "'v \<Rightarrow> string + string"
  uuid_str :: "uuid \<Rightarrow> string"
  uuid_parse :: "string \<Rightarrow> uuid option"
  show_store :: "store_error \<Rightarrow> string"

definition job_key :: "'v queue_codec \<Rightarrow> uuid \<Rightarrow> string" where
  "job_key cod i = ''job:'' @ uuid_str cod i"

definition idempotency_key :: "string \<Rightarrow> string" where
  "idempotency_key k = ''idemp:'' @ k"

text \<open>\<open>map_err(|e| QueueError::Store(e.to_string()))\<close>, on a store call and on a codec result.\<close>

definition qstore :: "'v queue_codec \<Rightarrow> ('s, store_error, 'a) act \<Rightarrow> ('s, queue_error, 'a) act" where
  "qstore cod m = map_err_act (\<lambda>e. QStore (show_store cod e)) m"

definition qcodec :: "string + 'a \<Rightarrow> ('s, queue_error, 'a) act" where
  "qcodec r = map_err_act QStore (res_act r)"

text \<open>The transaction that stores one job: encode, begin, set, commit.\<close>

definition put_stored :: "('s, 't, 'v) kv_ops \<Rightarrow> 'v queue_codec \<Rightarrow> uuid \<Rightarrow> stored_job \<Rightarrow> ('s, queue_error, unit) act" where
  "put_stored ops cod i sj =
     bind_act (qcodec (enc_stored cod sj)) (\<lambda>val.
     bind_act (qstore cod (kv_begin ops)) (\<lambda>tx.
     bind_act (qstore cod (tx_set ops tx (job_key cod i) val)) (\<lambda>tx.
     qstore cod (tx_commit ops tx))))"

definition expired_id :: "'v queue_codec \<Rightarrow> i64 \<Rightarrow> string \<times> 'v \<Rightarrow> uuid option" where
  "expired_id cod now kv =
     (case strip_prefix ''job:'' (fst kv) of
        None \<Rightarrow> None
      | Some id_str \<Rightarrow>
          (case dec_stored cod (snd kv) of
             Inr sj \<Rightarrow> (case sj_status sj of
                 Leased w expires_at \<Rightarrow> if expires_at \<le> now then uuid_parse cod id_str else None
               | _ \<Rightarrow> None)
           | Inl _ \<Rightarrow> None))"

definition requeue :: "('s, 't, 'v) kv_ops \<Rightarrow> 'v queue_codec \<Rightarrow> uuid \<Rightarrow> unit \<Rightarrow> ('s, queue_error, unit) act" where
  "requeue ops cod i u =
     (let key = job_key cod i;
          rollback = (\<lambda>tx. bind_act (try_act (tx_rollback ops tx)) (\<lambda>_. ok_act ())) in
      bind_act (qstore cod (kv_begin ops)) (\<lambda>tx.
      bind_act (qstore cod (tx_get ops tx key)) (\<lambda>found.
      case found of
        None \<Rightarrow> rollback tx
      | Some b \<Rightarrow>
          (case dec_stored cod b of
             Inl _ \<Rightarrow> rollback tx
           | Inr sj \<Rightarrow>
               (case sj_status sj of
                  Leased _ _ \<Rightarrow>
                    bind_act (qcodec (enc_stored cod (sj\<lparr>sj_status := Queued\<rparr>))) (\<lambda>val.
                    bind_act (qstore cod (tx_set ops tx key val)) (\<lambda>tx.
                    qstore cod (tx_commit ops tx)))
                | _ \<Rightarrow> rollback tx)))))"

text \<open>
  The sweep and the reservation hold the lock of the store for one scan or one transaction at a time. Between two of
  them any other client of the store may run: \<open>others g\<close> is what it does to the store in the gap \<open>g\<close>.
\<close>

datatype reserve_gap = BeforeRequeue uuid | BeforeScan | BeforeLease uuid

definition gap :: "('s \<Rightarrow> 's) \<Rightarrow> ('s, 'e, unit) act" where
  "gap f s = (Inr (), f s)"

lemma gap_idle [simp]: "gap (\<lambda>s. s) = ok_act ()"
  by (simp add: gap_def ok_act_def fun_eq_iff)

lemma wp_gap [wp_rules]: "Q (Inr ()) (f s) \<Longrightarrow> wp (gap f) Q s"
  by (simp add: wp_def gap_def)

definition durable_sweep_among :: "('s, 't, 'v) kv_ops \<Rightarrow> 'v queue_codec \<Rightarrow> (reserve_gap \<Rightarrow> 's \<Rightarrow> 's) \<Rightarrow> i64 \<Rightarrow>
    ('s, queue_error, unit) act" where
  "durable_sweep_among ops cod others now =
     bind_act (qstore cod (kv_gets ops None None None)) (\<lambda>kvs.
     for_act (List.map_filter (expired_id cod now) kvs)
       (\<lambda>i u. bind_act (gap (others (BeforeRequeue i))) (\<lambda>_. requeue ops cod i u)) ())"

text \<open>The sweep with no other client at work.\<close>

definition durable_sweep_expired :: "('s, 't, 'v) kv_ops \<Rightarrow> 'v queue_codec \<Rightarrow> i64 \<Rightarrow> ('s, queue_error, unit) act" where
  "durable_sweep_expired ops cod = durable_sweep_among ops cod (\<lambda>_ s. s)"

lemma durable_sweep_alone:
  "durable_sweep_expired ops cod now =
     bind_act (qstore cod (kv_gets ops None None None)) (\<lambda>kvs.
     for_act (List.map_filter (expired_id cod now) kvs) (requeue ops cod) ())"
  by (simp add: durable_sweep_expired_def durable_sweep_among_def)

definition load_job :: "('s, 't, 'v) kv_ops \<Rightarrow> 'v queue_codec \<Rightarrow> uuid \<Rightarrow> ('s, queue_error, stored_job) act" where
  "load_job ops cod i =
     bind_act (qstore cod (kv_get ops (job_key cod i))) (\<lambda>b.
     bind_act (some_act (QNotFound i) b) (\<lambda>b.
     qcodec (dec_stored cod b)))"

text \<open>What an idempotency key leads to: the job it names, or the enqueue goes on.\<close>

definition seen_key :: "('s, 't, 'v) kv_ops \<Rightarrow> 'v queue_codec \<Rightarrow> string option \<Rightarrow> ('s, queue_error, uuid option) act" where
  "seen_key ops cod key =
     (case key of
        None \<Rightarrow> ok_act None
      | Some k \<Rightarrow>
          bind_act (qstore cod (kv_get ops (idempotency_key k))) (\<lambda>b.
          case b of
            None \<Rightarrow> ok_act None
          | Some b \<Rightarrow> bind_act (qcodec (to_text cod b)) (\<lambda>s. ok_act (uuid_parse cod s))))"

definition store_new :: "('s, 't, 'v) kv_ops \<Rightarrow> 'v queue_codec \<Rightarrow> job \<Rightarrow> ('s, queue_error, uuid) act" where
  "store_new ops cod j =
     (let i = job_id j in
      bind_act (qcodec (enc_stored cod \<lparr>sj_job = j, sj_status = Queued\<rparr>)) (\<lambda>val.
      bind_act (qstore cod (kv_begin ops)) (\<lambda>tx.
      bind_act (qstore cod (tx_set ops tx (job_key cod i) val)) (\<lambda>tx.
      bind_act (case job_idempotency_key j of
                  None \<Rightarrow> ok_act tx
                | Some k \<Rightarrow> qstore cod (tx_set ops tx (idempotency_key k) (of_text cod (uuid_str cod i)))) (\<lambda>tx.
      bind_act (qstore cod (tx_commit ops tx)) (\<lambda>_.
      bind_act (try_act (kv_gets ops None None None)) (\<lambda>_.
      ok_act i)))))))"

definition durable_enqueue :: "('s, 't, 'v) kv_ops \<Rightarrow> 'v queue_codec \<Rightarrow>
    ((string \<times> string) list \<Rightarrow> (string \<times> string) list) \<Rightarrow> job \<Rightarrow> ('s, queue_error, uuid) act" where
  "durable_enqueue ops cod inject j0 =
     (if job_max_attempts j0 = 0 then err_act (QInvalid ''max_attempts must be positive'')
      else
        let j = j0\<lparr>job_headers := inject (job_headers j0)\<rparr> in
        bind_act (seen_key ops cod (job_idempotency_key j)) (\<lambda>seen.
        case seen of
          Some existing \<Rightarrow> ok_act existing
        | None \<Rightarrow> store_new ops cod j))"

definition candidate :: "'v queue_codec \<Rightarrow> i64 \<Rightarrow> string \<times> 'v \<Rightarrow> stored_job option" where
  "candidate cod now kv =
     (if prefix ''job:'' (fst kv) then
        (case dec_stored cod (snd kv) of
           Inr sj \<Rightarrow> if sj_status sj = Queued \<and> job_scheduled_at (sj_job sj) \<le> now then Some sj else None
         | Inl _ \<Rightarrow> None)
      else None)"

definition lease_stored :: "('s, 't, 'v) kv_ops \<Rightarrow> 'v queue_codec \<Rightarrow> string \<Rightarrow> i64 \<Rightarrow> stored_job \<Rightarrow>
    leased_job list \<Rightarrow> ('s, queue_error, leased_job list) act" where
  "lease_stored ops cod worker expiry sj out =
     bind_act (put_stored ops cod (job_id (sj_job sj)) (sj\<lparr>sj_status := Leased worker expiry\<rparr>)) (\<lambda>_.
     ok_act (out @ [\<lparr>lj_job = sj_job sj, lj_lease_expires_at = expiry\<rparr>]))"

definition durable_reserve_among :: "('s, 't, 'v) kv_ops \<Rightarrow> 'v queue_codec \<Rightarrow> (reserve_gap \<Rightarrow> 's \<Rightarrow> 's) \<Rightarrow>
    i64 \<Rightarrow> i64 \<Rightarrow> string \<Rightarrow> nat \<Rightarrow> u64 \<Rightarrow> ('s, queue_error, leased_job list) act" where
  "durable_reserve_among ops cod others t now worker limit lease =
     bind_act (durable_sweep_among ops cod others t) (\<lambda>_.
     bind_act (gap (others BeforeScan)) (\<lambda>_.
     bind_act (qstore cod (kv_gets ops None None None)) (\<lambda>kvs.
     let candidates = sort_key (\<lambda>sj. run_key (sj_job sj)) (List.map_filter (candidate cod now) kvs) in
     for_act (take limit candidates)
       (\<lambda>sj out. bind_act (gap (others (BeforeLease (job_id (sj_job sj))))) (\<lambda>_.
          lease_stored ops cod worker (after_secs now lease) sj out)) [])))"

text \<open>The reservation with no other client at work.\<close>

definition durable_reserve :: "('s, 't, 'v) kv_ops \<Rightarrow> 'v queue_codec \<Rightarrow> i64 \<Rightarrow> i64 \<Rightarrow> string \<Rightarrow> nat \<Rightarrow> u64 \<Rightarrow>
    ('s, queue_error, leased_job list) act" where
  "durable_reserve ops cod = durable_reserve_among ops cod (\<lambda>_ s. s)"

lemma durable_reserve_alone:
  "durable_reserve ops cod t now worker limit lease =
     bind_act (durable_sweep_expired ops cod t) (\<lambda>_.
     bind_act (qstore cod (kv_gets ops None None None)) (\<lambda>kvs.
     let candidates = sort_key (\<lambda>sj. run_key (sj_job sj)) (List.map_filter (candidate cod now) kvs) in
     for_act (take limit candidates) (lease_stored ops cod worker (after_secs now lease)) []))"
  by (simp add: durable_reserve_def durable_reserve_among_def durable_sweep_expired_def)

definition durable_ack :: "('s, 't, 'v) kv_ops \<Rightarrow> 'v queue_codec \<Rightarrow> i64 \<Rightarrow> uuid \<Rightarrow> bytes option \<Rightarrow>
    ('s, queue_error, unit) act" where
  "durable_ack ops cod finished i result =
     bind_act (load_job ops cod i) (\<lambda>sj.
     put_stored ops cod i (sj\<lparr>sj_status := Succeeded result finished\<rparr>))"

definition durable_nack :: "('s, 't, 'v) kv_ops \<Rightarrow> 'v queue_codec \<Rightarrow> i64 \<Rightarrow> uuid \<Rightarrow> string \<Rightarrow> retry_policy \<Rightarrow>
    ('s, queue_error, unit) act" where
  "durable_nack ops cod finished i error retry =
     bind_act (load_job ops cod i) (\<lambda>sj.
     case retry of
       NoRetry \<Rightarrow> put_stored ops cod i (sj\<lparr>sj_status := Failed error finished\<rparr>)
     | Retry delay \<Rightarrow>
         if job_max_attempts (sj_job sj) \<le> saturating_add_u32 (job_attempt (sj_job sj)) 1
         then put_stored ops cod i (sj\<lparr>sj_status := Dead error finished\<rparr>)
         else put_stored ops cod i
           (sj\<lparr>sj_job := (sj_job sj)\<lparr>job_attempt := saturating_add_u32 (job_attempt (sj_job sj)) 1,
                                  job_scheduled_at := after_secs finished delay\<rparr>,
               sj_status := Queued\<rparr>))"

definition durable_extend_lease :: "('s, 't, 'v) kv_ops \<Rightarrow> 'v queue_codec \<Rightarrow> i64 \<Rightarrow> i64 \<Rightarrow> uuid \<Rightarrow> u64 \<Rightarrow>
    ('s, queue_error, unit) act" where
  "durable_extend_lease ops cod t now i lease =
     bind_act (durable_sweep_expired ops cod t) (\<lambda>_.
     bind_act (load_job ops cod i) (\<lambda>sj.
     case sj_status sj of
       Leased worker expires_at \<Rightarrow>
         if expires_at \<le> now then err_act LeaseExpired
         else put_stored ops cod i (sj\<lparr>sj_status := Leased worker (after_secs now lease)\<rparr>)
     | _ \<Rightarrow> err_act AlreadyLeased))"

definition durable_status :: "('s, 't, 'v) kv_ops \<Rightarrow> 'v queue_codec \<Rightarrow> i64 \<Rightarrow> uuid \<Rightarrow>
    ('s, queue_error, job_status) act" where
  "durable_status ops cod t i =
     bind_act (durable_sweep_expired ops cod t) (\<lambda>_.
     bind_act (load_job ops cod i) (\<lambda>sj. ok_act (sj_status sj)))"

section \<open>Invariant and abstraction\<close>

text \<open>Every stored job is under the key of its own id.\<close>

definition dq_inv :: "'v queue_codec \<Rightarrow> (string \<rightharpoonup> 'v) \<Rightarrow> bool" where
  "dq_inv cod m \<longleftrightarrow> (\<forall>k b sj. prefix ''job:'' k \<longrightarrow> m k = Some b \<longrightarrow> dec_stored cod b = Inr sj \<longrightarrow>
     k = job_key cod (job_id (sj_job sj)))"

definition stored_at :: "'v queue_codec \<Rightarrow> (string \<rightharpoonup> 'v) \<Rightarrow> string \<Rightarrow> stored_job option" where
  "stored_at cod m k = Option.bind (m k) (\<lambda>b. case dec_stored cod b of Inl _ \<Rightarrow> None | Inr sj \<Rightarrow> Some sj)"

definition sj_abs :: "stored_job \<Rightarrow> job \<times> job_status" where
  "sj_abs sj = (sj_job sj, sj_status sj)"

definition dq_abs :: "'v queue_codec \<Rightarrow> (string \<rightharpoonup> 'v) \<Rightarrow> queue_abs" where
  "dq_abs cod m i = map_option sj_abs (stored_at cod m (job_key cod i))"

definition dq_keys :: "'v queue_codec \<Rightarrow> (string \<rightharpoonup> 'v) \<Rightarrow> (string \<rightharpoonup> uuid)" where
  "dq_keys cod m k = Option.bind (m (idempotency_key k))
     (\<lambda>b. case to_text cod b of Inl _ \<Rightarrow> None | Inr s \<Rightarrow> uuid_parse cod s)"

lemma stored_at_eq: "stored_at cod m k = Some sj \<longleftrightarrow> (\<exists>b. m k = Some b \<and> dec_stored cod b = Inr sj)"
  by (cases "m k") (auto simp: stored_at_def split: sum.splits)

locale durable_over = kv_store ops kvabs txov
  for ops :: "('s, 't, 'v) kv_ops" and kvabs and txov +
  fixes cod :: "'v queue_codec"
  assumes stored_codec: "enc_stored cod sj = Inr b \<Longrightarrow> dec_stored cod b = Inr sj"
    and text_codec: "to_text cod (of_text cod x) = Inr x"
    and uuid_codec: "uuid_parse cod (uuid_str cod i) = Some i"
begin

lemma uuid_str_inj [simp]: "uuid_str cod i = uuid_str cod k \<longleftrightarrow> i = k"
  by (metis uuid_codec option.inject)

lemma job_key_inj [simp]: "job_key cod i = job_key cod k \<longleftrightarrow> i = k"
  by (simp add: job_key_def)

lemma key_kinds [simp]: "job_key cod i \<noteq> idempotency_key k" "idempotency_key k \<noteq> job_key cod i"
    "prefix ''job:'' (job_key cod i)" "\<not> prefix ''job:'' (idempotency_key k)"
    "strip_prefix ''job:'' (job_key cod i) = Some (uuid_str cod i)"
  by (auto simp: job_key_def idempotency_key_def strip_prefix_def)

lemma idempotency_key_inj [simp]: "idempotency_key k = idempotency_key k' \<longleftrightarrow> k = k'"
  by (simp add: idempotency_key_def)

lemma put_facts:
  assumes "dq_inv cod m" and "enc_stored cod sj = Inr b" and "job_id (sj_job sj) = i"
  shows "dq_inv cod (m(job_key cod i \<mapsto> b))"
    "dq_abs cod (m(job_key cod i \<mapsto> b)) = (dq_abs cod m)(i \<mapsto> sj_abs sj)"
    "dq_keys cod (m(job_key cod i \<mapsto> b)) = dq_keys cod m"
  using assms(1) stored_codec [OF assms(2)] assms(3)
  by (auto simp: dq_inv_def dq_abs_def dq_keys_def stored_at_def fun_eq_iff)

lemma wp_put [wp_rules]:
  assumes inv: "dq_inv cod (kvabs s)" and own: "job_id (sj_job sj) = i"
    and ok: "\<And>s'. dq_inv cod (kvabs s') \<Longrightarrow> dq_abs cod (kvabs s') = (dq_abs cod (kvabs s))(i \<mapsto> sj_abs sj) \<Longrightarrow>
        dq_keys cod (kvabs s') = dq_keys cod (kvabs s) \<Longrightarrow> Q (Inr ()) s'"
    and err: "\<And>e s'. dq_inv cod (kvabs s') \<Longrightarrow>
        dq_abs cod (kvabs s') = dq_abs cod (kvabs s) \<or> dq_abs cod (kvabs s') = (dq_abs cod (kvabs s))(i \<mapsto> sj_abs sj) \<Longrightarrow>
        dq_keys cod (kvabs s') = dq_keys cod (kvabs s) \<Longrightarrow> Q (Inl e) s'"
  shows "wp (put_stored ops cod i sj) Q s"
proof (cases "enc_stored cod sj")
  case (Inl e)
  then show ?thesis by (simp add: put_stored_def qcodec_def err inv)
next
  case (Inr b)
  note facts = put_facts [OF inv Inr own]
  have l: "Q (Inl e) s'" if "kvabs s' = kvabs s" for e s' by (rule err) (simp_all add: that inv)
  have o: "Q (Inr ()) s'" if "kvabs s' = (kvabs s)(job_key cod i \<mapsto> b)" for s'
    by (rule ok) (simp_all add: that facts)
  have l2: "Q (Inl e) s'" if "kvabs s' = (kvabs s)(job_key cod i \<mapsto> b)" for e s'
    by (rule err) (simp_all add: that facts)
  show ?thesis
    unfolding put_stored_def qstore_def qcodec_def
    by (auto simp: Inr l o l2 intro!: wp_begin wp_tset wp_commit)
qed

lemma wp_load [wp_rules]:
  assumes "\<And>sj s'. kvabs s' = kvabs s \<Longrightarrow> stored_at cod (kvabs s) (job_key cod i) = Some sj \<Longrightarrow> Q (Inr sj) s'"
    and "\<And>e s'. kvabs s' = kvabs s \<Longrightarrow> Q (Inl e) s'"
  shows "wp (load_job ops cod i) Q s"
  unfolding load_job_def qstore_def qcodec_def
  by (auto simp: stored_at_def split: option.splits sum.splits intro!: wp_get assms)

lemma stored_at_prefix:
  "dq_inv cod m \<Longrightarrow> prefix ''job:'' k \<Longrightarrow> stored_at cod m k = Some sj \<Longrightarrow> k = job_key cod (job_id (sj_job sj))"
  by (auto simp: dq_inv_def stored_at_eq)

lemma stored_own:
  "dq_inv cod m \<Longrightarrow> stored_at cod m (job_key cod i) = Some sj \<Longrightarrow> job_id (sj_job sj) = i"
  using stored_at_prefix [of m "job_key cod i" sj] by simp

lemma dq_own: "dq_inv cod m \<Longrightarrow> own_ids (dq_abs cod m)"
  by (auto simp: own_ids_def dq_abs_def sj_abs_def dest: stored_own)

text \<open>A full scan lists each key once, with its value.\<close>

lemma full_scan:
  assumes "scan_of m None None kvs"
  shows "(k, b) \<in> set kvs \<longleftrightarrow> m k = Some b" "distinct (map fst kvs)"
proof -
  have d: "distinct (map fst kvs)" and all: "\<And>k. map_of kvs k = m k"
    using assms by (auto simp: scan_of_def below_range_def)
  show "distinct (map fst kvs)" by (rule d)
  show "(k, b) \<in> set kvs \<longleftrightarrow> m k = Some b" using all d by (metis map_of_eq_Some_iff)
qed

lemma distinct_map_filter_keys:
  assumes "distinct (map fst kvs)" and "\<And>kv x. kv \<in> set kvs \<Longrightarrow> f kv = Some x \<Longrightarrow> fst kv = g x"
  shows "distinct (List.map_filter f kvs)"
  using assms
proof (induction kvs)
  case (Cons kv kvs)
  have "x \<notin> set (List.map_filter f kvs)" if "f kv = Some x" for x
    using Cons.prems(1) Cons.prems(2) [of kv x] Cons.prems(2) [of _ x] that
    by (force simp: map_filter_set)
  moreover have "distinct (List.map_filter f kvs)"
    using Cons.IH Cons.prems by simp
  ultimately show ?case
    by (cases "f kv") (simp_all add: map_filter_simps)
qed (simp add: map_filter_simps)

subsection \<open>The sweep\<close>

lemma expired_ids:
  assumes inv: "dq_inv cod m" and scan: "scan_of m None None kvs"
  shows "distinct (List.map_filter (expired_id cod t) kvs)"
    "i \<in> set (List.map_filter (expired_id cod t) kvs) \<longleftrightarrow>
       (\<exists>j w e. dq_abs cod m i = Some (j, Leased w e) \<and> e \<le> t)"
proof -
  have key: "k = job_key cod i \<and> (\<exists>j w e. dq_abs cod m i = Some (j, Leased w e) \<and> e \<le> t)"
    if kv: "m k = Some b" and x: "expired_id cod t (k, b) = Some i" for k b i
  proof -
    obtain sj w e where sj: "dec_stored cod b = Inr sj" "sj_status sj = Leased w e" "e \<le> t"
        and pre: "prefix ''job:'' k" "uuid_parse cod (drop (length ''job:'') k) = Some i"
      using x by (auto simp: expired_id_def strip_prefix_def split: option.splits sum.splits job_status.splits if_splits)
    have at: "stored_at cod m k = Some sj" by (simp add: stored_at_def kv sj)
    then have k: "k = job_key cod (job_id (sj_job sj))" using stored_at_prefix [OF inv pre(1)] by blast
    then have "i = job_id (sj_job sj)" using pre(2) by (simp add: job_key_def uuid_codec)
    then show ?thesis using k at sj by (auto simp: dq_abs_def sj_abs_def)
  qed
  show "distinct (List.map_filter (expired_id cod t) kvs)"
    using full_scan [OF scan] key by (intro distinct_map_filter_keys [of _ _ "job_key cod"]) auto
  have conv: "expired_id cod t (job_key cod i, b) = Some i"
    if "m (job_key cod i) = Some b" "dq_abs cod m i = Some (j, Leased w e)" "e \<le> t" for b j w e
    using that by (auto simp: expired_id_def dq_abs_def stored_at_def sj_abs_def uuid_codec split: sum.splits)
  show "i \<in> set (List.map_filter (expired_id cod t) kvs) \<longleftrightarrow>
       (\<exists>j w e. dq_abs cod m i = Some (j, Leased w e) \<and> e \<le> t)"
  proof
    assume "i \<in> set (List.map_filter (expired_id cod t) kvs)"
    then show "\<exists>j w e. dq_abs cod m i = Some (j, Leased w e) \<and> e \<le> t"
      using key full_scan(1) [OF scan] by (auto simp: map_filter_set)
  next
    assume "\<exists>j w e. dq_abs cod m i = Some (j, Leased w e) \<and> e \<le> t"
    then obtain j w e where je: "dq_abs cod m i = Some (j, Leased w e)" "e \<le> t" by blast
    then obtain b where "m (job_key cod i) = Some b" by (auto simp: dq_abs_def stored_at_def bind_eq_Some_conv)
    then show "i \<in> set (List.map_filter (expired_id cod t) kvs)"
      using conv je full_scan(1) [OF scan] by (force simp: map_filter_set)
  qed
qed

lemma wp_requeue:
  assumes inv: "dq_inv cod (kvabs s)" and job: "dq_abs cod (kvabs s) i = Some (j, Leased w e)"
    and ok: "\<And>s'. dq_inv cod (kvabs s') \<Longrightarrow> dq_abs cod (kvabs s') = (dq_abs cod (kvabs s))(i \<mapsto> (j, Queued)) \<Longrightarrow>
        dq_keys cod (kvabs s') = dq_keys cod (kvabs s) \<Longrightarrow> Q (Inr ()) s'"
    and err: "\<And>e s'. dq_inv cod (kvabs s') \<Longrightarrow>
        dq_abs cod (kvabs s') = dq_abs cod (kvabs s) \<or> dq_abs cod (kvabs s') = (dq_abs cod (kvabs s))(i \<mapsto> (j, Queued)) \<Longrightarrow>
        dq_keys cod (kvabs s') = dq_keys cod (kvabs s) \<Longrightarrow> Q (Inl e) s'"
  shows "wp (requeue ops cod i u) Q s"
proof -
  obtain b sj where b: "kvabs s (job_key cod i) = Some b" "dec_stored cod b = Inr sj" "sj_status sj = Leased w e" "sj_job sj = j"
    using job by (auto simp: dq_abs_def sj_abs_def stored_at_eq)
  have own: "job_id (sj_job (sj\<lparr>sj_status := Queued\<rparr>)) = i"
    using stored_own [OF inv, of i sj] b by (simp add: stored_at_eq)
  have l: "Q (Inl e) s'" if "kvabs s' = kvabs s" for e s' by (rule err) (simp_all add: that inv)
  show ?thesis
  proof (cases "enc_stored cod (sj\<lparr>sj_status := Queued\<rparr>)")
    case (Inl x)
    then show ?thesis unfolding requeue_def qstore_def qcodec_def Let_def
      by (auto simp: b l Inl intro!: wp_begin wp_tget)
  next
    case (Inr val)
    note facts = put_facts [OF inv Inr own]
    have o: "Q (Inr ()) s'" "Q (Inl x) s'" if "kvabs s' = (kvabs s)(job_key cod i \<mapsto> val)" for s' x
      by (rule ok err; simp add: that facts sj_abs_def b)+
    show ?thesis unfolding requeue_def qstore_def qcodec_def Let_def
      by (auto simp: b l o Inr intro!: wp_begin wp_tget wp_tset wp_commit)
  qed
qed

definition part_swept :: "i64 \<Rightarrow> queue_abs \<Rightarrow> queue_abs \<Rightarrow> bool" where
  "part_swept t q q' \<longleftrightarrow> (\<forall>i. q' i = q i \<or> q' i = sweep_abs t q i)"

lemma wp_sweep [wp_rules]:
  assumes inv: "dq_inv cod (kvabs s)"
    and ok: "\<And>s'. dq_inv cod (kvabs s') \<Longrightarrow> dq_abs cod (kvabs s') = sweep_abs t (dq_abs cod (kvabs s)) \<Longrightarrow>
        dq_keys cod (kvabs s') = dq_keys cod (kvabs s) \<Longrightarrow> Q (Inr ()) s'"
    and err: "\<And>e s'. dq_inv cod (kvabs s') \<Longrightarrow> part_swept t (dq_abs cod (kvabs s)) (dq_abs cod (kvabs s')) \<Longrightarrow>
        dq_keys cod (kvabs s') = dq_keys cod (kvabs s) \<Longrightarrow> Q (Inl e) s'"
  shows "wp (durable_sweep_expired ops cod t) Q s"
proof -
  let ?q = "dq_abs cod (kvabs s)"
  let ?I = "\<lambda>is (_ :: unit) s'. dq_inv cod (kvabs s') \<and> dq_keys cod (kvabs s') = dq_keys cod (kvabs s) \<and> distinct is \<and>
     dq_abs cod (kvabs s') = (\<lambda>i. if i \<in> set is then ?q i else sweep_abs t ?q i) \<and>
     (\<forall>i \<in> set is. \<exists>j w e. ?q i = Some (j, Leased w e) \<and> e \<le> t)"
  have loop: "wp (for_act is (requeue ops cod) ()) Q s1" if "?I is () s1" for "is" s1
    using that
  proof (rule wp_for [where I = ?I])
    fix i "is" and u :: unit and s2
    assume I: "?I (i # is) u s2"
    then obtain j w e where j: "?q i = Some (j, Leased w e)" "e \<le> t" by auto
    then have cur: "dq_abs cod (kvabs s2) i = Some (j, Leased w e)" and sw: "sweep_abs t ?q i = Some (j, Queued)"
      using I by (simp_all add: sweep_abs_def)
    show "wp (requeue ops cod i u) (\<lambda>r s'. case r of Inl e \<Rightarrow> Q (Inl e) s' | Inr a \<Rightarrow> ?I is a s') s2"
    proof (rule wp_requeue [OF _ cur])
      show "dq_inv cod (kvabs s2)" using I by simp
    next
      fix s'
      assume "dq_inv cod (kvabs s')" "dq_abs cod (kvabs s') = (dq_abs cod (kvabs s2))(i \<mapsto> (j, Queued))"
        "dq_keys cod (kvabs s') = dq_keys cod (kvabs s2)"
      then show "case Inr () of Inl e \<Rightarrow> Q (Inl e) s' | Inr a \<Rightarrow> ?I is a s'"
        using I sw by (auto simp: fun_eq_iff)
    next
      fix e s'
      assume "dq_inv cod (kvabs s')" "dq_keys cod (kvabs s') = dq_keys cod (kvabs s2)"
        "dq_abs cod (kvabs s') = dq_abs cod (kvabs s2) \<or> dq_abs cod (kvabs s') = (dq_abs cod (kvabs s2))(i \<mapsto> (j, Queued))"
      then show "case Inl e of Inl e \<Rightarrow> Q (Inl e) s' | Inr a \<Rightarrow> ?I is a s'"
        using I sw by (auto simp: part_swept_def intro!: err)
    qed
  next
    fix u :: unit and s2
    assume "?I [] u s2"
    then show "Q (Inr u) s2" by (auto intro!: ok)
  qed
  have start: "?I (List.map_filter (expired_id cod t) kvs) () s1"
    if "kvabs s1 = kvabs s" and "scan_of (kvabs s) None None kvs" for s1 kvs
  proof -
    have "sweep_abs t ?q i = ?q i" if "i \<notin> set (List.map_filter (expired_id cod t) kvs)" for i
      using expired_ids(2) [OF inv \<open>scan_of _ _ _ _\<close>, of i t] that
      by (cases "?q i") (auto simp: sweep_abs_def intro!: expire_status_id)
    then have "?q = (\<lambda>i. if i \<in> set (List.map_filter (expired_id cod t) kvs) then ?q i else sweep_abs t ?q i)"
      by auto
    then show ?thesis
      using inv expired_ids [OF inv \<open>scan_of _ _ _ _\<close>, where t = t] unfolding that(1) by blast
  qed
  have l: "Q (Inl e) s'" if "kvabs s' = kvabs s" for e s'
    by (rule err) (simp_all add: that inv part_swept_def)
  show ?thesis
    unfolding durable_sweep_alone qstore_def
    by (auto simp: limit_of_def l intro!: wp_gets loop [OF start])
qed

subsection \<open>The reservation\<close>

lemma candidate_jobs:
  assumes inv: "dq_inv cod m" and scan: "scan_of m None None kvs"
    and sjs: "sjs = List.map_filter (candidate cod now) kvs"
  shows "distinct (map job_id (map sj_job sjs))"
    "set (map sj_job sjs) = {j. \<exists>i. dq_abs cod m i = Some (j, Queued) \<and> job_scheduled_at j \<le> now}"
proof -
  have cand: "candidate cod now (k, b) = Some sj \<longleftrightarrow>
      prefix ''job:'' k \<and> dec_stored cod b = Inr sj \<and> sj_status sj = Queued \<and> job_scheduled_at (sj_job sj) \<le> now" for k b sj
    by (auto simp: candidate_def split: sum.splits)
  have key: "k = job_key cod (job_id (sj_job sj))" if "m k = Some b" "candidate cod now (k, b) = Some sj" for k b sj
    using that inv cand by (auto simp: dq_inv_def)
  have "distinct (List.map_filter (\<lambda>kv. map_option (\<lambda>sj. job_id (sj_job sj)) (candidate cod now kv)) kvs)"
    using full_scan [OF scan] key by (intro distinct_map_filter_keys [of _ _ "job_key cod"]) auto
  moreover have "map (\<lambda>sj. job_id (sj_job sj)) sjs =
      List.map_filter (\<lambda>kv. map_option (\<lambda>sj. job_id (sj_job sj)) (candidate cod now kv)) kvs"
    unfolding sjs by (induction kvs) (simp_all add: map_filter_simps split: option.splits)
  ultimately show "distinct (map job_id (map sj_job sjs))" by (simp add: comp_def)
  have "j \<in> set (map sj_job sjs) \<longleftrightarrow> (\<exists>i. dq_abs cod m i = Some (j, Queued) \<and> job_scheduled_at j \<le> now)" for j
  proof
    assume "j \<in> set (map sj_job sjs)"
    then obtain k b sj where kb: "m k = Some b" "candidate cod now (k, b) = Some sj" "j = sj_job sj"
      using full_scan(1) [OF scan] by (auto simp: sjs map_filter_set)
    then have "k = job_key cod (job_id j)" using key by blast
    then show "\<exists>i. dq_abs cod m i = Some (j, Queued) \<and> job_scheduled_at j \<le> now"
      using kb cand by (auto simp: dq_abs_def stored_at_def sj_abs_def intro!: exI [of _ "job_id j"])
  next
    assume "\<exists>i. dq_abs cod m i = Some (j, Queued) \<and> job_scheduled_at j \<le> now"
    then obtain i b sj where "m (job_key cod i) = Some b" "candidate cod now (job_key cod i, b) = Some sj" "j = sj_job sj"
      by (auto simp: dq_abs_def stored_at_eq sj_abs_def cand)
    then show "j \<in> set (map sj_job sjs)"
      using full_scan(1) [OF scan] by (force simp: sjs map_filter_set)
  qed
  then show "set (map sj_job sjs) = {j. \<exists>i. dq_abs cod m i = Some (j, Queued) \<and> job_scheduled_at j \<le> now}"
    by blast
qed

lemma lease_all_snoc:
  "job_id (lj_job l) \<notin> job_id ` lj_job ` set ls \<Longrightarrow>
   lease_all w (ls @ [l]) q = (lease_all w ls q)(job_id (lj_job l) \<mapsto> (lj_job l, Leased w (lj_lease_expires_at l)))"
  by (auto simp: lease_all_def fun_eq_iff map_of_eq_None_iff map_add_def image_image split: option.splits
      dest!: map_of_SomeD)

lemma lease_loop:
  assumes inv: "dq_inv cod (kvabs s)" and dist: "distinct (map (\<lambda>sj. job_id (sj_job sj)) sjs)"
    and q: "q = dq_abs cod (kvabs s)"
    and ok: "\<And>s'. dq_inv cod (kvabs s') \<Longrightarrow> dq_keys cod (kvabs s') = dq_keys cod (kvabs s) \<Longrightarrow>
        dq_abs cod (kvabs s') = lease_all w (map (lease_of x) (map sj_job sjs)) q \<Longrightarrow>
        Q (Inr (map (lease_of x) (map sj_job sjs))) s'"
    and err: "\<And>e s'. dq_inv cod (kvabs s') \<Longrightarrow> dq_keys cod (kvabs s') = dq_keys cod (kvabs s) \<Longrightarrow> Q (Inl e) s'"
  shows "wp (for_act sjs (lease_stored ops cod w x) []) Q s"
proof (rule wp_for [where I = "\<lambda>is acc s'. dq_inv cod (kvabs s') \<and> dq_keys cod (kvabs s') = dq_keys cod (kvabs s) \<and>
     acc @ map (lease_of x) (map sj_job is) = map (lease_of x) (map sj_job sjs) \<and>
     dq_abs cod (kvabs s') = lease_all w acc q"], goal_cases)
  case 1
  then show ?case by (simp add: inv q)
next
  case (2 sj "is" acc s1)
  let ?id = "job_id (sj_job sj)"
  have "map (\<lambda>l. job_id (lj_job l)) (acc @ map (lease_of x) (map sj_job (sj # is))) = map (\<lambda>sj. job_id (sj_job sj)) sjs"
    using 2 by (simp add: comp_def)
  with dist have "distinct (map (\<lambda>l. job_id (lj_job l)) (acc @ map (lease_of x) (map sj_job (sj # is))))"
    by (simp only:)
  then have fresh: "?id \<notin> job_id ` lj_job ` set acc" by (auto simp: image_image)
  show ?case
    unfolding lease_stored_def
    using 2 fresh
    by (auto intro!: wp_put err simp: sj_abs_def lease_all_snoc lease_of_def)
next
  case (3 acc s')
  then show ?case using ok [of s'] by simp
qed

lemma wp_durable_reserve:
  assumes inv: "dq_inv cod (kvabs s)"
  shows "wp (durable_reserve ops cod t now w limit lease) (\<lambda>r s'. dq_inv cod (kvabs s') \<and>
     dq_keys cod (kvabs s') = dq_keys cod (kvabs s) \<and>
     (case r of Inl _ \<Rightarrow> True | Inr out \<Rightarrow>
        reserve_post now w limit lease (sweep_abs t (dq_abs cod (kvabs s))) out (dq_abs cod (kvabs s')))) s"
proof -
  have loop: "wp (for_act (take limit (sort_key (\<lambda>sj. run_key (sj_job sj)) (List.map_filter (candidate cod now) kvs)))
       (lease_stored ops cod w (after_secs now lease)) []) (\<lambda>r s'. dq_inv cod (kvabs s') \<and>
     dq_keys cod (kvabs s') = dq_keys cod (kvabs s) \<and>
     (case r of Inl _ \<Rightarrow> True | Inr out \<Rightarrow>
        reserve_post now w limit lease (sweep_abs t (dq_abs cod (kvabs s))) out (dq_abs cod (kvabs s')))) s2"
    if inv1: "dq_inv cod (kvabs s1)" and abs1: "dq_abs cod (kvabs s1) = sweep_abs t (dq_abs cod (kvabs s))"
      and keys1: "dq_keys cod (kvabs s1) = dq_keys cod (kvabs s)"
      and s2: "kvabs s2 = kvabs s1" and scan: "scan_of (kvabs s1) None None kvs" for s1 s2 kvs
  proof -
    let ?sjs = "List.map_filter (candidate cod now) kvs"
    let ?sel = "take limit (sort_key (\<lambda>sj. run_key (sj_job sj)) ?sjs)"
    note cands = candidate_jobs [OF inv1 scan refl, of now]
    have sel: "map sj_job ?sel = chosen limit (map sj_job ?sjs)"
      by (simp add: chosen_def take_map [symmetric] sort_key_map)
    have "distinct (map job_id (map sj_job ?sel))"
      unfolding sel by (rule distinct_chosen [OF cands(1)])
    then have dist: "distinct (map (\<lambda>sj. job_id (sj_job sj)) ?sel)" by (simp add: comp_def)
    note post = chosen_reserves [OF cands(2,1), of w limit lease]
    show ?thesis
      by (rule lease_loop [OF _ dist refl]) (use post inv1 abs1 keys1 s2 in \<open>simp_all add: sel\<close>)
  qed
  show ?thesis
    unfolding durable_reserve_alone qstore_def Let_def
    by (auto simp: limit_of_def inv intro!: wp_sweep wp_gets loop)
qed

subsection \<open>The reservation among other clients\<close>

lemma wp_requeue_inv:
  assumes inv: "dq_inv cod (kvabs s)"
  shows "wp (requeue ops cod i u) (\<lambda>_ s'. dq_inv cod (kvabs s')) s"
proof -
  have put: "dq_inv cod ((kvabs s)(job_key cod i \<mapsto> val))"
    if "kvabs s (job_key cod i) = Some b" "dec_stored cod b = Inr sj" "enc_stored cod (sj\<lparr>sj_status := Queued\<rparr>) = Inr val" for b sj val
    using put_facts(1) [OF inv that(3)] stored_own [OF inv, of i sj] that(1,2) by (simp add: stored_at_eq)
  show ?thesis
    unfolding requeue_def qstore_def qcodec_def Let_def
    by (auto simp: inv put split: option.splits sum.splits job_status.splits
        intro!: wp_begin wp_tget wp_tset wp_commit wp_rollback)
qed

text \<open>What is asked of the other clients: they keep every job under its own key.\<close>

definition keeps_jobs :: "(reserve_gap \<Rightarrow> 's \<Rightarrow> 's) \<Rightarrow> bool" where
  "keeps_jobs others \<longleftrightarrow> (\<forall>g s. dq_inv cod (kvabs s) \<longrightarrow> dq_inv cod (kvabs (others g s)))"

lemma wp_sweep_among:
  assumes inv: "dq_inv cod (kvabs s)" and rely: "keeps_jobs others"
  shows "wp (durable_sweep_among ops cod others t) (\<lambda>_ s'. dq_inv cod (kvabs s')) s"
proof -
  have loop: "wp (for_act is (\<lambda>i u. bind_act (gap (others (BeforeRequeue i))) (requeue ops cod i)) u)
      (\<lambda>_ s'. dq_inv cod (kvabs s')) s1" if "dq_inv cod (kvabs s1)" for "is" u s1
    by (rule wp_for [where I = "\<lambda>_ _ s'. dq_inv cod (kvabs s')", OF that])
       (use rely in \<open>auto simp: keeps_jobs_def intro!: wp_gap wp_mono [OF wp_requeue_inv] split: sum.splits\<close>)
  show ?thesis
    unfolding durable_sweep_among_def qstore_def by (auto simp: inv limit_of_def intro!: wp_gets loop)
qed

text \<open>The other clients leave the leases of this worker alone while it writes them.\<close>

definition spares_leases :: "(reserve_gap \<Rightarrow> 's \<Rightarrow> 's) \<Rightarrow> string \<Rightarrow> i64 \<Rightarrow> bool" where
  "spares_leases others w x \<longleftrightarrow> (\<forall>i k j s. dq_abs cod (kvabs s) k = Some (j, Leased w x) \<longrightarrow>
     dq_abs cod (kvabs (others (BeforeLease i) s)) k = Some (j, Leased w x))"

lemma lease_loop_among:
  assumes inv: "dq_inv cod (kvabs s)" and rely: "keeps_jobs others"
    and dist: "distinct (map (\<lambda>sj. job_id (sj_job sj)) sjs)"
  shows "wp (for_act sjs (\<lambda>sj out. bind_act (gap (others (BeforeLease (job_id (sj_job sj))))) (\<lambda>_.
        lease_stored ops cod w x sj out)) [])
     (\<lambda>r s'. dq_inv cod (kvabs s') \<and> (\<forall>out. r = Inr out \<longrightarrow> out = map (lease_of x) (map sj_job sjs) \<and>
        (spares_leases others w x \<longrightarrow> (\<forall>l \<in> set out. dq_abs cod (kvabs s') (job_id (lj_job l)) = Some (lj_job l, Leased w x))))) s"
proof (rule wp_for [where I = "\<lambda>is acc s'. dq_inv cod (kvabs s') \<and>
     acc @ map (lease_of x) (map sj_job is) = map (lease_of x) (map sj_job sjs) \<and>
     (spares_leases others w x \<longrightarrow> (\<forall>l \<in> set acc. dq_abs cod (kvabs s') (job_id (lj_job l)) = Some (lj_job l, Leased w x)))"], goal_cases)
  case 1
  then show ?case by (simp add: inv)
next
  case (2 sj "is" acc s1)
  let ?id = "job_id (sj_job sj)"
  let ?s = "others (BeforeLease ?id) s1"
  have invs: "dq_inv cod (kvabs ?s)" using 2 rely by (simp add: keeps_jobs_def)
  have held: "dq_abs cod (kvabs ?s) (job_id (lj_job l)) = Some (lj_job l, Leased w x)"
    if "spares_leases others w x" "l \<in> set acc" for l
    using 2 that by (auto simp: spares_leases_def)
  have "map (\<lambda>l. job_id (lj_job l)) (acc @ map (lease_of x) (map sj_job (sj # is))) = map (\<lambda>sj. job_id (sj_job sj)) sjs"
    using 2 by (simp add: comp_def)
  with dist have "distinct (map (\<lambda>l. job_id (lj_job l)) (acc @ map (lease_of x) (map sj_job (sj # is))))"
    by (simp only:)
  then have fresh: "l \<in> set acc \<Longrightarrow> job_id (lj_job l) \<noteq> ?id" for l by force
  show ?case
    unfolding lease_stored_def
    using 2 invs held fresh
    by (auto intro!: wp_gap wp_put simp: sj_abs_def lease_of_def)
next
  case (3 acc s')
  then show ?case by simp
qed

lemma wp_reserve_among:
  assumes inv: "dq_inv cod (kvabs s)" and rely: "keeps_jobs others"
  shows "wp (durable_reserve_among ops cod others t now w limit lease) (\<lambda>r s'. dq_inv cod (kvabs s') \<and> (\<forall>out. r = Inr out \<longrightarrow>
      (\<exists>s1. durable_sweep_among ops cod others t s = (Inr (), s1) \<and>
        (let q = dq_abs cod (kvabs (others BeforeScan s1)) in reserve_post now w limit lease q out (lease_all w out q))) \<and>
      (spares_leases others w (after_secs now lease) \<longrightarrow>
        (\<forall>l \<in> set out. dq_abs cod (kvabs s') (job_id (lj_job l)) = Some (lj_job l, Leased w (after_secs now lease)))))) s"
    (is "wp _ ?Q s")
proof -
  let ?sel = "\<lambda>kvs. take limit (sort_key (\<lambda>sj. run_key (sj_job sj)) (List.map_filter (candidate cod now) kvs))"
  have loop: "wp (for_act (?sel kvs) (\<lambda>sj out. bind_act (gap (others (BeforeLease (job_id (sj_job sj))))) (\<lambda>_.
        lease_stored ops cod w (after_secs now lease) sj out)) []) ?Q s2"
    if run: "durable_sweep_among ops cod others t s = (Inr (), s1)" and inv1: "dq_inv cod (kvabs s1)"
      and s2: "kvabs s2 = kvabs (others BeforeScan s1)" and scan: "scan_of (kvabs (others BeforeScan s1)) None None kvs" for s1 s2 kvs
  proof -
    have inv2: "dq_inv cod (kvabs (others BeforeScan s1))" using rely inv1 by (simp add: keeps_jobs_def)
    note cands = candidate_jobs [OF inv2 scan refl, of now]
    have sel: "map sj_job (?sel kvs) = chosen limit (map sj_job (List.map_filter (candidate cod now) kvs))"
      by (simp add: chosen_def take_map [symmetric] sort_key_map)
    have "distinct (map job_id (map sj_job (?sel kvs)))"
      unfolding sel by (rule distinct_chosen [OF cands(1)])
    then have dist: "distinct (map (\<lambda>sj. job_id (sj_job sj)) (?sel kvs))" by (simp add: comp_def)
    note post = chosen_reserves [OF cands(2,1), of w limit lease]
    show ?thesis
      by (rule wp_mono [OF lease_loop_among [OF inv2 [folded s2] rely dist, of w "after_secs now lease"]])
         (use run post in \<open>auto simp: sel Let_def\<close>)
  qed
  obtain r s1 where run: "durable_sweep_among ops cod others t s = (r, s1)"
    by (cases "durable_sweep_among ops cod others t s")
  have inv1: "dq_inv cod (kvabs s1)" using wpD [OF wp_sweep_among [OF inv rely] run] .
  have inv2: "dq_inv cod (kvabs (others BeforeScan s1))" using rely inv1 by (simp add: keeps_jobs_def)
  show ?thesis
  proof (cases r)
    case (Inl e)
    then show ?thesis using run inv1 by (simp add: durable_reserve_among_def wp_def bind_act_def)
  next
    case (Inr u)
    have "wp (bind_act (gap (others BeforeScan)) (\<lambda>_. bind_act (qstore cod (kv_gets ops None None None)) (\<lambda>kvs.
        for_act (?sel kvs) (\<lambda>sj out. bind_act (gap (others (BeforeLease (job_id (sj_job sj))))) (\<lambda>_.
          lease_stored ops cod w (after_secs now lease) sj out)) []))) ?Q s1"
      unfolding qstore_def using inv2 by (auto simp: limit_of_def intro!: wp_gap wp_gets loop [OF run [unfolded Inr unit_eq [of u]] inv1])
    then show ?thesis using run Inr by (simp add: durable_reserve_among_def wp_def bind_act_def Let_def)
  qed
qed

subsection \<open>The other operations\<close>

text \<open>The same rule with the swept queue named by the state it is in.\<close>

lemma wp_sweep_named:
  assumes "dq_inv cod (kvabs s)"
    and "\<And>s'. dq_inv cod (kvabs s') \<Longrightarrow> sweep_abs t (dq_abs cod (kvabs s)) = dq_abs cod (kvabs s') \<Longrightarrow>
        dq_keys cod (kvabs s) = dq_keys cod (kvabs s') \<Longrightarrow> Q (Inr ()) s'"
    and "\<And>e s'. dq_inv cod (kvabs s') \<Longrightarrow> part_swept t (dq_abs cod (kvabs s)) (dq_abs cod (kvabs s')) \<Longrightarrow>
        dq_keys cod (kvabs s') = dq_keys cod (kvabs s) \<Longrightarrow> Q (Inl e) s'"
  shows "wp (durable_sweep_expired ops cod t) Q s"
  by (rule wp_sweep) (simp_all add: assms)

lemma stored_abs: "stored_at cod m (job_key cod i) = Some sj \<Longrightarrow> dq_abs cod m i = Some (sj_job sj, sj_status sj)"
  by (simp add: dq_abs_def sj_abs_def)

text \<open>What a single-job operation leaves: the queue as it was, or with that job rewritten.\<close>

definition rewrote :: "uuid \<Rightarrow> (job \<times> job_status \<Rightarrow> job \<times> job_status) \<Rightarrow> queue_abs \<Rightarrow> queue_abs \<Rightarrow> bool" where
  "rewrote i f q q' \<longleftrightarrow> q i \<noteq> None \<and> q' = q(i \<mapsto> f (the (q i)))"

lemma wp_durable_ack:
  assumes "dq_inv cod (kvabs s)"
  shows "wp (durable_ack ops cod now i res) (\<lambda>r s'. dq_inv cod (kvabs s') \<and> dq_keys cod (kvabs s') = dq_keys cod (kvabs s) \<and>
     (rewrote i (\<lambda>(j, _). (j, Succeeded res now)) (dq_abs cod (kvabs s)) (dq_abs cod (kvabs s')) \<or>
      (\<exists>e. r = Inl e) \<and> dq_abs cod (kvabs s') = dq_abs cod (kvabs s))) s"
  unfolding durable_ack_def
  using assms
  by (auto intro!: wp_load wp_put simp: stored_own stored_abs sj_abs_def rewrote_def)

lemma wp_durable_nack:
  assumes "dq_inv cod (kvabs s)"
  shows "wp (durable_nack ops cod now i err pol) (\<lambda>r s'. dq_inv cod (kvabs s') \<and> dq_keys cod (kvabs s') = dq_keys cod (kvabs s) \<and>
     (rewrote i (\<lambda>(j, _). nack_abs now err pol j) (dq_abs cod (kvabs s)) (dq_abs cod (kvabs s')) \<or>
      (\<exists>e. r = Inl e) \<and> dq_abs cod (kvabs s') = dq_abs cod (kvabs s))) s"
  unfolding durable_nack_def
  using assms
  by (cases pol) (auto intro!: wp_load wp_put simp: stored_own stored_abs sj_abs_def nack_abs_def rewrote_def)

lemma part_swept_jobs: "part_swept t q q' \<Longrightarrow> map_option fst (q' k) = map_option fst (q k)"
  by (auto simp: part_swept_def sweep_abs_def option.map_comp comp_def case_prod_unfold dest!: spec [of _ k])

lemma part_swept_sweep: "sweep_abs t q = q' \<Longrightarrow> part_swept t q q'"
  by (auto simp: part_swept_def)

fun renewed :: "i64 \<Rightarrow> job \<times> job_status \<Rightarrow> job \<times> job_status" where
  "renewed x (j, Leased w e) = (j, Leased w x)"
| "renewed x jst = jst"

lemma wp_durable_extend:
  assumes "dq_inv cod (kvabs s)"
  shows "wp (durable_extend_lease ops cod t now i lease) (\<lambda>r s'. dq_inv cod (kvabs s') \<and> dq_keys cod (kvabs s') = dq_keys cod (kvabs s) \<and>
     ((\<exists>w e. map_option snd (sweep_abs t (dq_abs cod (kvabs s)) i) = Some (Leased w e) \<and> now < e) \<and>
        rewrote i (renewed (after_secs now lease)) (sweep_abs t (dq_abs cod (kvabs s))) (dq_abs cod (kvabs s')) \<or>
      (\<exists>e. r = Inl e) \<and> part_swept t (dq_abs cod (kvabs s)) (dq_abs cod (kvabs s')))) s"
  unfolding durable_extend_lease_def
  using assms
  by (auto intro!: wp_sweep_named wp_load wp_put part_swept_sweep
      simp: stored_own stored_abs sj_abs_def rewrote_def not_le split: job_status.splits)

lemma wp_durable_status:
  assumes "dq_inv cod (kvabs s)"
  shows "wp (durable_status ops cod t i) (\<lambda>r s'. dq_inv cod (kvabs s') \<and> dq_keys cod (kvabs s') = dq_keys cod (kvabs s) \<and>
     (case r of Inl _ \<Rightarrow> True | Inr st \<Rightarrow> dq_abs cod (kvabs s') = sweep_abs t (dq_abs cod (kvabs s)) \<and>
        (\<exists>j. dq_abs cod (kvabs s') i = Some (j, st)))) s"
  unfolding durable_status_def
  using assms by (auto intro!: wp_sweep_named wp_load simp: stored_abs)

lemma wp_seen [wp_rules]:
  assumes "\<And>s'. kvabs s' = kvabs s \<Longrightarrow> Q (Inr (Option.bind key (dq_keys cod (kvabs s)))) s'"
    and "\<And>e s'. kvabs s' = kvabs s \<Longrightarrow> Q (Inl e) s'"
  shows "wp (seen_key ops cod key) Q s"
proof (cases key)
  case None
  then show ?thesis using assms(1) [of s] by (simp add: seen_key_def)
next
  case (Some k)
  have v: "Q (Inr (uuid_parse cod x)) s'"
    if "kvabs s' = kvabs s" "kvabs s (idempotency_key k) = Some b" "to_text cod b = Inr x" for s' b x
    using assms(1) [OF that(1)] that(2,3) by (simp add: Some dq_keys_def)
  have n: "Q (Inr None) s'" if "kvabs s' = kvabs s" "kvabs s (idempotency_key k) = None" for s'
    using assms(1) [OF that(1)] that(2) by (simp add: Some dq_keys_def)
  show ?thesis
    unfolding seen_key_def qstore_def qcodec_def
    by (auto simp: Some v n assms(2) intro!: wp_get split: option.splits sum.splits)
qed

lemma idem_facts:
  assumes "dq_inv cod m"
  shows "dq_inv cod (m(idempotency_key k \<mapsto> of_text cod (uuid_str cod i)))"
    "dq_abs cod (m(idempotency_key k \<mapsto> v)) = dq_abs cod m"
    "dq_keys cod (m(idempotency_key k \<mapsto> of_text cod (uuid_str cod i))) = (dq_keys cod m)(k \<mapsto> i)"
  using assms by (auto simp: dq_inv_def dq_abs_def dq_keys_def stored_at_def fun_eq_iff text_codec uuid_codec)

lemma wp_durable_enqueue:
  assumes inv: "dq_inv cod (kvabs s)"
  shows "wp (durable_enqueue ops cod inject j) (\<lambda>r s'. dq_inv cod (kvabs s') \<and>
     enqueue_post (\<lambda>j. j\<lparr>job_headers := inject (job_headers j)\<rparr>) j (dq_abs cod (kvabs s)) (dq_keys cod (kvabs s)) r
       (dq_abs cod (kvabs s')) (dq_keys cod (kvabs s'))) s"
proof (cases "job_max_attempts j = 0")
  case True
  then show ?thesis using inv by (simp add: durable_enqueue_def enqueue_post_def)
next
  case max: False
  let ?j = "j\<lparr>job_headers := inject (job_headers j)\<rparr>"
  let ?Q = "\<lambda>r s'. dq_inv cod (kvabs s') \<and>
     enqueue_post (\<lambda>j. j\<lparr>job_headers := inject (job_headers j)\<rparr>) j (dq_abs cod (kvabs s)) (dq_keys cod (kvabs s)) r
       (dq_abs cod (kvabs s')) (dq_keys cod (kvabs s'))"
  have same: "?Q (Inl e) s'" if "kvabs s' = kvabs s" for e s'
    using inv max by (auto simp: that enqueue_post_def Let_def split: option.splits)
  show ?thesis
  proof (cases "Option.bind (job_idempotency_key j) (dq_keys cod (kvabs s))")
    case (Some old)
    have hit: "?Q (Inr old) s'" if "kvabs s' = kvabs s" for s'
      using inv max Some by (simp add: that enqueue_post_def Let_def)
    show ?thesis unfolding durable_enqueue_def store_new_def Let_def
      using max same hit Some by (auto intro!: wp_seen)
  next
    case None
    show ?thesis
    proof (cases "enc_stored cod \<lparr>sj_job = ?j, sj_status = Queued\<rparr>")
      case (Inl e)
      then show ?thesis unfolding durable_enqueue_def store_new_def Let_def qcodec_def
        using max same None by (auto intro!: wp_seen)
    next
      case (Inr b)
      let ?m = "(kvabs s)(job_key cod (job_id j) \<mapsto> b)"
      let ?m2 = "case job_idempotency_key j of None \<Rightarrow> ?m
        | Some k \<Rightarrow> ?m(idempotency_key k \<mapsto> of_text cod (uuid_str cod (job_id j)))"
      note facts = put_facts [OF inv Inr, of "job_id j"]
      have stored: "?Q (Inr (job_id j)) s'" "?Q (Inl e) s'" if "kvabs s' = ?m2" for e s'
        using facts idem_facts [of ?m] max None
        by (auto simp: that enqueue_post_def Let_def sj_abs_def split: option.splits)
      show ?thesis
        unfolding durable_enqueue_def store_new_def Let_def qcodec_def qstore_def
        using max same stored None Inr
        by (cases "job_idempotency_key j")
           (auto intro!: wp_seen wp_begin wp_tset wp_commit wp_gets)
    qed
  qed
qed

end

sublocale durable_over \<subseteq> dq: job_queue "durable_enqueue ops cod inject" "durable_reserve ops cod"
  "durable_ack ops cod" "durable_nack ops cod" "durable_extend_lease ops cod" "durable_status ops cod"
  "\<lambda>j. j\<lparr>job_headers := inject (job_headers j)\<rparr>" "\<lambda>s. dq_inv cod (kvabs s)" "\<lambda>s. dq_abs cod (kvabs s)"
  "\<lambda>s. dq_keys cod (kvabs s)" for inject
proof (unfold_locales, goal_cases)
  case (1 s) then show ?case by (rule dq_own)
next
  case (2 s j r s') then show ?case using wpD [OF wp_durable_enqueue] by blast
next
  case (3 s t now w limit lease b s') then show ?case using wpD [OF wp_durable_reserve] by blast
next
  case (4 s t now w limit lease out s') then show ?case using wpD [OF wp_durable_reserve [OF 4(1)] 4(2)] by simp
next
  case (5 s now i res d s') then show ?case using wpD [OF wp_durable_ack] by blast
next
  case (6 s now i res u s') then show ?case using wpD [OF wp_durable_ack [OF 6(1)] 6(2)] by (auto simp: rewrote_def)
next
  case (7 s now i res e s') then show ?case using wpD [OF wp_durable_ack [OF 7(1)] 7(2)] by (auto simp: rewrote_def)
next
  case (8 s now i err pol d s') then show ?case using wpD [OF wp_durable_nack] by blast
next
  case (9 s now i err pol u s') then show ?case using wpD [OF wp_durable_nack [OF 9(1)] 9(2)] by (auto simp: rewrote_def)
next
  case (10 s now i err pol e s') then show ?case using wpD [OF wp_durable_nack [OF 10(1)] 10(2)] by (auto simp: rewrote_def)
next
  case (11 s t now i lease d s') then show ?case using wpD [OF wp_durable_extend] by blast
next
  case (12 s t now i lease d s' k)
  have sw: "map_option fst (sweep_abs t (dq_abs cod (kvabs s)) k) = map_option fst (dq_abs cod (kvabs s) k)"
    by (rule part_swept_jobs [OF part_swept_sweep [OF refl]])
  have ren: "fst (renewed x e) = fst e" for x e by (cases "(x, e)" rule: renewed.cases) auto
  from wpD [OF wp_durable_extend [OF 12(1)] 12(2)] show ?case
    using sw part_swept_jobs by (auto simp: rewrote_def ren)
next
  case (13 s t now i lease d s' k)
  then show ?case using wpD [OF wp_durable_extend [OF 13(1)] 13(2)] by (auto simp: rewrote_def part_swept_def)
next
  case (14 s t now i lease u s')
  then show ?case using wpD [OF wp_durable_extend [OF 14(1)] 14(2)] by (auto simp: rewrote_def)
next
  case (15 s t i a s') then show ?case using wpD [OF wp_durable_status [OF 15(1)] 15(2)] by (auto split: sum.splits)
next
  case (16 s t now i lease d s')
  then show ?case using wpD [OF wp_durable_extend [OF 16(1)] 16(2)] sweep_abs_leased [of t "dq_abs cod (kvabs s)" i]
    by (auto simp: rewrote_def part_swept_def)
qed

context durable_over
begin

lemma durable_twice:
  assumes "dq_inv cod (kvabs s)"
    and "durable_enqueue ops cod inject j s = (Inr i, s1)" and "job_idempotency_key j = Some k"
    and "durable_enqueue ops cod inject j' s1 = (Inr i', s2)" and "job_idempotency_key j' = Some k"
  shows "i' = i \<and> dq_abs cod (kvabs s2) = dq_abs cod (kvabs s1) \<and> dq_keys cod (kvabs s2) = dq_keys cod (kvabs s1)"
  using assms by (rule dq.enqueue_twice)

lemma durable_disjoint:
  assumes "dq_inv cod (kvabs s)" and "durable_reserve ops cod t1 n1 w1 k1 d1 s = (Inr out1, s1)"
    and "durable_reserve ops cod t2 n2 w2 k2 d2 s1 = (Inr out2, s2)" and "t2 < after_secs n1 d1"
  shows "(\<lambda>l. job_id (lj_job l)) ` set out1 \<inter> (\<lambda>l. job_id (lj_job l)) ` set out2 = {}"
  using assms by (rule dq.reservations_disjoint)

end

section \<open>On the in-memory store\<close>

datatype queue_val = QJob stored_job | QText string

definition plain_queue_codec :: "queue_val queue_codec" where
  "plain_queue_codec = \<lparr>
     enc_stored = (\<lambda>sj. Inr (QJob sj)),
     dec_stored = (\<lambda>v. case v of QJob sj \<Rightarrow> Inr sj | QText _ \<Rightarrow> Inl ''expected value''),
     of_text = QText,
     to_text = (\<lambda>v. case v of QText s \<Rightarrow> Inr s | QJob _ \<Rightarrow> Inl ''invalid utf-8''),
     uuid_str = (\<lambda>u. decimal (unat u)),
     uuid_parse = (\<lambda>s. Some (word_of_nat (read_decimal s))),
     show_store = (\<lambda>e. case e of SFenced r \<Rightarrow> r | SOther r \<Rightarrow> r)\<rparr>"

interpretation memdq: durable_over mem_ops mem_abs map_of plain_queue_codec
  by unfold_locales (auto simp: plain_queue_codec_def read_decimal_decimal)

section \<open>Properties\<close>

text \<open>
  C10: a reservation of the durable backend among other clients of the store. Between its sweep, its scan and each of its lease
  writes the others may do anything that keeps every job under its own key. The reservation keeps that too, whatever fails. A batch
  it returns is the batch of the contract for the queue as it was at the scan: at most the limit, each job once, queued and
  due at the scan, in the order of priority and age, none left out before a full batch, with the expiry of the lease. If the
  others leave the leases of this worker alone while it writes them, every job of the batch is leased to it at the end.
  If they do nothing in the gaps, the whole reservation meets the contract of the in-memory backend.
\<close>

theorem durable_reserve_refines:
  assumes "durable_over ops kvabs txov cod" and "dq_inv cod (kvabs s)"
    and "\<And>g s. dq_inv cod (kvabs s) \<Longrightarrow> dq_inv cod (kvabs (others g s))"
    and "durable_reserve_among ops cod others t now w limit lease s = (r, s')"
  shows "dq_inv cod (kvabs s') \<and> (\<forall>out. r = Inr out \<longrightarrow>
    (\<exists>s1. durable_sweep_among ops cod others t s = (Inr (), s1) \<and>
       (let q = dq_abs cod (kvabs (others BeforeScan s1)) in reserve_post now w limit lease q out (lease_all w out q))) \<and>
    ((\<forall>i k j s. dq_abs cod (kvabs s) k = Some (j, Leased w (after_secs now lease)) \<longrightarrow>
         dq_abs cod (kvabs (others (BeforeLease i) s)) k = Some (j, Leased w (after_secs now lease))) \<longrightarrow>
       (\<forall>l \<in> set out. dq_abs cod (kvabs s') (job_id (lj_job l)) = Some (lj_job l, Leased w (after_secs now lease)))) \<and>
    ((\<forall>g s. others g s = s) \<longrightarrow>
       reserve_post now w limit lease (sweep_abs t (dq_abs cod (kvabs s))) out (dq_abs cod (kvabs s'))))"
proof -
  have rely: "durable_over.keeps_jobs kvabs cod others"
    using assms(3) by (simp add: durable_over.keeps_jobs_def [OF assms(1)])
  have alone: "reserve_post now w limit lease (sweep_abs t (dq_abs cod (kvabs s))) out (dq_abs cod (kvabs s'))"
    if "\<forall>g s. others g s = s" and "r = Inr out" for out
  proof -
    have "others = (\<lambda>_ s. s)" using that(1) by (simp add: fun_eq_iff)
    then have "durable_reserve ops cod t now w limit lease s = (r, s')" using assms(4) by (simp add: durable_reserve_def)
    from wpD [OF durable_over.wp_durable_reserve [OF assms(1,2)] this] that(2) show ?thesis by simp
  qed
  from wpD [OF durable_over.wp_reserve_among [OF assms(1,2) rely] assms(4)] alone show ?thesis
    unfolding durable_over.spares_leases_def [OF assms(1)] by blast
qed

definition keyed_job :: "uuid \<Rightarrow> job" where
  "keyed_job i = \<lparr>job_id = i, job_kind = ''mail'', job_payload = [], job_priority = 0, job_attempt = 0,
      job_max_attempts = 2, job_created_at = 10, job_scheduled_at = 10, job_idempotency_key = Some ''k'',
      job_headers = []\<rparr>"

definition demo_durable :: "queue_val mem_kv" where
  "demo_durable = \<lparr>mem_data = [(job_key plain_queue_codec 7, QJob \<lparr>sj_job =
     \<lparr>job_id = 7, job_kind = ''mail'', job_payload = [], job_priority = 0, job_attempt = 0,
      job_max_attempts = 2, job_created_at = 10, job_scheduled_at = 10, job_idempotency_key = Some ''k'',
      job_headers = []\<rparr>, sj_status = Queued\<rparr>)], mem_fenced = False\<rparr>"

lemma demo_durable_inv: "dq_inv plain_queue_codec (mem_abs demo_durable)"
  by (simp add: dq_inv_def mem_abs_def demo_durable_def plain_queue_codec_def split: queue_val.splits)

lemmas durable_run_defs = durable_reserve_alone durable_sweep_alone qstore_def qcodec_def expired_id_def
  candidate_def lease_stored_def put_stored_def act_defs

lemmas durable_mem_defs = durable_run_defs mem_ops_def mem_gets_def mem_list_def limit_of_def in_range_def mem_write_def
  plain_queue_codec_def job_key_def strip_prefix_def map_filter_simps Let_def

text \<open>Another client empties the store while the reservation is between its scan and its write.\<close>

definition emptied :: "reserve_gap \<Rightarrow> queue_val mem_kv \<Rightarrow> queue_val mem_kv" where
  "emptied g s = (case g of BeforeLease i \<Rightarrow> s\<lparr>mem_data := []\<rparr> | _ \<Rightarrow> s)"

lemma emptied_inv: "dq_inv plain_queue_codec (mem_abs s) \<Longrightarrow> dq_inv plain_queue_codec (mem_abs (emptied g s))"
  by (auto simp: dq_inv_def emptied_def mem_abs_def split: reserve_gap.splits)

theorem durable_reserve_refines_witness:
  "\<exists>out s'. durable_reserve_among mem_ops plain_queue_codec emptied 20 20 ''w'' 4 30 demo_durable = (Inr out, s') \<and>
     map (\<lambda>l. job_id (lj_job l)) out = [7] \<and> dq_inv plain_queue_codec (mem_abs s') \<and>
     (\<exists>s1. durable_sweep_among mem_ops plain_queue_codec emptied 20 demo_durable = (Inr (), s1))"
proof -
  obtain out s' where run: "durable_reserve_among mem_ops plain_queue_codec emptied 20 20 ''w'' 4 30 demo_durable = (Inr out, s')"
    and out: "map (\<lambda>l. job_id (lj_job l)) out = [7]"
    by (simp add: durable_reserve_among_def durable_sweep_among_def gap_def durable_mem_defs emptied_def demo_durable_def)
  with durable_reserve_refines [OF memdq.durable_over_axioms demo_durable_inv emptied_inv run] show ?thesis by auto
qed

text \<open>
  C11: the write that leases a job does not read the job again. On a store that answers every call and holds one
  job, queued and due, let the whole reservation of one worker run between the scan and the lease write of another. Both return
  the job, each with its own lease, and the stored lease is that of the one that wrote last.
\<close>

definition rival :: "i64 \<Rightarrow> i64 \<Rightarrow> string \<Rightarrow> nat \<Rightarrow> u64 \<Rightarrow> reserve_gap \<Rightarrow> queue_val mem_kv \<Rightarrow> queue_val mem_kv" where
  "rival t now w limit lease g s = (case g of
     BeforeLease i \<Rightarrow> snd (durable_reserve mem_ops plain_queue_codec t now w limit lease s)
   | _ \<Rightarrow> s)"

theorem durable_reserve_race:
  assumes "s = \<lparr>mem_data = [(job_key plain_queue_codec (job_id j), QJob \<lparr>sj_job = j, sj_status = Queued\<rparr>)], mem_fenced = False\<rparr>"
    and "job_scheduled_at j \<le> na" and "job_scheduled_at j \<le> nb" and "0 < ka" and "0 < kb"
  shows "\<exists>sa sb. durable_reserve mem_ops plain_queue_codec tb nb b kb lb s = (Inr [lease_of (after_secs nb lb) j], sb) \<and>
     durable_reserve_among mem_ops plain_queue_codec (rival tb nb b kb lb) ta na a ka la s = (Inr [lease_of (after_secs na la) j], sa) \<and>
     dq_abs plain_queue_codec (mem_abs sb) (job_id j) = Some (j, Leased b (after_secs nb lb)) \<and>
     dq_abs plain_queue_codec (mem_abs sa) (job_id j) = Some (j, Leased a (after_secs na la))"
proof -
  obtain ka' kb' where k: "ka = Suc ka'" "kb = Suc kb'" using assms(4,5) by (metis Suc_pred)
  show ?thesis
    using assms(2,3)
    by (simp add: assms(1) k durable_reserve_among_def durable_sweep_among_def gap_def rival_def durable_mem_defs
        dq_abs_def stored_at_def sj_abs_def mem_abs_def lease_of_def)
qed

theorem durable_reserve_race_witness:
  "\<exists>sa sb. durable_reserve mem_ops plain_queue_codec 20 20 ''b'' 4 30 demo_durable = (Inr [lease_of (after_secs 20 30) (keyed_job 7)], sb) \<and>
     durable_reserve_among mem_ops plain_queue_codec (rival 20 20 ''b'' 4 30) 20 19 ''a'' 4 30 demo_durable =
       (Inr [lease_of (after_secs 19 30) (keyed_job 7)], sa)"
  using durable_reserve_race [of demo_durable "keyed_job 7" 19 20 4 4 20 "''b''" 30 20 "''a''" 30]
  by (auto simp: demo_durable_def keyed_job_def)

text \<open>
  A failure of a job in the durable backend is one atomic change. Whether the call
  returns or fails in the store, the job has exactly the successor the retry policy gives it, or
  nothing has changed; a call that returns has changed it, and no other job or idempotency key is touched.
\<close>

theorem durable_nack_atomic:
  assumes "durable_over ops kvabs txov cod" and "dq_inv cod (kvabs s)"
    and "durable_nack ops cod now i err pol s = (r, s')"
  shows "dq_keys cod (kvabs s') = dq_keys cod (kvabs s) \<and>
    ((\<exists>j st. dq_abs cod (kvabs s) i = Some (j, st) \<and>
        dq_abs cod (kvabs s') = (dq_abs cod (kvabs s))(i \<mapsto> nack_abs now err pol j)) \<or>
     (\<exists>e. r = Inl e) \<and> dq_abs cod (kvabs s') = dq_abs cod (kvabs s))"
  using wpD [OF durable_over.wp_durable_nack [OF assms(1,2)] assms(3)]
  by (auto simp: durable_over.rewrote_def [OF assms(1)])

theorem durable_nack_atomic_witness:
  "(let (r, s') = durable_nack mem_ops plain_queue_codec 20 7 ''e'' NoRetry (demo_durable\<lparr>mem_fenced := True\<rparr>)
    in (\<exists>e. r = Inl e) \<and> dq_abs plain_queue_codec (mem_abs s') 7 \<noteq> None)"
proof -
  let ?s = "demo_durable\<lparr>mem_fenced := True\<rparr>"
  obtain r s' where run: "durable_nack mem_ops plain_queue_codec 20 7 ''e'' NoRetry ?s = (r, s')"
    by (cases "durable_nack mem_ops plain_queue_codec 20 7 ''e'' NoRetry ?s")
  have abs: "mem_abs ?s = mem_abs demo_durable" by (simp add: mem_abs_def)
  have e: "\<exists>e. r = Inl e" using run
    by (auto simp: durable_nack_def load_job_def put_stored_def qstore_def qcodec_def act_defs mem_ops_def
        mem_write_def demo_durable_def plain_queue_codec_def job_key_def)
  have "dq_abs plain_queue_codec (mem_abs demo_durable) 7 \<noteq> None"
    by (simp add: dq_abs_def stored_at_def mem_abs_def demo_durable_def plain_queue_codec_def)
  with durable_nack_atomic [OF memdq.durable_over_axioms _ run] demo_durable_inv e show ?thesis
    by (auto simp: run abs)
qed

text \<open>
  An enqueue of the durable backend with an idempotency key whose job is stored returns that job
  and changes nothing, when no other enqueue of the key runs in between.
\<close>

theorem durable_enqueue_idempotent:
  assumes "durable_over ops kvabs txov cod" and "dq_inv cod (kvabs s)"
    and "durable_enqueue ops cod inject j s = (Inr i, s1)" and "job_idempotency_key j = Some k"
    and "durable_enqueue ops cod inject j' s1 = (Inr i', s2)" and "job_idempotency_key j' = Some k"
  shows "i' = i \<and> dq_abs cod (kvabs s2) = dq_abs cod (kvabs s1) \<and> dq_keys cod (kvabs s2) = dq_keys cod (kvabs s1)"
  by (rule durable_over.durable_twice [OF assms])


lemmas durable_enqueue_run_defs = durable_enqueue_def seen_key_def store_new_def qstore_def qcodec_def act_defs
  mem_ops_def mem_write_def plain_queue_codec_def job_key_def idempotency_key_def keyed_job_def Let_def

theorem durable_enqueue_idempotent_witness:
  "\<exists>s1 s2. durable_enqueue mem_ops plain_queue_codec id (keyed_job 1) \<lparr>mem_data = [], mem_fenced = False\<rparr> = (Inr 1, s1) \<and>
     durable_enqueue mem_ops plain_queue_codec id (keyed_job 2) s1 = (Inr 1, s2) \<and>
     dq_abs plain_queue_codec (mem_abs s2) = dq_abs plain_queue_codec (mem_abs s1)"
proof -
  let ?s = "\<lparr>mem_data = [], mem_fenced = False\<rparr>"
  obtain s1 where r1: "durable_enqueue mem_ops plain_queue_codec id (keyed_job 1) ?s = (Inr 1, s1)"
    by (simp add: durable_enqueue_run_defs)
  moreover obtain s2 where r2: "durable_enqueue mem_ops plain_queue_codec id (keyed_job 2) s1 = (Inr 1, s2)"
    using r1 by (auto simp: durable_enqueue_run_defs read_decimal_decimal)
  moreover have "dq_inv plain_queue_codec (mem_abs ?s)" by (simp add: dq_inv_def mem_abs_def)
  ultimately show ?thesis
    using durable_enqueue_idempotent [OF memdq.durable_over_axioms _ r1 _ r2, of "''k''"]
    by (auto simp: keyed_job_def)
qed

text \<open>
  The check of the idempotency key and the write of the job are two steps, and only the write
  is a transaction. On a store that answers every call and does not hold the key, two enqueues of the key
  whose checks both run before either write both see no earlier job, both answer
  with their own id, and both jobs are queued.
\<close>

theorem durable_enqueue_race:
  assumes "\<not> mem_fenced s" and "map_of (mem_data s) (idempotency_key k) = None"
    and "job_idempotency_key j1 = Some k" and "job_idempotency_key j2 = Some k" and "job_id j1 \<noteq> job_id j2"
  shows "\<exists>s3 s4. seen_key mem_ops plain_queue_codec (job_idempotency_key j1) s = (Inr None, s) \<and>
     seen_key mem_ops plain_queue_codec (job_idempotency_key j2) s = (Inr None, s) \<and>
     store_new mem_ops plain_queue_codec j1 s = (Inr (job_id j1), s3) \<and>
     store_new mem_ops plain_queue_codec j2 s3 = (Inr (job_id j2), s4) \<and>
     dq_abs plain_queue_codec (mem_abs s4) (job_id j1) = Some (j1, Queued) \<and>
     dq_abs plain_queue_codec (mem_abs s4) (job_id j2) = Some (j2, Queued)"
proof -
  have inj: "decimal (unat (job_id j1)) \<noteq> decimal (unat (job_id j2))"
    using assms(5) decimal_inj by (metis word_unat_eq_iff)
  show ?thesis
    using assms(1-4) inj
    by (auto simp: seen_key_def store_new_def qstore_def qcodec_def act_defs mem_ops_def mem_write_def
        plain_queue_codec_def job_key_def idempotency_key_def Let_def dq_abs_def stored_at_def mem_abs_def
        sj_abs_def)
qed

theorem durable_enqueue_race_witness:
  "\<exists>s3 s4. store_new mem_ops plain_queue_codec (keyed_job 1) \<lparr>mem_data = [], mem_fenced = False\<rparr> = (Inr 1, s3) \<and>
     store_new mem_ops plain_queue_codec (keyed_job 2) s3 = (Inr 2, s4)"
  using durable_enqueue_race [of "\<lparr>mem_data = [], mem_fenced = False\<rparr>" "''k''" "keyed_job 1" "keyed_job 2"]
  by (auto simp: keyed_job_def)

end
