(* ===== verification/Queue_Worker.thy ===== *)
theory Queue_Worker
  imports Memory_Queue Durable_Queue
begin

text \<open>
  The worker of \<^verbatim>\<open>src/src/queue/worker.rs\<close>, a client of any backend. A handler is code of the
  application: its kind and what it answers for a job are parameters. The clock readings of a
  run, the renewals of the lease while a handler runs and the number of rounds before
  cancellation are inputs of the model; sleeping, spans and metrics are left out.
\<close>

section \<open>The code\<close>

record 's jq_ops =
  jq_reserve :: "i64 \<Rightarrow> i64 \<Rightarrow> string \<Rightarrow> nat \<Rightarrow> u64 \<Rightarrow> ('s, queue_error, leased_job list) act"
  jq_ack :: "i64 \<Rightarrow> uuid \<Rightarrow> bytes option \<Rightarrow> ('s, queue_error, unit) act"
  jq_nack :: "i64 \<Rightarrow> uuid \<Rightarrow> string \<Rightarrow> retry_policy \<Rightarrow> ('s, queue_error, unit) act"
  jq_extend :: "i64 \<Rightarrow> i64 \<Rightarrow> uuid \<Rightarrow> u64 \<Rightarrow> ('s, queue_error, unit) act"

type_synonym handler = "string \<times> (job \<Rightarrow> string + bytes option)"

record 's queue_worker =
  qw_queue :: "'s jq_ops"
  qw_handlers :: "handler list"
  qw_worker_id :: string
  qw_batch_size :: nat
  qw_lease :: u64

definition worker_new :: "'s jq_ops \<Rightarrow> handler list \<Rightarrow> string \<Rightarrow> 's queue_worker" where
  "worker_new q hs w = \<lparr>qw_queue = q, qw_handlers = hs, qw_worker_id = w, qw_batch_size = 4, qw_lease = 30\<rparr>"

definition with_batch_size :: "nat \<Rightarrow> 's queue_worker \<Rightarrow> 's queue_worker" where
  "with_batch_size n w = w\<lparr>qw_batch_size := n\<rparr>"

definition with_lease :: "u64 \<Rightarrow> 's queue_worker \<Rightarrow> 's queue_worker" where
  "with_lease l w = w\<lparr>qw_lease := l\<rparr>"

definition handler_for :: "'s queue_worker \<Rightarrow> string \<Rightarrow> handler option" where
  "handler_for w kind = find (\<lambda>h. fst h = kind) (qw_handlers w)"

text \<open>What the clock shows during one job: at each renewal (sweep, renewal), and at its end.\<close>

record job_times =
  jt_ticks :: "(i64 \<times> i64) list"
  jt_finished :: i64

fun lease_extender :: "'s queue_worker \<Rightarrow> uuid \<Rightarrow> (i64 \<times> i64) list \<Rightarrow> 's \<Rightarrow> 's" where
  "lease_extender w i [] s = s"
| "lease_extender w i ((t, now) # ticks) s =
     lease_extender w i ticks (snd (jq_extend (qw_queue w) t now i (qw_lease w) s))"

definition process :: "'s queue_worker \<Rightarrow> job_times \<Rightarrow> leased_job \<Rightarrow> 's \<Rightarrow> 's" where
  "process w jt leased s =
     (let job = lj_job leased; i = job_id job; now = jt_finished jt in
      case handler_for w (job_kind job) of
        None \<Rightarrow> snd (jq_nack (qw_queue w) now i ''no handler for kind'' NoRetry s)
      | Some h \<Rightarrow>
          let s1 = lease_extender w i (jt_ticks jt) s in
          (case snd h job of
             Inr res \<Rightarrow> snd (jq_ack (qw_queue w) now i res s1)
           | Inl e \<Rightarrow> snd (jq_nack (qw_queue w) now i e (Retry 1) s1)))"

text \<open>
  \<open>run\<close>: one round per pass of the loop. A failed or an empty reservation is followed by a
  sleep and the next pass; otherwise the batch is processed in order.
\<close>

fun process_all :: "'s queue_worker \<Rightarrow> (leased_job \<times> job_times) list \<Rightarrow> 's \<Rightarrow> 's" where
  "process_all w [] s = s"
| "process_all w ((leased, jt) # jobs) s = process_all w jobs (process w jt leased s)"

fun worker_run :: "'s queue_worker \<Rightarrow> (i64 \<times> i64 \<times> (nat \<Rightarrow> job_times)) list \<Rightarrow> 's \<Rightarrow> 's" where
  "worker_run w [] s = s"
| "worker_run w ((t, now, jt) # rounds) s =
     (case jq_reserve (qw_queue w) t now (qw_worker_id w) (qw_batch_size w) (qw_lease w) s of
        (Inl _, s1) \<Rightarrow> worker_run w rounds s1
      | (Inr jobs, s1) \<Rightarrow>
          if jobs = [] then worker_run w rounds s1
          else worker_run w rounds (process_all w (zip jobs (map jt [0..<length jobs])) s1))"

section \<open>What a worker does to a queue\<close>

text \<open>What becomes of a stored job when the handler for its kind has run on the leased copy.\<close>

definition settled :: "'s queue_worker \<Rightarrow> job_times \<Rightarrow> leased_job \<Rightarrow> job \<Rightarrow> job \<times> job_status" where
  "settled w jt leased j =
     (case handler_for w (job_kind (lj_job leased)) of
        None \<Rightarrow> (j, Failed ''no handler for kind'' (jt_finished jt))
      | Some h \<Rightarrow>
          (case snd h (lj_job leased) of
             Inr res \<Rightarrow> (j, Succeeded res (jt_finished jt))
           | Inl e \<Rightarrow> nack_abs (jt_finished jt) e (Retry 1) j))"

text \<open>A job that only time has touched: at most its lease has run out.\<close>

definition aged :: "(job \<times> job_status) option \<Rightarrow> (job \<times> job_status) option \<Rightarrow> bool" where
  "aged a b \<longleftrightarrow> b = a \<or> (\<exists>j w e. a = Some (j, Leased w e) \<and> b = Some (j, Queued))"

lemma aged_refl [simp]: "aged a a"
  by (simp add: aged_def)

lemma aged_trans: "aged a b \<Longrightarrow> aged b c \<Longrightarrow> aged a c"
  by (auto simp: aged_def)

lemma aged_fst: "aged a b \<Longrightarrow> map_option fst b = map_option fst a"
  by (auto simp: aged_def)

lemma aged_sweep: "aged (q k) (sweep_abs t q k)"
proof (cases "q k")
  case (Some e)
  then show ?thesis by (cases e; cases "snd e") (auto simp: aged_def sweep_abs_def)
qed (simp add: sweep_abs_def)

lemma settled_not_leased: "snd (settled w jt l j) \<noteq> Leased x e"
  by (auto simp: settled_def nack_abs_def split: option.splits sum.splits)

lemma aged_settled: "aged (Some (settled w jt l j)) b \<Longrightarrow> b = Some (settled w jt l j)"
  using settled_not_leased [of w jt l j] by (fastforce simp: aged_def)

text \<open>
  A job the worker could not answer for: it is still in the queue as it was reserved, leased to this worker or, when the lease has run
  out, queued again.
\<close>

definition unanswered :: "'s queue_worker \<Rightarrow> job \<Rightarrow> (job \<times> job_status) option \<Rightarrow> bool" where
  "unanswered w j b \<longleftrightarrow> b = Some (j, Queued) \<or> (\<exists>x. b = Some (j, Leased (qw_worker_id w) x))"

lemma aged_unanswered: "unanswered w j a \<Longrightarrow> aged a b \<Longrightarrow> unanswered w j b"
  by (auto simp: unanswered_def aged_def)

lemma unanswered_fst: "unanswered w j a \<Longrightarrow> map_option fst a = Some j"
  by (auto simp: unanswered_def)

context job_queue
begin

text \<open>A worker whose queue is this backend.\<close>

definition serves :: "'s queue_worker \<Rightarrow> bool" where
  "serves w \<longleftrightarrow> jq_reserve (qw_queue w) = q_reserve \<and> jq_ack (qw_queue w) = q_ack \<and>
     jq_nack (qw_queue w) = q_nack \<and> jq_extend (qw_queue w) = q_extend"

text \<open>The backend takes every answer for a job it holds.\<close>

definition answers :: bool where
  "answers \<longleftrightarrow> (\<forall>s i. qinv s \<longrightarrow> qabs s i \<noteq> None \<longrightarrow>
     (\<forall>now res. \<exists>s'. q_ack now i res s = (Inr (), s')) \<and> (\<forall>now err pol. \<exists>s'. q_nack now i err pol s = (Inr (), s')))"

definition outcome :: "'s queue_worker \<Rightarrow> job_times \<Rightarrow> leased_job \<Rightarrow> job \<Rightarrow> (job \<times> job_status) option \<Rightarrow> bool" where
  "outcome w jt l j b \<longleftrightarrow> b = Some (settled w jt l j) \<or> \<not> answers \<and> unanswered w j b"

lemma aged_outcome: "outcome w jt l j a \<Longrightarrow> aged a b \<Longrightarrow> outcome w jt l j b"
  unfolding outcome_def using aged_settled aged_unanswered by blast

lemma extender_ages:
  assumes "serves w" and "qinv s" and "unanswered w j (qabs s i)"
  shows "qinv (lease_extender w i ticks s) \<and> unanswered w j (qabs (lease_extender w i ticks s) i) \<and>
    (\<forall>k. k \<noteq> i \<longrightarrow> aged (qabs s k) (qabs (lease_extender w i ticks s) k))"
  using assms(2,3)
proof (induction ticks arbitrary: s)
  case (Cons tick ticks)
  obtain t now where tick: "tick = (t, now)" by (cases tick)
  obtain d s1 where run: "q_extend t now i (qw_lease w) s = (d, s1)" by (cases "q_extend t now i (qw_lease w) s")
  have s1: "qinv s1" using extend_inv [OF Cons.prems(1) run] by simp
  have own: "unanswered w j (qabs s1 i)"
    using extend_own [OF Cons.prems(1) run] Cons.prems(2) aged_unanswered [OF Cons.prems(2) aged_sweep [of "qabs s" i t]]
    by (auto simp: unanswered_def)
  have "aged (qabs s k) (qabs s1 k)" if "k \<noteq> i" for k
    using extend_others [OF Cons.prems(1) run that] aged_sweep [of "qabs s" k t] by auto
  moreover have "lease_extender w i (tick # ticks) s = lease_extender w i ticks s1"
    using assms(1) run by (simp add: tick serves_def)
  ultimately show ?case
    using Cons.IH [OF s1 own] by (auto intro: aged_trans)
qed simp

text \<open>An answer that fails leaves the job unanswered, or has gone through all the same.\<close>

lemma nack_outcome:
  assumes inv: "qinv s" and job: "unanswered w j (qabs s i)" and s': "s' = snd (q_nack now i err pol s)"
  shows "qinv s' \<and> (qabs s' i = Some (nack_abs now err pol j) \<or> \<not> answers \<and> unanswered w j (qabs s' i)) \<and>
    (\<forall>k. k \<noteq> i \<longrightarrow> qabs s' k = qabs s k)"
proof -
  obtain d where run: "q_nack now i err pol s = (d, s')" using s' by (cases "q_nack now i err pol s") simp
  have held: "qabs s i \<noteq> None" "\<And>j' st. qabs s i = Some (j', st) \<Longrightarrow> j' = j" using unanswered_fst [OF job] by auto
  have sure: "\<exists>u. d = Inr u" if answers
  proof -
    have "\<exists>s'. q_nack now i err pol s = (Inr (), s')" using that [unfolded answers_def] inv held(1) by blast
    then show ?thesis using run by auto
  qed
  have "qinv s'" using nack_inv [OF inv run] by simp
  then show ?thesis
  proof (cases d)
    case (Inr u)
    then show ?thesis using nack_law [OF inv] run held(2) \<open>qinv s'\<close> by fastforce
  next
    case (Inl e)
    then show ?thesis using nack_err [OF inv] run held(2) \<open>qinv s'\<close> sure job by fastforce
  qed
qed

lemma ack_outcome:
  assumes inv: "qinv s" and job: "unanswered w j (qabs s i)" and s': "s' = snd (q_ack now i res s)"
  shows "qinv s' \<and> (qabs s' i = Some (j, Succeeded res now) \<or> \<not> answers \<and> unanswered w j (qabs s' i)) \<and>
    (\<forall>k. k \<noteq> i \<longrightarrow> qabs s' k = qabs s k)"
proof -
  obtain d where run: "q_ack now i res s = (d, s')" using s' by (cases "q_ack now i res s") simp
  have held: "qabs s i \<noteq> None" "\<And>j' st. qabs s i = Some (j', st) \<Longrightarrow> j' = j" using unanswered_fst [OF job] by auto
  have sure: "\<exists>u. d = Inr u" if answers
  proof -
    have "\<exists>s'. q_ack now i res s = (Inr (), s')" using that [unfolded answers_def] inv held(1) by blast
    then show ?thesis using run by auto
  qed
  have "qinv s'" using ack_inv [OF inv run] by simp
  then show ?thesis
  proof (cases d)
    case (Inr u)
    then show ?thesis using ack_law [OF inv] run held(2) \<open>qinv s'\<close> by fastforce
  next
    case (Inl e)
    then show ?thesis using ack_err [OF inv] run held(2) \<open>qinv s'\<close> sure job by fastforce
  qed
qed

lemma process_settles:
  assumes w: "serves w" and inv: "qinv s" and job: "unanswered w j (qabs s i)" and i: "i = job_id (lj_job l)"
  shows "qinv (process w jt l s) \<and> outcome w jt l j (qabs (process w jt l s) i) \<and>
    (\<forall>k. k \<noteq> i \<longrightarrow> aged (qabs s k) (qabs (process w jt l s) k))"
proof -
  have q: "jq_ack (qw_queue w) = q_ack" "jq_nack (qw_queue w) = q_nack" using w by (simp_all add: serves_def)
  show ?thesis
  proof (cases "handler_for w (job_kind (lj_job l))")
    case None
    then show ?thesis using nack_outcome [OF inv job refl, of "jt_finished jt" "''no handler for kind''" NoRetry]
      by (auto simp: process_def outcome_def settled_def q i [symmetric] Let_def nack_abs_def)
  next
    case (Some h)
    note ext = extender_ages [OF w inv job, of "jt_ticks jt"]
    note inv1 = conjunct1 [OF ext] and job1 = conjunct1 [OF conjunct2 [OF ext]]
    show ?thesis
    proof (cases "snd h (lj_job l)")
      case (Inl e)
      then show ?thesis using Some ext nack_outcome [OF inv1 job1 refl, of "jt_finished jt" e "Retry 1"]
        by (auto simp: process_def outcome_def settled_def q i [symmetric] Let_def)
    next
      case (Inr res)
      then show ?thesis using Some ext ack_outcome [OF inv1 job1 refl, of "jt_finished jt" res]
        by (auto simp: process_def outcome_def settled_def q i [symmetric] Let_def)
    qed
  qed
qed

lemma process_all_settles:
  assumes w: "serves w" and "qinv s" and "distinct (map (\<lambda>(l, _). job_id (lj_job l)) jobs)"
    and "\<forall>(l, jt) \<in> set jobs. unanswered w (lj_job l) (qabs s (job_id (lj_job l)))"
  shows "qinv (process_all w jobs s) \<and>
    (\<forall>(l, jt) \<in> set jobs. outcome w jt l (lj_job l) (qabs (process_all w jobs s) (job_id (lj_job l)))) \<and>
    (\<forall>k. k \<notin> (\<lambda>(l, _). job_id (lj_job l)) ` set jobs \<longrightarrow> aged (qabs s k) (qabs (process_all w jobs s) k))"
  using assms(2-)
proof (induction jobs arbitrary: s)
  case (Cons x jobs)
  obtain l jt where x: "x = (l, jt)" by (cases x)
  let ?s1 = "process w jt l s" and ?i = "job_id (lj_job l)"
  have "unanswered w (lj_job l) (qabs s ?i)" using Cons.prems(3) by (simp add: x)
  note one = process_settles [OF w Cons.prems(1) this refl, of jt]
  have fresh: "?i \<notin> (\<lambda>(l, _). job_id (lj_job l)) ` set jobs" using Cons.prems(2) by (simp add: x)
  have "unanswered w (lj_job m) (qabs ?s1 (job_id (lj_job m)))" if m: "(m, jt') \<in> set jobs" for m jt'
  proof -
    have ne: "job_id (lj_job m) \<noteq> ?i" using fresh m by force
    have "unanswered w (lj_job m) (qabs s (job_id (lj_job m)))" using Cons.prems(3) m by auto
    then show ?thesis using one ne aged_unanswered by metis
  qed
  then have jobs1: "\<forall>(m, jt) \<in> set jobs. unanswered w (lj_job m) (qabs ?s1 (job_id (lj_job m)))"
    by auto
  have "distinct (map (\<lambda>(l, _). job_id (lj_job l)) jobs)" using Cons.prems(2) by simp
  note rest = Cons.IH [OF conjunct1 [OF one] this jobs1]
  have "outcome w jt l (lj_job l) (qabs (process_all w jobs ?s1) ?i)"
    using rest fresh one aged_outcome by blast
  moreover have "aged (qabs s k) (qabs (process_all w jobs ?s1) k)"
    if "k \<notin> (\<lambda>(l, _). job_id (lj_job l)) ` set (x # jobs)" for k
  proof -
    have "aged (qabs s k) (qabs ?s1 k)" using one that by (simp add: x)
    moreover have "aged (qabs ?s1 k) (qabs (process_all w jobs ?s1) k)" using rest that by simp
    ultimately show ?thesis by (rule aged_trans)
  qed
  ultimately show ?case using rest by (simp add: x)
qed simp

lemma round_settles:
  assumes w: "serves w" and inv: "qinv s"
    and run: "q_reserve t now (qw_worker_id w) (qw_batch_size w) (qw_lease w) s = (Inr out, s1)"
    and s2: "s2 = worker_run w [(t, now, jt)] s"
  shows "qinv s2 \<and> length out \<le> qw_batch_size w \<and>
    (\<forall>n < length out. outcome w (jt n) (out ! n) (lj_job (out ! n)) (qabs s2 (job_id (lj_job (out ! n))))) \<and>
    (\<forall>k. k \<notin> (\<lambda>l. job_id (lj_job l)) ` set out \<longrightarrow> aged (qabs s k) (qabs s2 k))"
proof -
  let ?jobs = "zip out (map jt [0..<length out])"
  note post = reserve_law [OF inv run]
  have inv1: "qinv s1" using reserve_inv [OF inv run] by simp
  have s2': "s2 = process_all w ?jobs s1"
    using w run by (simp add: s2 serves_def)
  have ids: "map (\<lambda>(l, _). job_id (lj_job l)) ?jobs = map (\<lambda>l. job_id (lj_job l)) out"
    by (intro nth_equalityI) auto
  have dist: "distinct (map (\<lambda>(l, _). job_id (lj_job l)) ?jobs)"
    unfolding ids using post by (simp add: reserve_post_def)
  have "\<forall>(l, jt) \<in> set ?jobs. unanswered w (lj_job l) (qabs s1 (job_id (lj_job l)))"
    using reserved_leased [OF inv run] by (auto simp: unanswered_def dest: set_zip_leftD)
  note all = process_all_settles [OF w inv1 dist this, folded s2']
  have each: "outcome w (jt n) (out ! n) (lj_job (out ! n)) (qabs s2 (job_id (lj_job (out ! n))))"
    if "n < length out" for n
  proof -
    have "(out ! n, jt n) \<in> set ?jobs" using that by (force simp: in_set_conv_nth)
    then show ?thesis using all by blast
  qed
  have "aged (qabs s k) (qabs s2 k)" if "k \<notin> (\<lambda>l. job_id (lj_job l)) ` set out" for k
  proof -
    have "qabs s1 k = sweep_abs t (qabs s) k"
      using post that by (auto simp: reserve_post_def lease_all_def map_of_eq_None_iff image_image split: option.splits
          dest!: map_of_SomeD)
    moreover have "(\<lambda>(l, _). job_id (lj_job l)) ` set ?jobs = (\<lambda>l. job_id (lj_job l)) ` set out"
      using arg_cong [OF ids, of set] by simp
    ultimately show ?thesis using all that aged_sweep [of "qabs s" k t] aged_trans by metis
  qed
  then show ?thesis using post each all by (simp add: reserve_post_def)
qed

end

context job_queue_total
begin

lemma total_answers: answers
  using ack_total nack_total by (simp add: answers_def)

definition no_leases :: "'a \<Rightarrow> bool" where
  "no_leases s \<longleftrightarrow> (\<forall>i j w e. qabs s i \<noteq> Some (j, Leased w e))"

lemma run_leaves_no_lease:
  assumes "serves w" and "qinv s" and "no_leases s"
  shows "qinv (worker_run w rounds s) \<and> no_leases (worker_run w rounds s)"
  using assms(2,3)
proof (induction rounds arbitrary: s)
  case (Cons r rounds)
  obtain t now jt where r: "r = (t, now, jt)" by (cases r)
  obtain out s1 where run: "q_reserve t now (qw_worker_id w) (qw_batch_size w) (qw_lease w) s = (Inr out, s1)"
    using reserve_total [OF Cons.prems(1)] by blast
  let ?s2 = "worker_run w [(t, now, jt)] s"
  note settle = round_settles [OF assms(1) Cons.prems(1) run refl, of jt]
  have "qabs ?s2 i \<noteq> Some (j, Leased x e)" for i j x e
  proof (cases "i \<in> (\<lambda>l. job_id (lj_job l)) ` set out")
    case True
    then obtain n where "n < length out" "i = job_id (lj_job (out ! n))" by (auto simp: in_set_conv_nth)
    then show ?thesis using settle total_answers settled_not_leased [of w "jt n" "out ! n" "lj_job (out ! n)" x e]
      by (auto simp: outcome_def)
  next
    case False
    then have "aged (qabs s i) (qabs ?s2 i)" using settle by blast
    then show ?thesis using Cons.prems(2) by (auto simp: aged_def no_leases_def)
  qed
  moreover have "qinv ?s2" using settle by simp
  moreover have "worker_run w (r # rounds) s = worker_run w rounds ?s2"
    using assms(1) run by (simp add: r serves_def)
  ultimately show ?case using Cons.IH [of ?s2] by (simp add: no_leases_def)
qed simp

end

section \<open>Properties\<close>

definition memory_jq :: "memory_queue jq_ops" where
  "memory_jq = \<lparr>jq_reserve = memory_reserve, jq_ack = memory_ack, jq_nack = memory_nack, jq_extend = memory_extend_lease\<rparr>"

lemma memory_serves: "qw_queue w = memory_jq \<Longrightarrow>
   job_queue.serves memory_reserve memory_ack memory_nack memory_extend_lease w"
  by (simp add: memq.serves_def memory_jq_def)


definition durable_jq :: "('s, 't, 'v) kv_ops \<Rightarrow> 'v queue_codec \<Rightarrow> 's jq_ops" where
  "durable_jq ops cod = \<lparr>jq_reserve = durable_reserve ops cod, jq_ack = durable_ack ops cod, jq_nack = durable_nack ops cod,
     jq_extend = durable_extend_lease ops cod\<rparr>"

definition mail_worker :: "memory_queue queue_worker" where
  "mail_worker = worker_new memory_jq [(''mail'', \<lambda>j. Inl ''smtp down'')] ''w''"

lemma mail_worker_fields:
  "qw_queue (with_batch_size n mail_worker) = memory_jq" "qw_worker_id (with_batch_size n mail_worker) = ''w''"
  "qw_batch_size (with_batch_size n mail_worker) = n" "qw_lease (with_batch_size n mail_worker) = 30"
  "qw_handlers (with_batch_size n mail_worker) = [(''mail'', \<lambda>j. Inl ''smtp down'')]"
  by (simp_all add: mail_worker_def worker_new_def with_batch_size_def)

text \<open>The round on the in-memory backend, and on the durable backend with a worker that has no handler.\<close>

definition bare_worker :: "queue_val mem_kv queue_worker" where
  "bare_worker = worker_new (durable_jq mem_ops plain_queue_codec) [] ''w''"


text \<open>
  A worker that runs any number of rounds against the in-memory queue leaves no lease
  behind: if none was held when it started, none is held when it stops, whatever its handlers answer.
\<close>

theorem worker_run_no_lease_left:
  assumes "qw_queue w = memory_jq" and "mq_inv s" and "\<And>i j x e. mq_abs s i \<noteq> Some (j, Leased x e)"
  shows "mq_abs (worker_run w rounds s) i \<noteq> Some (j, Leased x e)"
  using memq.run_leaves_no_lease [OF memory_serves [OF assms(1)] assms(2)] assms(3)
  by (simp add: memq.no_leases_def)

theorem worker_run_no_lease_left_witness:
  "mq_abs (worker_run mail_worker [(20, 20, \<lambda>_. \<lparr>jt_ticks = [], jt_finished = 25\<rparr>)] demo_queue) 2 \<noteq> Some (demo_job 2 5 11, Leased ''w'' 50)"
proof (rule worker_run_no_lease_left [OF _ demo_queue_inv])
  show "qw_queue mail_worker = memory_jq" by (simp add: mail_worker_def worker_new_def)
  show "mq_abs demo_queue i \<noteq> Some (j, Leased x e)" for i j x e
    by (simp add: demo_queue_def demo_job_def memory_enqueue_def memory_new_def Let_def mq_abs_def mrec_abs_def)
qed

end
