(* ===== verification/Fs_Model.thy ===== *)
theory Fs_Model
  imports Fs_Error
begin

text \<open>
  The request types of \<^verbatim>\<open>src/src/fs/model.rs\<close> and their validation. Sizes are 64-bit words, and
  the arithmetic of the checks is the machine's; the lemmas show that no accepted request makes it
  wrap around.
\<close>

section \<open>The code\<close>

record init_request =
  file_size :: u64
  part_size :: u64
  file_total_parts :: u64

record complete_request =
  cr_name :: string
  cr_mimetype :: string

definition MAX_MULTIPART_PARTS :: u64 where
  "MAX_MULTIPART_PARTS = 10000"

text \<open>\<open>u64::div_ceil\<close>: the quotient, plus one unless the division is exact.\<close>

definition div_ceil :: "u64 \<Rightarrow> u64 \<Rightarrow> u64" where
  "div_ceil a b = (if a mod b = 0 then a div b else a div b + 1)"

definition validate_init :: "init_request \<Rightarrow> fs_error + unit" where
  "validate_init r =
     (if file_size r = 0 then Inl (BadRequest ''file_size cannot be empty'')
      else if part_size r = 0 then Inl (BadRequest ''part_size cannot be zero'')
      else if file_total_parts r = 0 then Inl (BadRequest ''total_parts cannot be zero'')
      else if file_total_parts r = 1 then
        (if part_size r \<noteq> file_size r
         then Inl (BadRequest (''For a single-part upload, part_size ('' @ decimal (unat (part_size r)) @
             '') must be equal to the file_size ('' @ decimal (unat (file_size r)) @ '')''))
         else if 10 * 1024 * 1024 < file_size r
         then Inl (BadRequest ''For a single-part upload, cannot be bigger than 10 MB'')
         else Inr ())
      else if MAX_MULTIPART_PARTS < file_total_parts r
      then Inl (BadRequest (''file_total_parts must be at most '' @ decimal (unat MAX_MULTIPART_PARTS) @
             '' (S3's per-upload part limit); got '' @ decimal (unat (file_total_parts r)) @
             ''. Raise part_size (max 512 KB) to split a larger file.''))
      else if part_size r mod 1024 \<noteq> 0 \<or> \<not> part_size r \<le> 524288
      then Inl (BadRequest ''part_size must be a multiple of 1 KB up to 512 KB (e.g., 131072, 262144, 524288)'')
      else if file_total_parts r \<noteq> div_ceil (file_size r) (part_size r)
      then Inl (BadRequest (''Inconsistent math: file_total_parts must be exactly '' @ decimal (unat (div_ceil (file_size r) (part_size r))) @
             '' for a file of this size split by '' @ decimal (unat (part_size r)) @ '' bytes''))
      else
        let last_part_start = (file_total_parts r - 1) * part_size r;
            covered = file_total_parts r * part_size r in
        if file_size r \<le> last_part_start \<or> covered < file_size r
        then Inl (BadRequest (''Inconsistent math: file_size ('' @ decimal (unat (file_size r)) @ '') must be greater than '' @
               decimal (unat last_part_start) @ '' and at most '' @ decimal (unat covered)))
        else Inr ())"

definition validate_complete :: "(char \<Rightarrow> bool) \<Rightarrow> complete_request \<Rightarrow> fs_error + unit" where
  "validate_complete is_ws r =
     (if trim is_ws (cr_name r) = [] then Inl (BadRequest ''name cannot be empty'')
      else if trim is_ws (cr_mimetype r) = [] then Inl (BadRequest ''mimetype cannot be empty'')
      else Inr ())"

section \<open>What an accepted request means\<close>

text \<open>The declared length of part \<open>i\<close>: all parts are full but the last.\<close>

definition part_len :: "init_request \<Rightarrow> nat \<Rightarrow> nat" where
  "part_len r i = min (unat (part_size r)) (unat (file_size r) - i * unat (part_size r))"

lemma unat_div_ceil:
  assumes "b \<noteq> 0"
  shows "unat (div_ceil a b) = unat a div unat b + (if unat a mod unat b = 0 then 0 else 1)"
proof -
  have le: "unat a div unat b \<le> unat a" by (rule div_le_dividend)
  have lt: "unat a < 2 ^ 64" using unsigned_less [of a] by simp
  show ?thesis
  proof (cases "unat a mod unat b = 0")
    case True
    then show ?thesis by (simp add: div_ceil_def unat_eq_zero [symmetric] unat_mod_distrib unat_div_distrib)
  next
    case False
    then have "unat b \<noteq> 1" by auto
    moreover have "unat b \<noteq> 0" using assms by (simp add: unat_eq_zero)
    ultimately have "1 < unat b" by linarith
    then have "unat a div unat b < unat a"
      using False by (intro div_less_dividend) (auto intro: Nat.gr0I)
    then have "unat (a div b + 1) = unat a div unat b + 1"
      using lt by (simp add: unat_div_distrib unat_word_ariths)
    then show ?thesis using False
      by (simp add: div_ceil_def unat_eq_zero [symmetric] unat_mod_distrib)
  qed
qed

lemma ceil_bounds:
  fixes n p t :: nat
  assumes "0 < n" and "0 < p" and "t = n div p + (if n mod p = 0 then 0 else 1)"
  shows "(t - 1) * p < n" "n \<le> t * p" "0 < t"
proof -
  define q m where "q = n div p" and "m = n mod p"
  have n: "n = p * q + m" and m: "m < p" using assms(2) by (simp_all add: q_def m_def)
  have t: "t = q + (if m = 0 then 0 else 1)" using assms(3) by (simp add: q_def m_def)
  show "n \<le> t * p" using n m t by (auto simp: algebra_simps)
  show "0 < t" using n t assms(1) by (cases "m = 0") auto
  then show "(t - 1) * p < n"
    using n m t assms(2) by (cases "m = 0"; cases q) (auto simp: algebra_simps)
qed

lemma mult_no_wrap:
  assumes "unat (a :: u64) \<le> 10000" and "unat (b :: u64) \<le> 524288"
  shows "unat (a * b) = unat a * unat b"
proof -
  have "unat a * unat b \<le> 10000 * 524288" by (rule mult_le_mono [OF assms])
  then show ?thesis by (simp add: unat_word_ariths)
qed

lemma unat_dec: "a \<noteq> 0 \<Longrightarrow> unat (a - 1 :: u64) = unat a - 1"
  by (metis unat_minus_one)

lemma range_check_implied:
  assumes "0 < unat (file_size r)" and "0 < unat (part_size r)" and "unat (part_size r) \<le> 524288"
    and "unat (file_total_parts r) \<le> 10000" and "file_total_parts r = div_ceil (file_size r) (part_size r)"
  shows "\<not> file_size r \<le> (file_total_parts r - 1) * part_size r" "\<not> file_total_parts r * part_size r < file_size r"
proof -
  let ?n = "unat (file_size r)" and ?p = "unat (part_size r)" and ?t = "unat (file_total_parts r)"
  have t: "?t = ?n div ?p + (if ?n mod ?p = 0 then 0 else 1)"
    unfolding assms(5) using assms(2) by (intro unat_div_ceil) (auto simp: unat_eq_zero)
  note b = ceil_bounds [OF assms(1,2) t]
  then have t0: "file_total_parts r \<noteq> 0" by auto
  have "unat (file_total_parts r - 1) \<le> 10000" using assms(4) by (simp add: unat_dec [OF t0])
  then have "unat ((file_total_parts r - 1) * part_size r) = (?t - 1) * ?p"
    using mult_no_wrap [OF _ assms(3)] by (simp add: unat_dec [OF t0])
  then show "\<not> file_size r \<le> (file_total_parts r - 1) * part_size r"
    using b(1) by (simp add: word_le_nat_alt)
  show "\<not> file_total_parts r * part_size r < file_size r"
    using b(2) mult_no_wrap [OF assms(4,3)] by (simp add: word_less_nat_alt)
qed


lemma init_accepts_iff:
  "validate_init r = Inr () \<longleftrightarrow>
     0 < unat (file_size r) \<and> 0 < unat (part_size r) \<and>
     (unat (file_total_parts r) = 1 \<and> part_size r = file_size r \<and> unat (file_size r) \<le> 10 * 1024 * 1024 \<or>
      2 \<le> unat (file_total_parts r) \<and> unat (file_total_parts r) \<le> 10000 \<and>
      1024 dvd unat (part_size r) \<and> unat (part_size r) \<le> 524288 \<and>
      unat (file_total_parts r) = unat (file_size r) div unat (part_size r) +
        (if unat (file_size r) mod unat (part_size r) = 0 then 0 else 1))"
  (is "?l = ?r")
proof -
  let ?n = "unat (file_size r)" and ?p = "unat (part_size r)" and ?t = "unat (file_total_parts r)"
  have zero: "file_size r = 0 \<longleftrightarrow> ?n = 0" "part_size r = 0 \<longleftrightarrow> ?p = 0" "file_total_parts r = 0 \<longleftrightarrow> ?t = 0"
    by (simp_all add: unat_eq_zero)
  have one: "file_total_parts r = 1 \<longleftrightarrow> ?t = 1" by (metis unat_1 word_unat_eq_iff)
  have big: "10 * 1024 * 1024 < file_size r \<longleftrightarrow> 10485760 < ?n" "part_size r \<le> 524288 \<longleftrightarrow> ?p \<le> 524288"
      "MAX_MULTIPART_PARTS < file_total_parts r \<longleftrightarrow> 10000 < ?t"
    by (simp_all add: word_less_nat_alt word_le_nat_alt MAX_MULTIPART_PARTS_def)
  have "part_size r mod 1024 = 0 \<longleftrightarrow> unat (part_size r mod 1024) = 0" by (simp only: unat_eq_zero)
  then have kib: "part_size r mod 1024 = 0 \<longleftrightarrow> 1024 dvd ?p"
    by (simp add: unat_mod_distrib dvd_eq_mod_eq_0 del: unat_eq_zero)
  note words = zero one big kib
  have ceil: "0 < ?p \<Longrightarrow> file_total_parts r = div_ceil (file_size r) (part_size r) \<longleftrightarrow>
      ?t = ?n div ?p + (if ?n mod ?p = 0 then 0 else 1)"
    using unat_div_ceil [of "part_size r" "file_size r"] words(2) by (auto simp: word_unat_eq_iff)
  have range: "0 < ?n \<Longrightarrow> 0 < ?p \<Longrightarrow> ?p \<le> 524288 \<Longrightarrow> ?t \<le> 10000 \<Longrightarrow>
      file_total_parts r = div_ceil (file_size r) (part_size r) \<Longrightarrow>
      \<not> (file_size r \<le> (file_total_parts r - 1) * part_size r \<or> file_total_parts r * part_size r < file_size r)"
    using range_check_implied [of r] by blast
  show ?thesis
  proof (cases "?n = 0 \<or> ?p = 0 \<or> ?t = 0")
    case True
    then have "file_size r = 0 \<or> part_size r = 0 \<or> file_total_parts r = 0" using zero by blast
    then have "\<not> ?l" by (elim disjE) (simp_all add: validate_init_def)
    moreover have "\<not> ?r" using True by linarith
    ultimately show ?thesis by blast
  next
    case pos: False
    show ?thesis
    proof (cases "?t = 1")
      case True
      then have "?l \<longleftrightarrow> part_size r = file_size r \<and> ?n \<le> 10485760"
        using pos one zero unfolding validate_init_def big by (simp add: not_less)
      then show ?thesis using True pos by auto
    next
      case multi: False
      have c: "file_total_parts r = div_ceil (file_size r) (part_size r) \<longleftrightarrow>
          ?t = ?n div ?p + (if ?n mod ?p = 0 then 0 else 1)" using ceil pos by simp
      show ?thesis
      proof (cases "?t \<le> 10000 \<and> 1024 dvd ?p \<and> ?p \<le> 524288 \<and> file_total_parts r = div_ceil (file_size r) (part_size r)")
        case True
        then have ok: "\<not> (file_size r \<le> (file_total_parts r - 1) * part_size r \<or>
            file_total_parts r * part_size r < file_size r)" using range pos by blast
        have "?l" unfolding validate_init_def words Let_def if_not_P [OF ok] using True pos multi by (auto simp: not_less)
        moreover have "2 \<le> ?t" using pos multi by linarith
        ultimately show ?thesis using True pos c by auto
      next
        case False
        then have "\<not> ?l" unfolding validate_init_def words Let_def using pos multi by (auto simp: not_less)
        moreover have "\<not> ?r" using False multi c by auto
        ultimately show ?thesis by blast
      qed
    qed
  qed
qed

lemma sum_parts:
  fixes n p t :: nat
  assumes "(t - 1) * p < n" and "n \<le> t * p" and "0 < t"
  shows "(\<Sum>i<t. min p (n - i * p)) = n"
proof -
  obtain u where t: "t = Suc u" using assms(3) by (cases t) auto
  have full: "min p (n - i * p) = p" if "i < u" for i
  proof -
    have "(i + 1) * p \<le> u * p" using that by (intro mult_le_mono1) simp
    then have "p + i * p \<le> n" using assms(1) t by simp
    then show ?thesis by simp
  qed
  have "(\<Sum>i<u. min p (n - i * p)) = u * p" using full by simp
  moreover have "min p (n - u * p) = n - u * p" using assms(2) t by simp
  moreover have "u * p \<le> n" using assms(1) t by simp
  ultimately show ?thesis by (simp add: t)
qed

lemma accepted_bounds:
  assumes "validate_init r = Inr ()"
  shows "(unat (file_total_parts r) - 1) * unat (part_size r) < unat (file_size r)"
    "unat (file_size r) \<le> unat (file_total_parts r) * unat (part_size r)"
    "0 < unat (file_total_parts r)" "0 < unat (part_size r)"
proof -
  let ?n = "unat (file_size r)" and ?p = "unat (part_size r)" and ?t = "unat (file_total_parts r)"
  have pos: "0 < ?n" "0 < ?p" and ceil: "?t = ?n div ?p + (if ?n mod ?p = 0 then 0 else 1)"
    using assms [unfolded init_accepts_iff] by auto
  from ceil_bounds [OF this] show "(?t - 1) * ?p < ?n" "?n \<le> ?t * ?p" "0 < ?t" by auto
  show "0 < ?p" by (rule pos(2))
qed

section \<open>Properties\<close>

text \<open>
  The validation accepts exactly the requests of its contract, with the conditions read
  over natural numbers: one part of at most 10 MiB that is the whole file, or 2 to 10000 parts of a
  positive multiple of 1 KiB up to 512 KiB whose number is the file size divided by the part size, rounded up.
  The two final range checks never fail, and no product wraps around.
\<close>

theorem init_valid_iff:
  "validate_init r = Inr () \<longleftrightarrow>
     0 < unat (file_size r) \<and> 0 < unat (part_size r) \<and>
     (unat (file_total_parts r) = 1 \<and> part_size r = file_size r \<and> unat (file_size r) \<le> 10 * 1024 * 1024 \<or>
      2 \<le> unat (file_total_parts r) \<and> unat (file_total_parts r) \<le> 10000 \<and>
      1024 dvd unat (part_size r) \<and> unat (part_size r) \<le> 524288 \<and>
      unat (file_total_parts r) = unat (file_size r) div unat (part_size r) +
        (if unat (file_size r) mod unat (part_size r) = 0 then 0 else 1))"
  by (rule init_accepts_iff)

text \<open>
  The parts of an accepted request tile the file: their lengths add up to the file size,
  every part has at least one byte and at most \<open>part_size\<close>, and every part but the last is full.
\<close>

theorem init_parts_tile_file:
  assumes "validate_init r = Inr ()"
  shows "(\<Sum>i<unat (file_total_parts r). part_len r i) = unat (file_size r) \<and>
    (\<forall>i < unat (file_total_parts r). 0 < part_len r i \<and> part_len r i \<le> unat (part_size r) \<and>
       (i + 1 < unat (file_total_parts r) \<longrightarrow> part_len r i = unat (part_size r)))"
proof -
  let ?n = "unat (file_size r)" and ?p = "unat (part_size r)" and ?t = "unat (file_total_parts r)"
  note b = accepted_bounds [OF assms]
  have before: "k * ?p < ?n" if "k < ?t" for k
  proof -
    have "k * ?p \<le> (?t - 1) * ?p" using that by (intro mult_le_mono1) simp
    then show ?thesis using b(1) by (rule le_less_trans)
  qed
  have "0 < part_len r i" if "i < ?t" for i
    using before [OF that] b(4) by (simp add: part_len_def)
  moreover have "part_len r i = ?p" if "i + 1 < ?t" for i
    using before [OF that] by (simp add: part_len_def)
  moreover have "part_len r i \<le> ?p" for i by (simp add: part_len_def)
  ultimately show ?thesis using sum_parts [OF b(1,2,3)] by (simp add: part_len_def)
qed

theorem init_parts_tile_file_witness:
  "(let r = \<lparr>file_size = 2500, part_size = 1024, file_total_parts = 3\<rparr> in
      validate_init r = Inr () \<and> (\<Sum>i<3. part_len r i) = 2500)"
proof -
  let ?r = "\<lparr>file_size = 2500, part_size = 1024, file_total_parts = 3\<rparr>"
  have "validate_init ?r = Inr ()" by (simp add: init_accepts_iff)
  from conjunct1 [OF init_parts_tile_file [OF this]] this show ?thesis by simp
qed

text \<open>
  A completion request is accepted exactly if its name and its MIME type each hold a
  character that is not white space.
\<close>

theorem complete_valid_iff:
  "validate_complete is_ws r = Inr () \<longleftrightarrow>
     (\<exists>c \<in> set (cr_name r). \<not> is_ws c) \<and> (\<exists>c \<in> set (cr_mimetype r). \<not> is_ws c)"
proof -
  have "trim is_ws s = [] \<longleftrightarrow> (\<forall>c \<in> set s. is_ws c)" for s
  proof
    assume "trim is_ws s = []"
    then have all: "\<forall>c \<in> set (dropWhile is_ws s). is_ws c" by (simp add: trim_def dropWhile_eq_Nil_conv)
    show "\<forall>c \<in> set s. is_ws c"
    proof (cases "dropWhile is_ws s")
      case Nil
      then show ?thesis by (simp add: dropWhile_eq_Nil_conv)
    next
      case (Cons c cs)
      then show ?thesis using all hd_dropWhile [of is_ws s] by simp
    qed
  qed (auto simp: trim_def dropWhile_eq_Nil_conv dest: set_dropWhileD)
  then show ?thesis by (auto simp: validate_complete_def)
qed

end
