(* ===== verification/Fs_Store.thy ===== *)
theory Fs_Store
  imports Kv_Store Records Fencing
begin

text \<open>
  The persistence of the file system, \<^verbatim>\<open>src/src/fs/store.rs\<close> and the keys of
  \<^verbatim>\<open>src/src/fs/relation.rs\<close>: upload sessions with their staged parts and multipart records, file
  records, and the relation markers with their reference counts, all in one key-value
  store. The RAM mirror, a read-through copy, is left out. The store handle and the latch are the state; the operations of the
  key-value crate, the JSON codecs and the flag that marks the master store are the environment.
\<close>

section \<open>Records and keys\<close>

record upload_session =
  us_id :: string
  us_file_size :: u64
  us_part_size :: u64
  us_file_total_parts :: u64
  us_s3_upload_id :: "string option"
  us_s3_key :: string
  us_owner_sub :: string
  us_created_at :: i64
  us_etags :: "string option list"
  us_checksums :: "string option list"

definition is_expired :: "upload_session \<Rightarrow> i64 \<Rightarrow> i64 \<Rightarrow> bool" where
  "is_expired s now ttl \<longleftrightarrow> ttl < wrap_i64 (now - us_created_at s)"

record persisted_multipart =
  pm_upload_id :: string
  pm_bucket :: string
  pm_key :: string
  pm_s3_upload_id :: string
  pm_parts :: "(nat \<times> string) list"
  pm_created_at :: i64

record ref_info =
  ri_count :: u32
  ri_orphan_since :: "i64 option"

definition ref_info_default :: ref_info where
  "ref_info_default = \<lparr>ri_count = 0, ri_orphan_since = None\<rparr>"

record 'a record_scan =
  rs_records :: "'a list"
  rs_undecodable :: "string list"

definition rel_prefix :: string where "rel_prefix = ''fs:rel:''"
definition files_prefix :: string where "files_prefix = ''fs:files:''"
definition file_meta_suffix :: string where "file_meta_suffix = '':meta''"

definition rel_key :: "string \<Rightarrow> string \<Rightarrow> string \<Rightarrow> string" where
  "rel_key row_type row_id file_id = rel_prefix @ row_type @ '':'' @ row_id @ '':'' @ file_id"

definition refs_key :: "string \<Rightarrow> string" where
  "refs_key file_id = files_prefix @ file_id @ '':refs''"

definition rel_prefix_for_row :: "string \<Rightarrow> string \<Rightarrow> string" where
  "rel_prefix_for_row row_type row_id = rel_prefix @ row_type @ '':'' @ row_id @ '':''"

definition session_key :: "string \<Rightarrow> string" where
  "session_key i = ''fs:uploads:'' @ i @ '':meta''"

definition staged_key :: "string \<Rightarrow> nat \<Rightarrow> string" where
  "staged_key i idx = ''fs:uploads:'' @ i @ '':part:'' @ decimal idx"

definition multipart_key :: "string \<Rightarrow> string" where
  "multipart_key upload_id = ''fs:mp:'' @ upload_id"

definition file_key :: "string \<Rightarrow> string" where
  "file_key i = files_prefix @ i @ file_meta_suffix"

definition prefix_scan_end :: "string \<Rightarrow> string" where
  "prefix_scan_end p = butlast p @ '';''"

section \<open>The store handle\<close>

record 'v fs_codec =
  enc_session :: "upload_session \<Rightarrow> string + 'v"
  dec_session :: "'v \<Rightarrow> string + upload_session"
  enc_multipart :: "persisted_multipart \<Rightarrow> string + 'v"
  dec_multipart :: "'v \<Rightarrow> string + persisted_multipart"
  enc_file :: "file_record \<Rightarrow> string + 'v"
  dec_file :: "'v \<Rightarrow> string + file_record"
  enc_refs :: "ref_info \<Rightarrow> string + 'v"
  dec_refs :: "'v \<Rightarrow> string + ref_info"
  marker :: 'v

record ('s, 't, 'v) fs_env =
  fe_ops :: "('s, 't, 'v) kv_ops"
  fe_cod :: "'v fs_codec"
  fe_primary :: bool

record 's fs_store =
  fs_kv :: 's
  fs_latch :: latch

definition FS_PREFIX :: string where "FS_PREFIX = ''{db}/fs''"

definition latches :: "('s, 't, 'v) fs_env \<Rightarrow> fs_error \<Rightarrow> bool" where
  "latches env err \<longleftrightarrow> fe_primary env \<and> is_fencing_loss err"

text \<open>\<open>store_err\<close>: the conversion, and the latch of the master store.\<close>

definition store_err :: "('s, 't, 'v) fs_env \<Rightarrow> store_error \<Rightarrow> 's fs_store \<Rightarrow> fs_error \<times> 's fs_store" where
  "store_err env e w =
     (let err = fs_of_store e in
      (err, if latches env err then w\<lparr>fs_latch := trip FS_PREFIX (detail err) (fs_latch w)\<rparr> else w))"

text \<open>A call with \<open>map_err(|e| self.store_err(e))\<close>, and one with \<open>map_err(FsError::from)\<close>.\<close>

definition fs_call :: "('s, 't, 'v) fs_env \<Rightarrow> ('s, store_error, 'a) act \<Rightarrow> ('s fs_store, fs_error, 'a) act" where
  "fs_call env m w =
     (case m (fs_kv w) of
        (Inr x, s) \<Rightarrow> (Inr x, w\<lparr>fs_kv := s\<rparr>)
      | (Inl e, s) \<Rightarrow> (case store_err env e (w\<lparr>fs_kv := s\<rparr>) of (err, w') \<Rightarrow> (Inl err, w')))"

definition fs_read :: "('s, store_error, 'a) act \<Rightarrow> ('s fs_store, fs_error, 'a) act" where
  "fs_read m = focus_act fs_kv (\<lambda>s w. w\<lparr>fs_kv := s\<rparr>) (store_act m)"

definition get_one :: "('s, 't, 'v) fs_env \<Rightarrow> string \<Rightarrow> ('s fs_store, fs_error, 'v option) act" where
  "get_one env key = fs_read (kv_get (fe_ops env) key)"

definition scan_prefix :: "('s, 't, 'v) fs_env \<Rightarrow> string \<Rightarrow> ('s fs_store, fs_error, (string \<times> 'v) list) act" where
  "scan_prefix env p = fs_read (kv_gets (fe_ops env) None (Some p) (Some (prefix_scan_end p)))"

text \<open>The pattern of every loader: an absent key is \<open>Ok(None)\<close>, a bad value an internal error.\<close>

definition load_one :: "('s, 't, 'v) fs_env \<Rightarrow> ('v \<Rightarrow> string + 'a) \<Rightarrow> string \<Rightarrow> ('s fs_store, fs_error, 'a option) act" where
  "load_one env dec key =
     bind_act (get_one env key) (\<lambda>b.
     case b of None \<Rightarrow> ok_act None | Some b \<Rightarrow> bind_act (internal_of (dec b)) (\<lambda>x. ok_act (Some x)))"

definition save_one :: "('s, 't, 'v) fs_env \<Rightarrow> string + 'v \<Rightarrow> string \<Rightarrow> ('s fs_store, fs_error, unit) act" where
  "save_one env val key =
     bind_act (internal_of val) (\<lambda>v. fs_call env (kv_set (fe_ops env) key v))"

section \<open>Sessions and multipart state\<close>

definition save_session :: "('s, 't, 'v) fs_env \<Rightarrow> upload_session \<Rightarrow> ('s fs_store, fs_error, unit) act" where
  "save_session env s = save_one env (enc_session (fe_cod env) s) (session_key (us_id s))"

definition get_session :: "('s, 't, 'v) fs_env \<Rightarrow> string \<Rightarrow> ('s fs_store, fs_error, upload_session option) act" where
  "get_session env i = load_one env (dec_session (fe_cod env)) (session_key i)"

text \<open>The keys the cascade deletes, in the order of the code: the session key goes last.\<close>

definition session_keys :: "string \<Rightarrow> upload_session option \<Rightarrow> string list" where
  "session_keys i session =
     (case session of
        None \<Rightarrow> []
      | Some s \<Rightarrow> map (staged_key i) [0..<unat (us_file_total_parts s)] @
          (case us_s3_upload_id s of None \<Rightarrow> [] | Some u \<Rightarrow> [multipart_key u])) @ [session_key i]"

definition delete_session :: "('s, 't, 'v) fs_env \<Rightarrow> string \<Rightarrow> ('s fs_store, fs_error, unit) act" where
  "delete_session env i =
     bind_act (get_session env i) (\<lambda>session.
     bind_act (fs_call env (kv_begin (fe_ops env))) (\<lambda>tx.
     bind_act (for_act (session_keys i session) (\<lambda>k tx. fs_call env (tx_delete (fe_ops env) tx k)) tx) (\<lambda>tx.
     fs_call env (tx_commit (fe_ops env) tx))))"

definition save_multipart :: "('s, 't, 'v) fs_env \<Rightarrow> persisted_multipart \<Rightarrow> ('s fs_store, fs_error, unit) act" where
  "save_multipart env m = save_one env (enc_multipart (fe_cod env) m) (multipart_key (pm_upload_id m))"

definition load_multipart :: "('s, 't, 'v) fs_env \<Rightarrow> string \<Rightarrow> ('s fs_store, fs_error, persisted_multipart option) act" where
  "load_multipart env u = load_one env (dec_multipart (fe_cod env)) (multipart_key u)"

definition delete_multipart :: "('s, 't, 'v) fs_env \<Rightarrow> string \<Rightarrow> ('s fs_store, fs_error, unit) act" where
  "delete_multipart env u = fs_call env (kv_delete (fe_ops env) (multipart_key u))"

definition save_staged_part :: "('s, 't, 'v) fs_env \<Rightarrow> string \<Rightarrow> nat \<Rightarrow> 'v \<Rightarrow> ('s fs_store, fs_error, unit) act" where
  "save_staged_part env i idx data = fs_call env (kv_set (fe_ops env) (staged_key i idx) data)"

definition get_staged_part :: "('s, 't, 'v) fs_env \<Rightarrow> string \<Rightarrow> nat \<Rightarrow> ('s fs_store, fs_error, 'v option) act" where
  "get_staged_part env i idx = get_one env (staged_key i idx)"

section \<open>File records and relations\<close>

definition save_file :: "('s, 't, 'v) fs_env \<Rightarrow> file_record \<Rightarrow> ('s fs_store, fs_error, unit) act" where
  "save_file env r = save_one env (enc_file (fe_cod env) r) (file_key (fr_id r))"

definition get_file :: "('s, 't, 'v) fs_env \<Rightarrow> string \<Rightarrow> ('s fs_store, fs_error, file_record option) act" where
  "get_file env i = load_one env (dec_file (fe_cod env)) (file_key i)"

definition is_marker_of :: "string \<Rightarrow> string \<Rightarrow> bool" where
  "is_marker_of file_id k \<longleftrightarrow> prefix rel_prefix k \<and> suffix ('':'' @ file_id) k"

definition delete_file_record :: "('s, 't, 'v) fs_env \<Rightarrow> string \<Rightarrow> ('s fs_store, fs_error, unit) act" where
  "delete_file_record env i =
     bind_act (fs_call env (kv_begin (fe_ops env))) (\<lambda>tx.
     bind_act (fs_call env (tx_gets (fe_ops env) tx None (Some rel_prefix) (Some (prefix_scan_end rel_prefix)))) (\<lambda>kvs.
     bind_act (for_act kvs (\<lambda>kv tx. if is_marker_of i (fst kv)
                                     then fs_call env (tx_delete (fe_ops env) tx (fst kv)) else ok_act tx) tx) (\<lambda>tx.
     bind_act (fs_call env (tx_delete (fe_ops env) tx (file_key i))) (\<lambda>tx.
     bind_act (fs_call env (tx_delete (fe_ops env) tx (refs_key i))) (\<lambda>tx.
     fs_call env (tx_commit (fe_ops env) tx))))))"

definition get_ref_info :: "('s, 't, 'v) fs_env \<Rightarrow> string \<Rightarrow> ('s fs_store, fs_error, ref_info) act" where
  "get_ref_info env i =
     bind_act (load_one env (dec_refs (fe_cod env)) (refs_key i)) (\<lambda>r.
     ok_act (case r of None \<Rightarrow> ref_info_default | Some info \<Rightarrow> info))"

definition read_ref_info :: "('s, 't, 'v) fs_env \<Rightarrow> 't \<Rightarrow> string \<Rightarrow> ('s fs_store, fs_error, ref_info) act" where
  "read_ref_info env tx i =
     bind_act (fs_call env (tx_get (fe_ops env) tx (refs_key i))) (\<lambda>b.
     case b of None \<Rightarrow> ok_act ref_info_default | Some b \<Rightarrow> internal_of (dec_refs (fe_cod env) b))"

definition attach :: "('s, 't, 'v) fs_env \<Rightarrow> string \<Rightarrow> string \<Rightarrow> string \<Rightarrow> ('s fs_store, fs_error, u32) act" where
  "attach env row_type row_id file_id =
     (let rel = rel_key row_type row_id file_id; refs = refs_key file_id in
      bind_act (fs_call env (kv_begin (fe_ops env))) (\<lambda>tx.
      bind_act (fs_call env (tx_get (fe_ops env) tx rel)) (\<lambda>there.
      if there \<noteq> None then
        bind_act (read_ref_info env tx file_id) (\<lambda>info.
        bind_act (fs_call env (tx_rollback (fe_ops env) tx)) (\<lambda>_.
        ok_act (ri_count info)))
      else
        bind_act (read_ref_info env tx file_id) (\<lambda>info0.
        let info = \<lparr>ri_count = saturating_add_u32 (ri_count info0) 1, ri_orphan_since = None\<rparr> in
        bind_act (fs_call env (tx_set (fe_ops env) tx rel (marker (fe_cod env)))) (\<lambda>tx.
        bind_act (internal_of (enc_refs (fe_cod env) info)) (\<lambda>val.
        bind_act (fs_call env (tx_set (fe_ops env) tx refs val)) (\<lambda>tx.
        bind_act (fs_call env (tx_commit (fe_ops env) tx)) (\<lambda>_.
        ok_act (ri_count info)))))))))"

text \<open>\<open>now\<close> is read when the count drops to zero.\<close>

definition detach :: "('s, 't, 'v) fs_env \<Rightarrow> i64 \<Rightarrow> string \<Rightarrow> string \<Rightarrow> string \<Rightarrow> ('s fs_store, fs_error, u32) act" where
  "detach env now row_type row_id file_id =
     (let rel = rel_key row_type row_id file_id; refs = refs_key file_id in
      bind_act (fs_call env (kv_begin (fe_ops env))) (\<lambda>tx.
      bind_act (fs_call env (tx_get (fe_ops env) tx rel)) (\<lambda>there.
      if there = None then
        bind_act (read_ref_info env tx file_id) (\<lambda>info.
        bind_act (fs_call env (tx_rollback (fe_ops env) tx)) (\<lambda>_.
        ok_act (ri_count info)))
      else
        bind_act (read_ref_info env tx file_id) (\<lambda>info0.
        bind_act (fs_call env (tx_delete (fe_ops env) tx rel)) (\<lambda>tx.
        let count = saturating_sub_u32 (ri_count info0) 1;
            info = \<lparr>ri_count = count,
                    ri_orphan_since = (if count = 0 then Some now else ri_orphan_since info0)\<rparr> in
        bind_act (internal_of (enc_refs (fe_cod env) info)) (\<lambda>val.
        bind_act (fs_call env (tx_set (fe_ops env) tx refs val)) (\<lambda>tx.
        bind_act (fs_call env (tx_commit (fe_ops env) tx)) (\<lambda>_.
        ok_act (ri_count info)))))))))"

text \<open>The rows named by the markers of a file, as the code reads them out of the keys.\<close>

definition row_of_marker :: "string \<Rightarrow> string \<Rightarrow> (string \<times> string) option" where
  "row_of_marker file_id k =
     (if is_marker_of file_id k then
        (case split_once CHR '':'' (drop (length rel_prefix) k) of
           None \<Rightarrow> None
         | Some (ty, rem) \<Rightarrow>
             (case split_once CHR '':'' rem of None \<Rightarrow> None | Some (rid, _) \<Rightarrow> Some (ty, rid)))
      else None)"

definition rows_for_file :: "('s, 't, 'v) fs_env \<Rightarrow> string \<Rightarrow> ('s fs_store, fs_error, (string \<times> string) list) act" where
  "rows_for_file env i =
     bind_act (scan_prefix env rel_prefix) (\<lambda>kvs.
     ok_act (List.map_filter (\<lambda>kv. row_of_marker i (fst kv)) kvs))"

definition files_for_row :: "('s, 't, 'v) fs_env \<Rightarrow> string \<Rightarrow> string \<Rightarrow> ('s fs_store, fs_error, string list) act" where
  "files_for_row env row_type row_id =
     (let p = rel_prefix_for_row row_type row_id in
      bind_act (scan_prefix env p) (\<lambda>kvs.
      ok_act (remdups_adj (sort (List.map_filter
        (\<lambda>kv. case strip_prefix p (fst kv) of
           None \<Rightarrow> None
         | Some f \<Rightarrow> if f \<noteq> [] \<and> CHR '':'' \<notin> set f then Some f else None) kvs)))))"

text \<open>A scan of one key family: what decoded, and the keys that did not.\<close>

definition scan_family :: "('v \<Rightarrow> string + 'a) \<Rightarrow> string \<Rightarrow> string \<Rightarrow> (string \<times> 'v) list \<Rightarrow> 'a record_scan" where
  "scan_family dec pre suf kvs =
     (let family = filter (\<lambda>kv. prefix pre (fst kv) \<and> suffix suf (fst kv)) kvs in
      \<lparr>rs_records = List.map_filter (\<lambda>kv. case dec (snd kv) of Inr r \<Rightarrow> Some r | Inl _ \<Rightarrow> None) family,
       rs_undecodable = List.map_filter (\<lambda>kv. case dec (snd kv) of Inr _ \<Rightarrow> None | Inl _ \<Rightarrow> Some (fst kv)) family\<rparr>)"

definition list_files :: "('s, 't, 'v) fs_env \<Rightarrow> ('s fs_store, fs_error, file_record record_scan) act" where
  "list_files env =
     bind_act (scan_prefix env files_prefix) (\<lambda>kvs.
     ok_act (scan_family (dec_file (fe_cod env)) files_prefix file_meta_suffix kvs))"

definition list_sessions :: "('s, 't, 'v) fs_env \<Rightarrow> ('s fs_store, fs_error, upload_session record_scan) act" where
  "list_sessions env =
     bind_act (scan_prefix env ''fs:uploads:'') (\<lambda>kvs.
     ok_act (scan_family (dec_session (fe_cod env)) ''fs:uploads:'' '':meta'' kvs))"

section \<open>The paged walk\<close>

definition SCAN_PAGE :: nat where "SCAN_PAGE = 512"

record 'v kv_pages =
  kp_cursor :: "string option"
  kp_buffer :: "(string \<times> 'v) list"
  kp_exhausted :: bool

definition pages_new :: "'v kv_pages" where
  "pages_new = \<lparr>kp_cursor = None, kp_buffer = [], kp_exhausted = False\<rparr>"

definition drop_resume :: "string option \<Rightarrow> (string \<times> 'v) list \<Rightarrow> (string \<times> 'v) list" where
  "drop_resume cursor page =
     (case (cursor, page) of (Some resume, kv # rest) \<Rightarrow> if fst kv = resume then rest else page | _ \<Rightarrow> page)"

definition pages_next :: "('s, 't, 'v) kv_ops \<Rightarrow> 'v kv_pages \<Rightarrow>
    ('s, fs_error, (string \<times> 'v) option \<times> 'v kv_pages) act" where
  "pages_next ops p =
     (case kp_buffer p of
        kv # rest \<Rightarrow> ok_act (Some kv, p\<lparr>kp_buffer := rest\<rparr>)
      | [] \<Rightarrow>
          if kp_exhausted p then ok_act (None, p)
          else
            bind_act (store_act (kv_gets ops (Some SCAN_PAGE) (kp_cursor p) None)) (\<lambda>page0.
            case drop_resume (kp_cursor p) page0 of
              [] \<Rightarrow> ok_act (None, p\<lparr>kp_exhausted := True\<rparr>)
            | kv # rest \<Rightarrow>
                ok_act (Some kv, p\<lparr>kp_cursor := Some (fst (last (kv # rest))), kp_buffer := rest\<rparr>)))"

text \<open>
  A whole walk. The loop that drives it has no bound of its own, so it takes fuel; \<open>Inr None\<close> is
  running out of it.
\<close>

fun walk :: "nat \<Rightarrow> ('s, 't, 'v) kv_ops \<Rightarrow> 'v kv_pages \<Rightarrow> ('s, fs_error, (string \<times> 'v) list option) act" where
  "walk 0 ops p = ok_act None"
| "walk (Suc n) ops p =
     bind_act (pages_next ops p) (\<lambda>(kv, p').
     case kv of
       None \<Rightarrow> ok_act (Some [])
     | Some kv \<Rightarrow> bind_act (walk n ops p') (\<lambda>rest. ok_act (map_option ((#) kv) rest)))"

text \<open>\<open>next_file\<close>: the next record of the walk, and the keys skipped on the way.\<close>

fun next_file :: "nat \<Rightarrow> ('s, 't, 'v) fs_env \<Rightarrow> 'v kv_pages \<Rightarrow> string list \<Rightarrow>
    ('s, fs_error, ((file_record option \<times> string list) \<times> 'v kv_pages) option) act" where
  "next_file 0 env p undecodable = ok_act None"
| "next_file (Suc n) env p undecodable =
     bind_act (pages_next (fe_ops env) p) (\<lambda>(kv, p').
     case kv of
       None \<Rightarrow> ok_act (Some ((None, undecodable), p'))
     | Some kv \<Rightarrow>
         if \<not> prefix files_prefix (fst kv) \<or> \<not> suffix file_meta_suffix (fst kv)
         then next_file n env p' undecodable
         else (case dec_file (fe_cod env) (snd kv) of
                 Inr r \<Rightarrow> ok_act (Some ((Some r, undecodable), p'))
               | Inl _ \<Rightarrow> next_file n env p' (undecodable @ [fst kv])))"

section \<open>Keys\<close>

lemma scan_end_above:
  assumes "prefix (p @ '':'') k"
  shows "p @ '':'' \<le> k" "k < p @ '';''"
proof -
  obtain x where k: "k = p @ '':'' @ x" using assms by (auto elim: prefixE)
  show "p @ '':'' \<le> k" unfolding k by (induction p) auto
  show "k < p @ '';''" unfolding k
    by (simp add: list_less_def lexord_append_left_rightI less_char_def)
qed

lemma scan_covers:
  assumes "suffix '':'' p" and "prefix p k"
  shows "below_range (Some p) (Some (prefix_scan_end p)) k"
proof -
  obtain q where p: "p = q @ '':''" using assms(1) by (auto elim: suffixE)
  show ?thesis using scan_end_above [of q k] assms(2) by (simp add: below_range_def prefix_scan_end_def p)
qed

lemma family_prefixes [simp]: "suffix '':'' rel_prefix" "suffix '':'' files_prefix" "suffix '':'' ''fs:uploads:''"
    "suffix '':'' (rel_prefix_for_row t r)"
  by (auto simp: rel_prefix_def files_prefix_def rel_prefix_for_row_def suffix_def)

lemma refs_key_inj [simp]: "refs_key f = refs_key g \<longleftrightarrow> f = g"
  by (simp add: refs_key_def)

lemma file_key_inj [simp]: "file_key f = file_key g \<longleftrightarrow> f = g"
  by (simp add: file_key_def)

lemma session_key_inj [simp]: "session_key f = session_key g \<longleftrightarrow> f = g"
  by (simp add: session_key_def)

lemma key_families [simp]:
  "rel_key t r f \<noteq> refs_key g" "refs_key g \<noteq> rel_key t r f" "rel_key t r f \<noteq> file_key g" "file_key g \<noteq> rel_key t r f"
  "session_key i \<noteq> file_key g" "file_key g \<noteq> session_key i" "session_key i \<noteq> refs_key g" "refs_key g \<noteq> session_key i"
  "session_key i \<noteq> rel_key t r f" "rel_key t r f \<noteq> session_key i"
  by (auto simp: rel_key_def refs_key_def file_key_def session_key_def rel_prefix_def files_prefix_def)

lemma file_key_refs_key [simp]: "file_key f \<noteq> refs_key g" "refs_key g \<noteq> file_key f"
proof -
  have "last (butlast (file_key f)) \<noteq> last (butlast (refs_key g))"
    by (simp add: file_key_def refs_key_def file_meta_suffix_def butlast_append)
  then show "file_key f \<noteq> refs_key g" "refs_key g \<noteq> file_key f" by auto
qed

lemma not_marker [simp]: "\<not> is_marker_of g (refs_key f)" "\<not> is_marker_of g (file_key f)" "\<not> is_marker_of g (session_key f)"
  by (auto simp: is_marker_of_def refs_key_def file_key_def session_key_def rel_prefix_def files_prefix_def)

lemma marker_of_rel_key [simp]:
  assumes "CHR '':'' \<notin> set f" and "CHR '':'' \<notin> set g"
  shows "is_marker_of g (rel_key t r f) \<longleftrightarrow> g = f"
proof
  assume "is_marker_of g (rel_key t r f)"
  then obtain a where "a @ CHR '':'' # g = (rel_prefix @ t @ '':'' @ r) @ CHR '':'' # f"
    by (auto simp: is_marker_of_def rel_key_def elim!: suffixE)
  then show "g = f" using last_component_unique assms by blast
next
  assume "g = f"
  then show "is_marker_of g (rel_key t r f)"
    by (auto simp: is_marker_of_def rel_key_def suffix_def)
qed

lemma marker_unique:
  assumes "is_marker_of f k" and "is_marker_of g k" and "CHR '':'' \<notin> set f" and "CHR '':'' \<notin> set g"
  shows "f = g"
proof -
  obtain a b where "k = a @ CHR '':'' # f" and "k = b @ CHR '':'' # g"
    using assms(1,2) by (auto simp: is_marker_of_def elim!: suffixE)
  then show ?thesis using last_component_unique assms(3,4) by metis
qed

section \<open>Rules for the store calls\<close>

lemma store_err_simps [simp]:
  "fst (store_err env e w) = fs_of_store e" "fs_kv (snd (store_err env e w)) = fs_kv w"
  by (simp_all add: store_err_def Let_def)

lemma wp_fs_call [simp]:
  "wp (fs_call env m) Q w \<longleftrightarrow>
     wp m (\<lambda>r s. case r of Inr x \<Rightarrow> Q (Inr x) (w\<lparr>fs_kv := s\<rparr>)
       | Inl e \<Rightarrow> Q (Inl (fs_of_store e)) (snd (store_err env e (w\<lparr>fs_kv := s\<rparr>)))) (fs_kv w)"
  by (auto simp: wp_def fs_call_def store_err_def Let_def split: prod.splits sum.splits)

lemma wp_fs_read [simp]:
  "wp (fs_read m) Q w \<longleftrightarrow>
     wp m (\<lambda>r s. case r of Inr x \<Rightarrow> Q (Inr x) (w\<lparr>fs_kv := s\<rparr>) | Inl e \<Rightarrow> Q (Inl (fs_of_store e)) (w\<lparr>fs_kv := s\<rparr>)) (fs_kv w)"
  by (simp add: fs_read_def store_act_def)

lemma wp_internal [simp]:
  "wp (internal_of r) Q w \<longleftrightarrow> (case r of Inl e \<Rightarrow> Q (Inl (Internal e)) w | Inr x \<Rightarrow> Q (Inr x) w)"
  by (simp add: internal_of_def split: sum.splits)

section \<open>What the store holds\<close>

definition value_at :: "('v \<Rightarrow> string + 'a) \<Rightarrow> (string \<rightharpoonup> 'v) \<Rightarrow> string \<Rightarrow> 'a option" where
  "value_at dec m k = Option.bind (m k) (\<lambda>b. case dec b of Inl _ \<Rightarrow> None | Inr x \<Rightarrow> Some x)"

definition without :: "string set \<Rightarrow> (string \<rightharpoonup> 'v) \<Rightarrow> (string \<rightharpoonup> 'v)" where
  "without ks m = (\<lambda>k. if k \<in> ks then None else m k)"

definition markers :: "(string \<rightharpoonup> 'v) \<Rightarrow> string \<Rightarrow> string set" where
  "markers m f = {k. is_marker_of f k \<and> m k \<noteq> None}"

text \<open>The count kept for a file is the number of its markers; a referenced file is not an orphan.\<close>

definition ref_ok :: "(string \<rightharpoonup> 'v) \<Rightarrow> string \<Rightarrow> ref_info \<Rightarrow> bool" where
  "ref_ok m f info \<longleftrightarrow> unat (ri_count info) = card (markers m f) \<and>
     (ri_count info \<noteq> 0 \<longrightarrow> ri_orphan_since info = None)"

definition refs_inv :: "'v fs_codec \<Rightarrow> (string \<rightharpoonup> 'v) \<Rightarrow> bool" where
  "refs_inv cod m \<longleftrightarrow> finite (dom m) \<and> (\<forall>f. CHR '':'' \<notin> set f \<longrightarrow>
     (case m (refs_key f) of
        None \<Rightarrow> ref_ok m f ref_info_default
      | Some b \<Rightarrow> (\<exists>info. dec_refs cod b = Inr info \<and> ref_ok m f info)))"

text \<open>
  What a scan of a family returns: the decoded records, at most one per stored key, and the keys that do not decode.
\<close>

definition scanned :: "('v \<Rightarrow> string + 'a) \<Rightarrow> string \<Rightarrow> string \<Rightarrow> (string \<rightharpoonup> 'v) \<Rightarrow> 'a record_scan \<Rightarrow> bool" where
  "scanned dec pre suf m rs \<longleftrightarrow>
     set (rs_records rs) = {r. \<exists>k b. m k = Some b \<and> prefix pre k \<and> suffix suf k \<and> dec b = Inr r} \<and>
     set (rs_undecodable rs) = {k. \<exists>b e. m k = Some b \<and> prefix pre k \<and> suffix suf k \<and> dec b = Inl e} \<and>
     (finite (dom m) \<longrightarrow> length (rs_records rs) \<le> card (dom m))"

text \<open>The change an attach or detach makes: one marker and the count of its file.\<close>

definition moves_marker :: "string \<Rightarrow> string \<Rightarrow> string \<Rightarrow> 'v option \<Rightarrow> (string \<rightharpoonup> 'v) \<Rightarrow> (string \<rightharpoonup> 'v) \<Rightarrow> bool" where
  "moves_marker t r f x m m' \<longleftrightarrow> m' (rel_key t r f) = x \<and>
     (\<forall>k. k \<noteq> rel_key t r f \<longrightarrow> k \<noteq> refs_key f \<longrightarrow> m' k = m k)"

definition touches :: "string \<Rightarrow> string \<Rightarrow> string \<Rightarrow> (string \<rightharpoonup> 'v) \<Rightarrow> (string \<rightharpoonup> 'v) \<Rightarrow> bool" where
  "touches t r f m m' \<longleftrightarrow> (\<forall>k. k \<noteq> rel_key t r f \<longrightarrow> k \<noteq> refs_key f \<longrightarrow> m' k = m k)"

lemma touches_simps [simp]: "touches t r f m m" "touches t r f m (m(rel_key t r f := x, refs_key f := y))"
  by (simp_all add: touches_def)

definition file_keys :: "string \<Rightarrow> string set" where
  "file_keys f = {k. k = file_key f \<or> k = refs_key f \<or> is_marker_of f k}"

locale fs_over = kv_store "fe_ops env" kvabs txov
  for env :: "('s, 't, 'v) fs_env" and kvabs and txov +
  assumes session_codec: "enc_session (fe_cod env) x = Inr b \<Longrightarrow> dec_session (fe_cod env) b = Inr x"
    and multipart_codec: "enc_multipart (fe_cod env) y = Inr b \<Longrightarrow> dec_multipart (fe_cod env) b = Inr y"
    and file_codec: "enc_file (fe_cod env) z = Inr b \<Longrightarrow> dec_file (fe_cod env) b = Inr z"
    and refs_codec: "enc_refs (fe_cod env) i = Inr b \<Longrightarrow> dec_refs (fe_cod env) b = Inr i"
begin

text \<open>What the store holds, for a state of the handle.\<close>

definition held :: "'s fs_store \<Rightarrow> (string \<rightharpoonup> 'v)" where
  "held w = kvabs (fs_kv w)"

lemma held_simps [simp]: "held (w\<lparr>fs_kv := x\<rparr>) = kvabs x" "held (snd (store_err env' e w)) = held w"
  by (simp_all add: held_def)

lemma held_fold: "kvabs (fs_kv w) = held w"
  by (simp add: held_def)

lemma wp_load_one [wp_rules]:
  assumes "\<And>w'. held w' = held w \<Longrightarrow> held w k = None \<Longrightarrow> Q (Inr None) w'"
    and "\<And>b x w'. held w' = held w \<Longrightarrow> held w k = Some b \<Longrightarrow> dec b = Inr x \<Longrightarrow> Q (Inr (Some x)) w'"
    and "\<And>e w'. held w' = held w \<Longrightarrow> Q (Inl e) w'"
  shows "wp (load_one env dec k) Q w"
  unfolding load_one_def get_one_def
  by (auto intro!: wp_get assms simp: held_def split: option.splits sum.splits)

lemma wp_save_one [wp_rules]:
  assumes "\<And>b w'. val = Inr b \<Longrightarrow> held w' = (held w)(k \<mapsto> b) \<Longrightarrow> Q (Inr ()) w'"
    and "\<And>e w'. held w' = held w \<or> (\<exists>b. val = Inr b \<and> held w' = (held w)(k \<mapsto> b)) \<Longrightarrow> Q (Inl e) w'"
  shows "wp (save_one env val k) Q w"
  unfolding save_one_def
  by (cases val) (auto intro!: wp_set assms simp: held_def)

text \<open>A loop of staged deletes.\<close>

lemma wp_delete_loop:
  assumes "\<And>tx' w'. held w' = held w \<Longrightarrow> txov tx' = (\<lambda>k. if k \<in> set ks then Some None else txov tx k) \<Longrightarrow> Q (Inr tx') w'"
    and "\<And>e w'. held w' = held w \<Longrightarrow> Q (Inl e) w'"
  shows "wp (for_act ks (\<lambda>k tx. fs_call env (tx_delete (fe_ops env) tx k)) tx) Q w"
proof (rule wp_for [where I = "\<lambda>rest tx' w'. held w' = held w \<and> (\<exists>done. ks = done @ rest \<and>
     txov tx' = (\<lambda>k. if k \<in> set done then Some None else txov tx k))"], goal_cases)
  case 1
  show ?case by simp
next
  case (2 k rest tx1 w1)
  then obtain d where d: "ks = d @ k # rest" "txov tx1 = (\<lambda>k. if k \<in> set d then Some None else txov tx k)"
    and h: "held w1 = held w" by blast
  show ?case
    using d h by (auto intro!: wp_tdelete assms(2) exI [of _ "d @ [k]"] simp: held_fold fun_eq_iff)
next
  case (3 tx1 w1)
  then show ?case by (auto intro!: assms(1))
qed

subsection \<open>Deleting a session\<close>

lemma overlay_deletes:
  "overlay m (\<lambda>k. if k \<in> ks then Some None else n k) = without ks (overlay m n)"
  by (auto simp: overlay_def without_def fun_eq_iff)

lemma wp_delete_session:
  assumes ses: "ses = value_at (dec_session (fe_cod env)) (held w) (session_key i)"
    and ok: "\<And>w'. held w' = without (set (session_keys i ses)) (held w) \<Longrightarrow> Q (Inr ()) w'"
    and err: "\<And>e w'. held w' = held w \<or> held w' = without (set (session_keys i ses)) (held w) \<Longrightarrow> Q (Inl e) w'"
  shows "wp (delete_session env i) Q w"
proof -
  have go: "wp (bind_act (fs_call env (kv_begin (fe_ops env))) (\<lambda>tx.
     bind_act (for_act (session_keys i ses) (\<lambda>k tx. fs_call env (tx_delete (fe_ops env) tx k)) tx) (\<lambda>tx.
     fs_call env (tx_commit (fe_ops env) tx)))) Q w1" if h: "held w1 = held w" for w1
  proof -
    have del: "wp (for_act (session_keys i ses) (\<lambda>k tx. fs_call env (tx_delete (fe_ops env) tx k)) tx)
        (\<lambda>r w'. case r of Inl e \<Rightarrow> Q (Inl e) w' | Inr tx \<Rightarrow> wp (fs_call env (tx_commit (fe_ops env) tx)) Q w') w2"
      if w2: "held w2 = held w" and tx: "txov tx = Map.empty" for w2 tx
      by (rule wp_delete_loop)
         (auto intro!: wp_commit ok err simp: w2 tx held_fold overlay_deletes)
    show ?thesis by (auto intro!: wp_begin del err simp: h held_fold)
  qed
  show ?thesis
    unfolding delete_session_def get_session_def wp_bind [of "load_one _ _ _"]
  proof (rule wp_load_one, goal_cases)
    case (1 w')
    then have "ses = None" by (simp add: ses value_at_def)
    then show ?case using go [OF 1(1)] by (simp only: sum.case)
  next
    case (2 b x w')
    then have "ses = Some x" by (simp add: ses value_at_def)
    then show ?case using go [OF 2(1)] by (simp only: sum.case)
  next
    case (3 e w')
    then show ?case by (simp add: err)
  qed
qed

subsection \<open>Reference counts\<close>

lemma finite_markers: "finite (dom m) \<Longrightarrow> finite (markers m f)"
  by (rule finite_subset [of _ "dom m"]) (auto simp: markers_def)

lemma markers_set_refs [simp]: "markers (m(refs_key f := x)) g = markers m g"
  by (auto simp: markers_def)

lemma wp_read_ref [wp_rules]:
  assumes inv: "refs_inv (fe_cod env) (held w)" and f: "CHR '':'' \<notin> set f" and tx: "txov tx = Map.empty"
    and ok: "\<And>info w'. held w' = held w \<Longrightarrow> ref_ok (held w) f info \<Longrightarrow> Q (Inr info) w'"
    and err: "\<And>e w'. held w' = held w \<Longrightarrow> Q (Inl e) w'"
  shows "wp (read_ref_info env tx f) Q w"
proof -
  have "case held w (refs_key f) of None \<Rightarrow> ref_ok (held w) f ref_info_default
      | Some b \<Rightarrow> \<exists>info. dec_refs (fe_cod env) b = Inr info \<and> ref_ok (held w) f info"
    using inv f by (simp add: refs_inv_def)
  then show ?thesis
    unfolding read_ref_info_def
    by (auto intro!: wp_tget ok err simp: held_fold tx split: option.splits)
qed

text \<open>Writing a marker change of one file together with its count.\<close>

lemma refs_inv_update:
  assumes inv: "refs_inv (fe_cod env) m" and f: "CHR '':'' \<notin> set f"
    and enc: "enc_refs (fe_cod env) info = Inr b"
    and info: "unat (ri_count info) = card (markers (m(rel_key t r f := x)) f)"
      "ri_count info \<noteq> 0 \<Longrightarrow> ri_orphan_since info = None"
  shows "refs_inv (fe_cod env) (m(rel_key t r f := x, refs_key f \<mapsto> b))"
proof -
  have same: "markers (m(rel_key t r f := x)) g = markers m g" if "g \<noteq> f" "CHR '':'' \<notin> set g" for g
    using that f by (auto simp: markers_def)
  have fin: "finite (dom (m(rel_key t r f := x, refs_key f \<mapsto> b)))"
    using inv by (simp add: refs_inv_def)
  show ?thesis
    unfolding refs_inv_def
  proof (intro conjI allI impI)
    fix g :: string
    assume g: "CHR '':'' \<notin> set g"
    show "case (m(rel_key t r f := x, refs_key f \<mapsto> b)) (refs_key g) of
        None \<Rightarrow> ref_ok (m(rel_key t r f := x, refs_key f \<mapsto> b)) g ref_info_default
      | Some b' \<Rightarrow> \<exists>info. dec_refs (fe_cod env) b' = Inr info \<and> ref_ok (m(rel_key t r f := x, refs_key f \<mapsto> b)) g info"
    proof (cases "g = f")
      case True
      then show ?thesis using refs_codec [OF enc] info by (simp add: ref_ok_def)
    next
      case False
      have eq: "ref_ok (m(rel_key t r f := x, refs_key f \<mapsto> b)) g info = ref_ok m g info" for info
        using same [OF False g] by (simp add: ref_ok_def)
      have "case m (refs_key g) of None \<Rightarrow> ref_ok m g ref_info_default
          | Some b \<Rightarrow> \<exists>info. dec_refs (fe_cod env) b = Inr info \<and> ref_ok m g info"
        using inv g by (simp add: refs_inv_def)
      then show ?thesis using False by (cases "m (refs_key g)") (simp_all add: eq)
    qed
  qed (rule fin)
qed

lemma card_markers_add:
  assumes "finite (dom m)" and "CHR '':'' \<notin> set f" and "m (rel_key t r f) = None"
  shows "card (markers (m(rel_key t r f \<mapsto> v)) f) = Suc (card (markers m f))"
proof -
  have "markers (m(rel_key t r f \<mapsto> v)) f = insert (rel_key t r f) (markers m f)"
    using assms(2) by (auto simp: markers_def)
  moreover have "rel_key t r f \<notin> markers m f" using assms(3) by (simp add: markers_def)
  ultimately show ?thesis using finite_markers [OF assms(1)] by simp
qed

lemma card_markers_del:
  assumes "finite (dom m)" and "CHR '':'' \<notin> set f" and "m (rel_key t r f) \<noteq> None"
  shows "card (markers (m(rel_key t r f := None)) f) = card (markers m f) - 1" "0 < card (markers m f)"
proof -
  have "markers (m(rel_key t r f := None)) f = markers m f - {rel_key t r f}"
    by (auto simp: markers_def)
  moreover have mem: "rel_key t r f \<in> markers m f" using assms(2,3) by (simp add: markers_def)
  ultimately show "card (markers (m(rel_key t r f := None)) f) = card (markers m f) - 1" by simp
  show "0 < card (markers m f)" using mem finite_markers [OF assms(1)] by (auto simp: card_gt_0_iff)
qed

lemma attach_step:
  assumes inv: "refs_inv (fe_cod env) m" and f: "CHR '':'' \<notin> set f" and room: "card (markers m f) + 1 < 2 ^ 32"
    and new: "m (rel_key t r f) = None" and info: "ref_ok m f info0"
    and enc: "enc_refs (fe_cod env) \<lparr>ri_count = saturating_add_u32 (ri_count info0) 1, ri_orphan_since = None\<rparr> = Inr b"
    and m': "m' = m(rel_key t r f \<mapsto> v, refs_key f \<mapsto> b)"
  shows "refs_inv (fe_cod env) m'" "moves_marker t r f (Some v) m m'"
    "unat (saturating_add_u32 (ri_count info0) 1) = card (markers m' f)"
proof -
  have fin: "finite (dom m)" using inv by (simp add: refs_inv_def)
  have c: "unat (saturating_add_u32 (ri_count info0) 1) = card (markers (m(rel_key t r f \<mapsto> v)) f)"
    using room info card_markers_add [OF fin f new, of v]
    by (simp add: unat_saturating_add_u32 ref_ok_def)
  show "refs_inv (fe_cod env) m'" unfolding m' by (rule refs_inv_update [OF inv f enc]) (simp_all add: c)
  show "unat (saturating_add_u32 (ri_count info0) 1) = card (markers m' f)" by (simp add: m' c)
  show "moves_marker t r f (Some v) m m'" by (simp add: m' moves_marker_def)
qed

lemma wp_attach:
  assumes inv: "refs_inv (fe_cod env) (held w)" and f: "CHR '':'' \<notin> set f" and room: "card (markers (held w) f) + 1 < 2 ^ 32"
  shows "wp (attach env t r f) (\<lambda>q w'. refs_inv (fe_cod env) (held w') \<and>
     (held w' = held w \<or> held w (rel_key t r f) = None \<and> moves_marker t r f (Some (marker (fe_cod env))) (held w) (held w')) \<and>
     (case q of Inl _ \<Rightarrow> True | Inr c \<Rightarrow> held w' (rel_key t r f) \<noteq> None \<and> unat c = card (markers (held w') f))) w"
proof (cases "held w (rel_key t r f)")
  case (Some v)
  then show ?thesis
    unfolding attach_def Let_def
    using inv f by (auto intro!: wp_begin wp_tget wp_read_ref wp_rollback simp: held_fold ref_ok_def split: sum.splits)
next
  case None
  note st = attach_step [OF inv f room None _ _ refl, where v = "marker (fe_cod env)"]
  show ?thesis
    unfolding attach_def Let_def
    using inv f None
    by (auto intro!: wp_begin wp_tget wp_read_ref wp_tset wp_commit simp: held_fold st split: sum.splits)
qed

lemma detach_step:
  assumes inv: "refs_inv (fe_cod env) m" and f: "CHR '':'' \<notin> set f"
    and old: "m (rel_key t r f) \<noteq> None" and info: "ref_ok m f info0"
    and info': "info' = \<lparr>ri_count = saturating_sub_u32 (ri_count info0) 1,
        ri_orphan_since = (if saturating_sub_u32 (ri_count info0) 1 = 0 then Some now else ri_orphan_since info0)\<rparr>"
    and enc: "enc_refs (fe_cod env) info' = Inr b"
    and m': "m' = m(rel_key t r f := None, refs_key f \<mapsto> b)"
  shows "refs_inv (fe_cod env) m'" "moves_marker t r f None m m'" "unat (ri_count info') = card (markers m' f)"
proof -
  have fin: "finite (dom m)" using inv by (simp add: refs_inv_def)
  note del = card_markers_del [OF fin f old]
  have c: "unat (ri_count info') = card (markers (m(rel_key t r f := None)) f)"
    using info del by (simp add: info' unat_saturating_sub_u32 ref_ok_def)
  have o: "ri_orphan_since info0 = None"
    using info del(2) by (auto simp: ref_ok_def)
  show "refs_inv (fe_cod env) m'" unfolding m' by (rule refs_inv_update [OF inv f enc]) (use o in \<open>simp_all add: c, simp add: info'\<close>)
  show "unat (ri_count info') = card (markers m' f)" by (simp add: m' c)
  show "moves_marker t r f None m m'" by (simp add: m' moves_marker_def)
qed

lemma wp_detach:
  assumes inv: "refs_inv (fe_cod env) (held w)" and f: "CHR '':'' \<notin> set f"
  shows "wp (detach env now t r f) (\<lambda>q w'. refs_inv (fe_cod env) (held w') \<and>
     (held w' = held w \<or> held w (rel_key t r f) \<noteq> None \<and> moves_marker t r f None (held w) (held w')) \<and>
     (case q of Inl _ \<Rightarrow> True | Inr c \<Rightarrow> held w' (rel_key t r f) = None \<and> unat c = card (markers (held w') f))) w"
proof (cases "held w (rel_key t r f)")
  case None
  then show ?thesis
    unfolding detach_def Let_def
    using inv f by (auto intro!: wp_begin wp_tget wp_read_ref wp_rollback simp: held_fold ref_ok_def split: sum.splits)
next
  case (Some v)
  then have old: "held w (rel_key t r f) \<noteq> None" by simp
  note st = detach_step [OF inv f old _ refl _ refl, where now = now]
  have fin: "finite (dom (held w))" using inv by (simp add: refs_inv_def)
  have zero: "ref_ok (held w) f info \<Longrightarrow> saturating_sub_u32 (ri_count info) 1 = 0 \<Longrightarrow>
      card (markers ((held w)(rel_key t r f := None)) f) = 0" for info
    using card_markers_del [OF fin f old] unat_saturating_sub_u32 [of "ri_count info"] by (simp add: ref_ok_def)
  show ?thesis
    unfolding detach_def Let_def
    using inv f Some
    by (auto intro: zero intro!: wp_begin wp_tget wp_read_ref wp_tdelete wp_tset wp_commit simp: held_fold st [simplified] split: sum.splits)
qed

text \<open>Whatever the counts are: an attach and a detach touch one marker and one count, and end with the marker in place or gone.\<close>

lemma wp_read_ref_any:
  assumes "\<And>q w'. held w' = held w \<Longrightarrow> Q q w'"
  shows "wp (read_ref_info env tx f) Q w"
  unfolding read_ref_info_def by (auto intro!: wp_tget assms simp: held_fold split: option.splits sum.splits)

lemma wp_attach_any:
  assumes "\<And>q w'. touches t r f (held w) (held w') \<Longrightarrow> (\<And>c. q = Inr c \<Longrightarrow> held w' (rel_key t r f) \<noteq> None) \<Longrightarrow> Q q w'"
  shows "wp (attach env t r f) Q w"
proof (cases "held w (rel_key t r f)")
  case (Some v)
  then show ?thesis
    unfolding attach_def Let_def
    by (auto intro!: wp_begin wp_tget wp_read_ref_any wp_rollback assms simp: held_fold split: sum.splits)
next
  case None
  then show ?thesis
    unfolding attach_def Let_def
    by (auto intro!: wp_begin wp_tget wp_read_ref_any wp_tset wp_commit assms simp: held_fold split: sum.splits)
qed

lemma wp_detach_any:
  assumes "\<And>q w'. touches t r f (held w) (held w') \<Longrightarrow> (\<And>c. q = Inr c \<Longrightarrow> held w' (rel_key t r f) = None) \<Longrightarrow> Q q w'"
  shows "wp (detach env now t r f) Q w"
proof (cases "held w (rel_key t r f)")
  case None
  then show ?thesis
    unfolding detach_def Let_def
    by (auto intro!: wp_begin wp_tget wp_read_ref_any wp_rollback assms simp: held_fold split: sum.splits)
next
  case (Some v)
  then show ?thesis
    unfolding detach_def Let_def
    by (auto intro!: wp_begin wp_tget wp_read_ref_any wp_tset wp_tdelete wp_commit assms simp: held_fold split: sum.splits)
qed

subsection \<open>Deleting a file\<close>

lemma wp_marker_loop:
  assumes "\<And>tx' w'. held w' = held w \<Longrightarrow>
      txov tx' = (\<lambda>k. if k \<in> fst ` set kvs \<and> is_marker_of f k then Some None else txov tx k) \<Longrightarrow> Q (Inr tx') w'"
    and "\<And>e w'. held w' = held w \<Longrightarrow> Q (Inl e) w'"
  shows "wp (for_act kvs (\<lambda>kv tx. if is_marker_of f (fst kv)
     then fs_call env (tx_delete (fe_ops env) tx (fst kv)) else ok_act tx) tx) Q w"
proof (rule wp_for [where I = "\<lambda>rest tx' w'. held w' = held w \<and> (\<exists>d. kvs = d @ rest \<and>
     txov tx' = (\<lambda>k. if k \<in> fst ` set d \<and> is_marker_of f k then Some None else txov tx k))"], goal_cases)
  case 1
  show ?case by simp
next
  case (2 kv rest tx1 w1)
  then obtain d where d: "kvs = d @ kv # rest"
      "txov tx1 = (\<lambda>k. if k \<in> fst ` set d \<and> is_marker_of f k then Some None else txov tx k)"
    and h: "held w1 = held w" by blast
  show ?case
  proof (cases "is_marker_of f (fst kv)")
    case True
    then show ?thesis
      using d h by (auto intro!: wp_tdelete assms(2) exI [of _ "d @ [kv]"] simp: held_fold fun_eq_iff)
  next
    case False
    then show ?thesis using d h by (auto intro!: exI [of _ "d @ [kv]"] simp: fun_eq_iff)
  qed
next
  case (3 tx1 w1)
  then show ?case by (auto intro!: assms(1))
qed

lemma scan_markers:
  assumes "scan_of m (Some rel_prefix) (Some (prefix_scan_end rel_prefix)) kvs" and "is_marker_of f k"
  shows "k \<in> fst ` set kvs \<longleftrightarrow> m k \<noteq> None"
proof -
  have "map_of kvs k = m k"
    using assms scan_covers [of rel_prefix k] by (simp add: scan_of_def is_marker_of_def)
  then show ?thesis by (metis map_of_eq_None_iff)
qed

lemma wp_delete_file_record:
  assumes ok: "\<And>w'. held w' = without (file_keys f) (held w) \<Longrightarrow> Q (Inr ()) w'"
    and err: "\<And>e w'. held w' = held w \<or> held w' = without (file_keys f) (held w) \<Longrightarrow> Q (Inl e) w'"
  shows "wp (delete_file_record env f) Q w"
proof -
  have eff: "(overlay (held w) (\<lambda>k. if k \<in> fst ` set kvs \<and> is_marker_of f k then Some None else None))
        (file_key f := None, refs_key f := None) = without (file_keys f) (held w)"
    if "scan_of (held w) (Some rel_prefix) (Some (prefix_scan_end rel_prefix)) kvs" for kvs
    using scan_markers [OF that] by (auto simp: overlay_def without_def file_keys_def fun_eq_iff)
  have loop: "wp (for_act kvs (\<lambda>kv tx. if is_marker_of f (fst kv)
       then fs_call env (tx_delete (fe_ops env) tx (fst kv)) else ok_act tx) tx)
     (\<lambda>r w'. case r of Inl e \<Rightarrow> Q (Inl e) w' | Inr tx \<Rightarrow> wp (bind_act (fs_call env (tx_delete (fe_ops env) tx (file_key f))) (\<lambda>tx.
        bind_act (fs_call env (tx_delete (fe_ops env) tx (refs_key f))) (\<lambda>tx. fs_call env (tx_commit (fe_ops env) tx)))) Q w') w1"
    if h: "held w1 = held w" and tx: "txov tx = Map.empty"
      and scan: "scan_of (held w) (Some rel_prefix) (Some (prefix_scan_end rel_prefix)) kvs" for w1 tx kvs
  proof (rule wp_marker_loop)
    fix tx' w'
    assume a: "held w' = held w1" "txov tx' = (\<lambda>k. if k \<in> fst ` set kvs \<and> is_marker_of f k then Some None else txov tx k)"
    then have ov: "overlay (held w) (txov tx') = overlay (held w) (\<lambda>k. if k \<in> fst ` set kvs \<and> is_marker_of f k then Some None else None)"
      by (simp only: a(2) tx)
    show "case Inr tx' of Inl e \<Rightarrow> Q (Inl e) w' | Inr tx \<Rightarrow> wp (bind_act (fs_call env (tx_delete (fe_ops env) tx (file_key f))) (\<lambda>tx.
        bind_act (fs_call env (tx_delete (fe_ops env) tx (refs_key f))) (\<lambda>tx. fs_call env (tx_commit (fe_ops env) tx)))) Q w'"
      using a(1) h by (auto intro!: wp_tdelete wp_commit ok err simp: held_fold ov eff [OF scan])
  qed (simp add: err h)
  show ?thesis
    unfolding delete_file_record_def
    by (auto intro!: wp_begin wp_tgets loop [simplified] err simp: held_fold limit_of_def)
qed

lemma refs_inv_without:
  assumes "refs_inv (fe_cod env) m" and f: "CHR '':'' \<notin> set f"
  shows "refs_inv (fe_cod env) (without (file_keys f) m)"
proof -
  let ?m = "without (file_keys f) m"
  have fin: "finite (dom ?m)"
    using assms(1) by (auto simp: refs_inv_def without_def dom_def elim!: rev_finite_subset)
  have "case ?m (refs_key g) of None \<Rightarrow> ref_ok ?m g ref_info_default
      | Some b \<Rightarrow> \<exists>info. dec_refs (fe_cod env) b = Inr info \<and> ref_ok ?m g info" if g: "CHR '':'' \<notin> set g" for g
  proof (cases "g = f")
    case True
    have "markers ?m f = {}" by (auto simp: markers_def without_def file_keys_def)
    then show ?thesis using True by (simp add: without_def file_keys_def ref_ok_def ref_info_default_def)
  next
    case False
    have key: "?m (refs_key g) = m (refs_key g)" using False by (simp add: without_def file_keys_def)
    have "k \<notin> file_keys f" if "is_marker_of g k" for k
      using that marker_unique [OF _ that f g] False by (auto simp: file_keys_def)
    then have "markers ?m g = markers m g" by (auto simp: markers_def without_def)
    then have ok: "ref_ok ?m g info = ref_ok m g info" for info by (simp add: ref_ok_def)
    have "case m (refs_key g) of None \<Rightarrow> ref_ok m g ref_info_default
          | Some b \<Rightarrow> \<exists>info. dec_refs (fe_cod env) b = Inr info \<and> ref_ok m g info"
      using assms(1) g by (simp add: refs_inv_def)
    then show ?thesis by (cases "m (refs_key g)") (simp_all add: key ok)
  qed
  then show ?thesis using fin by (simp add: refs_inv_def)
qed

subsection \<open>Scans\<close>

lemma family_scan:
  assumes scan: "scan_of m (Some pre) (Some (prefix_scan_end pre)) kvs" and pre: "suffix '':'' pre"
  shows "set (rs_records (scan_family dec pre suf kvs)) =
      {r. \<exists>k b. m k = Some b \<and> prefix pre k \<and> suffix suf k \<and> dec b = Inr r}"
    "set (rs_undecodable (scan_family dec pre suf kvs)) =
      {k. \<exists>b e. m k = Some b \<and> prefix pre k \<and> suffix suf k \<and> dec b = Inl e}"
proof -
  have mem: "(k, b) \<in> set kvs \<longleftrightarrow> m k = Some b" if "prefix pre k" for k b
  proof -
    have "map_of kvs k = m k" and "distinct (map fst kvs)"
      using scan scan_covers [OF pre that] by (auto simp: scan_of_def)
    then show ?thesis by (metis map_of_eq_Some_iff)
  qed
  have case_iff: "(case q of Inr x \<Rightarrow> Some x | Inl _ \<Rightarrow> None) = Some y \<longleftrightarrow> q = Inr y"
    "(case q of Inr _ \<Rightarrow> None | Inl _ \<Rightarrow> Some k) = Some k' \<longleftrightarrow> (\<exists>e. q = Inl e) \<and> k' = k" for q :: "string + 'x" and y k k'
    by (auto split: sum.splits)
  have rec: "set (rs_records (scan_family dec pre suf kvs)) =
      {r. \<exists>k b. (k, b) \<in> set kvs \<and> prefix pre k \<and> suffix suf k \<and> dec b = Inr r}"
    by (simp add: scan_family_def Let_def map_filter_set case_iff Bex_def)
  have und: "set (rs_undecodable (scan_family dec pre suf kvs)) =
      {k. \<exists>b e. (k, b) \<in> set kvs \<and> prefix pre k \<and> suffix suf k \<and> dec b = Inl e}"
    by (simp add: scan_family_def Let_def map_filter_set case_iff Bex_def)
  show "set (rs_records (scan_family dec pre suf kvs)) =
      {r. \<exists>k b. m k = Some b \<and> prefix pre k \<and> suffix suf k \<and> dec b = Inr r}"
    unfolding rec using mem by blast
  show "set (rs_undecodable (scan_family dec pre suf kvs)) =
      {k. \<exists>b e. m k = Some b \<and> prefix pre k \<and> suffix suf k \<and> dec b = Inl e}"
    unfolding und using mem by blast
qed

lemma family_scan_length:
  assumes scan: "scan_of m lo hi kvs" and fin: "finite (dom m)"
  shows "length (rs_records (scan_family dec pre suf kvs)) \<le> card (dom m)"
proof -
  have sub: "set (map fst kvs) \<subseteq> dom m" and dist: "distinct (map fst kvs)" using scan by (auto simp: scan_of_def)
  have "length kvs \<le> card (dom m)" using card_mono [OF fin sub] distinct_card [OF dist] by simp
  moreover have "length (rs_records (scan_family dec pre suf kvs)) \<le> length kvs"
    by (simp add: scan_family_def Let_def List.map_filter_def)
  ultimately show ?thesis by simp
qed

lemma wp_scan_prefix [wp_rules]:
  assumes "\<And>kvs w'. held w' = held w \<Longrightarrow> scan_of (held w) (Some p) (Some (prefix_scan_end p)) kvs \<Longrightarrow> Q (Inr kvs) w'"
    and "\<And>e w'. held w' = held w \<Longrightarrow> Q (Inl e) w'"
  shows "wp (scan_prefix env p) Q w"
  unfolding scan_prefix_def by (auto intro!: wp_gets assms simp: held_fold limit_of_def)

lemma wp_list_files:
  assumes "\<And>rs w'. held w' = held w \<Longrightarrow> scanned (dec_file (fe_cod env)) files_prefix file_meta_suffix (held w) rs \<Longrightarrow> Q (Inr rs) w'"
    and "\<And>e w'. held w' = held w \<Longrightarrow> Q (Inl e) w'"
  shows "wp (list_files env) Q w"
  unfolding list_files_def
  by (auto intro!: wp_scan_prefix assms simp: scanned_def family_scan family_scan_length)

lemma wp_list_sessions:
  assumes "\<And>rs w'. held w' = held w \<Longrightarrow> scanned (dec_session (fe_cod env)) ''fs:uploads:'' '':meta'' (held w) rs \<Longrightarrow> Q (Inr rs) w'"
    and "\<And>e w'. held w' = held w \<Longrightarrow> Q (Inl e) w'"
  shows "wp (list_sessions env) Q w"
  unfolding list_sessions_def
  by (auto intro!: wp_scan_prefix assms simp: scanned_def family_scan [where pre = "''fs:uploads:''"] family_scan_length)

lemma wp_rows_for_file:
  assumes "\<And>rows w'. held w' = held w \<Longrightarrow>
      set rows = {row. \<exists>k. held w k \<noteq> None \<and> row_of_marker f k = Some row} \<Longrightarrow> Q (Inr rows) w'"
    and "\<And>e w'. held w' = held w \<Longrightarrow> Q (Inl e) w'"
  shows "wp (rows_for_file env f) Q w"
proof -
  have *: "set (List.map_filter (\<lambda>kv. row_of_marker f (fst kv)) kvs) =
      {row. \<exists>k. held w k \<noteq> None \<and> row_of_marker f k = Some row}"
    if scan: "scan_of (held w) (Some rel_prefix) (Some (prefix_scan_end rel_prefix)) kvs" for kvs
  proof -
    have "row_of_marker f k = Some row \<Longrightarrow> is_marker_of f k" for k row
      by (simp add: row_of_marker_def split: if_splits)
    then have key: "k \<in> fst ` set kvs \<longleftrightarrow> held w k \<noteq> None" if "row_of_marker f k = Some row" for k row
      using scan_markers [OF scan, of f k] that by blast
    show ?thesis
      unfolding map_filter_set using key by (intro set_eqI iffI; force)
  qed
  show ?thesis
    unfolding rows_for_file_def wp_bind by (rule wp_scan_prefix) (simp_all add: assms *)
qed

end

section \<open>The paged walk reads everything\<close>

lemma scan_set: "scan_of m lo None xs \<Longrightarrow> set xs = {(k, v). in_range lo None k \<and> m k = Some v}"
proof -
  assume a: "scan_of m lo None xs"
  have "m k = Some v \<Longrightarrow> in_range lo None k \<Longrightarrow> (k, v) \<in> set xs" for k v
    using a by (auto simp: scan_of_def below_range_def in_range_def dest!: spec [of _ k] intro: map_of_SomeD)
  then show ?thesis using a by (auto simp: scan_of_def)
qed

lemma scan_unique:
  assumes "scan_of m lo None xs" and "scan_of m lo None ys"
  shows "xs = ys"
proof -
  have keys: "map fst xs = map fst ys"
    using assms scan_set [OF assms(1)] scan_set [OF assms(2)]
    by (intro sorted_distinct_set_unique) (auto simp: scan_of_def)
  have entry: "map (\<lambda>k. (k, the (m k))) (map fst zs) = zs" if "scan_of m lo None zs" for zs
    using that unfolding map_map by (intro map_idI) (auto simp: scan_of_def)
  show ?thesis using entry [OF assms(1)] entry [OF assms(2)] keys by simp
qed

lemma scan_suffix:
  assumes "scan_of m None None (d @ (c, v) # pend)"
  shows "scan_of m (Some c) None ((c, v) # pend)"
proof -
  let ?all = "d @ (c, v) # pend"
  have d: "distinct (map fst ?all)" and st: "sorted (map fst ?all)"
    using assms by (auto simp: scan_of_def)
  have keys: "fst e < c" if "e \<in> set d" for e
    using st d that by (fastforce simp: sorted_append less_le)
  have "map_of ((c, v) # pend) k = m k" if "c \<le> k" for k
  proof -
    have "map_of d k = None" using keys that by (force simp: map_of_eq_None_iff)
    moreover have "map_of ?all k = m k" using assms by (simp add: scan_of_def below_range_def)
    ultimately show ?thesis by (simp add: map_add_def)
  qed
  moreover have "\<forall>(k, v) \<in> set ((c, v) # pend). in_range (Some c) None k \<and> m k = Some v"
    using assms st by (force simp: scan_of_def sorted_append in_range_def)
  ultimately show ?thesis
    using st d by (simp add: scan_of_def sorted_append below_range_def)
qed

text \<open>
  Where a walk over the entries \<open>all\<close> stands: the buffer and \<open>pend\<close> are to come, and the cursor is
  the last key that was read.
\<close>

definition page_inv :: "(string \<times> 'v) list \<Rightarrow> 'v kv_pages \<Rightarrow> (string \<times> 'v) list \<Rightarrow> bool" where
  "page_inv all p rem \<longleftrightarrow> (\<exists>d pend. all = d @ pend \<and> suffix (kp_buffer p) d \<and> rem = kp_buffer p @ pend \<and>
     (kp_exhausted p \<longrightarrow> pend = []) \<and>
     kp_cursor p = (if d = [] then None else Some (fst (last d))))"

lemma page_inv_new: "page_inv all pages_new all"
  by (simp add: page_inv_def pages_new_def)

context fs_over
begin

text \<open>One step of the walk, and the next record of it, over a store whose reads may fail.\<close>

lemma wp_pages_next:
  assumes scan: "scan_of (kvabs s) None None all" and inv: "page_inv all p rem"
    and ok: "\<And>p' s'. kvabs s' = kvabs s \<Longrightarrow> page_inv all p' (tl rem) \<Longrightarrow> Q (Inr (case rem of [] \<Rightarrow> None | kv # _ \<Rightarrow> Some kv, p')) s'"
    and err: "\<And>e s'. kvabs s' = kvabs s \<Longrightarrow> Q (Inl e) s'"
  shows "wp (pages_next (fe_ops env) p) Q s"
proof -
  obtain d pend where all: "all = d @ pend" and buf: "suffix (kp_buffer p) d" and rem: "rem = kp_buffer p @ pend"
    and ex: "kp_exhausted p \<longrightarrow> pend = []" and cur: "kp_cursor p = (if d = [] then None else Some (fst (last d)))"
    using inv by (auto simp: page_inv_def)
  show ?thesis
  proof (cases "kp_buffer p")
    case (Cons kv rest)
    then have "page_inv all (p\<lparr>kp_buffer := rest\<rparr>) (tl rem)"
      using all buf ex cur rem unfolding page_inv_def
      by (intro exI [of _ d] exI [of _ pend]) (auto simp: suffix_def)
    then show ?thesis using ok [of s] Cons rem by (simp add: pages_next_def)
  next
    case Nil
    show ?thesis
    proof (cases "kp_exhausted p")
      case True
      then show ?thesis using Nil ex ok [of s p] rem inv by (simp add: pages_next_def)
    next
      case False
      have page: "\<exists>n>0. drop_resume (kp_cursor p) (limit_of (Some SCAN_PAGE) xs) = take n pend" if "scan_of (kvabs s) (kp_cursor p) None xs" for xs
      proof (cases d rule: rev_cases)
        case Nil
        then have "xs = pend" using scan_unique [OF that] scan cur all by simp
        then show ?thesis using Nil cur by (auto simp: limit_of_def drop_resume_def SCAN_PAGE_def split: list.splits intro!: exI [of _ 512])
      next
        case (snoc d' e)
        obtain c v where e: "e = (c, v)" by force
        have "scan_of (kvabs s) (Some c) None ((c, v) # pend)" using scan by (intro scan_suffix [of _ d']) (simp add: all snoc e)
        then have "xs = (c, v) # pend" using scan_unique that cur snoc e by simp
        then show ?thesis using cur by (auto simp: snoc e limit_of_def drop_resume_def SCAN_PAGE_def intro!: exI [of _ 511])
      qed
      have step: "wp (case drop_resume (kp_cursor p) (limit_of (Some SCAN_PAGE) xs) of
              [] \<Rightarrow> ok_act (None, p\<lparr>kp_exhausted := True\<rparr>)
            | kv # rest \<Rightarrow> ok_act (Some kv, p\<lparr>kp_cursor := Some (fst (last (kv # rest))), kp_buffer := rest\<rparr>)) Q s'"
        if xs: "scan_of (kvabs s) (kp_cursor p) None xs" and s': "kvabs s' = kvabs s" for xs s'
      proof -
        obtain n where n: "0 < n" "drop_resume (kp_cursor p) (limit_of (Some SCAN_PAGE) xs) = take n pend" using page [OF xs] by blast
        show ?thesis
        proof (cases pend)
          case Nil
          then have "page_inv all (p\<lparr>kp_exhausted := True\<rparr>) (tl rem)"
            using all buf cur \<open>kp_buffer p = []\<close> rem by (auto simp: page_inv_def)
          then show ?thesis using Nil n ok [OF s'] rem \<open>kp_buffer p = []\<close> by simp
        next
          case (Cons kv rest)
          then obtain k where k: "take n pend = kv # take k rest" using n by (cases n) auto
          let ?p = "p\<lparr>kp_cursor := Some (fst (last (kv # take k rest))), kp_buffer := take k rest\<rparr>"
          have "page_inv all ?p (tl rem)"
            unfolding page_inv_def using all Cons False rem \<open>kp_buffer p = []\<close>
            by (intro exI [of _ "d @ kv # take k rest"] exI [of _ "drop k rest"]) (auto simp: suffix_def)
          then show ?thesis using Cons n k ok [OF s'] rem \<open>kp_buffer p = []\<close> by simp
        qed
      qed
      show ?thesis
        unfolding pages_next_def using Nil False step err
        by (auto intro!: wp_gets simp: store_act_def)
    qed
  qed
qed

text \<open>The keys that a walk of file records looks at.\<close>

definition family :: "string \<Rightarrow> bool" where
  "family k \<longleftrightarrow> prefix files_prefix k \<and> suffix file_meta_suffix k"

definition undecoded :: "(string \<times> 'v) list \<Rightarrow> string list" where
  "undecoded kvs = map fst (filter (\<lambda>(k, b). family k \<and> (\<exists>e. dec_file (fe_cod env) b = Inl e)) kvs)"

definition no_record :: "(string \<times> 'v) list \<Rightarrow> bool" where
  "no_record kvs \<longleftrightarrow> (\<forall>(k, b) \<in> set kvs. family k \<longrightarrow> (\<exists>e. dec_file (fe_cod env) b = Inl e))"

lemma wp_next_file:
  assumes "scan_of (kvabs s) None None all" and "page_inv all p rem"
    and "\<And>s'. kvabs s' = kvabs s \<Longrightarrow> n \<le> length rem \<Longrightarrow> Q (Inr None) s'"
    and "\<And>p' s'. kvabs s' = kvabs s \<Longrightarrow> no_record rem \<Longrightarrow> Q (Inr (Some ((None, u @ undecoded rem), p'))) s'"
    and "\<And>pre k b rest r p' s'. kvabs s' = kvabs s \<Longrightarrow> rem = pre @ (k, b) # rest \<Longrightarrow> no_record pre \<Longrightarrow> family k \<Longrightarrow>
        dec_file (fe_cod env) b = Inr r \<Longrightarrow> page_inv all p' rest \<Longrightarrow> Q (Inr (Some ((Some r, u @ undecoded pre), p'))) s'"
    and "\<And>e s'. kvabs s' = kvabs s \<Longrightarrow> Q (Inl e) s'"
  shows "wp (next_file n env p u) Q s"
  using assms
proof (induction n arbitrary: p rem u s)
  case (Suc n)
  show ?case
    unfolding next_file.simps wp_bind
  proof (rule wp_pages_next [OF Suc.prems(1,2)], goal_cases)
    case (1 p' s')
    show ?case
    proof (cases rem)
      case Nil
      then show ?thesis using Suc.prems(4) [OF 1(1)] by (simp add: no_record_def undecoded_def)
    next
      case (Cons kv rest)
      obtain k b where kv: "kv = (k, b)" by force
      have inv: "page_inv all p' rest" using 1(2) Cons by simp
      have scan: "scan_of (kvabs s') None None all" using Suc.prems(1) 1(1) by simp
      show ?thesis
      proof (cases "\<exists>r. family k \<and> dec_file (fe_cod env) b = Inr r")
        case True
        then show ?thesis
          using Suc.prems(5) [OF 1(1), of "[]" k b rest] inv Cons kv by (auto simp: family_def no_record_def undecoded_def)
      next
        case False
        let ?u = "u @ undecoded [(k, b)]"
        have skip: "no_record [(k, b)]" using False by (cases "dec_file (fe_cod env) b") (auto simp: no_record_def)
        have joinn: "no_record ((k, b) # xs) = no_record xs" "undecoded ((k, b) # xs) = undecoded [(k, b)] @ undecoded xs" for xs
          using skip by (auto simp: no_record_def undecoded_def)
        have rec: "wp (next_file n env p' ?u) Q s'"
        proof (rule Suc.IH [OF scan inv], goal_cases)
          case (1 s2)
          then show ?case using Suc.prems(3) [of s2] \<open>kvabs s' = kvabs s\<close> Cons by simp
        next
          case (2 s2 p2)
          then show ?case using Suc.prems(4) [of s2 p2] \<open>kvabs s' = kvabs s\<close> Cons kv joinn(1) [of rest] joinn(2) [of rest] by (simp only: append_assoc simp_thms)
        next
          case (3 s2 pre k2 b2 rest2 r p2)
          then show ?case using Suc.prems(5) [of s2 "(k, b) # pre" k2 b2 rest2 r p2] \<open>kvabs s' = kvabs s\<close> Cons kv joinn(1) [of pre] joinn(2) [of pre] by (simp only: append_assoc append_Cons simp_thms)
        next
          case (4 s2 e)
          then show ?case using Suc.prems(6) [of s2] \<open>kvabs s' = kvabs s\<close> by simp
        qed
        show ?thesis
        proof (cases "family k")
          case True
          then obtain e where "dec_file (fe_cod env) b = Inl e" using False by (cases "dec_file (fe_cod env) b") auto
          then show ?thesis using rec True Cons kv by (simp add: family_def undecoded_def)
        next
          case False
          then show ?thesis using rec Cons kv by (auto simp: family_def undecoded_def)
        qed
      qed
    qed
  next
    case (2 e s')
    then show ?case using Suc.prems(6) by simp
  qed
qed simp

end

locale fs_readable = fs_over env kvabs txov + kv_readable "fe_ops env" kvabs txov
  for env :: "('s, 't, 'v) fs_env" and kvabs and txov
begin

lemma gets_all:
  assumes "kvabs s = m" and "scan_of m lo None all"
  shows "\<exists>s'. kv_gets (fe_ops env) lim lo None s = (Inr (limit_of lim all), s') \<and> kvabs s' = m"
  using gets_total [of lim lo None s] gets_val gets_keeps assms scan_unique by metis

lemma page_read:
  assumes "scan_of m None None (d @ pend)" and "kvabs s = m" and "cur = (if d = [] then None else Some (fst (last d)))"
  shows "\<exists>page s'. kv_gets (fe_ops env) (Some SCAN_PAGE) cur None s = (Inr page, s') \<and> kvabs s' = m \<and>
     (\<exists>n>0. drop_resume cur page = take n pend)"
proof (cases d rule: rev_cases)
  case Nil
  then show ?thesis
    using gets_all [OF assms(2) assms(1), of "Some SCAN_PAGE"] assms(3)
    by (auto simp: limit_of_def drop_resume_def SCAN_PAGE_def split: list.splits intro!: exI [of _ 512])
next
  case (snoc d' e)
  obtain c v where e: "e = (c, v)" by force
  have "scan_of m (Some c) None ((c, v) # pend)"
    using assms(1) by (intro scan_suffix [of m d']) (simp add: snoc e)
  from gets_all [OF assms(2) this, of "Some SCAN_PAGE"] show ?thesis
    using assms(3) by (auto simp: snoc e limit_of_def drop_resume_def SCAN_PAGE_def intro!: exI [of _ 511])
qed

lemma pages_step:
  assumes scan: "scan_of m None None all" and s: "kvabs s = m" and inv: "page_inv all p rem"
  shows "\<exists>p' s'. pages_next (fe_ops env) p s = (Inr (case rem of [] \<Rightarrow> None | kv # _ \<Rightarrow> Some kv, p'), s') \<and>
     kvabs s' = m \<and> page_inv all p' (tl rem)"
proof -
  obtain d pend where all: "all = d @ pend" and buf: "suffix (kp_buffer p) d" and rem: "rem = kp_buffer p @ pend"
    and ex: "kp_exhausted p \<longrightarrow> pend = []" and cur: "kp_cursor p = (if d = [] then None else Some (fst (last d)))"
    using inv by (auto simp: page_inv_def)
  show ?thesis
  proof (cases "kp_buffer p")
    case (Cons kv rest)
    then have "page_inv all (p\<lparr>kp_buffer := rest\<rparr>) (rest @ pend)"
      using all buf ex cur unfolding page_inv_def
      by (intro exI [of _ d] exI [of _ pend]) (auto simp: suffix_def)
    then show ?thesis using Cons s rem by (simp add: pages_next_def ok_act_def)
  next
    case Nil
    show ?thesis
    proof (cases "kp_exhausted p")
      case True
      then show ?thesis using Nil ex s rem inv by (simp add: pages_next_def ok_act_def)
    next
      case False
      obtain page s' n where g: "kv_gets (fe_ops env) (Some SCAN_PAGE) (kp_cursor p) None s = (Inr page, s')"
        and s': "kvabs s' = m" and n: "0 < n" and dr: "drop_resume (kp_cursor p) page = take n pend"
        using page_read [of m d pend s] scan s cur unfolding all by blast
      show ?thesis
      proof (cases pend)
        case Nil
        then have "page_inv all (p\<lparr>kp_exhausted := True\<rparr>) []"
          using all buf cur \<open>kp_buffer p = []\<close> by (auto simp: page_inv_def)
        then show ?thesis
          using Nil \<open>kp_buffer p = []\<close> False g s' dr rem
          by (auto simp: pages_next_def store_act_def act_defs)
      next
        case (Cons kv rest)
        then obtain k where k: "take n pend = kv # take k rest" "n = Suc k" using n by (cases n) auto
        let ?p = "p\<lparr>kp_cursor := Some (fst (last (kv # take k rest))), kp_buffer := take k rest\<rparr>"
        have "page_inv all ?p rest"
          unfolding page_inv_def using all Cons False
          by (intro exI [of _ "d @ kv # take k rest"] exI [of _ "drop k rest"]) (auto simp: suffix_def)
        then show ?thesis
          using Cons \<open>kp_buffer p = []\<close> False g s' dr rem k
          by (auto simp: pages_next_def store_act_def act_defs)
      qed
    qed
  qed
qed

lemma walk_all:
  assumes "scan_of m None None all" and "kvabs s = m" and "page_inv all p rem" and "length rem < n"
  shows "\<exists>s'. walk n (fe_ops env) p s = (Inr (Some rem), s') \<and> kvabs s' = m"
  using assms
proof (induction n arbitrary: p rem s)
  case (Suc n)
  obtain p' s' where step: "pages_next (fe_ops env) p s = (Inr (case rem of [] \<Rightarrow> None | kv # _ \<Rightarrow> Some kv, p'), s')"
    "kvabs s' = m" "page_inv all p' (tl rem)"
    using pages_step [OF Suc.prems(1-3)] by blast
  show ?case
  proof (cases rem)
    case Nil
    then show ?thesis using step by (simp add: act_defs)
  next
    case (Cons kv rest)
    then obtain s2 where "walk n (fe_ops env) p' s' = (Inr (Some rest), s2)" "kvabs s2 = m"
      using Suc.IH [OF Suc.prems(1) step(2,3)] Suc.prems(4) by auto
    then show ?thesis using step Cons by (simp add: act_defs)
  qed
qed simp

text \<open>What \<open>next_file\<close> answers, on the entries that are left.\<close>

fun first_file :: "(string \<times> 'v) list \<Rightarrow> string list \<Rightarrow> (file_record option \<times> string list) \<times> (string \<times> 'v) list" where
  "first_file [] u = ((None, u), [])"
| "first_file ((k, b) # rest) u =
     (if \<not> prefix files_prefix k \<or> \<not> suffix file_meta_suffix k then first_file rest u
      else (case dec_file (fe_cod env) b of
              Inr r \<Rightarrow> ((Some r, u), rest)
            | Inl _ \<Rightarrow> first_file rest (u @ [k])))"

lemma next_file_first:
  assumes "scan_of m None None all" and "kvabs s = m" and "page_inv all p rem" and "length rem < n"
  shows "\<exists>p' s'. next_file n env p u s = (Inr (Some (fst (first_file rem u), p')), s') \<and> kvabs s' = m \<and>
     page_inv all p' (snd (first_file rem u))"
  using assms
proof (induction n arbitrary: p rem s u)
  case (Suc n)
  obtain p' s' where step: "pages_next (fe_ops env) p s = (Inr (case rem of [] \<Rightarrow> None | kv # _ \<Rightarrow> Some kv, p'), s')"
    "kvabs s' = m" "page_inv all p' (tl rem)"
    using pages_step [OF Suc.prems(1-3)] by blast
  show ?case
  proof (cases rem)
    case Nil
    then show ?thesis using step by (simp add: act_defs)
  next
    case (Cons kv rest)
    obtain k b where kv: "kv = (k, b)" by force
    have ih: "\<exists>p2 s2. next_file n env p' u' s' = (Inr (Some (fst (first_file rest u'), p2)), s2) \<and> kvabs s2 = m \<and>
       page_inv all p2 (snd (first_file rest u'))" for u'
      using Suc.IH [OF Suc.prems(1) step(2,3)] Suc.prems(4) Cons by simp
    show ?thesis
      using step Cons kv ih [of u] ih [of "u @ [k]"]
      by (cases "dec_file (fe_cod env) b") (auto simp: act_defs)
  qed
qed simp

end

section \<open>A plain store\<close>

text \<open>Values kept as they are, in an in-memory store: the environment of the examples below.\<close>

datatype fs_val = FSession upload_session | FMultipart persisted_multipart | FFile file_record | FRefs ref_info
  | FBytes string

definition plain_fs_codec :: "fs_val fs_codec" where
  "plain_fs_codec = \<lparr>
     enc_session = Inr \<circ> FSession,
     dec_session = (\<lambda>v. case v of FSession x \<Rightarrow> Inr x | _ \<Rightarrow> Inl ''not a session''),
     enc_multipart = Inr \<circ> FMultipart,
     dec_multipart = (\<lambda>v. case v of FMultipart x \<Rightarrow> Inr x | _ \<Rightarrow> Inl ''not a multipart''),
     enc_file = Inr \<circ> FFile,
     dec_file = (\<lambda>v. case v of FFile x \<Rightarrow> Inr x | _ \<Rightarrow> Inl ''not a file''),
     enc_refs = Inr \<circ> FRefs,
     dec_refs = (\<lambda>v. case v of FRefs x \<Rightarrow> Inr x | _ \<Rightarrow> Inl ''not a count''),
     marker = FBytes ''1''\<rparr>"

definition mem_fs :: "(fs_val mem_kv, (string \<times> fs_val option) list, fs_val) fs_env" where
  "mem_fs = \<lparr>fe_ops = mem_ops, fe_cod = plain_fs_codec, fe_primary = True\<rparr>"

lemma mem_fs_sel [simp]: "fe_ops mem_fs = mem_ops" "fe_cod mem_fs = plain_fs_codec" "fe_primary mem_fs"
  by (simp_all add: mem_fs_def)

interpretation memfs: fs_readable mem_fs mem_abs map_of
  unfolding fs_readable_def fs_over_def mem_fs_sel
proof (intro conjI mem.kv_store_axioms mem.kv_readable_axioms, unfold_locales)
qed (auto simp: plain_fs_codec_def)

section \<open>Properties\<close>

definition fs_start :: "(string \<times> fs_val) list \<Rightarrow> fs_val mem_kv fs_store" where
  "fs_start d = \<lparr>fs_kv = \<lparr>mem_data = d, mem_fenced = False\<rparr>, fs_latch = latch_new\<rparr>"

lemmas fs_run_defs = fs_call_def fs_read_def store_act_def act_defs mem_ops_def mem_write_def internal_of_def
  fs_start_def plain_fs_codec_def

text \<open>
  Attaching a file to a row keeps every reference count equal to the number of rows that
  reference the file, whether the call returns or fails. It changes the marker and the count together or
  not at all; when it returns, the file is attached, the answer is the number of its rows, and a repeated
  attach has changed nothing.
\<close>

theorem attach_counts_rows:
  assumes "fs_over env kvabs txov" and "refs_inv (fe_cod env) (kvabs (fs_kv w))" and "CHR '':'' \<notin> set f"
    and "card (markers (kvabs (fs_kv w)) f) + 1 < 2 ^ 32" and "attach env t r f w = (q, w')"
  shows "refs_inv (fe_cod env) (kvabs (fs_kv w')) \<and>
    (kvabs (fs_kv w') = kvabs (fs_kv w) \<or> kvabs (fs_kv w) (rel_key t r f) = None \<and>
       moves_marker t r f (Some (marker (fe_cod env))) (kvabs (fs_kv w)) (kvabs (fs_kv w'))) \<and>
    (case q of Inl _ \<Rightarrow> True
     | Inr c \<Rightarrow> kvabs (fs_kv w') (rel_key t r f) \<noteq> None \<and> unat c = card (markers (kvabs (fs_kv w')) f))"
  using wpD [OF fs_over.wp_attach [OF assms(1), unfolded fs_over.held_def [OF assms(1)], OF assms(2-4)] assms(5)] .

lemma refs_inv_empty: "refs_inv cod Map.empty"
  by (simp add: refs_inv_def ref_ok_def ref_info_default_def markers_def)

lemma start_abs [simp]: "mem_abs (fs_kv (fs_start d)) = map_of d"
  by (simp add: fs_start_def mem_abs_def)

theorem attach_counts_rows_witness:
  "\<exists>w'. attach mem_fs ''post'' ''7'' ''f1'' (fs_start []) = (Inr 1, w') \<and>
     refs_inv plain_fs_codec (mem_abs (fs_kv w')) \<and> card (markers (mem_abs (fs_kv w')) ''f1'') = 1"
proof -
  obtain w' where run: "attach mem_fs ''post'' ''7'' ''f1'' (fs_start []) = (Inr 1, w')"
    by (simp add: attach_def read_ref_info_def fs_run_defs ref_info_default_def saturating_add_u32_def Let_def)
  show ?thesis
    using attach_counts_rows [OF memfs.fs_over_axioms _ _ _ run] run
    by (simp add: refs_inv_empty markers_def)
qed

text \<open>
  Detaching a file likewise keeps every count exact, whether it returns or fails, and its
  answer is the number of rows that still reference the file. It never underflows.
\<close>

theorem detach_counts_rows:
  assumes "fs_over env kvabs txov" and "refs_inv (fe_cod env) (kvabs (fs_kv w))" and "CHR '':'' \<notin> set f"
    and "detach env now t r f w = (q, w')"
  shows "refs_inv (fe_cod env) (kvabs (fs_kv w')) \<and>
    (kvabs (fs_kv w') = kvabs (fs_kv w) \<or> kvabs (fs_kv w) (rel_key t r f) \<noteq> None \<and>
       moves_marker t r f None (kvabs (fs_kv w)) (kvabs (fs_kv w'))) \<and>
    (case q of Inl _ \<Rightarrow> True
     | Inr c \<Rightarrow> kvabs (fs_kv w') (rel_key t r f) = None \<and> unat c = card (markers (kvabs (fs_kv w')) f))"
  using wpD [OF fs_over.wp_detach [OF assms(1), unfolded fs_over.held_def [OF assms(1)], OF assms(2,3)] assms(4)] .

definition attached_store :: "fs_val mem_kv fs_store" where
  "attached_store = snd (attach mem_fs ''post'' ''7'' ''f1'' (fs_start []))"

lemma attached_store_run: "attach mem_fs ''post'' ''7'' ''f1'' (fs_start []) = (Inr 1, attached_store)"
  by (simp add: attached_store_def attach_def read_ref_info_def fs_run_defs ref_info_default_def
      saturating_add_u32_def Let_def)

lemma attached_store_inv: "refs_inv plain_fs_codec (mem_abs (fs_kv attached_store))"
  using wpD [OF memfs.wp_attach attached_store_run] by (simp add: memfs.held_def refs_inv_empty markers_def)

theorem detach_counts_rows_witness:
  "\<exists>w'. detach mem_fs 50 ''post'' ''7'' ''f1'' attached_store = (Inr 0, w') \<and>
     refs_inv plain_fs_codec (mem_abs (fs_kv w')) \<and> markers (mem_abs (fs_kv w')) ''f1'' = {}"
proof -
  obtain w' where run: "detach mem_fs 50 ''post'' ''7'' ''f1'' attached_store = (Inr 0, w')"
    by (simp add: attached_store_def attach_def detach_def read_ref_info_def fs_run_defs ref_info_default_def
        saturating_add_u32_def saturating_sub_u32_def Let_def rel_key_def refs_key_def rel_prefix_def files_prefix_def)
  have inv: "refs_inv plain_fs_codec (mem_abs (fs_kv w'))" and "card (markers (mem_abs (fs_kv w')) ''f1'') = 0"
    using detach_counts_rows [OF memfs.fs_over_axioms _ _ run] attached_store_inv by simp_all
  moreover from this have "finite (markers (mem_abs (fs_kv w')) ''f1'')"
    using memfs.finite_markers by (auto simp: refs_inv_def)
  ultimately show ?thesis using run by auto
qed

text \<open>
  Deleting an upload session is one atomic cascade. The session key, the keys of all its
  staged parts and its multipart record go together, or nothing goes; a call that returns has removed them,
  and no call touches any other key.
\<close>

theorem delete_session_cascades:
  assumes "fs_over env kvabs txov" and "delete_session env i w = (q, w')"
    and "keys = set (session_keys i (value_at (dec_session (fe_cod env)) (kvabs (fs_kv w)) (session_key i)))"
  shows "kvabs (fs_kv w') = without keys (kvabs (fs_kv w)) \<or>
    (\<exists>e. q = Inl e) \<and> kvabs (fs_kv w') = kvabs (fs_kv w)"
proof -
  have "wp (delete_session env i) (\<lambda>q w'. kvabs (fs_kv w') = without keys (kvabs (fs_kv w)) \<or>
      (\<exists>e. q = Inl e) \<and> kvabs (fs_kv w') = kvabs (fs_kv w)) w"
    by (rule fs_over.wp_delete_session [OF assms(1) refl]) (auto simp: fs_over.held_def [OF assms(1)] assms(3))
  then show ?thesis by (rule wpD) (rule assms(2))
qed

definition demo_session :: upload_session where
  "demo_session = \<lparr>us_id = ''u1'', us_file_size = 10, us_part_size = 5, us_file_total_parts = 2,
     us_s3_upload_id = Some ''mp1'', us_s3_key = ''files/u1'', us_owner_sub = ''ann'', us_created_at = 100,
     us_etags = [None, None], us_checksums = [None, None]\<rparr>"

definition demo_multipart :: persisted_multipart where
  "demo_multipart = \<lparr>pm_upload_id = ''mp1'', pm_bucket = ''b'', pm_key = ''files/u1'', pm_s3_upload_id = ''be1'',
     pm_parts = [], pm_created_at = 100\<rparr>"

definition demo_uploads :: "fs_val mem_kv fs_store" where
  "demo_uploads = fs_start [(session_key ''u1'', FSession demo_session), (multipart_key ''mp1'', FMultipart demo_multipart)]"

theorem delete_session_cascades_witness:
  "\<exists>w'. delete_session mem_fs ''u1'' demo_uploads = (Inr (), w') \<and>
     mem_abs (fs_kv w') (session_key ''u1'') = None \<and> mem_abs (fs_kv w') (multipart_key ''mp1'') = None"
proof -
  obtain w' where run: "delete_session mem_fs ''u1'' demo_uploads = (Inr (), w')"
    by (simp add: delete_session_def get_session_def load_one_def get_one_def session_keys_def demo_uploads_def
        demo_session_def fs_run_defs upt_rec)
  have "value_at (dec_session plain_fs_codec) (mem_abs (fs_kv demo_uploads)) (session_key ''u1'') = Some demo_session"
    by (simp add: value_at_def demo_uploads_def plain_fs_codec_def)
  then show ?thesis
    using delete_session_cascades [OF memfs.fs_over_axioms run refl] run
    by (auto simp: without_def session_keys_def demo_session_def)
qed

text \<open>
  Deleting a file removes its record, its count and every one of its relation markers in one
  transaction, or nothing; it touches no key of another file, and the counts of all files stay exact.
\<close>

theorem delete_file_record_exact:
  assumes "fs_over env kvabs txov" and "refs_inv (fe_cod env) (kvabs (fs_kv w))" and "CHR '':'' \<notin> set f"
    and "delete_file_record env f w = (q, w')"
  shows "refs_inv (fe_cod env) (kvabs (fs_kv w')) \<and>
    (kvabs (fs_kv w') = without (file_keys f) (kvabs (fs_kv w)) \<or>
     (\<exists>e. q = Inl e) \<and> kvabs (fs_kv w') = kvabs (fs_kv w))"
proof -
  have "wp (delete_file_record env f) (\<lambda>q w'. kvabs (fs_kv w') = without (file_keys f) (kvabs (fs_kv w)) \<or>
      (\<exists>e. q = Inl e) \<and> kvabs (fs_kv w') = kvabs (fs_kv w)) w"
    by (rule fs_over.wp_delete_file_record [OF assms(1)]) (auto simp: fs_over.held_def [OF assms(1)])
  from wpD [OF this assms(4)] show ?thesis
    using fs_over.refs_inv_without [OF assms(1-3)] assms(2) by auto
qed

theorem delete_file_record_exact_witness:
  "\<exists>w'. delete_file_record mem_fs ''f1'' attached_store = (Inr (), w') \<and>
     mem_abs (fs_kv w') (rel_key ''post'' ''7'' ''f1'') = None \<and> refs_inv plain_fs_codec (mem_abs (fs_kv w'))"
proof -
  obtain q w' where run: "delete_file_record mem_fs ''f1'' attached_store = (q, w')" by force
  moreover from run have "q = Inr ()"
    by (auto simp: attached_store_def attach_def delete_file_record_def read_ref_info_def ref_info_default_def
        fs_run_defs Let_def mem_gets_def mem_list_def limit_of_def rel_key_def refs_key_def rel_prefix_def
        files_prefix_def in_range_def prefix_scan_end_def split: if_splits)
  ultimately show ?thesis
    using delete_file_record_exact [OF memfs.fs_over_axioms _ _ run] attached_store_inv
    by (auto simp: without_def file_keys_def)
qed

text \<open>
  The paged walk terminates and reads the whole store. On a store whose reads answer, with
  fuel for its entries, it returns every entry once, in key order, however they fall into pages of
  \<open>SCAN_PAGE\<close>, with the entry a page resumes from neither skipped nor repeated.
\<close>

theorem paged_walk_complete:
  assumes "fs_readable env kvabs txov" and "scan_of (kvabs s) None None all" and "length all < n"
  shows "\<exists>s'. walk n (fe_ops env) pages_new s = (Inr (Some all), s') \<and> kvabs s' = kvabs s"
  by (rule fs_readable.walk_all [OF assms(1,2) refl page_inv_new assms(3)])

lemma scan_demo: "scan_of (mem_abs (fs_kv (fs_start [(''b'', FBytes ''2''), (''a'', FBytes ''1'')]))) None None
    [(''a'', FBytes ''1''), (''b'', FBytes ''2'')]"
  by (auto simp: scan_of_def in_range_def less_eq_char_def)

theorem paged_walk_complete_witness:
  "\<exists>s'. walk 3 mem_ops pages_new (fs_kv (fs_start [(''b'', FBytes ''2''), (''a'', FBytes ''1'')])) =
     (Inr (Some [(''a'', FBytes ''1''), (''b'', FBytes ''2'')]), s')"
  using paged_walk_complete [OF memfs.fs_readable_axioms, OF scan_demo, of 3] by auto

text \<open>
  The rows of a file are read back out of the keys of its markers: exactly, when no row identifier has a
  colon. With a colon in it the row is cut there, and the policy is asked about another row.
\<close>

lemma row_of_rel_key:
  assumes "CHR '':'' \<notin> set t" and "CHR '':'' \<notin> set r"
  shows "row_of_marker f (rel_key t r f) = Some (t, r)"
proof -
  have "is_marker_of f (rel_key t r f)" by (auto simp: is_marker_of_def rel_key_def suffix_def)
  then show ?thesis
    using assms by (simp add: row_of_marker_def rel_key_def split_once_append)
qed

lemma row_with_colon_misread:
  assumes "CHR '':'' \<notin> set t" and "CHR '':'' \<notin> set r1"
  shows "row_of_marker f (rel_key t (r1 @ '':'' @ r2) f) = Some (t, r1)"
proof -
  have "is_marker_of f (rel_key t (r1 @ '':'' @ r2) f)" by (auto simp: is_marker_of_def rel_key_def suffix_def)
  then show ?thesis
    using assms by (simp add: row_of_marker_def rel_key_def split_once_append)
qed

end
