(* ===== verification/Object_Client.thy ===== *)
theory Object_Client
  imports Fs_Store "HOL-Library.AList"
begin

text \<open>
  The byte store of the file system: the trait \<open>S3Client\<close> of \<^verbatim>\<open>src/src/fs/s3.rs\<close> as a record of
  operations with its contract, and \<open>ObjectStoreClient\<close> of \<^verbatim>\<open>src/src/fs/object_store.rs\<close>, which implements
  it over the \<open>object_store\<close> crate. The crate is a parameter: a record of actions over its own state.
\<close>

type_synonym bytes = "char list"

section \<open>The client interface\<close>

record listed_key =
  lk_key :: string
  lk_last_modified :: i64

text \<open>A download: its length, and its chunks in order.\<close>

record object_stream =
  str_size :: u64
  str_chunks :: "(fs_error + bytes) list"

record 'o s3_ops =
  s3_create_multipart_upload :: "string \<Rightarrow> string \<Rightarrow> string option \<Rightarrow> ('o, fs_error, string) act"
  s3_upload_part :: "string \<Rightarrow> string \<Rightarrow> string \<Rightarrow> int \<Rightarrow> bytes \<Rightarrow> string option \<Rightarrow> ('o, fs_error, string) act"
  s3_complete_multipart_upload :: "string \<Rightarrow> string \<Rightarrow> string \<Rightarrow> string list \<Rightarrow> ('o, fs_error, unit) act"
  s3_abort_multipart_upload :: "string \<Rightarrow> string \<Rightarrow> string \<Rightarrow> ('o, fs_error, unit) act"
  s3_backend_upload_id :: "string \<Rightarrow> ('o, fs_error, string option) act"
  s3_restore_multipart :: "persisted_multipart \<Rightarrow> ('o, fs_error, unit) act"
  s3_put_object :: "string \<Rightarrow> string \<Rightarrow> bytes \<Rightarrow> string option \<Rightarrow> string option \<Rightarrow> ('o, fs_error, unit) act"
  s3_get_object_stream :: "string \<Rightarrow> string \<Rightarrow> ('o, fs_error, object_stream) act"
  s3_get_object_range :: "string \<Rightarrow> string \<Rightarrow> u64 \<Rightarrow> u64 \<Rightarrow> ('o, fs_error, object_stream) act"
  s3_delete_object :: "string \<Rightarrow> string \<Rightarrow> ('o, fs_error, unit) act"
  s3_list_keys :: "string \<Rightarrow> string \<Rightarrow> ('o, fs_error, listed_key list) act"

text \<open>
  What the engine relies on. \<open>loc\<close> is where a key of a bucket is kept, \<open>objs\<close> the objects, and \<open>good\<close> the
  client's own invariant. A failed call may have taken effect; only the calls that write bytes change the
  objects, and only at their key.
\<close>

locale s3_client =
  fixes s3 :: "'o s3_ops"
    and good :: "'o \<Rightarrow> bool"
    and objs :: "'o \<Rightarrow> (string \<rightharpoonup> bytes)"
    and loc :: "string \<Rightarrow> string \<Rightarrow> string"
  assumes create_keeps: "good c \<Longrightarrow> s3_create_multipart_upload s3 b k ct c = (r1, c') \<Longrightarrow> good c' \<and> objs c' = objs c"
    and part_keeps: "good c \<Longrightarrow> s3_upload_part s3 b k u n body cs c = (r2, c') \<Longrightarrow> good c' \<and> objs c' = objs c"
    and abort_keeps: "good c \<Longrightarrow> s3_abort_multipart_upload s3 b k u c = (r3, c') \<Longrightarrow> good c' \<and> objs c' = objs c"
    and backend_id_keeps: "good c \<Longrightarrow> s3_backend_upload_id s3 u c = (r4, c') \<Longrightarrow> good c' \<and> objs c' = objs c"
    and restore_keeps: "good c \<Longrightarrow> s3_restore_multipart s3 rec c = (r5, c') \<Longrightarrow> good c' \<and> objs c' = objs c"
    and stream_keeps: "good c \<Longrightarrow> s3_get_object_stream s3 b k c = (r6, c') \<Longrightarrow> good c' \<and> objs c' = objs c"
    and range_keeps: "good c \<Longrightarrow> s3_get_object_range s3 b k x y c = (r7, c') \<Longrightarrow> good c' \<and> objs c' = objs c"
    and list_keeps: "good c \<Longrightarrow> s3_list_keys s3 b p c = (r8, c') \<Longrightarrow> good c' \<and> objs c' = objs c"
    and complete_frame: "good c \<Longrightarrow> s3_complete_multipart_upload s3 b k u etags c = (r9, c') \<Longrightarrow>
        good c' \<and> (\<forall>j. j \<noteq> loc b k \<longrightarrow> objs c' j = objs c j)"
    and put_effect: "good c \<Longrightarrow> s3_put_object s3 b k body ct cs c = (r9, c') \<Longrightarrow>
        good c' \<and> (objs c' = (objs c)(loc b k \<mapsto> body) \<or> (\<exists>e. r9 = Inl e) \<and> objs c' = objs c)"
    and delete_effect: "good c \<Longrightarrow> s3_delete_object s3 b k c = (r9, c') \<Longrightarrow>
        good c' \<and> (objs c' = (objs c)(loc b k := None) \<or> (\<exists>e. r9 = Inl e) \<and> objs c' = objs c)"

section \<open>The object store crate\<close>

datatype os_error = OsNotFound string | OsOther string

record attributes =
  at_content_type :: "string option"
  at_checksum_sha256 :: "string option"

record 'b backend =
  ob_create_multipart :: "string \<Rightarrow> ('b, os_error, string) act"
  ob_put_part :: "string \<Rightarrow> string \<Rightarrow> nat \<Rightarrow> bytes \<Rightarrow> ('b, os_error, string) act"
  ob_complete_multipart :: "string \<Rightarrow> string \<Rightarrow> string list \<Rightarrow> ('b, os_error, unit) act"
  ob_abort_multipart :: "string \<Rightarrow> string \<Rightarrow> ('b, os_error, unit) act"
  ob_put :: "string \<Rightarrow> bytes \<Rightarrow> ('b, os_error, unit) act"
  ob_put_opts :: "string \<Rightarrow> bytes \<Rightarrow> attributes \<Rightarrow> ('b, os_error, unit) act"
  ob_get :: "string \<Rightarrow> ('b, os_error, u64 \<times> (os_error + bytes) list) act"
  ob_get_range :: "string \<Rightarrow> u64 \<Rightarrow> u64 \<Rightarrow> ('b, os_error, (u64 \<times> u64) \<times> (os_error + bytes) list) act"
  ob_delete :: "string \<Rightarrow> ('b, os_error, unit) act"
  ob_list :: "string \<Rightarrow> ('b, os_error, (string \<times> i64) list) act"
  ob_path :: "string \<Rightarrow> string"
  ob_uuid :: "('b, fs_error, string) act"

section \<open>The client\<close>

record multipart_state =
  ms_bucket :: string
  ms_key :: string
  ms_path :: string
  ms_id :: string
  ms_parts :: "(nat \<times> string) list"

record 'b object_client =
  oc_backend :: 'b
  oc_states :: "(string \<times> multipart_state) list"

record 'b client_env =
  ce_be :: "'b backend"
  ce_is_memory :: bool

definition client_path :: "'b client_env \<Rightarrow> string \<Rightarrow> string \<Rightarrow> string" where
  "client_path ce bucket key =
     (if ce_is_memory ce then ob_path (ce_be ce) (bucket @ ''/'' @ key) else ob_path (ce_be ce) key)"

fun os_map_err :: "os_error \<Rightarrow> fs_error" where
  "os_map_err (OsNotFound t) = NotFound t"
| "os_map_err (OsOther t) = Internal t"

definition put_attrs :: "string option \<Rightarrow> string option \<Rightarrow> attributes" where
  "put_attrs content_type checksum = \<lparr>at_content_type = content_type, at_checksum_sha256 = checksum\<rparr>"

definition attrs_empty :: "attributes \<Rightarrow> bool" where
  "attrs_empty a \<longleftrightarrow> at_content_type a = None \<and> at_checksum_sha256 a = None"

text \<open>A call into the crate, with its errors mapped; \<open>HashMap\<close> operations on the upload states.\<close>

definition on_backend :: "('b, os_error, 'a) act \<Rightarrow> ('b object_client, fs_error, 'a) act" where
  "on_backend m = focus_act oc_backend (\<lambda>b c. c\<lparr>oc_backend := b\<rparr>) (map_err_act os_map_err m)"

definition state_of :: "string \<Rightarrow> ('b object_client, fs_error, multipart_state option) act" where
  "state_of u c = (Inr (map_of (oc_states c) u), c)"

definition put_state :: "string \<Rightarrow> multipart_state \<Rightarrow> ('b object_client, fs_error, unit) act" where
  "put_state u st c = (Inr (), c\<lparr>oc_states := AList.update u st (oc_states c)\<rparr>)"

definition remove_state :: "string \<Rightarrow> ('b object_client, fs_error, multipart_state option) act" where
  "remove_state u c = (Inr (map_of (oc_states c) u), c\<lparr>oc_states := AList.delete u (oc_states c)\<rparr>)"

definition unknown_upload :: "string \<Rightarrow> fs_error" where
  "unknown_upload u = Internal (''unknown upload_id '' @ u)"

definition create_multipart_upload ::
  "'b client_env \<Rightarrow> string \<Rightarrow> string \<Rightarrow> string option \<Rightarrow> ('b object_client, fs_error, string) act" where
  "create_multipart_upload ce bucket key content_type =
     (let path = client_path ce bucket key in
      bind_act (on_backend (ob_create_multipart (ce_be ce) path)) (\<lambda>id.
      bind_act (focus_act oc_backend (\<lambda>b c. c\<lparr>oc_backend := b\<rparr>) (ob_uuid (ce_be ce))) (\<lambda>uuid.
      let upload_id = ''ostore-'' @ uuid in
      bind_act (put_state upload_id \<lparr>ms_bucket = bucket, ms_key = key, ms_path = path, ms_id = id, ms_parts = []\<rparr>) (\<lambda>_.
      ok_act upload_id))))"

text \<open>
  A part goes up in three steps, with the lock of the state map held in the first and the last only: find
  the upload, put the bytes, record the part. The entry may be gone by the last step.
\<close>

definition part_target :: "string \<Rightarrow> string \<Rightarrow> string \<Rightarrow> ('b object_client, fs_error, string \<times> string) act" where
  "part_target bucket key upload_id =
     bind_act (state_of upload_id) (\<lambda>st.
     bind_act (some_act (unknown_upload upload_id) st) (\<lambda>state.
     if ms_bucket state \<noteq> bucket \<or> ms_key state \<noteq> key then err_act (Internal ''bucket/key mismatch'')
     else ok_act (ms_path state, ms_id state)))"

definition record_part :: "string \<Rightarrow> nat \<Rightarrow> string \<Rightarrow> ('b object_client, fs_error, unit) act" where
  "record_part upload_id part_idx part_id =
     bind_act (state_of upload_id) (\<lambda>st.
     case st of
       None \<Rightarrow> ok_act ()
     | Some state \<Rightarrow> put_state upload_id (state\<lparr>ms_parts := bt_insert part_idx part_id (ms_parts state)\<rparr>))"

definition client_upload_part ::
  "'b client_env \<Rightarrow> string \<Rightarrow> string \<Rightarrow> string \<Rightarrow> int \<Rightarrow> bytes \<Rightarrow> string option \<Rightarrow> ('b object_client, fs_error, string) act" where
  "client_upload_part ce bucket key upload_id part_number body checksum =
     (if part_number < 1 then err_act (BadRequest ''part_number must be >= 1'')
      else
        let part_idx = nat (part_number - 1) in
        bind_act (part_target bucket key upload_id) (\<lambda>(path, id).
        bind_act (on_backend (ob_put_part (ce_be ce) path id part_idx body)) (\<lambda>part_id.
        bind_act (record_part upload_id part_idx part_id) (\<lambda>_.
        ok_act part_id))))"

text \<open>The parts in the order of the etags, each checked against the one that was recorded.\<close>

definition check_etags :: "(nat \<times> string) list \<Rightarrow> string list \<Rightarrow> ('w, fs_error, string list) act" where
  "check_etags parts etags =
     for_act (List.enumerate 0 etags) (\<lambda>(i, etag) ordered.
       bind_act (some_act (Internal (''missing part '' @ decimal (i + 1))) (map_of parts i)) (\<lambda>part.
       if part \<noteq> etag
       then err_act (Internal (''etag mismatch for part '' @ decimal (i + 1) @ '': expected '' @ part @ '', got '' @ etag))
       else ok_act (ordered @ [part]))) []"

definition client_complete_multipart_upload ::
  "'b client_env \<Rightarrow> string \<Rightarrow> string \<Rightarrow> string \<Rightarrow> string list \<Rightarrow> ('b object_client, fs_error, unit) act" where
  "client_complete_multipart_upload ce bucket key upload_id etags =
     bind_act (remove_state upload_id) (\<lambda>st.
     bind_act (some_act (unknown_upload upload_id) st) (\<lambda>state.
     if ms_bucket state \<noteq> bucket \<or> ms_key state \<noteq> key then err_act (Internal ''bucket/key mismatch'')
     else if length etags \<noteq> length (ms_parts state)
     then err_act (Internal (''etag count '' @ decimal (length etags) @ '' != part count '' @ decimal (length (ms_parts state))))
     else
       bind_act (check_etags (ms_parts state) etags) (\<lambda>ordered.
       on_backend (ob_complete_multipart (ce_be ce) (ms_path state) (ms_id state) ordered))))"

definition client_abort_multipart_upload ::
  "'b client_env \<Rightarrow> string \<Rightarrow> string \<Rightarrow> string \<Rightarrow> ('b object_client, fs_error, unit) act" where
  "client_abort_multipart_upload ce bucket key upload_id =
     bind_act (state_of upload_id) (\<lambda>st.
     if (case st of None \<Rightarrow> False | Some state \<Rightarrow> ms_bucket state \<noteq> bucket \<or> ms_key state \<noteq> key)
     then err_act (Internal ''bucket/key mismatch'')
     else
       bind_act (remove_state upload_id) (\<lambda>st.
       case st of
         None \<Rightarrow> ok_act ()
       | Some state \<Rightarrow> on_backend (ob_abort_multipart (ce_be ce) (ms_path state) (ms_id state))))"

definition client_backend_upload_id :: "string \<Rightarrow> ('b object_client, fs_error, string option) act" where
  "client_backend_upload_id upload_id = bind_act (state_of upload_id) (\<lambda>st. ok_act (map_option ms_id st))"

definition client_restore_multipart ::
  "'b client_env \<Rightarrow> persisted_multipart \<Rightarrow> ('b object_client, fs_error, unit) act" where
  "client_restore_multipart ce rec =
     (if pm_bucket rec = [] \<or> pm_key rec = [] then err_act (Internal ''multipart record missing bucket/key'')
      else put_state (pm_upload_id rec)
             \<lparr>ms_bucket = pm_bucket rec, ms_key = pm_key rec, ms_path = client_path ce (pm_bucket rec) (pm_key rec),
              ms_id = pm_s3_upload_id rec, ms_parts = pm_parts rec\<rparr>)"

definition client_put_object ::
  "'b client_env \<Rightarrow> string \<Rightarrow> string \<Rightarrow> bytes \<Rightarrow> string option \<Rightarrow> string option \<Rightarrow> ('b object_client, fs_error, unit) act" where
  "client_put_object ce bucket key body content_type checksum =
     (let path = client_path ce bucket key; attrs = put_attrs content_type checksum in
      if attrs_empty attrs then on_backend (ob_put (ce_be ce) path body)
      else on_backend (ob_put_opts (ce_be ce) path body attrs))"

definition map_chunks :: "(os_error + bytes) list \<Rightarrow> (fs_error + bytes) list" where
  "map_chunks = map (\<lambda>c. case c of Inl e \<Rightarrow> Inl (os_map_err e) | Inr x \<Rightarrow> Inr x)"

definition client_get_object_stream :: "'b client_env \<Rightarrow> string \<Rightarrow> string \<Rightarrow> ('b object_client, fs_error, object_stream) act" where
  "client_get_object_stream ce bucket key =
     bind_act (on_backend (ob_get (ce_be ce) (client_path ce bucket key))) (\<lambda>(size, chunks).
     ok_act \<lparr>str_size = size, str_chunks = map_chunks chunks\<rparr>)"

definition client_get_object_range ::
  "'b client_env \<Rightarrow> string \<Rightarrow> string \<Rightarrow> u64 \<Rightarrow> u64 \<Rightarrow> ('b object_client, fs_error, object_stream) act" where
  "client_get_object_range ce bucket key x y =
     bind_act (on_backend (ob_get_range (ce_be ce) (client_path ce bucket key) x y)) (\<lambda>((start, stop), chunks).
     ok_act \<lparr>str_size = (if start \<le> stop then stop - start else 0), str_chunks = map_chunks chunks\<rparr>)"

definition client_delete_object :: "'b client_env \<Rightarrow> string \<Rightarrow> string \<Rightarrow> ('b object_client, fs_error, unit) act" where
  "client_delete_object ce bucket key =
     bind_act (focus_act oc_backend (\<lambda>b c. c\<lparr>oc_backend := b\<rparr>) (try_act (ob_delete (ce_be ce) (client_path ce bucket key)))) (\<lambda>r.
     case r of
       Inr _ \<Rightarrow> ok_act ()
     | Inl (OsNotFound _) \<Rightarrow> ok_act ()
     | Inl e \<Rightarrow> err_act (os_map_err e))"

definition client_list_keys :: "'b client_env \<Rightarrow> string \<Rightarrow> string \<Rightarrow> ('b object_client, fs_error, listed_key list) act" where
  "client_list_keys ce bucket pre =
     bind_act (on_backend (ob_list (ce_be ce) (client_path ce bucket pre))) (\<lambda>metas.
     ok_act (map (\<lambda>(full, modified).
       \<lparr>lk_key = (if ce_is_memory ce
                  then (case strip_prefix (bucket @ ''/'') full of None \<Rightarrow> full | Some k \<Rightarrow> k) else full),
        lk_last_modified = modified\<rparr>) metas))"

definition object_store_client :: "'b client_env \<Rightarrow> 'b object_client s3_ops" where
  "object_store_client ce = \<lparr>
     s3_create_multipart_upload = create_multipart_upload ce,
     s3_upload_part = client_upload_part ce,
     s3_complete_multipart_upload = client_complete_multipart_upload ce,
     s3_abort_multipart_upload = client_abort_multipart_upload ce,
     s3_backend_upload_id = client_backend_upload_id,
     s3_restore_multipart = client_restore_multipart ce,
     s3_put_object = client_put_object ce,
     s3_get_object_stream = client_get_object_stream ce,
     s3_get_object_range = client_get_object_range ce,
     s3_delete_object = client_delete_object ce,
     s3_list_keys = client_list_keys ce\<rparr>"

section \<open>The check of the etags\<close>

lemma map_of_enumerate:
  "map_of (List.enumerate n xs) i = (if n \<le> i \<and> i < n + length xs then Some (xs ! (i - n)) else None)"
  by (induction xs arbitrary: n) (auto simp: nth_Cons')

lemma check_etags_from:
  assumes "for_act (List.enumerate n etags) (\<lambda>(i, etag) ordered.
       bind_act (some_act (e1 i) (map_of parts i)) (\<lambda>part.
       if part \<noteq> etag then err_act (e2 i part etag) else ok_act (ordered @ [part]))) acc w = (r, w')"
  shows "w' = w \<and> (\<forall>xs. r = Inr xs \<longrightarrow> xs = acc @ etags \<and> (\<forall>i<length etags. map_of parts (n + i) = Some (etags ! i)))"
  using assms
proof (induction etags arbitrary: n acc w)
  case (Cons x etags)
  show ?case
  proof (cases "map_of parts n = Some x")
    case True
    with Cons.prems have "for_act (List.enumerate (Suc n) etags) (\<lambda>(i, etag) ordered.
       bind_act (some_act (e1 i) (map_of parts i)) (\<lambda>part.
       if part \<noteq> etag then err_act (e2 i part etag) else ok_act (ordered @ [part]))) (acc @ [x]) w = (r, w')"
      by (simp add: some_act_def)
    from Cons.IH [OF this] True show ?thesis by (auto simp: less_Suc_eq_0_disj)
  next
    case False
    then show ?thesis using Cons.prems by (auto simp: act_eqs split: option.splits if_splits)
  qed
qed simp

lemma check_etags_ok:
  assumes "check_etags parts etags w = (r, w')"
  shows "w' = w" "r = Inr xs \<Longrightarrow> xs = etags \<and> (\<forall>i<length etags. map_of parts i = Some (etags ! i))"
  using check_etags_from [OF assms [unfolded check_etags_def]] by auto

lemma check_etags_internal: "check_etags parts etags w = (Inl e, w') \<Longrightarrow> \<exists>t. e = Internal t"
proof -
  have "for_act ies (\<lambda>(i, etag) ordered.
       bind_act (some_act (Internal (f i)) (map_of parts i)) (\<lambda>part.
       if part \<noteq> etag then err_act (Internal (g i part etag)) else ok_act (ordered @ [part]))) acc w = (Inl e, w') \<Longrightarrow>
       \<exists>t. e = Internal t" for ies acc f g w
    by (induction ies arbitrary: acc w) (auto simp: act_eqs split: option.splits if_splits)
  then show "check_etags parts etags w = (Inl e, w') \<Longrightarrow> \<exists>t. e = Internal t"
    unfolding check_etags_def by this
qed

lemma check_etags_run:
  assumes "\<forall>i<length etags. map_of parts (n + i) = Some (etags ! i)"
  shows "for_act (List.enumerate n etags) (\<lambda>(i, etag) ordered.
       bind_act (some_act (e1 i) (map_of parts i)) (\<lambda>part.
       if part \<noteq> etag then err_act (e2 i part etag) else ok_act (ordered @ [part]))) acc w = (Inr (acc @ etags), w)"
  using assms
proof (induction etags arbitrary: n acc)
  case (Cons x etags)
  have "map_of parts n = Some x" using Cons.prems by (auto dest: spec [of _ 0])
  moreover have "\<forall>i<length etags. map_of parts (Suc n + i) = Some (etags ! i)"
    using Cons.prems by auto
  ultimately show ?case using Cons.IH [of "Suc n" "acc @ [x]"] by (simp add: some_act_def)
qed simp

lemma check_etags_complete:
  "\<forall>i<length etags. map_of parts i = Some (etags ! i) \<Longrightarrow> check_etags parts etags w = (Inr etags, w)"
  unfolding check_etags_def by (rule check_etags_run [where acc = "[]", THEN trans]) simp_all

section \<open>The client implements the interface\<close>

text \<open>What is used of the crate: only the calls that write bytes change objects, and only at their path.\<close>

locale object_backend =
  fixes ce :: "'b client_env"
    and bobjs :: "'b \<Rightarrow> (string \<rightharpoonup> bytes)"
  assumes b_create: "ob_create_multipart (ce_be ce) p b = (r1, b') \<Longrightarrow> bobjs b' = bobjs b"
    and b_part: "ob_put_part (ce_be ce) p i n body b = (r1, b') \<Longrightarrow> bobjs b' = bobjs b"
    and b_abort: "ob_abort_multipart (ce_be ce) p i b = (r2, b') \<Longrightarrow> bobjs b' = bobjs b"
    and b_uuid: "ob_uuid (ce_be ce) b = (r3, b') \<Longrightarrow> bobjs b' = bobjs b"
    and b_get: "ob_get (ce_be ce) p b = (r4, b') \<Longrightarrow> bobjs b' = bobjs b"
    and b_get_range: "ob_get_range (ce_be ce) p x y b = (r5, b') \<Longrightarrow> bobjs b' = bobjs b"
    and b_list: "ob_list (ce_be ce) p b = (r6, b') \<Longrightarrow> bobjs b' = bobjs b"
    and b_complete: "ob_complete_multipart (ce_be ce) p i parts b = (r2, b') \<Longrightarrow> j \<noteq> p \<Longrightarrow> bobjs b' j = bobjs b j"
    and b_put_ok: "ob_put (ce_be ce) p body b = (Inr u, b') \<Longrightarrow> bobjs b' = (bobjs b)(p \<mapsto> body)"
    and b_put_err: "ob_put (ce_be ce) p body b = (Inl e, b') \<Longrightarrow> bobjs b' = bobjs b \<or> bobjs b' = (bobjs b)(p \<mapsto> body)"
    and b_opts_ok: "ob_put_opts (ce_be ce) p body at b = (Inr u, b') \<Longrightarrow> bobjs b' = (bobjs b)(p \<mapsto> body)"
    and b_opts_err: "ob_put_opts (ce_be ce) p body at b = (Inl e, b') \<Longrightarrow> bobjs b' = bobjs b \<or> bobjs b' = (bobjs b)(p \<mapsto> body)"
    and b_delete_ok: "ob_delete (ce_be ce) p b = (Inr u, b') \<Longrightarrow> bobjs b' = (bobjs b)(p := None)"
    and b_delete_gone: "ob_delete (ce_be ce) p b = (Inl (OsNotFound t), b') \<Longrightarrow> bobjs b' = (bobjs b)(p := None)"
    and b_delete_err: "ob_delete (ce_be ce) p b = (Inl e, b') \<Longrightarrow> bobjs b' = bobjs b \<or> bobjs b' = (bobjs b)(p := None)"
begin

text \<open>The path recorded for an upload is that of its key.\<close>

definition states_ok :: "'b object_client \<Rightarrow> bool" where
  "states_ok c \<longleftrightarrow> (\<forall>u st. map_of (oc_states c) u = Some st \<longrightarrow> ms_path st = client_path ce (ms_bucket st) (ms_key st))"

definition kept :: "(string \<rightharpoonup> bytes) \<Rightarrow> 'b object_client \<Rightarrow> bool" where
  "kept m c \<longleftrightarrow> bobjs (oc_backend c) = m \<and> states_ok c"

lemma kept_backend: "(\<And>b r b'. m b = (r, b') \<Longrightarrow> bobjs b' = bobjs b) \<Longrightarrow> keeps (kept x) (on_backend m)"
  by (rule keepsI) (auto simp: on_backend_def kept_def states_ok_def act_eqs)

lemma kept_state: "keeps (kept x) (state_of u)" "keeps (kept x) (remove_state u)"
  by (auto simp: keeps_def kept_def states_ok_def state_of_def remove_state_def delete_conv')

lemma kept_put_state:
  "ms_path st = client_path ce (ms_bucket st) (ms_key st) \<Longrightarrow> keeps (kept x) (put_state u st)"
  by (auto simp: keeps_def kept_def states_ok_def put_state_def update_conv')

lemmas kept_rules = keeps_rules kept_state kept_put_state kept_backend

lemma kept_create: "keeps (kept x) (create_multipart_upload ce b k ct)"
proof -
  have "keeps (kept x) (focus_act oc_backend (\<lambda>b c. c\<lparr>oc_backend := b\<rparr>) (ob_uuid (ce_be ce)))"
    by (rule keepsI) (auto simp: kept_def states_ok_def act_eqs dest: b_uuid)
  then show ?thesis
    unfolding create_multipart_upload_def Let_def by (auto intro!: kept_rules b_create)
qed

lemma kept_record: "keeps (kept x) (record_part u i p)"
proof (rule keepsI)
  fix c r c'
  assume "record_part u i p c = (r, c')" and "kept x c"
  then show "kept x c'"
    by (cases "map_of (oc_states c) u")
       (auto simp: record_part_def state_of_def put_state_def bind_act_def kept_def states_ok_def update_conv' split: if_splits)
qed

lemma kept_part: "keeps (kept x) (client_upload_part ce b k u n body cs)"
  unfolding client_upload_part_def part_target_def Let_def by (auto intro!: kept_rules kept_record b_part)

lemma kept_abort: "keeps (kept x) (client_abort_multipart_upload ce b k u)"
  unfolding client_abort_multipart_upload_def by (auto intro!: kept_rules b_abort split: option.split)

lemma kept_reads:
  "keeps (kept x) (client_backend_upload_id u)" "keeps (kept x) (client_restore_multipart ce rec)"
  "keeps (kept x) (client_get_object_stream ce b k)" "keeps (kept x) (client_get_object_range ce b k y z)"
  "keeps (kept x) (client_list_keys ce b p)"
  unfolding client_backend_upload_id_def client_restore_multipart_def client_get_object_stream_def
    client_get_object_range_def client_list_keys_def
  by (auto intro!: kept_rules elim: b_get b_get_range b_list)

lemma complete_keeps_others:
  assumes "states_ok c" and "client_complete_multipart_upload ce b k u etags c = (r, c')"
  shows "states_ok c' \<and> (\<forall>j. j \<noteq> client_path ce b k \<longrightarrow> bobjs (oc_backend c') j = bobjs (oc_backend c) j)"
proof (cases "map_of (oc_states c) u")
  case None
  then show ?thesis
    using assms by (auto simp: client_complete_multipart_upload_def remove_state_def act_eqs states_ok_def delete_conv')
next
  case (Some st)
  let ?c = "c\<lparr>oc_states := AList.delete u (oc_states c)\<rparr>"
  have ok: "states_ok ?c" using assms(1) by (auto simp: states_ok_def delete_conv')
  have run: "(if ms_bucket st \<noteq> b \<or> ms_key st \<noteq> k then err_act (Internal ''bucket/key mismatch'')
     else if length etags \<noteq> length (ms_parts st)
     then err_act (Internal (''etag count '' @ decimal (length etags) @ '' != part count '' @ decimal (length (ms_parts st))))
     else
       bind_act (check_etags (ms_parts st) etags) (\<lambda>ordered.
       on_backend (ob_complete_multipart (ce_be ce) (ms_path st) (ms_id st) ordered))) ?c = (r, c')"
    using assms(2) Some by (simp add: client_complete_multipart_upload_def remove_state_def bind_act_def some_act_def ok_act_def)
  show ?thesis
  proof (cases "oc_backend c' = oc_backend c \<and> c' = ?c")
    case True
    then show ?thesis using ok by simp
  next
    case False
    then have key: "ms_bucket st = b" "ms_key st = k"
      and "bind_act (check_etags (ms_parts st) etags) (\<lambda>ordered.
         on_backend (ob_complete_multipart (ce_be ce) (ms_path st) (ms_id st) ordered)) ?c = (r, c')"
      using run by (auto split: if_splits)
    then obtain xs where "on_backend (ob_complete_multipart (ce_be ce) (ms_path st) (ms_id st) xs) ?c = (r, c')"
      using False check_etags_ok(1) [of "ms_parts st" etags ?c] by (auto simp: bind_act_eq)
    moreover have "ms_path st = client_path ce b k" using assms(1) Some key by (auto simp: states_ok_def)
    ultimately show ?thesis
      using ok b_complete by (auto simp: on_backend_def act_eqs states_ok_def)
  qed
qed

lemma write_effect:
  assumes "states_ok c" and "on_backend m c = (r, c')"
    and "\<And>b u b'. m b = (Inr u, b') \<Longrightarrow> bobjs b' = f (bobjs b)"
    and "\<And>b e b'. m b = (Inl e, b') \<Longrightarrow> bobjs b' = bobjs b \<or> bobjs b' = f (bobjs b)"
  shows "states_ok c' \<and> (bobjs (oc_backend c') = f (bobjs (oc_backend c)) \<or>
    (\<exists>e. r = Inl e) \<and> bobjs (oc_backend c') = bobjs (oc_backend c))"
  using assms(1,2) assms(3,4) [of "oc_backend c"]
  by (auto simp: on_backend_def act_eqs states_ok_def)

lemma put_writes:
  assumes "states_ok c" and "client_put_object ce b k body ct cs c = (r, c')"
  shows "states_ok c' \<and> (bobjs (oc_backend c') = (bobjs (oc_backend c))(client_path ce b k \<mapsto> body) \<or>
    (\<exists>e. r = Inl e) \<and> bobjs (oc_backend c') = bobjs (oc_backend c))"
proof (cases "attrs_empty (put_attrs ct cs)")
  case True
  then have on: "on_backend (ob_put (ce_be ce) (client_path ce b k) body) c = (r, c')"
    using assms(2) by (simp add: client_put_object_def)
  show ?thesis
    by (rule write_effect [where f = "\<lambda>m. m(client_path ce b k \<mapsto> body)", OF assms(1) on])
       (erule b_put_ok b_put_err)+
next
  case False
  then have on: "on_backend (ob_put_opts (ce_be ce) (client_path ce b k) body (put_attrs ct cs)) c = (r, c')"
    using assms(2) by (simp add: client_put_object_def)
  show ?thesis
    by (rule write_effect [where f = "\<lambda>m. m(client_path ce b k \<mapsto> body)", OF assms(1) on])
       (erule b_opts_ok b_opts_err)+
qed

lemma delete_removes:
  assumes "states_ok c" and "client_delete_object ce b k c = (r, c')"
  shows "states_ok c' \<and> (bobjs (oc_backend c') = (bobjs (oc_backend c))(client_path ce b k := None) \<or>
    (\<exists>e. r = Inl e) \<and> bobjs (oc_backend c') = bobjs (oc_backend c))"
proof -
  obtain q b' where d: "ob_delete (ce_be ce) (client_path ce b k) (oc_backend c) = (q, b')" by force
  have c': "c' = c\<lparr>oc_backend := b'\<rparr>" and r: "(\<exists>e. r = Inl e) \<longleftrightarrow> (\<exists>t. q = Inl (OsOther t))"
    using assms(2) d by (auto simp: client_delete_object_def act_eqs split: sum.splits os_error.splits)
  have "bobjs b' = (bobjs (oc_backend c))(client_path ce b k := None) \<or> (\<exists>t. q = Inl (OsOther t)) \<and> bobjs b' = bobjs (oc_backend c)"
  proof (cases q)
    case (Inl e)
    then show ?thesis using d b_delete_gone b_delete_err by (cases e) fastforce+
  next
    case (Inr u)
    then show ?thesis using d b_delete_ok by blast
  qed
  then show ?thesis using assms(1) r by (auto simp: c' states_ok_def)
qed

end

sublocale object_backend < client: s3_client "object_store_client ce" states_ok "\<lambda>c. bobjs (oc_backend c)" "client_path ce"
proof -
  have k: "states_ok c \<Longrightarrow> m c = (r, c') \<Longrightarrow> (\<And>x. keeps (kept x) m) \<Longrightarrow>
      states_ok c' \<and> bobjs (oc_backend c') = bobjs (oc_backend c)" for c m r c'
    using keepsD [of "kept (bobjs (oc_backend c))" m c r c'] by (simp add: kept_def)
  show "s3_client (object_store_client ce) states_ok (\<lambda>c. bobjs (oc_backend c)) (client_path ce)"
    by (unfold_locales; simp add: object_store_client_def;
        erule (1) k [OF _ _ kept_create] k [OF _ _ kept_part] k [OF _ _ kept_abort] k [OF _ _ kept_reads(1)]
          k [OF _ _ kept_reads(2)] k [OF _ _ kept_reads(3)] k [OF _ _ kept_reads(4)] k [OF _ _ kept_reads(5)]
          complete_keeps_others put_writes delete_removes)
qed

section \<open>An in-memory backend\<close>

record mem_backend =
  mb_objs :: "(string \<times> bytes) list"
  mb_uploads :: "(string \<times> (nat \<times> bytes) list) list"
  mb_next :: nat

definition mem_be :: "mem_backend backend" where
  "mem_be = \<lparr>
     ob_create_multipart = (\<lambda>p b. (Inr (decimal (mb_next b)),
        b\<lparr>mb_uploads := AList.update (decimal (mb_next b)) [] (mb_uploads b), mb_next := Suc (mb_next b)\<rparr>)),
     ob_put_part = (\<lambda>p i n body b. case map_of (mb_uploads b) i of
        None \<Rightarrow> (Inl (OsNotFound i), b)
      | Some parts \<Rightarrow> (Inr (decimal n), b\<lparr>mb_uploads := AList.update i (bt_insert n body parts) (mb_uploads b)\<rparr>)),
     ob_complete_multipart = (\<lambda>p i parts b. case map_of (mb_uploads b) i of
        None \<Rightarrow> (Inl (OsNotFound i), b)
      | Some ps \<Rightarrow> (Inr (), b\<lparr>mb_objs := AList.update p (concat (map snd ps)) (mb_objs b),
                         mb_uploads := AList.delete i (mb_uploads b)\<rparr>)),
     ob_abort_multipart = (\<lambda>p i b. (Inr (), b\<lparr>mb_uploads := AList.delete i (mb_uploads b)\<rparr>)),
     ob_put = (\<lambda>p body b. (Inr (), b\<lparr>mb_objs := AList.update p body (mb_objs b)\<rparr>)),
     ob_put_opts = (\<lambda>p body at b. (Inr (), b\<lparr>mb_objs := AList.update p body (mb_objs b)\<rparr>)),
     ob_get = (\<lambda>p b. case map_of (mb_objs b) p of
        None \<Rightarrow> (Inl (OsNotFound p), b) | Some x \<Rightarrow> (Inr (of_nat (length x), [Inr x]), b)),
     ob_get_range = (\<lambda>p x y b. case map_of (mb_objs b) p of
        None \<Rightarrow> (Inl (OsNotFound p), b)
      | Some z \<Rightarrow> (Inr ((x, y), [Inr (take (unat (y - x)) (drop (unat x) z))]), b)),
     ob_delete = (\<lambda>p b. if map_of (mb_objs b) p = None then (Inl (OsNotFound p), b)
        else (Inr (), b\<lparr>mb_objs := AList.delete p (mb_objs b)\<rparr>)),
     ob_list = (\<lambda>p b. (Inr (map (\<lambda>(k, _). (k, 0)) (filter (\<lambda>(k, _). prefix p k) (mb_objs b))), b)),
     ob_path = id,
     ob_uuid = (\<lambda>b. (Inr (decimal (mb_next b)), b\<lparr>mb_next := Suc (mb_next b)\<rparr>))\<rparr>"

definition mem_ce :: "mem_backend client_env" where
  "mem_ce = \<lparr>ce_be = mem_be, ce_is_memory = False\<rparr>"

lemma mem_ce_sel [simp]: "ce_be mem_ce = mem_be" "ce_is_memory mem_ce = False"
  by (simp_all add: mem_ce_def)

interpretation membytes: object_backend mem_ce "\<lambda>b. map_of (mb_objs b)"
  by unfold_locales
     (auto simp: mem_be_def update_conv' delete_conv' restrict_map_def fun_eq_iff split: option.splits if_splits)

section \<open>Properties\<close>

text \<open>
  A restart loses no part of a multipart upload. After the state is loaded from the durable record,
  completing with the recorded etags hands exactly these parts, in order, to the upload the record names;
  any other list of etags is refused before the backend is called.
\<close>

theorem restored_upload_completes:
  assumes "client_restore_multipart ce rec c = (Inr (), c1)" and "pm_parts rec = List.enumerate 0 recorded"
  shows "client_complete_multipart_upload ce (pm_bucket rec) (pm_key rec) (pm_upload_id rec) recorded c1 =
      on_backend (ob_complete_multipart (ce_be ce) (client_path ce (pm_bucket rec) (pm_key rec)) (pm_s3_upload_id rec) recorded)
        (c1\<lparr>oc_states := AList.delete (pm_upload_id rec) (oc_states c1)\<rparr>) \<and>
    (etags \<noteq> recorded \<longrightarrow> (\<exists>e. client_complete_multipart_upload ce (pm_bucket rec) (pm_key rec) (pm_upload_id rec) etags c1 =
      (Inl (Internal e), c1\<lparr>oc_states := AList.delete (pm_upload_id rec) (oc_states c1)\<rparr>)))"
proof -
  let ?st = "\<lparr>ms_bucket = pm_bucket rec, ms_key = pm_key rec, ms_path = client_path ce (pm_bucket rec) (pm_key rec),
              ms_id = pm_s3_upload_id rec, ms_parts = pm_parts rec\<rparr>"
  let ?c2 = "c1\<lparr>oc_states := AList.delete (pm_upload_id rec) (oc_states c1)\<rparr>"
  have st: "map_of (oc_states c1) (pm_upload_id rec) = Some ?st"
    using assms(1) by (auto simp: client_restore_multipart_def put_state_def update_conv' split: if_splits)
  have ps: "map_of (pm_parts rec) i = (if i < length recorded then Some (recorded ! i) else None)" for i
    by (simp add: assms(2) map_of_enumerate)
  have len: "length (pm_parts rec) = length recorded" by (simp add: assms(2))
  have run: "client_complete_multipart_upload ce (pm_bucket rec) (pm_key rec) (pm_upload_id rec) xs c1 =
     (if length xs \<noteq> length recorded
      then (Inl (Internal (''etag count '' @ decimal (length xs) @ '' != part count '' @ decimal (length recorded))), ?c2)
      else bind_act (check_etags (pm_parts rec) xs) (\<lambda>ordered.
         on_backend (ob_complete_multipart (ce_be ce) (client_path ce (pm_bucket rec) (pm_key rec)) (pm_s3_upload_id rec) ordered)) ?c2)" for xs
    by (simp add: client_complete_multipart_upload_def remove_state_def st bind_act_def some_act_def ok_act_def err_act_def len)
  have check: "check_etags (pm_parts rec) recorded w = (Inr recorded, w)" for w :: "'a object_client"
    by (rule check_etags_complete) (simp add: ps)
  have "\<exists>e. client_complete_multipart_upload ce (pm_bucket rec) (pm_key rec) (pm_upload_id rec) etags c1 = (Inl (Internal e), ?c2)"
    if ne: "etags \<noteq> recorded"
  proof (cases "length etags = length recorded")
    case True
    obtain r w where c: "check_etags (pm_parts rec) etags ?c2 = (r, w)" by force
    have "r \<noteq> Inr xs" for xs
    proof
      assume "r = Inr xs"
      from check_etags_ok(2) [OF c this] have "etags ! i = recorded ! i" if "i < length etags" for i
        using that True ps [of i] by auto
      then show False using ne True by (simp add: list_eq_iff_nth_eq)
    qed
    moreover have "\<exists>t. e = Internal t" if "r = Inl e" for e
      using check_etags_internal [OF c [unfolded that]] .
    ultimately obtain t where "r = Inl (Internal t)" by (cases r) auto
    then show ?thesis using c check_etags_ok(1) [OF c] True by (simp add: run bind_act_def)
  qed (simp add: run)
  then show ?thesis by (simp add: run check bind_act_def)
qed

definition demo_client :: "mem_backend object_client" where
  "demo_client = \<lparr>oc_backend = \<lparr>mb_objs = [], mb_uploads = [(''be1'', [(0, ''ab''), (1, ''cd'')])], mb_next = 5\<rparr>, oc_states = []\<rparr>"

definition two_parts :: persisted_multipart where
  "two_parts = demo_multipart\<lparr>pm_parts := [(0, ''e0''), (1, ''e1'')]\<rparr>"

theorem restored_upload_completes_witness:
  "\<exists>c1 c2. client_restore_multipart mem_ce two_parts demo_client = (Inr (), c1) \<and>
     client_complete_multipart_upload mem_ce ''b'' ''files/u1'' ''mp1'' [''e0'', ''e1''] c1 = (Inr (), c2) \<and>
     map_of (mb_objs (oc_backend c2)) ''files/u1'' = Some ''abcd''"
proof -
  obtain c1 where run: "client_restore_multipart mem_ce two_parts demo_client = (Inr (), c1)"
      and c1: "oc_backend c1 = oc_backend demo_client"
    by (simp add: client_restore_multipart_def two_parts_def demo_multipart_def put_state_def)
  show ?thesis
    using restored_upload_completes [OF run, of "[''e0'', ''e1'']"] run c1
    by (simp add: two_parts_def demo_multipart_def on_backend_def act_defs mem_be_def demo_client_def client_path_def update_conv')
qed

end
