(* ===== verification/Policy_Types.thy ===== *)
theory Policy_Types
  imports Kv_Store
begin

text \<open>
  The vocabulary of the policy components of \<^verbatim>\<open>src/src/policy/\<close>: actions, the errors of the engine and the
  object of a row. An error of the policy library is a parameter in its text; what the code looks into is the store
  error that the storage adapter boxed in it.
\<close>

datatype action = Read | Write | Delete | Execute

fun act_text :: "action \<Rightarrow> string" where
  "act_text Read = ''read''"
| "act_text Write = ''write''"
| "act_text Delete = ''delete''"
| "act_text Execute = ''execute''"

text \<open>
  Lower case on the ASCII letters, which decides the comparison with the four words: no other character has an
  ASCII letter of theirs alone as its lower case.
\<close>

definition lower_char :: "char \<Rightarrow> char" where
  "lower_char c = (if 65 \<le> (of_char c :: nat) \<and> of_char c \<le> (90 :: nat) then char_of (of_char c + 32 :: nat) else c)"

definition action_from_str :: "string \<Rightarrow> string + action" where
  "action_from_str s =
     (let t = map lower_char s in
      if t = ''read'' then Inr Read
      else if t = ''write'' then Inr Write
      else if t = ''delete'' then Inr Delete
      else if t = ''execute'' then Inr Execute
      else Inl (''Unknown action: '' @ s))"

record casbin_error =
  ce_adapter :: "store_error option"
  ce_text :: string

datatype policy_error =
    PolicyStore string
  | Casbin casbin_error
  | AccessDenied
  | ChangeFeed string
  | PolicyFenced string

fun policy_display :: "policy_error \<Rightarrow> string" where
  "policy_display (PolicyStore t) = ''policy store error: '' @ t"
| "policy_display (Casbin e) = ''casbin authorization engine error: '' @ ce_text e"
| "policy_display AccessDenied = ''access denied''"
| "policy_display (ChangeFeed t) = ''change feed error: '' @ t"
| "policy_display (PolicyFenced r) =
     ''store epoch lost to another writer ('' @ r @ ''); this handle must stop writing and be rebuilt''"

fun policy_fencing_loss :: "policy_error \<Rightarrow> bool" where
  "policy_fencing_loss (PolicyFenced _) = True"
| "policy_fencing_loss _ = False"

definition row_object :: "string \<Rightarrow> string \<Rightarrow> string" where
  "row_object row_type row_id = row_type @ '':'' @ row_id"

lemma action_from_act_text [simp]: "action_from_str (act_text a) = Inr a"
  by (cases a) (simp_all add: action_from_str_def lower_char_def)

lemma act_text_inj [simp]: "act_text a = act_text b \<longleftrightarrow> a = b"
  by (cases a; cases b) simp_all

text \<open>A row is told from its object as long as its type has no colon; its id may have one.\<close>

lemma row_object_inj:
  assumes "CHR '':'' \<notin> set t" and "CHR '':'' \<notin> set t'" and "row_object t i = row_object t' i'"
  shows "t = t' \<and> i = i'"
proof -
  have "split_once CHR '':'' (row_object t i) = Some (t, i)" and "split_once CHR '':'' (row_object t' i') = Some (t', i')"
    using assms(1,2) by (simp_all only: row_object_def split_colon not_False_eq_True)
  then show ?thesis unfolding assms(3) by simp
qed

end
