(* ===== verification/Fs_Engine.thy ===== *)
theory Fs_Engine
  imports Object_Client Fs_Model Policy_Types
begin

text \<open>
  The file engine of \<^verbatim>\<open>src/src/fs/mod.rs\<close>: uploads in parts, completion, cancellation, downloads, deletion and
  the row relations, over the metadata store, the byte store and the change feed. The authorizer and the feed
  are interfaces the engine is given, so they are arguments of the model; clocks and fresh identifiers are
  arguments of the operations that read them.
\<close>

record ('s, 't, 'v, 'o, 'l) fs_engine =
  en_store :: "('s, 't, 'v) fs_env"
  en_s3 :: "'o s3_ops"
  en_bucket :: string
  en_require_row :: "string \<Rightarrow> string \<Rightarrow> string \<Rightarrow> action \<Rightarrow> policy_error + unit"
  en_authorize_row :: "string \<Rightarrow> string \<Rightarrow> string \<Rightarrow> action \<Rightarrow> policy_error + bool"
  en_feed :: "(i64 \<Rightarrow> wal_op \<Rightarrow> ('l, string, unit) act) option"

record ('s, 'o, 'l) fs_world =
  fw_store :: "'s fs_store"
  fw_s3 :: 'o
  fw_feed :: 'l

definition on_store :: "('s fs_store, fs_error, 'a) act \<Rightarrow> (('s, 'o, 'l) fs_world, fs_error, 'a) act" where
  "on_store = focus_act fw_store (\<lambda>s w. w\<lparr>fw_store := s\<rparr>)"

definition on_s3 :: "('o, fs_error, 'a) act \<Rightarrow> (('s, 'o, 'l) fs_world, fs_error, 'a) act" where
  "on_s3 = focus_act fw_s3 (\<lambda>s w. w\<lparr>fw_s3 := s\<rparr>)"

text \<open>\<open>part_slots\<close>: the allocator refuses what does not fit.\<close>

definition part_slots :: "(u64 \<Rightarrow> bool) \<Rightarrow> u64 \<Rightarrow> fs_error + string option list" where
  "part_slots fits len =
     (if \<not> fits len then Inl (BadRequest ''file_total_parts is too large to track upload state'')
      else Inr (replicate (unat len) None))"

definition feed_error :: "string \<Rightarrow> fs_error" where
  "feed_error e = Internal e"

definition announce :: "('s, 't, 'v, 'o, 'l) fs_engine \<Rightarrow> i64 \<Rightarrow> wal_op \<Rightarrow> (('s, 'o, 'l) fs_world, fs_error, unit) act" where
  "announce eng ts op =
     (case en_feed eng of
        None \<Rightarrow> ok_act ()
      | Some sink \<Rightarrow> focus_act fw_feed (\<lambda>l w. w\<lparr>fw_feed := l\<rparr>) (map_err_act feed_error (sink ts op)))"

section \<open>Rows\<close>

fun row_error :: "policy_error \<Rightarrow> fs_error" where
  "row_error AccessDenied = Forbidden"
| "row_error e = Internal (policy_display e)"

definition require_write :: "('s, 't, 'v, 'o, 'l) fs_engine \<Rightarrow> string \<Rightarrow> string \<Rightarrow> string \<Rightarrow> ('w, fs_error, unit) act" where
  "require_write eng caller row_type row_id =
     map_err_act row_error (res_act (en_require_row eng caller row_type row_id Write))"

definition engine_attach :: "('s, 't, 'v, 'o, 'l) fs_engine \<Rightarrow> i64 \<Rightarrow> string \<Rightarrow> string \<Rightarrow> string \<Rightarrow> string \<Rightarrow>
    (('s, 'o, 'l) fs_world, fs_error, u32) act" where
  "engine_attach eng ts row_type row_id file_id caller =
     bind_act (require_write eng caller row_type row_id) (\<lambda>_.
     bind_act (on_store (get_file (en_store eng) file_id)) (\<lambda>f.
     if f = None then err_act (NotFound ''file not found'')
     else
       bind_act (on_store (attach (en_store eng) row_type row_id file_id)) (\<lambda>count.
       bind_act (announce eng ts (Attach row_type row_id file_id)) (\<lambda>_.
       ok_act count))))"

definition engine_detach :: "('s, 't, 'v, 'o, 'l) fs_engine \<Rightarrow> i64 \<Rightarrow> i64 \<Rightarrow> string \<Rightarrow> string \<Rightarrow> string \<Rightarrow> string \<Rightarrow>
    (('s, 'o, 'l) fs_world, fs_error, u32) act" where
  "engine_detach eng now ts row_type row_id file_id caller =
     bind_act (require_write eng caller row_type row_id) (\<lambda>_.
     bind_act (on_store (detach (en_store eng) now row_type row_id file_id)) (\<lambda>count.
     bind_act (announce eng ts (Detach row_type row_id file_id)) (\<lambda>_.
     ok_act count)))"

definition can_access :: "('s, 't, 'v, 'o, 'l) fs_engine \<Rightarrow> string \<Rightarrow> string \<Rightarrow> action \<Rightarrow>
    (('s, 'o, 'l) fs_world, fs_error, bool) act" where
  "can_access eng caller file_id a =
     bind_act (on_store (get_file (en_store eng) file_id)) (\<lambda>f.
     bind_act (some_act (NotFound ''file not found'') f) (\<lambda>rec.
     bind_act (on_store (rows_for_file (en_store eng) file_id)) (\<lambda>rows.
     ok_act (if rows = [] then fr_owner_sub rec = caller
             else list_ex (\<lambda>(ty, rid). en_authorize_row eng caller ty rid a = Inr True) rows))))"

section \<open>Uploads\<close>

definition init_upload :: "('s, 't, 'v, 'o, 'l) fs_engine \<Rightarrow> (u64 \<Rightarrow> bool) \<Rightarrow> i64 \<Rightarrow> string \<Rightarrow> init_request \<Rightarrow> string \<Rightarrow>
    (('s, 'o, 'l) fs_world, fs_error, string) act" where
  "init_upload eng fits now file_id req owner =
     bind_act (res_act (validate_init req)) (\<lambda>_.
     let s3_key = ''files/'' @ file_id in
     bind_act (if file_total_parts req = 1 then ok_act None
               else bind_act (on_s3 (s3_create_multipart_upload (en_s3 eng) (en_bucket eng) s3_key None)) (\<lambda>i. ok_act (Some i))) (\<lambda>s3_upload_id.
     bind_act (res_act (part_slots fits (file_total_parts req))) (\<lambda>etags.
     bind_act (res_act (part_slots fits (file_total_parts req))) (\<lambda>checksums.
     let session = \<lparr>us_id = file_id, us_file_size = file_size req, us_part_size = part_size req,
         us_file_total_parts = file_total_parts req, us_s3_upload_id = s3_upload_id, us_s3_key = s3_key,
         us_owner_sub = owner, us_created_at = now, us_etags = etags, us_checksums = checksums\<rparr> in
     bind_act (on_store (save_session (en_store eng) session)) (\<lambda>_.
     case s3_upload_id of
       None \<Rightarrow> ok_act file_id
     | Some upload_id \<Rightarrow>
         bind_act (on_s3 (s3_backend_upload_id (en_s3 eng) upload_id)) (\<lambda>b.
         bind_act (some_act (Internal ''multipart created but backend id missing'') b) (\<lambda>backend_id.
         bind_act (on_store (save_multipart (en_store eng)
           \<lparr>pm_upload_id = upload_id, pm_bucket = en_bucket eng, pm_key = s3_key, pm_s3_upload_id = backend_id,
            pm_parts = [], pm_created_at = now\<rparr>)) (\<lambda>_.
         ok_act file_id))))))))"

definition load_owned :: "('s, 't, 'v, 'o, 'l) fs_engine \<Rightarrow> string \<Rightarrow> string \<Rightarrow> (('s, 'o, 'l) fs_world, fs_error, upload_session) act" where
  "load_owned eng file_id caller =
     bind_act (on_store (get_session (en_store eng) file_id)) (\<lambda>s.
     bind_act (some_act (NotFound ''upload session not found'') s) (\<lambda>session.
     if us_owner_sub session \<noteq> caller then err_act Forbidden else ok_act session))"

text \<open>The size a part must have, and whether it is a last part shorter than the others.\<close>

definition expected_len :: "upload_session \<Rightarrow> u64 \<Rightarrow> u64" where
  "expected_len s part_index =
     (if part_index = us_file_total_parts s - 1 then us_file_size s - us_part_size s * part_index else us_part_size s)"

definition is_short_last_part :: "upload_session \<Rightarrow> u64 \<Rightarrow> bool" where
  "is_short_last_part s part_index \<longleftrightarrow>
     1 < us_file_total_parts s \<and> part_index = us_file_total_parts s - 1 \<and> expected_len s part_index < us_part_size s"

definition check_declared :: "u64 \<Rightarrow> bool \<Rightarrow> u64 option \<Rightarrow> fs_error + unit" where
  "check_declared expected short declared =
     (case declared of
        None \<Rightarrow> Inr ()
      | Some n \<Rightarrow>
          if n > expected \<and> short
          then Inl (BadRequest (''The last part must have '' @ decimal (unat expected) @ '' bytes. The declared size is '' @ decimal (unat n) @ ''.''))
          else if n > expected then Inl PayloadTooLarge
          else if n \<noteq> expected
          then Inl (BadRequest (''declared part size '' @ decimal (unat n) @ '' does not match expected '' @ decimal (unat expected) @ '' bytes''))
          else Inr ())"

text \<open>The intake of the body, chunk by chunk, which stops at the first chunk beyond the expected size.\<close>

fun read_body :: "u64 \<Rightarrow> bool \<Rightarrow> (fs_error + bytes) list \<Rightarrow> u64 \<Rightarrow> bytes \<Rightarrow> fs_error + u64 \<times> bytes" where
  "read_body expected short [] tot buf = Inr (tot, buf)"
| "read_body expected short (Inl e # chunks) tot buf = Inl e"
| "read_body expected short (Inr chunk # chunks) tot buf =
     (let tot = tot + of_nat (length chunk) in
      if tot > expected then
        Inl (if short
             then BadRequest (''The last part must have '' @ decimal (unat expected) @ '' bytes. The body has '' @ decimal (unat tot) @ '' bytes.'')
             else PayloadTooLarge)
      else read_body expected short chunks tot (buf @ chunk))"

definition take_body :: "upload_session \<Rightarrow> u64 \<Rightarrow> u64 option \<Rightarrow> (fs_error + bytes) list \<Rightarrow> fs_error + bytes" where
  "take_body s part_index declared chunks =
     (let expected = expected_len s part_index; short = is_short_last_part s part_index in
      case check_declared expected short declared of
        Inl e \<Rightarrow> Inl e
      | Inr _ \<Rightarrow>
          (case read_body expected short chunks 0 [] of
             Inl e \<Rightarrow> Inl e
           | Inr (tot, buf) \<Rightarrow>
               if tot \<noteq> expected
               then Inl (BadRequest (''blob size mismatch for part '' @ decimal (unat part_index) @ '': expected '' @
                      decimal (unat expected) @ '' bytes, got '' @ decimal (unat tot)))
               else Inr buf))"

definition resize_slots :: "nat \<Rightarrow> string option list \<Rightarrow> string option list" where
  "resize_slots n xs = take n xs @ replicate (n - length xs) None"

text \<open>
  \<open>merge_part\<close>, whose body runs under the lock of the session: the multipart record is written first, then the
  session.
\<close>

definition merged_session :: "upload_session \<Rightarrow> nat \<Rightarrow> string \<Rightarrow> string option \<Rightarrow> upload_session" where
  "merged_session s slot etag checksum =
     (let etags = (us_etags s)[slot := Some etag];
          checksums = (if length (us_checksums s) \<noteq> length etags then resize_slots (length etags) (us_checksums s) else us_checksums s)
      in s\<lparr>us_etags := etags, us_checksums := checksums[slot := checksum]\<rparr>)"

definition merge_record :: "('s, 't, 'v, 'o, 'l) fs_engine \<Rightarrow> string option \<Rightarrow> nat \<Rightarrow> string \<Rightarrow> (('s, 'o, 'l) fs_world, fs_error, unit) act" where
  "merge_record eng upload_id slot etag =
     (case upload_id of
        None \<Rightarrow> ok_act ()
      | Some u \<Rightarrow>
          bind_act (on_store (load_multipart (en_store eng) u)) (\<lambda>r.
          case r of
            None \<Rightarrow> ok_act ()
          | Some rec \<Rightarrow> on_store (save_multipart (en_store eng) (rec\<lparr>pm_parts := bt_insert slot etag (pm_parts rec)\<rparr>))))"

definition merge_part :: "('s, 't, 'v, 'o, 'l) fs_engine \<Rightarrow> string \<Rightarrow> u64 \<Rightarrow> string option \<Rightarrow> string \<Rightarrow> string option \<Rightarrow> string \<Rightarrow>
    (('s, 'o, 'l) fs_world, fs_error, unit) act" where
  "merge_part eng file_id part_index upload_id etag checksum caller =
     bind_act (load_owned eng file_id caller) (\<lambda>session.
     let slot = unat part_index in
     if length (us_etags session) \<le> slot then err_act (BadRequest ''part index out of bounds'')
     else
       bind_act (merge_record eng upload_id slot etag) (\<lambda>_.
       on_store (save_session (en_store eng) (merged_session session slot etag checksum))))"

definition ensure_multipart :: "('s, 't, 'v, 'o, 'l) fs_engine \<Rightarrow> string \<Rightarrow> (('s, 'o, 'l) fs_world, fs_error, unit) act" where
  "ensure_multipart eng upload_id =
     bind_act (on_store (load_multipart (en_store eng) upload_id)) (\<lambda>r.
     case r of
       None \<Rightarrow> err_act (BadRequest ''multipart state unavailable (restarted server or expired session); start a new upload'')
     | Some rec \<Rightarrow> on_s3 (s3_restore_multipart (en_s3 eng) rec))"

definition as_i32 :: "u64 \<Rightarrow> int" where
  "as_i32 x = sint (ucast x :: 32 word)"

definition upload_part :: "('s, 't, 'v, 'o, 'l) fs_engine \<Rightarrow> string \<Rightarrow> u64 \<Rightarrow> (fs_error + bytes) list \<Rightarrow> u64 option \<Rightarrow>
    string option \<Rightarrow> string \<Rightarrow> (('s, 'o, 'l) fs_world, fs_error, unit) act" where
  "upload_part eng file_id part_index chunks declared checksum caller =
     bind_act (load_owned eng file_id caller) (\<lambda>session.
     if part_index \<ge> us_file_total_parts session then err_act (BadRequest ''part index out of bounds'')
     else
       bind_act (res_act (take_body session part_index declared chunks)) (\<lambda>body.
       if us_file_total_parts session = 1 then
         bind_act (on_s3 (s3_put_object (en_s3 eng) (en_bucket eng) (us_s3_key session) body None checksum)) (\<lambda>_.
         merge_part eng file_id part_index None ''put'' checksum caller)
       else
         bind_act (some_act (Internal ''missing s3 upload id'') (us_s3_upload_id session)) (\<lambda>upload_id.
         bind_act (ensure_multipart eng upload_id) (\<lambda>_.
         bind_act (on_s3 (s3_upload_part (en_s3 eng) (en_bucket eng) (us_s3_key session) upload_id
                     (as_i32 (part_index + 1)) body checksum)) (\<lambda>etag.
         merge_part eng file_id part_index (Some upload_id) etag checksum caller)))))"

text \<open>
  \<open>abort_session_upload\<close>: the bytes of a single-part upload are deleted, the multipart upload of any other
  session is aborted; an upload that is already gone counts as aborted.
\<close>

definition abort_result :: "fs_error + unit \<Rightarrow> ('w, fs_error, unit) act" where
  "abort_result q =
     (case q of
        Inr _ \<Rightarrow> ok_act ()
      | Inl (NotFound _) \<Rightarrow> ok_act ()
      | Inl e \<Rightarrow> err_act e)"

definition abort_session_upload :: "('s, 't, 'v, 'o, 'l) fs_engine \<Rightarrow> upload_session \<Rightarrow> (('s, 'o, 'l) fs_world, fs_error, unit) act" where
  "abort_session_upload eng session =
     (case us_s3_upload_id session of
        None \<Rightarrow> on_s3 (s3_delete_object (en_s3 eng) (en_bucket eng) (us_s3_key session))
      | Some upload_id \<Rightarrow>
          bind_act (on_store (load_multipart (en_store eng) upload_id)) (\<lambda>r.
          if r = None then ok_act ()
          else
            bind_act (ensure_multipart eng upload_id) (\<lambda>_.
            bind_act (try_act (on_s3 (s3_abort_multipart_upload (en_s3 eng) (en_bucket eng) (us_s3_key session) upload_id))) abort_result)))"

text \<open>The etags of a session whose parts are all there, in order.\<close>

definition all_etags :: "string option list \<Rightarrow> ('w, fs_error, string list) act" where
  "all_etags es =
     for_act es (\<lambda>e out. bind_act (some_act (Internal ''missing etag for part'') e) (\<lambda>etag. ok_act (out @ [etag]))) []"

text \<open>
  The byte side of a completion. An index panic on a session without slots ends the request; it is the internal error
  here.
\<close>

definition assemble :: "('s, 't, 'v, 'o, 'l) fs_engine \<Rightarrow> upload_session \<Rightarrow> (('s, 'o, 'l) fs_world, fs_error, unit) act" where
  "assemble eng session =
     (if us_file_total_parts session = 1 then
        (case us_etags session of
           [] \<Rightarrow> err_act (Internal ''index out of bounds'')
         | e # _ \<Rightarrow> if e = None then err_act (BadRequest ''missing part for single-part upload'') else ok_act ())
      else
        bind_act (all_etags (us_etags session)) (\<lambda>etags.
        bind_act (some_act (Internal ''missing s3 upload id'') (us_s3_upload_id session)) (\<lambda>upload_id.
        bind_act (ensure_multipart eng upload_id) (\<lambda>_.
        bind_act (on_s3 (s3_complete_multipart_upload (en_s3 eng) (en_bucket eng) (us_s3_key session) upload_id etags)) (\<lambda>_.
        on_store (delete_multipart (en_store eng) upload_id))))))"

definition complete_upload :: "('s, 't, 'v, 'o, 'l) fs_engine \<Rightarrow> i64 \<Rightarrow> i64 \<Rightarrow> string \<Rightarrow> complete_request \<Rightarrow> string \<Rightarrow>
    (('s, 'o, 'l) fs_world, fs_error, unit) act" where
  "complete_upload eng now ts file_id req caller =
     bind_act (on_store (get_file (en_store eng) file_id)) (\<lambda>committed.
     bind_act (on_store (get_session (en_store eng) file_id)) (\<lambda>session.
     case committed of
       Some rec \<Rightarrow>
         if fr_owner_sub rec \<noteq> caller then err_act Forbidden
         else (case session of
           None \<Rightarrow> ok_act ()
         | Some _ \<Rightarrow>
             bind_act (announce eng ts (FileCreate rec)) (\<lambda>_.
             on_store (delete_session (en_store eng) file_id)))
     | None \<Rightarrow>
         bind_act (some_act (NotFound ''upload session not found'') session) (\<lambda>session.
         if us_owner_sub session \<noteq> caller then err_act Forbidden
         else if list_ex (\<lambda>e. e = None) (us_etags session) then err_act (BadRequest ''not all parts uploaded'')
         else
           bind_act (assemble eng session) (\<lambda>_.
           let record = \<lparr>fr_id = file_id, fr_name = cr_name req, fr_mimetype = cr_mimetype req, fr_size = us_file_size session,
               fr_s3_key = us_s3_key session, fr_owner_sub = us_owner_sub session, fr_created_at = now\<rparr> in
           bind_act (on_store (save_file (en_store eng) record)) (\<lambda>_.
           bind_act (announce eng ts (FileCreate record)) (\<lambda>_.
           on_store (delete_session (en_store eng) file_id)))))))"

definition cancel_upload :: "('s, 't, 'v, 'o, 'l) fs_engine \<Rightarrow> string \<Rightarrow> string \<Rightarrow> (('s, 'o, 'l) fs_world, fs_error, unit) act" where
  "cancel_upload eng file_id caller =
     bind_act (load_owned eng file_id caller) (\<lambda>session.
     bind_act (if us_s3_upload_id session \<noteq> None then abort_session_upload eng session else ok_act ()) (\<lambda>_.
     on_store (delete_session (en_store eng) file_id)))"

section \<open>Files\<close>

record file_metadata =
  fm_id :: string
  fm_name :: string
  fm_mimetype :: string
  fm_size :: u64

definition readable_file :: "('s, 't, 'v, 'o, 'l) fs_engine \<Rightarrow> string \<Rightarrow> string \<Rightarrow> (('s, 'o, 'l) fs_world, fs_error, file_record) act" where
  "readable_file eng file_id caller =
     bind_act (can_access eng caller file_id Read) (\<lambda>yes.
     if \<not> yes then err_act Forbidden
     else
       bind_act (on_store (get_file (en_store eng) file_id)) (\<lambda>f.
       some_act (NotFound ''file not found'') f))"

definition get_metadata :: "('s, 't, 'v, 'o, 'l) fs_engine \<Rightarrow> string \<Rightarrow> string \<Rightarrow> (('s, 'o, 'l) fs_world, fs_error, file_metadata) act" where
  "get_metadata eng file_id caller =
     bind_act (readable_file eng file_id caller) (\<lambda>rec.
     ok_act \<lparr>fm_id = fr_id rec, fm_name = fr_name rec, fm_mimetype = fr_mimetype rec, fm_size = fr_size rec\<rparr>)"

definition engine_delete_file :: "('s, 't, 'v, 'o, 'l) fs_engine \<Rightarrow> i64 \<Rightarrow> string \<Rightarrow> string \<Rightarrow> (('s, 'o, 'l) fs_world, fs_error, unit) act" where
  "engine_delete_file eng ts file_id caller =
     bind_act (on_store (get_file (en_store eng) file_id)) (\<lambda>f.
     bind_act (some_act (NotFound ''file not found'') f) (\<lambda>rec.
     bind_act (on_store (get_ref_info (en_store eng) file_id)) (\<lambda>info.
     bind_act (if ri_count info = 0 then (if fr_owner_sub rec \<noteq> caller then err_act Forbidden else ok_act ())
               else bind_act (can_access eng caller file_id Delete) (\<lambda>yes.
                    if yes then ok_act () else err_act Forbidden)) (\<lambda>_.
     bind_act (announce eng ts (FileDelete file_id)) (\<lambda>_.
     bind_act (on_store (delete_file_record (en_store eng) file_id)) (\<lambda>_.
     on_s3 (s3_delete_object (en_s3 eng) (en_bucket eng) (fr_s3_key rec))))))))"

definition get_object :: "('s, 't, 'v, 'o, 'l) fs_engine \<Rightarrow> string \<Rightarrow> string \<Rightarrow>
    (('s, 'o, 'l) fs_world, fs_error, file_record \<times> object_stream) act" where
  "get_object eng file_id caller =
     bind_act (readable_file eng file_id caller) (\<lambda>rec.
     bind_act (on_s3 (s3_get_object_stream (en_s3 eng) (en_bucket eng) (fr_s3_key rec))) (\<lambda>body.
     ok_act (rec, body)))"

definition clamp_range :: "u64 \<Rightarrow> u64 \<Rightarrow> u64 \<Rightarrow> u64 \<times> u64" where
  "clamp_range sz x y = (let start = min x sz in (start, max (min y sz) start))"

definition get_object_range :: "('s, 't, 'v, 'o, 'l) fs_engine \<Rightarrow> string \<Rightarrow> string \<Rightarrow> u64 \<Rightarrow> u64 \<Rightarrow>
    (('s, 'o, 'l) fs_world, fs_error, file_record \<times> object_stream) act" where
  "get_object_range eng file_id caller x y =
     bind_act (readable_file eng file_id caller) (\<lambda>rec.
     let (start, stop) = clamp_range (fr_size rec) x y in
     bind_act (on_s3 (s3_get_object_range (en_s3 eng) (en_bucket eng) (fr_s3_key rec) start stop)) (\<lambda>body.
     ok_act (rec, body)))"

record progress_response =
  pr_file_id :: string
  pr_file_size :: u64
  pr_part_size :: u64
  pr_total_parts :: u64
  pr_uploaded_parts :: "u64 list"
  pr_percent :: u64

text \<open>\<open>ratio\<close> is the rounded percentage of two counts, which the code computes in floating point.\<close>

definition get_progress :: "('s, 't, 'v, 'o, 'l) fs_engine \<Rightarrow> (u64 \<Rightarrow> u64 \<Rightarrow> u64) \<Rightarrow> string \<Rightarrow> string \<Rightarrow>
    (('s, 'o, 'l) fs_world, fs_error, progress_response) act" where
  "get_progress eng ratio file_id caller =
     bind_act (load_owned eng file_id caller) (\<lambda>session.
     let uploaded = of_nat (length (filter (\<lambda>e. e \<noteq> None) (us_etags session)));
         percent = (if us_file_total_parts session = 0 then 0 else ratio uploaded (us_file_total_parts session));
         parts = map (\<lambda>(i, _). of_nat i) (filter (\<lambda>(_, e). e \<noteq> None) (List.enumerate 0 (us_etags session))) in
     ok_act \<lparr>pr_file_id = file_id, pr_file_size = us_file_size session, pr_part_size = us_part_size session,
       pr_total_parts = us_file_total_parts session, pr_uploaded_parts = parts, pr_percent = percent\<rparr>)"

end
