(* ===== verification/Engine_Rules.thy ===== *)
theory Engine_Rules
  imports Fs_Engine
begin

text \<open>
  The engine over its three parts: rules that follow the metadata, the bytes and the feed through an operation.
  \<open>at w m b l\<close> says that a state holds the metadata \<open>m\<close>, the objects \<open>b\<close> and the feed \<open>l\<close>; each rule says in
  which such states a call can end, failures included.
\<close>

text \<open>The metadata of a state.\<close>

definition meta :: "('s \<Rightarrow> string \<rightharpoonup> 'v) \<Rightarrow> ('s, 'o, 'l) fs_world \<Rightarrow> (string \<rightharpoonup> 'v)" where
  "meta kvabs w = kvabs (fs_kv (fw_store w))"

locale engine_over = fs_over "en_store eng" kvabs txov + s3_client "en_s3 eng" good objs loc +
    change_sink sink feed finv capacity
  for eng :: "('s, 't, 'v, 'o, 'l) fs_engine" and kvabs and txov and good and objs and loc and sink and feed and finv and capacity +
  assumes wired: "en_feed eng = Some sink"
begin

definition at :: "('s, 'o, 'l) fs_world \<Rightarrow> (string \<rightharpoonup> 'v) \<Rightarrow> (string \<rightharpoonup> bytes) \<Rightarrow> wal_op list \<Rightarrow> bool" where
  "at w m b l \<longleftrightarrow> held (fw_store w) = m \<and> objs (fw_s3 w) = b \<and> feed (fw_feed w) = l \<and> good (fw_s3 w) \<and> finv (fw_feed w)"

lemma atI: "good (fw_s3 w) \<Longrightarrow> finv (fw_feed w) \<Longrightarrow> at w (meta kvabs w) (objs (fw_s3 w)) (feed (fw_feed w))"
  by (simp add: at_def held_def meta_def)

lemma atD: "at w m b l \<Longrightarrow> m = meta kvabs w \<and> b = objs (fw_s3 w) \<and> l = feed (fw_feed w) \<and> good (fw_s3 w) \<and> finv (fw_feed w)"
  by (auto simp: at_def held_def meta_def)

lemma at_store: "at w m b l \<Longrightarrow> held s = m' \<Longrightarrow> at (w\<lparr>fw_store := s\<rparr>) m' b l"
  by (simp add: at_def)

lemma at_held: "at w m b l \<Longrightarrow> held (fw_store w) = m"
  by (simp add: at_def)

lemma wp_on_store: "wp (on_store m) Q w \<longleftrightarrow> wp m (\<lambda>r s. Q r (w\<lparr>fw_store := s\<rparr>)) (fw_store w)"
  by (simp add: on_store_def)

lemma wp_on_s3: "wp (on_s3 m) Q w \<longleftrightarrow> wp m (\<lambda>r s. Q r (w\<lparr>fw_s3 := s\<rparr>)) (fw_s3 w)"
  by (simp add: on_s3_def)

subsection \<open>The metadata store\<close>

lemma e_load:
  assumes "at w m b l"
    and "\<And>w'. at w' m b l \<Longrightarrow> m k = None \<Longrightarrow> Q (Inr None) w'"
    and "\<And>x v w'. at w' m b l \<Longrightarrow> m k = Some v \<Longrightarrow> dec v = Inr x \<Longrightarrow> Q (Inr (Some x)) w'"
    and "\<And>e w'. at w' m b l \<Longrightarrow> Q (Inl e) w'"
  shows "wp (on_store (load_one (en_store eng) dec k)) Q w"
  unfolding wp_on_store
  by (rule wp_load_one) (simp_all add: assms(2-) at_store [OF assms(1)] at_held [OF assms(1)])

lemma e_save:
  assumes "at w m b l"
    and "\<And>v w'. at w' (m(k \<mapsto> v)) b l \<Longrightarrow> val = Inr v \<Longrightarrow> Q (Inr ()) w'"
    and "\<And>e w'. at w' m b l \<Longrightarrow> Q (Inl e) w'"
    and "\<And>e v w'. at w' (m(k \<mapsto> v)) b l \<Longrightarrow> val = Inr v \<Longrightarrow> Q (Inl e) w'"
  shows "wp (on_store (save_one (en_store eng) val k)) Q w"
  unfolding wp_on_store
  by (rule wp_save_one) (auto simp: at_held [OF assms(1)] intro: assms(2-) at_store [OF assms(1)])

lemma e_delete_session:
  assumes "at w m b l" and ks: "ks = set (session_keys i (value_at (dec_session (fe_cod (en_store eng))) m (session_key i)))"
    and "\<And>w'. at w' (without ks m) b l \<Longrightarrow> Q (Inr ()) w'"
    and "\<And>e w'. at w' m b l \<Longrightarrow> Q (Inl e) w'"
    and "\<And>e w'. at w' (without ks m) b l \<Longrightarrow> Q (Inl e) w'"
  shows "wp (on_store (delete_session (en_store eng) i)) Q w"
  unfolding wp_on_store
  by (rule wp_delete_session [OF refl]) (auto simp: at_held [OF assms(1)] ks [symmetric] intro: assms(3-) at_store [OF assms(1)])

lemma e_delete_file:
  assumes "at w m b l"
    and "\<And>w'. at w' (without (file_keys i) m) b l \<Longrightarrow> Q (Inr ()) w'"
    and "\<And>e w'. at w' m b l \<Longrightarrow> Q (Inl e) w'"
    and "\<And>e w'. at w' (without (file_keys i) m) b l \<Longrightarrow> Q (Inl e) w'"
  shows "wp (on_store (delete_file_record (en_store eng) i)) Q w"
  unfolding wp_on_store
  by (rule wp_delete_file_record) (auto simp: at_held [OF assms(1)] intro: assms(2-) at_store [OF assms(1)])

lemma wp_delete_one:
  assumes "\<And>w'. held w' = (held w)(k := None) \<Longrightarrow> Q (Inr ()) w'"
    and "\<And>e w'. held w' = held w \<or> held w' = (held w)(k := None) \<Longrightarrow> Q (Inl e) w'"
  shows "wp (fs_call (en_store eng) (kv_delete (fe_ops (en_store eng)) k)) Q w"
  by (auto intro!: wp_delete assms simp: held_fold)

lemma e_delete_multipart:
  assumes "at w m b l"
    and "\<And>w'. at w' (m(multipart_key u := None)) b l \<Longrightarrow> Q (Inr ()) w'"
    and "\<And>e w'. at w' m b l \<Longrightarrow> Q (Inl e) w'"
    and "\<And>e w'. at w' (m(multipart_key u := None)) b l \<Longrightarrow> Q (Inl e) w'"
  shows "wp (on_store (delete_multipart (en_store eng) u)) Q w"
  unfolding wp_on_store delete_multipart_def
  by (rule wp_delete_one) (auto simp: at_held [OF assms(1)] intro: assms(2-) at_store [OF assms(1)])

lemma e_rows:
  assumes "at w m b l"
    and "\<And>rows w'. at w' m b l \<Longrightarrow> set rows = {row. \<exists>k. m k \<noteq> None \<and> row_of_marker f k = Some row} \<Longrightarrow> Q (Inr rows) w'"
    and "\<And>e w'. at w' m b l \<Longrightarrow> Q (Inl e) w'"
  shows "wp (on_store (rows_for_file (en_store eng) f)) Q w"
  unfolding wp_on_store
  by (rule wp_rows_for_file) (simp_all add: assms(2-) at_store [OF assms(1)] at_held [OF assms(1)])

subsection \<open>The bytes and the feed\<close>

lemma e_bytes_result:
  assumes "at w m b l" and "\<And>c r c'. good c \<Longrightarrow> act c = (r, c') \<Longrightarrow> good c' \<and> objs c' = objs c"
    and "\<And>r w'. at w' m b l \<Longrightarrow> r = fst (act (fw_s3 w)) \<Longrightarrow> Q r w'"
  shows "wp (on_s3 act) Q w"
  unfolding wp_on_s3
proof (rule wpI)
  fix r c'
  assume "act (fw_s3 w) = (r, c')"
  with assms(1,2) show "Q r (w\<lparr>fw_s3 := c'\<rparr>)" by (intro assms(3)) (auto simp: at_def)
qed

lemma e_bytes_keep:
  assumes "at w m b l" and "\<And>c r c'. good c \<Longrightarrow> act c = (r, c') \<Longrightarrow> good c' \<and> objs c' = objs c"
    and "\<And>r w'. at w' m b l \<Longrightarrow> Q r w'"
  shows "wp (on_s3 act) Q w"
  by (rule e_bytes_result [OF assms(1)]) (use assms(2,3) in blast)+

lemma e_delete_object:
  assumes "at w m b l"
    and "\<And>w'. at w' m (b(loc bk k := None)) l \<Longrightarrow> Q (Inr ()) w'"
    and "\<And>e w'. at w' m b l \<Longrightarrow> Q (Inl e) w'"
    and "\<And>e w'. at w' m (b(loc bk k := None)) l \<Longrightarrow> Q (Inl e) w'"
  shows "wp (on_s3 (s3_delete_object (en_s3 eng) bk k)) Q w"
  unfolding wp_on_s3
proof (rule wpI)
  fix r c'
  assume "s3_delete_object (en_s3 eng) bk k (fw_s3 w) = (r, c')"
  from delete_effect [OF _ this] assms(1)
  show "Q r (w\<lparr>fw_s3 := c'\<rparr>)" by (cases r) (auto simp: at_def intro: assms(2-))
qed

lemma e_complete_object:
  assumes "at w m b l"
    and "\<And>r b' w'. at w' m b' l \<Longrightarrow> \<forall>j. j \<noteq> loc bk k \<longrightarrow> b' j = b j \<Longrightarrow> Q r w'"
  shows "wp (on_s3 (s3_complete_multipart_upload (en_s3 eng) bk k u etags)) Q w"
  unfolding wp_on_s3
proof (rule wpI)
  fix r c'
  assume "s3_complete_multipart_upload (en_s3 eng) bk k u etags (fw_s3 w) = (r, c')"
  from complete_frame [OF _ this] assms(1)
  show "Q r (w\<lparr>fw_s3 := c'\<rparr>)" by (intro assms(2)) (auto simp: at_def)
qed

lemma e_announce:
  assumes "at w m b l" and "length l < capacity"
    and "\<And>w'. at w' m b (l @ [op]) \<Longrightarrow> Q (Inr ()) w'"
    and "\<And>e w'. at w' m b l \<Longrightarrow> Q (Inl e) w'"
    and "\<And>e w'. at w' m b (l @ [op]) \<Longrightarrow> Q (Inl e) w'"
  shows "wp (announce eng ts op) Q w"
proof -
  have "wp (sink ts op) (\<lambda>r f. Q (case r of Inl e \<Rightarrow> Inl (feed_error e) | Inr x \<Rightarrow> Inr x) (w\<lparr>fw_feed := f\<rparr>)) (fw_feed w)"
  proof (rule wpI)
    fix r f
    assume run: "sink ts op (fw_feed w) = (r, f)"
    have s: "finv (fw_feed w)" "length (feed (fw_feed w)) < capacity" using assms(1,2) by (auto simp: at_def)
    show "Q (case r of Inl e \<Rightarrow> Inl (feed_error e) | Inr x \<Rightarrow> Inr x) (w\<lparr>fw_feed := f\<rparr>)"
    proof (cases r)
      case (Inl e)
      then show ?thesis using append_err [OF s, of ts op e f] run assms(1) by (auto simp: at_def intro: assms(4,5))
    next
      case (Inr u)
      then show ?thesis using append_ok [OF s, of ts op u f] run assms(1) by (auto simp: at_def intro!: assms(3))
    qed
  qed
  then show ?thesis
    unfolding announce_def wired option.case wp_focus wp_map_err
    by (rule wp_mono) (simp split: sum.splits)
qed

end

end
