(* ===== verification/Engine_Props.thy ===== *)
theory Engine_Props
  imports Engine_Rules Wal
begin

text \<open>
  What the requests of the file engine guarantee: parts merged into an upload, the commit of an upload against its
  announcement, deletion, and access.
\<close>

section \<open>The rows of an upload\<close>

definition sess :: "'v fs_codec \<Rightarrow> (string \<rightharpoonup> 'v) \<Rightarrow> string \<Rightarrow> upload_session option" where
  "sess cod m i = value_at (dec_session cod) m (session_key i)"

definition mpart :: "'v fs_codec \<Rightarrow> (string \<rightharpoonup> 'v) \<Rightarrow> string \<Rightarrow> persisted_multipart option" where
  "mpart cod m u = value_at (dec_multipart cod) m (multipart_key u)"

definition frec :: "'v fs_codec \<Rightarrow> (string \<rightharpoonup> 'v) \<Rightarrow> string \<Rightarrow> file_record option" where
  "frec cod m i = value_at (dec_file cod) m (file_key i)"

text \<open>Every part the session counts as uploaded is in the multipart record, which completes the upload.\<close>

definition recorded :: "upload_session \<Rightarrow> persisted_multipart \<Rightarrow> bool" where
  "recorded s r \<longleftrightarrow> (\<forall>j<length (us_etags s). us_etags s ! j \<noteq> None \<longrightarrow> j \<in> fst ` set (pm_parts r))"

definition uploads_inv :: "'v fs_codec \<Rightarrow> (string \<rightharpoonup> 'v) \<Rightarrow> bool" where
  "uploads_inv cod m \<longleftrightarrow>
     (\<forall>i s. sess cod m i = Some s \<longrightarrow> us_id s = i) \<and>
     (\<forall>u r. mpart cod m u = Some r \<longrightarrow> pm_upload_id r = u) \<and>
     (\<forall>i s u r. sess cod m i = Some s \<longrightarrow> us_s3_upload_id s = Some u \<longrightarrow> mpart cod m u = Some r \<longrightarrow> recorded s r)"

lemma multipart_key_inj [simp]: "multipart_key u = multipart_key v \<longleftrightarrow> u = v"
  by (simp add: multipart_key_def)

lemma upload_key_families [simp]:
  "multipart_key u \<noteq> session_key i" "session_key i \<noteq> multipart_key u" "multipart_key u \<noteq> file_key f" "file_key f \<noteq> multipart_key u"
  by (auto simp: multipart_key_def session_key_def file_key_def files_prefix_def)

lemma staged_key_file [simp]: "staged_key i n \<noteq> file_key f" "file_key f \<noteq> staged_key i n"
  by (auto simp: staged_key_def file_key_def files_prefix_def)

lemma value_at_upd: "value_at dec (m(k \<mapsto> v)) j = (if j = k then (case dec v of Inl _ \<Rightarrow> None | Inr x \<Rightarrow> Some x) else value_at dec m j)"
  by (simp add: value_at_def)

lemma value_at_Some: "value_at dec m k = Some x \<longleftrightarrow> (\<exists>v. m k = Some v \<and> dec v = Inr x)"
  by (cases "m k") (auto simp: value_at_def split: sum.splits)

lemma merged_simps [simp]:
  "us_id (merged_session s j e c) = us_id s" "us_s3_upload_id (merged_session s j e c) = us_s3_upload_id s"
  "us_owner_sub (merged_session s j e c) = us_owner_sub s" "us_etags (merged_session s j e c) = (us_etags s)[j := Some e]"
  "us_file_total_parts (merged_session s j e c) = us_file_total_parts s"
  by (simp_all add: merged_session_def Let_def)

lemma recorded_insert: "recorded s r \<Longrightarrow> recorded s (r\<lparr>pm_parts := bt_insert j e (pm_parts r)\<rparr>)"
  by (auto simp: recorded_def fst_bt_insert)

lemma recorded_merge: "recorded s r \<Longrightarrow> j \<in> fst ` set (pm_parts r) \<Longrightarrow> recorded (merged_session s j e c) r"
  unfolding recorded_def
proof (intro allI impI)
  fix k
  assume "\<forall>j<length (us_etags s). us_etags s ! j \<noteq> None \<longrightarrow> j \<in> fst ` set (pm_parts r)" "j \<in> fst ` set (pm_parts r)"
    "k < length (us_etags (merged_session s j e c))" "us_etags (merged_session s j e c) ! k \<noteq> None"
  then show "k \<in> fst ` set (pm_parts r)" by (cases "k = j") simp_all
qed

section \<open>What the requests promise\<close>

text \<open>What a merge leaves: the invariant always; on success the one slot changed, in the session and in the record.\<close>

definition merged :: "'v fs_codec \<Rightarrow> (string \<rightharpoonup> 'v) \<Rightarrow> (string \<rightharpoonup> 'v) \<Rightarrow> string \<Rightarrow> nat \<Rightarrow> string option \<Rightarrow> string \<Rightarrow> string option \<Rightarrow> bool" where
  "merged cod m m' i j upload_id etag c \<longleftrightarrow>
     (\<exists>s. sess cod m i = Some s \<and> j < length (us_etags s) \<and> sess cod m' = (sess cod m)(i \<mapsto> merged_session s j etag c)) \<and>
     (\<forall>u r. upload_id = Some u \<longrightarrow> mpart cod m u = Some r \<longrightarrow>
        mpart cod m' = (mpart cod m)(u \<mapsto> r\<lparr>pm_parts := bt_insert j etag (pm_parts r)\<rparr>))"

text \<open>A committed record has been announced, or its session is still there to announce it from.\<close>

definition announced_or_pending :: "'v fs_codec \<Rightarrow> (string \<rightharpoonup> 'v) \<Rightarrow> wal_op list \<Rightarrow> string \<Rightarrow> bool" where
  "announced_or_pending cod m l i \<longleftrightarrow>
     (\<forall>rec. frec cod m i = Some rec \<longrightarrow> FileCreate rec \<in> set l \<or> m (session_key i) \<noteq> None)"

definition completed :: "'v fs_codec \<Rightarrow> (string \<rightharpoonup> 'v) \<Rightarrow> wal_op list \<Rightarrow> string \<Rightarrow> string \<Rightarrow> bool" where
  "completed cod m l i caller \<longleftrightarrow>
     (\<exists>rec. frec cod m i = Some rec \<and> fr_owner_sub rec = caller \<and> FileCreate rec \<in> set l) \<and> sess cod m i = None"

definition file_rows :: "(string \<rightharpoonup> 'v) \<Rightarrow> string \<Rightarrow> (string \<times> string) set" where
  "file_rows m f = {row. \<exists>k. m k \<noteq> None \<and> row_of_marker f k = Some row}"

definition may_access :: "('s, 't, 'v, 'o, 'l) fs_engine \<Rightarrow> (string \<rightharpoonup> 'v) \<Rightarrow> string \<Rightarrow> string \<Rightarrow> action \<Rightarrow> bool" where
  "may_access eng m caller f a \<longleftrightarrow> (\<exists>rec. frec (fe_cod (en_store eng)) m f = Some rec \<and>
     (if file_rows m f = {} then fr_owner_sub rec = caller
      else \<exists>(ty, rid) \<in> file_rows m f. en_authorize_row eng caller ty rid a = Inr True))"

text \<open>
  The rows a file is attached to, by the keys an attach writes, and the grant as it is meant: the owner while no row is
  attached, and a caller granted the action on an attached row once some row is. A row with a colon is read back as another one; where no
  marker of the file is of such a row, the rows the code reads are the attached ones.
\<close>

definition attached :: "(string \<rightharpoonup> 'v) \<Rightarrow> string \<Rightarrow> (string \<times> string) set" where
  "attached m f = {(t, r). m (rel_key t r f) \<noteq> None}"

definition granted :: "('s, 't, 'v, 'o, 'l) fs_engine \<Rightarrow> (string \<rightharpoonup> 'v) \<Rightarrow> string \<Rightarrow> string \<Rightarrow> action \<Rightarrow> bool" where
  "granted eng m caller f a \<longleftrightarrow> (\<exists>rec. frec (fe_cod (en_store eng)) m f = Some rec \<and>
     (if attached m f = {} then fr_owner_sub rec = caller
      else \<exists>(t, r) \<in> attached m f. en_authorize_row eng caller t r a = Inr True))"

definition plain_markers :: "(string \<rightharpoonup> 'v) \<Rightarrow> string \<Rightarrow> bool" where
  "plain_markers m f \<longleftrightarrow> (\<forall>k. m k \<noteq> None \<longrightarrow> prefix rel_prefix k \<longrightarrow> suffix ('':'' @ f) k \<longrightarrow>
     (\<exists>t r. k = rel_key t r f \<and> CHR '':'' \<notin> set t \<and> CHR '':'' \<notin> set r))"

lemma rel_key_plain_inj:
  assumes "rel_key t r f = rel_key t' r' f" and "CHR '':'' \<notin> set t'" and "CHR '':'' \<notin> set r'"
  shows "t = t' \<and> r = r'"
  using assms by (auto simp: rel_key_def append_eq_append_conv2 append_eq_Cons_conv Cons_eq_append_conv)

lemma file_rows_attached:
  assumes "plain_markers m f"
  shows "file_rows m f = attached m f"
proof -
  have plain: "\<exists>t r. k = rel_key t r f \<and> CHR '':'' \<notin> set t \<and> CHR '':'' \<notin> set r" if "m k \<noteq> None" "is_marker_of f k" for k
    using assms that by (simp add: plain_markers_def is_marker_of_def)
  have "row \<in> attached m f" if "m k \<noteq> None" "row_of_marker f k = Some row" for k row
  proof -
    have "is_marker_of f k" using that(2) by (simp add: row_of_marker_def split: if_splits)
    with plain that(1) obtain t r where "k = rel_key t r f" "CHR '':'' \<notin> set t" "CHR '':'' \<notin> set r" by blast
    then show ?thesis using that row_of_rel_key [of t r f] by (auto simp: attached_def)
  qed
  moreover have "\<exists>k. m k \<noteq> None \<and> row_of_marker f k = Some (t, r)" if "m (rel_key t r f) \<noteq> None" for t r
  proof -
    have "is_marker_of f (rel_key t r f)" by (auto simp: is_marker_of_def rel_key_def suffix_def)
    with plain that obtain t' r' where "rel_key t r f = rel_key t' r' f" "CHR '':'' \<notin> set t'" "CHR '':'' \<notin> set r'" by blast
    then show ?thesis using rel_key_plain_inj row_of_rel_key that by metis
  qed
  ultimately show ?thesis unfolding file_rows_def attached_def by fast
qed

lemma may_access_granted: "plain_markers m f \<Longrightarrow> may_access eng m caller f a = granted eng m caller f a"
  by (simp add: may_access_def granted_def file_rows_attached)

text \<open>Who may delete: the owner of a file with no references, or a caller that some row grants it.\<close>

definition ref_count :: "'v fs_codec \<Rightarrow> (string \<rightharpoonup> 'v) \<Rightarrow> string \<Rightarrow> u32" where
  "ref_count cod m f = (case value_at (dec_refs cod) m (refs_key f) of None \<Rightarrow> 0 | Some info \<Rightarrow> ri_count info)"

definition may_delete :: "('s, 't, 'v, 'o, 'l) fs_engine \<Rightarrow> (string \<rightharpoonup> 'v) \<Rightarrow> string \<Rightarrow> string \<Rightarrow> bool" where
  "may_delete eng m caller f \<longleftrightarrow> (\<exists>rec. frec (fe_cod (en_store eng)) m f = Some rec \<and>
     (if ref_count (fe_cod (en_store eng)) m f = 0 then fr_owner_sub rec = caller else may_access eng m caller f Delete))"

definition delete_outcome :: "('s, 't, 'v, 'o, 'l) fs_engine \<Rightarrow> (string \<Rightarrow> string \<Rightarrow> string) \<Rightarrow> (string \<rightharpoonup> 'v) \<Rightarrow> (string \<rightharpoonup> bytes) \<Rightarrow> wal_op list \<Rightarrow> string \<Rightarrow>
    (string \<rightharpoonup> 'v) \<Rightarrow> (string \<rightharpoonup> bytes) \<Rightarrow> wal_op list \<Rightarrow> bool" where
  "delete_outcome eng loc m b l i m' b' l' \<longleftrightarrow> (\<exists>rec. frec (fe_cod (en_store eng)) m i = Some rec \<and>
     (m' = m \<and> b' = b \<and> (l' = l \<or> l' = l @ [FileDelete i]) \<or>
      m' = without (file_keys i) m \<and> l' = l @ [FileDelete i] \<and> (b' = b \<or> b' = b(loc (en_bucket eng) (fr_s3_key rec) := None))))"

section \<open>The requests\<close>

context engine_over
begin

abbreviation "cod \<equiv> fe_cod (en_store eng)"

lemma e_owned:
  assumes "at w m b l"
    and "\<And>s w'. at w' m b l \<Longrightarrow> sess cod m i = Some s \<Longrightarrow> us_owner_sub s = caller \<Longrightarrow> Q (Inr s) w'"
    and "\<And>e w'. at w' m b l \<Longrightarrow> Q (Inl e) w'"
  shows "wp (load_owned eng i caller) Q w"
  unfolding load_owned_def get_session_def
  by (simp, rule e_load [OF assms(1)]) (auto intro!: assms(2,3) simp: sess_def value_at_Some)

lemma inv_save_part:
  assumes "uploads_inv cod m" and "mpart cod m u = Some r" and "enc_multipart cod (r\<lparr>pm_parts := bt_insert j e (pm_parts r)\<rparr>) = Inr v"
  shows "uploads_inv cod (m(multipart_key u \<mapsto> v))" "mpart cod (m(multipart_key u \<mapsto> v)) u = Some (r\<lparr>pm_parts := bt_insert j e (pm_parts r)\<rparr>)"
    "sess cod (m(multipart_key u \<mapsto> v)) = sess cod m"
    "mpart cod (m(multipart_key u \<mapsto> v)) = (mpart cod m)(u \<mapsto> r\<lparr>pm_parts := bt_insert j e (pm_parts r)\<rparr>)"
proof -
  have dec: "dec_multipart cod v = Inr (r\<lparr>pm_parts := bt_insert j e (pm_parts r)\<rparr>)" using multipart_codec assms(3) by blast
  show sess: "sess cod (m(multipart_key u \<mapsto> v)) = sess cod m"
    by (simp add: sess_def value_at_upd fun_eq_iff)
  show "mpart cod (m(multipart_key u \<mapsto> v)) u = Some (r\<lparr>pm_parts := bt_insert j e (pm_parts r)\<rparr>)"
    by (simp add: mpart_def value_at_upd dec)
  show mp: "mpart cod (m(multipart_key u \<mapsto> v)) = (mpart cod m)(u \<mapsto> r\<lparr>pm_parts := bt_insert j e (pm_parts r)\<rparr>)"
    by (simp add: mpart_def value_at_upd dec fun_eq_iff)
  show "uploads_inv cod (m(multipart_key u \<mapsto> v))"
    using assms(1,2) recorded_insert unfolding uploads_inv_def sess mp by (auto split: if_splits)
qed

lemma inv_save_session:
  assumes inv: "uploads_inv cod m" and s: "sess cod m i = Some s" and enc: "enc_session cod (merged_session s j e c) = Inr v"
    and part: "\<And>u r. us_s3_upload_id s = Some u \<Longrightarrow> mpart cod m u = Some r \<Longrightarrow> j \<in> fst ` set (pm_parts r)"
  shows "uploads_inv cod (m(session_key i \<mapsto> v))" "sess cod (m(session_key i \<mapsto> v)) = (sess cod m)(i \<mapsto> merged_session s j e c)"
    "mpart cod (m(session_key i \<mapsto> v)) = mpart cod m"
proof -
  have dec: "dec_session cod v = Inr (merged_session s j e c)" using session_codec enc by blast
  show se: "sess cod (m(session_key i \<mapsto> v)) = (sess cod m)(i \<mapsto> merged_session s j e c)"
    by (simp add: sess_def value_at_upd dec fun_eq_iff)
  show mp: "mpart cod (m(session_key i \<mapsto> v)) = mpart cod m"
    by (simp add: mpart_def value_at_upd fun_eq_iff)
  show "uploads_inv cod (m(session_key i \<mapsto> v))"
    using inv s part recorded_merge unfolding uploads_inv_def se mp by (auto split: if_splits)
qed

lemma e_save_merged:
  assumes "at w m1 b l" and inv: "uploads_inv cod m1" and s: "sess cod m1 i = Some s"
    and part: "\<And>u r. us_s3_upload_id s = Some u \<Longrightarrow> mpart cod m1 u = Some r \<Longrightarrow> j \<in> fst ` set (pm_parts r)"
    and ok: "\<And>m' w'. at w' m' b l \<Longrightarrow> uploads_inv cod m' \<Longrightarrow> sess cod m' = (sess cod m1)(i \<mapsto> merged_session s j e c) \<Longrightarrow>
        mpart cod m' = mpart cod m1 \<Longrightarrow> Q (Inr ()) w'"
    and err: "\<And>m' x w'. at w' m' b l \<Longrightarrow> uploads_inv cod m' \<Longrightarrow> Q (Inl x) w'"
  shows "wp (on_store (save_session (en_store eng) (merged_session s j e c))) Q w"
proof -
  have id: "us_id (merged_session s j e c) = i" using inv s by (auto simp: uploads_inv_def)
  show ?thesis
    unfolding save_session_def id
  proof (rule e_save [OF assms(1)])
    fix v w'
    assume a: "at w' (m1(session_key i \<mapsto> v)) b l" "enc_session cod (merged_session s j e c) = Inr v"
    note st = inv_save_session [OF inv s a(2) part]
    show "Q (Inr ()) w'" by (rule ok [OF a(1) st])
    show "Q (Inl x) w'" for x by (rule err [OF a(1) st(1)])
  qed (use err inv in blast)
qed

lemma e_merge_record:
  assumes "at w m b l" and inv: "uploads_inv cod m"
    and ok: "\<And>m1 w'. at w' m1 b l \<Longrightarrow> uploads_inv cod m1 \<Longrightarrow> sess cod m1 = sess cod m \<Longrightarrow>
        (\<forall>u r. upload_id = Some u \<longrightarrow> mpart cod m u = Some r \<longrightarrow> mpart cod m1 = (mpart cod m)(u \<mapsto> r\<lparr>pm_parts := bt_insert j etag (pm_parts r)\<rparr>)) \<Longrightarrow>
        (\<forall>u r. upload_id = Some u \<longrightarrow> mpart cod m1 u = Some r \<longrightarrow> j \<in> fst ` set (pm_parts r)) \<Longrightarrow> Q (Inr ()) w'"
    and err: "\<And>m1 x w'. at w' m1 b l \<Longrightarrow> uploads_inv cod m1 \<Longrightarrow> Q (Inl x) w'"
  shows "wp (merge_record eng upload_id j etag) Q w"
proof (cases upload_id)
  case None
  then show ?thesis using ok [OF assms(1) inv] by (simp add: merge_record_def)
next
  case (Some u)
  show ?thesis
    unfolding merge_record_def Some option.case load_multipart_def wp_bind
  proof (rule e_load [OF assms(1)])
    fix w'
    assume w': "at w' m b l" and none: "m (multipart_key u) = None"
    then have "mpart cod m u = None" by (simp add: mpart_def value_at_def)
    then show "case Inr None of Inl e \<Rightarrow> Q (Inl e) w' | Inr r \<Rightarrow> wp (case r of None \<Rightarrow> ok_act ()
        | Some rec \<Rightarrow> on_store (save_multipart (en_store eng) (rec\<lparr>pm_parts := bt_insert j etag (pm_parts rec)\<rparr>))) Q w'"
      using ok [OF w' inv] Some by simp
  next
    fix r v w'
    assume w': "at w' m b l" and v: "m (multipart_key u) = Some v" "dec_multipart cod v = Inr r"
    then have r: "mpart cod m u = Some r" by (simp add: mpart_def value_at_def)
    have id: "pm_upload_id (r\<lparr>pm_parts := bt_insert j etag (pm_parts r)\<rparr>) = u" using inv r by (auto simp: uploads_inv_def)
    have "wp (on_store (save_multipart (en_store eng) (r\<lparr>pm_parts := bt_insert j etag (pm_parts r)\<rparr>))) Q w'"
      unfolding save_multipart_def id
    proof (rule e_save [OF w'])
      fix v w2
      assume a: "at w2 (m(multipart_key u \<mapsto> v)) b l" "enc_multipart cod (r\<lparr>pm_parts := bt_insert j etag (pm_parts r)\<rparr>) = Inr v"
      note st = inv_save_part [OF inv r a(2)]
      show "Q (Inr ()) w2" by (rule ok [OF a(1) st(1,3)]) (use r Some st(2,4) in \<open>auto simp: fst_bt_insert\<close>)
      show "Q (Inl x) w2" for x by (rule err [OF a(1) st(1)])
    qed (use err inv in blast)
    then show "case Inr (Some r) of Inl e \<Rightarrow> Q (Inl e) w' | Inr r \<Rightarrow> wp (case r of None \<Rightarrow> ok_act ()
        | Some rec \<Rightarrow> on_store (save_multipart (en_store eng) (rec\<lparr>pm_parts := bt_insert j etag (pm_parts rec)\<rparr>))) Q w'" by simp
  qed (use err inv in simp)
qed

lemma e_merge:
  assumes "at w m b l" and inv: "uploads_inv cod m"
    and up: "\<And>s. sess cod m i = Some s \<Longrightarrow> us_s3_upload_id s = upload_id"
  shows "wp (merge_part eng i p upload_id etag c caller)
     (\<lambda>r w'. \<exists>m'. at w' m' b l \<and> uploads_inv cod m' \<and> (r = Inr () \<longrightarrow> merged cod m m' i (unat p) upload_id etag c)) w"
    (is "wp _ ?Q w")
proof -
  have err: "at w' m' b l \<Longrightarrow> uploads_inv cod m' \<Longrightarrow> ?Q (Inl x) w'" for w' m' x by blast
  have body: "wp (bind_act (merge_record eng upload_id (unat p) etag) (\<lambda>_.
       on_store (save_session (en_store eng) (merged_session s (unat p) etag c)))) ?Q w'"
    if w': "at w' m b l" and s: "sess cod m i = Some s" and j: "unat p < length (us_etags s)" for w' s
    unfolding wp_bind
  proof (rule e_merge_record [OF w' inv])
    fix m1 w1
    assume a: "at w1 m1 b l" "uploads_inv cod m1" "sess cod m1 = sess cod m"
      "\<forall>u r. upload_id = Some u \<longrightarrow> mpart cod m u = Some r \<longrightarrow> mpart cod m1 = (mpart cod m)(u \<mapsto> r\<lparr>pm_parts := bt_insert (unat p) etag (pm_parts r)\<rparr>)"
      "\<forall>u r. upload_id = Some u \<longrightarrow> mpart cod m1 u = Some r \<longrightarrow> unat p \<in> fst ` set (pm_parts r)"
    have "wp (on_store (save_session (en_store eng) (merged_session s (unat p) etag c))) ?Q w1"
    proof (rule e_save_merged [OF a(1,2)])
      show "sess cod m1 i = Some s" using a(3) s by simp
      show "us_s3_upload_id s = Some u \<Longrightarrow> mpart cod m1 u = Some r \<Longrightarrow> unat p \<in> fst ` set (pm_parts r)" for u r
        using a(5) up [OF s] by auto
      show "at w2 m' b l \<Longrightarrow> uploads_inv cod m' \<Longrightarrow> sess cod m' = (sess cod m1)(i \<mapsto> merged_session s (unat p) etag c) \<Longrightarrow>
        mpart cod m' = mpart cod m1 \<Longrightarrow> ?Q (Inr ()) w2" for m' w2
        using a(3,4) s j by (auto simp: merged_def)
    qed (rule err)
    then show "case Inr () of Inl e \<Rightarrow> ?Q (Inl e) w1 | Inr x \<Rightarrow> wp (on_store (save_session (en_store eng) (merged_session s (unat p) etag c))) ?Q w1"
      by simp
  qed (use err in simp)
  show ?thesis
    unfolding merge_part_def Let_def wp_bind [of "load_owned _ _ _"]
    by (rule e_owned [OF assms(1)]) (use err inv body in \<open>auto simp del: wp_bind simp: not_le\<close>)
qed

subsection \<open>Completion\<close>

text \<open>Two states of the metadata that agree on sessions and file records.\<close>

definition same_rows :: "(string \<rightharpoonup> 'v) \<Rightarrow> (string \<rightharpoonup> 'v) \<Rightarrow> bool" where
  "same_rows m m' \<longleftrightarrow> (\<forall>i. m' (session_key i) = m (session_key i) \<and> m' (file_key i) = m (file_key i))"

lemma same_rows_refl [simp]: "same_rows m m"
  by (simp add: same_rows_def)

lemma same_rows_multipart [simp]: "same_rows m (m(multipart_key u := x))"
  by (simp add: same_rows_def)

lemma unit_result: "Q (Inr ()) w \<Longrightarrow> (\<And>e. Q (Inl e) w) \<Longrightarrow> Q (r :: 'e + unit) w"
  by (cases r) auto

lemma e_ensure:
  assumes "at w m b l" and "\<And>w'. at w' m b l \<Longrightarrow> Q (Inr ()) w'" and "\<And>e w'. at w' m b l \<Longrightarrow> Q (Inl e) w'"
  shows "wp (ensure_multipart eng u) Q w"
  unfolding ensure_multipart_def load_multipart_def wp_bind
proof (rule e_load [OF assms(1)])
  fix x v w'
  assume w': "at w' m b l"
  have "wp (on_s3 (s3_restore_multipart (en_s3 eng) x)) Q w'"
    by (rule e_bytes_keep [OF w' restore_keeps]) (auto intro: unit_result assms(2,3))
  then show "case Inr (Some x) of Inl e \<Rightarrow> Q (Inl e) w' | Inr r \<Rightarrow> wp (case r of
      None \<Rightarrow> err_act (BadRequest ''multipart state unavailable (restarted server or expired session); start a new upload'')
    | Some rec \<Rightarrow> on_s3 (s3_restore_multipart (en_s3 eng) rec)) Q w'" by simp
qed (simp_all add: assms)

lemma wp_all_etags: "(\<And>es. Q (Inr es) w) \<Longrightarrow> (\<And>e. Q (Inl e) w) \<Longrightarrow> wp (all_etags xs) Q w"
  unfolding all_etags_def
  by (rule wp_for [where I = "\<lambda>_ _ w'. w' = w"]) (auto split: option.splits)

lemma e_assemble:
  assumes "at w m b l"
    and ok: "\<And>m1 b1 w'. at w' m1 b1 l \<Longrightarrow> same_rows m m1 \<Longrightarrow> Q (Inr ()) w'"
    and err: "\<And>m1 b1 e w'. at w' m1 b1 l \<Longrightarrow> same_rows m m1 \<Longrightarrow> Q (Inl e) w'"
  shows "wp (assemble eng s) Q w"
proof (cases "us_file_total_parts s = 1")
  case True
  then show ?thesis using ok [OF assms(1)] err [OF assms(1)]
    by (cases "us_etags s") (simp_all add: assemble_def)
next
  case False
  show ?thesis
  proof (cases "us_s3_upload_id s")
    case None
    then show ?thesis using False err [OF assms(1)] by (simp add: assemble_def wp_all_etags)
  next
    case (Some u)
    have *: "wp (bind_act (ensure_multipart eng u) (\<lambda>_.
        bind_act (on_s3 (s3_complete_multipart_upload (en_s3 eng) (en_bucket eng) (us_s3_key s) u es)) (\<lambda>_.
        on_store (delete_multipart (en_store eng) u)))) Q w" for es
      unfolding wp_bind
    proof (rule e_ensure [OF assms(1)])
      fix w1
      assume w1: "at w1 m b l"
      have "wp (on_s3 (s3_complete_multipart_upload (en_s3 eng) (en_bucket eng) (us_s3_key s) u es))
         (\<lambda>r w'. case r of Inl e \<Rightarrow> Q (Inl e) w' | Inr _ \<Rightarrow> wp (on_store (delete_multipart (en_store eng) u)) Q w') w1"
      proof (rule e_complete_object [OF w1])
        fix r b' w2
        assume w2: "at w2 m b' l"
        show "case r of Inl e \<Rightarrow> Q (Inl e) w2 | Inr _ \<Rightarrow> wp (on_store (delete_multipart (en_store eng) u)) Q w2"
          using err [OF w2] by (auto split: sum.split intro!: e_delete_multipart [OF w2] intro: ok err)
      qed
      then show "case Inr () of Inl e \<Rightarrow> Q (Inl e) w1 | Inr _ \<Rightarrow>
          wp (on_s3 (s3_complete_multipart_upload (en_s3 eng) (en_bucket eng) (us_s3_key s) u es))
         (\<lambda>r w'. case r of Inl e \<Rightarrow> Q (Inl e) w' | Inr _ \<Rightarrow> wp (on_store (delete_multipart (en_store eng) u)) Q w') w1" by simp
    qed (simp add: err)
    show ?thesis
      using False Some err [OF assms(1)]
      by (simp add: assemble_def del: wp_bind, simp only: wp_bind [of "all_etags _"], intro wp_all_etags)
         (simp_all add: * some_act_def del: wp_bind)
  qed
qed

lemma session_keys_rows:
  "session_key i \<in> set (session_keys i x)" "file_key f \<notin> set (session_keys i x)"
  by (auto simp: session_keys_def split: option.splits)

lemma frec_without: "frec cod (without (set (session_keys i x)) m) f = frec cod m f"
  using session_keys_rows(2) by (simp add: frec_def value_at_def without_def)

lemma e_finish:
  assumes "at w m b l" and rec: "frec cod m i = Some rec" and ann: "FileCreate rec \<in> set l"
    and fin: "\<And>r m' w'. at w' m' b l \<Longrightarrow> announced_or_pending cod m' l i \<Longrightarrow> frec cod m' i = Some rec \<Longrightarrow>
        (r = Inr () \<longrightarrow> sess cod m' i = None) \<Longrightarrow> Q r w'"
  shows "wp (on_store (delete_session (en_store eng) i)) Q w"
proof (rule e_delete_session [OF assms(1) refl])
  let ?m = "without (set (session_keys i (value_at (dec_session cod) m (session_key i)))) m"
  have f: "frec cod ?m i = Some rec" using rec by (simp add: frec_without)
  have s: "sess cod ?m i = None" using session_keys_rows(1) by (simp add: sess_def value_at_def without_def)
  show "at w' ?m b l \<Longrightarrow> Q (Inr ()) w'" "at w' ?m b l \<Longrightarrow> Q (Inl e) w'" for e w'
    using fin [of w' ?m] f s ann by (simp_all add: announced_or_pending_def)
  show "at w' m b l \<Longrightarrow> Q (Inl e) w'" for e w'
    using fin [of w' m "Inl e"] rec ann by (simp add: announced_or_pending_def)
qed

text \<open>The tail shared by a first completion and its retry: announce, then drop the session.\<close>

lemma e_announce_finish:
  assumes "at w m b l" and "length l < capacity" and rec: "frec cod m i = Some rec" and ses: "m (session_key i) \<noteq> None"
    and fin: "\<And>r m' l' w'. at w' m' b l' \<Longrightarrow> announced_or_pending cod m' l' i \<Longrightarrow> l' = l \<or> l' = l @ [FileCreate rec] \<Longrightarrow>
        (r = Inr () \<longrightarrow> frec cod m' i = Some rec \<and> FileCreate rec \<in> set l' \<and> sess cod m' i = None) \<Longrightarrow> Q r w'"
  shows "wp (bind_act (announce eng ts (FileCreate rec)) (\<lambda>_. on_store (delete_session (en_store eng) i))) Q w"
  unfolding wp_bind
proof (rule e_announce [OF assms(1,2)])
  fix w'
  assume w': "at w' m b (l @ [FileCreate rec])"
  then show "case Inr () of Inl e \<Rightarrow> Q (Inl e) w' | Inr x \<Rightarrow> wp (on_store (delete_session (en_store eng) i)) Q w'"
    by (auto intro!: e_finish [OF _ rec] intro: fin)
  show "case Inl e of Inl e \<Rightarrow> Q (Inl e) w' | Inr x \<Rightarrow> wp (on_store (delete_session (en_store eng) i)) Q w'" for e
    using fin [OF w', of "Inl e"] by (simp add: announced_or_pending_def ses)
next
  fix e w'
  assume "at w' m b l"
  from fin [OF this, of "Inl e"]
  show "case Inl e of Inl e \<Rightarrow> Q (Inl e) w' | Inr x \<Rightarrow> wp (on_store (delete_session (en_store eng) i)) Q w'"
    by (simp add: announced_or_pending_def ses)
qed

lemma e_commit:
  assumes "at w m b l" and len: "length l < capacity" and none: "m (file_key i) = None" and ses: "m (session_key i) \<noteq> None"
    and id: "fr_id rec = i"
    and fin: "\<And>r m' l' w'. at w' m' b l' \<Longrightarrow> announced_or_pending cod m' l' i \<Longrightarrow> l' = l \<or> l' = l @ [FileCreate rec] \<Longrightarrow>
        (r = Inr () \<longrightarrow> frec cod m' i = Some rec \<and> FileCreate rec \<in> set l' \<and> sess cod m' i = None) \<Longrightarrow> Q r w'"
  shows "wp (bind_act (on_store (save_file (en_store eng) rec)) (\<lambda>_.
     bind_act (announce eng ts (FileCreate rec)) (\<lambda>_. on_store (delete_session (en_store eng) i)))) Q w"
  unfolding wp_bind [of "on_store _"] save_file_def id
proof (rule e_save [OF assms(1)])
  fix v w'
  assume w': "at w' (m(file_key i \<mapsto> v)) b l" and enc: "enc_file cod rec = Inr v"
  let ?m = "m(file_key i \<mapsto> v)"
  have rec: "frec cod ?m i = Some rec" using file_codec [OF enc] by (simp add: frec_def value_at_def)
  have s: "?m (session_key i) \<noteq> None" using ses by simp
  have "wp (bind_act (announce eng ts (FileCreate rec)) (\<lambda>_. on_store (delete_session (en_store eng) i))) Q w'"
    by (rule e_announce_finish [OF w' len rec s]) (rule fin)
  then show "case Inr () of Inl e \<Rightarrow> Q (Inl e) w' | Inr x \<Rightarrow>
      wp (bind_act (announce eng ts (FileCreate rec)) (\<lambda>_. on_store (delete_session (en_store eng) i))) Q w'" by simp
  show "case Inl e of Inl e \<Rightarrow> Q (Inl e) w' | Inr x \<Rightarrow>
      wp (bind_act (announce eng ts (FileCreate rec)) (\<lambda>_. on_store (delete_session (en_store eng) i))) Q w'" for e
    using fin [OF w', of "Inl e"] s by (simp add: announced_or_pending_def)
next
  fix e w'
  assume w': "at w' m b l"
  from fin [OF this, of "Inl e"] ses
  show "case Inl e of Inl e \<Rightarrow> Q (Inl e) w' | Inr x \<Rightarrow>
      wp (bind_act (announce eng ts (FileCreate rec)) (\<lambda>_. on_store (delete_session (en_store eng) i))) Q w'"
    by (simp add: announced_or_pending_def)
qed

text \<open>Loading the record and the session, as a completion does first.\<close>

lemma e_load_both:
  assumes "at w m b l"
    and "\<And>w' f x. at w' m b l \<Longrightarrow> f = frec cod m i \<Longrightarrow> x = sess cod m i \<Longrightarrow> (f = None \<longrightarrow> m (file_key i) = None) \<Longrightarrow>
        (x = None \<longrightarrow> m (session_key i) = None) \<Longrightarrow> wp (g f x) Q w'"
    and "\<And>e w'. at w' m b l \<Longrightarrow> Q (Inl e) w'"
  shows "wp (bind_act (on_store (get_file (en_store eng) i)) (\<lambda>f. bind_act (on_store (get_session (en_store eng) i)) (g f))) Q w"
  unfolding wp_bind get_file_def get_session_def
proof (rule e_load [OF assms(1)])
  fix w1
  assume w1: "at w1 m b l" and n: "m (file_key i) = None"
  show "case Inr None of Inl e \<Rightarrow> Q (Inl e) w1 | Inr f \<Rightarrow> wp (on_store (load_one (en_store eng) (dec_session cod) (session_key i)))
      (\<lambda>r w'. case r of Inl e \<Rightarrow> Q (Inl e) w' | Inr x \<Rightarrow> wp (g f x) Q w') w1"
    using n by (auto intro!: e_load [OF w1] assms(2,3) simp: frec_def sess_def value_at_def)
next
  fix x v w1
  assume w1: "at w1 m b l" and n: "m (file_key i) = Some v" "dec_file cod v = Inr x"
  show "case Inr (Some x) of Inl e \<Rightarrow> Q (Inl e) w1 | Inr f \<Rightarrow> wp (on_store (load_one (en_store eng) (dec_session cod) (session_key i)))
      (\<lambda>r w'. case r of Inl e \<Rightarrow> Q (Inl e) w' | Inr x \<Rightarrow> wp (g f x) Q w') w1"
    using n by (auto intro!: e_load [OF w1] assms(2,3) simp: frec_def sess_def value_at_def)
qed (simp add: assms(3))

lemma pending_same_rows: "same_rows m m1 \<Longrightarrow> announced_or_pending cod m1 l i \<longleftrightarrow> announced_or_pending cod m l i"
  by (simp add: announced_or_pending_def same_rows_def frec_def value_at_def)

lemma e_complete:
  assumes "at w m b l" and len: "length l < capacity" and pend: "announced_or_pending cod m l i"
  shows "wp (complete_upload eng now ts i req caller)
     (\<lambda>r w'. \<exists>m' b' l'. at w' m' b' l' \<and> announced_or_pending cod m' l' i \<and> (l' = l \<or> (\<exists>rec. l' = l @ [FileCreate rec])) \<and>
        (r = Inr () \<longrightarrow> completed cod m' l' i caller)) w" (is "wp _ ?Q w")
proof -
  have err: "at w' m' b' l \<Longrightarrow> announced_or_pending cod m' l i \<Longrightarrow> ?Q (Inl e) w'" for w' m' b' e by blast
  have fin: "?Q r w'" if "at w' m' b' l'" "announced_or_pending cod m' l' i" "l' = l \<or> l' = l @ [FileCreate rec]"
    "r = Inr () \<longrightarrow> frec cod m' i = Some rec \<and> FileCreate rec \<in> set l' \<and> sess cod m' i = None" "fr_owner_sub rec = caller"
    for r w' m' b' l' rec
    using that by (intro exI [of _ m'] exI [of _ b'] exI [of _ l']) (auto simp: completed_def)
  show ?thesis
    unfolding complete_upload_def
  proof (rule e_load_both [OF assms(1)])
    fix w' f x
    assume w': "at w' m b l" and f: "f = frec cod m i" and x: "x = sess cod m i" and f0: "f = None \<longrightarrow> m (file_key i) = None"
      and x0: "x = None \<longrightarrow> m (session_key i) = None"
    have key: "x = Some y \<Longrightarrow> m (session_key i) \<noteq> None" for y by (auto simp: x sess_def value_at_Some)
    have retry: "wp (bind_act (announce eng ts (FileCreate rec)) (\<lambda>_. on_store (delete_session (en_store eng) i))) ?Q w'"
      if "f = Some rec" "x = Some y" "fr_owner_sub rec = caller" for rec y
      by (rule e_announce_finish [OF w' len _ key [OF that(2)]]) (use that f fin in auto)
    have already: "?Q (Inr ()) w'" if "f = Some rec" "x = None" "fr_owner_sub rec = caller" for rec
      using that w' pend x0 f x by (intro exI [of _ m] exI [of _ b] exI [of _ l]) (auto simp: completed_def announced_or_pending_def)
    have first: "wp (bind_act (assemble eng y) (\<lambda>_. let record = \<lparr>fr_id = i, fr_name = cr_name req, fr_mimetype = cr_mimetype req,
         fr_size = us_file_size y, fr_s3_key = us_s3_key y, fr_owner_sub = us_owner_sub y, fr_created_at = now\<rparr> in
       bind_act (on_store (save_file (en_store eng) record)) (\<lambda>_.
       bind_act (announce eng ts (FileCreate record)) (\<lambda>_. on_store (delete_session (en_store eng) i))))) ?Q w'"
      if "f = None" "x = Some y" "us_owner_sub y = caller" for y
      unfolding Let_def wp_bind [of "assemble _ _"]
    proof (rule e_assemble [OF w'])
      fix m1 b1 w1
      assume a: "at w1 m1 b1 l" "same_rows m m1"
      then have m1: "m1 (file_key i) = None" "m1 (session_key i) \<noteq> None"
        using that(1,2) f0 key by (auto simp: same_rows_def)
      show "case Inl e of Inl e \<Rightarrow> ?Q (Inl e) w1 | Inr _ \<Rightarrow> wp (g e) ?Q w1" for e g
        using err [OF a(1)] pend a(2) by (simp add: pending_same_rows)
      show "case Inr () of Inl e \<Rightarrow> ?Q (Inl e) w1 | Inr _ \<Rightarrow> wp (bind_act (on_store (save_file (en_store eng)
          \<lparr>fr_id = i, fr_name = cr_name req, fr_mimetype = cr_mimetype req,
         fr_size = us_file_size y, fr_s3_key = us_s3_key y, fr_owner_sub = us_owner_sub y, fr_created_at = now\<rparr>)) (\<lambda>_.
       bind_act (announce eng ts (FileCreate \<lparr>fr_id = i, fr_name = cr_name req, fr_mimetype = cr_mimetype req,
         fr_size = us_file_size y, fr_s3_key = us_s3_key y, fr_owner_sub = us_owner_sub y, fr_created_at = now\<rparr>))
           (\<lambda>_. on_store (delete_session (en_store eng) i)))) ?Q w1"
        unfolding sum.case
        by (rule e_commit [OF a(1) len m1]) (use that(3) fin in auto)
    qed
    show "wp (case f of
       Some rec \<Rightarrow>
         if fr_owner_sub rec \<noteq> caller then err_act Forbidden
         else (case x of None \<Rightarrow> ok_act ()
         | Some _ \<Rightarrow> bind_act (announce eng ts (FileCreate rec)) (\<lambda>_. on_store (delete_session (en_store eng) i)))
     | None \<Rightarrow>
         bind_act (some_act (NotFound ''upload session not found'') x) (\<lambda>session.
         if us_owner_sub session \<noteq> caller then err_act Forbidden
         else if list_ex (\<lambda>e. e = None) (us_etags session) then err_act (BadRequest ''not all parts uploaded'')
         else
           bind_act (assemble eng session) (\<lambda>_.
           let record = \<lparr>fr_id = i, fr_name = cr_name req, fr_mimetype = cr_mimetype req, fr_size = us_file_size session,
               fr_s3_key = us_s3_key session, fr_owner_sub = us_owner_sub session, fr_created_at = now\<rparr> in
           bind_act (on_store (save_file (en_store eng) record)) (\<lambda>_.
           bind_act (announce eng ts (FileCreate record)) (\<lambda>_.
           on_store (delete_session (en_store eng) i)))))) ?Q w'"
    proof (cases f)
      case None
      show ?thesis
      proof (cases x)
        case (Some y)
        consider "us_owner_sub y \<noteq> caller \<or> list_ex (\<lambda>e. e = None) (us_etags y)"
          | "us_owner_sub y = caller" "\<not> list_ex (\<lambda>e. e = None) (us_etags y)" by blast
        then show ?thesis
        proof cases
          case 1
          then show ?thesis using err [OF w' pend] None Some by (auto simp: some_act_def simp del: wp_bind)
        next
          case 2
          have "wp (if us_owner_sub y \<noteq> caller then err_act Forbidden
             else if list_ex (\<lambda>e. e = None) (us_etags y) then err_act (BadRequest ''not all parts uploaded'')
             else g) Q w'" if "wp g Q w'" for g Q
            using 2 that by simp
          from this [OF first [OF None Some 2(1)]] show ?thesis
            by (simp only: None Some option.case some_act_def bind_ok_act)
        qed
      qed (use err [OF w' pend] None in \<open>simp add: some_act_def\<close>)
    next
      case (Some rec)
      show ?thesis
      proof (cases "fr_owner_sub rec = caller")
        case True
        then show ?thesis
          using retry [OF Some] already [OF Some] by (cases x) (simp_all only: Some option.case not_True_eq_False if_False wp_ok simp_thms)
      qed (use err [OF w' pend] Some in simp)
    qed
  qed (rule err [OF _ pend])
qed

subsection \<open>Access and deletion\<close>

lemma e_get_file:
  assumes "at w m b l"
    and "\<And>w' f. at w' m b l \<Longrightarrow> f = frec cod m i \<Longrightarrow> Q (Inr f) w'" and "\<And>e w'. at w' m b l \<Longrightarrow> Q (Inl e) w'"
  shows "wp (on_store (get_file (en_store eng) i)) Q w"
  unfolding get_file_def by (rule e_load [OF assms(1)]) (auto intro: assms(2,3) simp: frec_def value_at_def)

lemma e_can_access:
  assumes "at w m b l"
    and "\<And>w' y. at w' m b l \<Longrightarrow> y = may_access eng m caller i a \<Longrightarrow> Q (Inr y) w'" and "\<And>e w'. at w' m b l \<Longrightarrow> Q (Inl e) w'"
  shows "wp (can_access eng caller i a) Q w"
  unfolding can_access_def wp_bind [of "on_store (get_file _ _)"]
proof (rule e_get_file [OF assms(1)])
  fix w' f
  assume w': "at w' m b l" and f: "f = frec cod m i"
  show "case Inr f of Inl e \<Rightarrow> Q (Inl e) w' | Inr f \<Rightarrow> wp (bind_act (some_act (NotFound ''file not found'') f) (\<lambda>rec.
     bind_act (on_store (rows_for_file (en_store eng) i)) (\<lambda>rows.
     ok_act (if rows = [] then fr_owner_sub rec = caller
             else list_ex (\<lambda>(ty, rid). en_authorize_row eng caller ty rid a = Inr True) rows)))) Q w'"
  proof (cases f)
    case (Some rec)
    have "wp (on_store (rows_for_file (en_store eng) i)) (\<lambda>r w'. case r of Inl e \<Rightarrow> Q (Inl e) w' | Inr rows \<Rightarrow>
       Q (Inr (if rows = [] then fr_owner_sub rec = caller
             else list_ex (\<lambda>(ty, rid). en_authorize_row eng caller ty rid a = Inr True) rows)) w') w'"
    proof (rule e_rows [OF w'])
      fix rows w2
      assume w2: "at w2 m b l" and rows: "set rows = {row. \<exists>k. m k \<noteq> None \<and> row_of_marker i k = Some row}"
      have set: "set rows = file_rows m i" using rows by (simp add: file_rows_def)
      then have "rows = [] \<longleftrightarrow> file_rows m i = {}" by (metis set_empty)
      moreover have "may_access eng m caller i a \<longleftrightarrow> (if file_rows m i = {} then fr_owner_sub rec = caller
          else \<exists>(ty, rid) \<in> file_rows m i. en_authorize_row eng caller ty rid a = Inr True)"
        using f [symmetric] Some by (simp add: may_access_def)
      ultimately show "case Inr rows of Inl e \<Rightarrow> Q (Inl e) w2 | Inr rows \<Rightarrow> Q (Inr (if rows = [] then fr_owner_sub rec = caller
             else list_ex (\<lambda>(ty, rid). en_authorize_row eng caller ty rid a = Inr True) rows)) w2"
        using set unfolding sum.case by (intro assms(2) [OF w2]) (cases "file_rows m i = {}"; simp add: list_ex_iff)
    qed (simp add: assms(3))
    then show ?thesis by (simp only: Some sum.case some_act_def option.case bind_ok_act wp_bind wp_ok)
  qed (simp add: assms(3) [OF w'])
qed (simp add: assms(3))

lemma e_ref_count:
  assumes "at w m b l"
    and "\<And>w' x. at w' m b l \<Longrightarrow> ri_count x = ref_count cod m i \<Longrightarrow> Q (Inr x) w'" and "\<And>e w'. at w' m b l \<Longrightarrow> Q (Inl e) w'"
  shows "wp (on_store (get_ref_info (en_store eng) i)) Q w"
  unfolding wp_on_store get_ref_info_def wp_bind
  by (rule wp_load_one)
     (auto intro!: assms(2,3) at_store [OF assms(1)] simp: at_held [OF assms(1)] ref_count_def value_at_def ref_info_default_def)

lemma e_delete_tail:
  assumes "at w m b l" and "length l < capacity" and rec: "frec cod m i = Some rec"
    and fin: "\<And>r m' b' l' w'. at w' m' b' l' \<Longrightarrow> delete_outcome eng loc m b l i m' b' l' \<Longrightarrow>
        (r = Inr () \<longrightarrow> m' = without (file_keys i) m \<and> b' = b(loc (en_bucket eng) (fr_s3_key rec) := None)) \<Longrightarrow> Q r w'"
  shows "wp (bind_act (announce eng ts (FileDelete i)) (\<lambda>_.
     bind_act (on_store (delete_file_record (en_store eng) i)) (\<lambda>_.
     on_s3 (s3_delete_object (en_s3 eng) (en_bucket eng) (fr_s3_key rec))))) Q w"
proof -
  let ?m = "without (file_keys i) m" and ?b = "b(loc (en_bucket eng) (fr_s3_key rec) := None)" and ?l = "l @ [FileDelete i]"
  have out: "delete_outcome eng loc m b l i m b l" "delete_outcome eng loc m b l i m b ?l" "delete_outcome eng loc m b l i ?m b ?l" "delete_outcome eng loc m b l i ?m ?b ?l"
    using rec by (simp_all add: delete_outcome_def)
  have bytes: "wp (on_s3 (s3_delete_object (en_s3 eng) (en_bucket eng) (fr_s3_key rec))) Q w'" if "at w' ?m b ?l" for w'
    by (rule e_delete_object [OF that]) (auto intro: fin [OF _ out(3)] fin [OF _ out(4)])
  have rows: "wp (bind_act (on_store (delete_file_record (en_store eng) i)) (\<lambda>_.
     on_s3 (s3_delete_object (en_s3 eng) (en_bucket eng) (fr_s3_key rec)))) Q w'" if "at w' m b ?l" for w'
    unfolding wp_bind
    by (rule e_delete_file [OF that]) (auto intro: bytes fin [OF _ out(2)] fin [OF _ out(3)])
  show ?thesis
    unfolding wp_bind [of "announce _ _ _"]
    by (rule e_announce [OF assms(1,2)]) (auto simp del: wp_bind intro: rows fin [OF _ out(1)] fin [OF _ out(2)])
qed

lemma e_delete_request:
  assumes "at w m b l" and "length l < capacity"
  shows "wp (engine_delete_file eng ts i caller)
     (\<lambda>r w'. at w' m b l \<and> (\<exists>e. r = Inl e) \<or>
        may_delete eng m caller i \<and> (\<exists>m' b' l'. at w' m' b' l' \<and> delete_outcome eng loc m b l i m' b' l' \<and>
          (r = Inr () \<longrightarrow> m' = without (file_keys i) m))) w" (is "wp _ ?Q w")
proof -
  have err: "at w' m b l \<Longrightarrow> ?Q (Inl e) w'" for w' e by blast
  have tail: "wp (bind_act (announce eng ts (FileDelete i)) (\<lambda>_.
       bind_act (on_store (delete_file_record (en_store eng) i)) (\<lambda>_.
       on_s3 (s3_delete_object (en_s3 eng) (en_bucket eng) (fr_s3_key rec))))) ?Q w'"
    if "at w' m b l" "frec cod m i = Some rec" "may_delete eng m caller i" for w' rec
    by (rule e_delete_tail [OF that(1) assms(2) that(2)]) (use that(3) in blast)
  have guard: "wp (bind_act (if ri_count info = 0 then (if fr_owner_sub rec \<noteq> caller then err_act Forbidden else ok_act ())
       else bind_act (can_access eng caller i Delete) (\<lambda>yes. if yes then ok_act () else err_act Forbidden)) (\<lambda>_. g)) ?Q w'"
    if w': "at w' m b l" and rec: "frec cod m i = Some rec" and info: "ri_count info = ref_count cod m i"
      and g: "\<And>w'. at w' m b l \<Longrightarrow> may_delete eng m caller i \<Longrightarrow> wp g ?Q w'" for w' rec info g
  proof (cases "ref_count cod m i = 0")
    case True
    then show ?thesis
      using g [OF w'] err [OF w'] rec info by (cases "fr_owner_sub rec = caller") (simp_all add: may_delete_def)
  next
    case False
    then have "may_access eng m caller i Delete \<Longrightarrow> may_delete eng m caller i" using rec by (simp add: may_delete_def)
    then show ?thesis
      using False info g err by (simp, intro e_can_access [OF w']) (auto split: if_splits)
  qed
  have body: "wp (bind_act (on_store (get_ref_info (en_store eng) i)) (\<lambda>info.
     bind_act (if ri_count info = 0 then (if fr_owner_sub rec \<noteq> caller then err_act Forbidden else ok_act ())
               else bind_act (can_access eng caller i Delete) (\<lambda>yes. if yes then ok_act () else err_act Forbidden)) (\<lambda>_.
     bind_act (announce eng ts (FileDelete i)) (\<lambda>_.
     bind_act (on_store (delete_file_record (en_store eng) i)) (\<lambda>_.
     on_s3 (s3_delete_object (en_s3 eng) (en_bucket eng) (fr_s3_key rec))))))) ?Q w'"
    if "at w' m b l" "frec cod m i = Some rec" for w' rec
    unfolding wp_bind [of "on_store (get_ref_info _ _)"]
    by (rule e_ref_count [OF that(1)], unfold sum.case)
       (rule guard [OF _ that(2) _ tail [OF _ that(2)]], assumption+, rule err)
  show ?thesis
    unfolding engine_delete_file_def wp_bind [of "on_store (get_file _ _)"]
  proof (rule e_get_file [OF assms(1)], unfold sum.case)
    fix w' f
    assume w': "at w' m b l" and f: "f = frec cod m i"
    show "wp (bind_act (some_act (NotFound ''file not found'') f) (\<lambda>rec.
     bind_act (on_store (get_ref_info (en_store eng) i)) (\<lambda>info.
     bind_act (if ri_count info = 0 then (if fr_owner_sub rec \<noteq> caller then err_act Forbidden else ok_act ())
               else bind_act (can_access eng caller i Delete) (\<lambda>yes. if yes then ok_act () else err_act Forbidden)) (\<lambda>_.
     bind_act (announce eng ts (FileDelete i)) (\<lambda>_.
     bind_act (on_store (delete_file_record (en_store eng) i)) (\<lambda>_.
     on_s3 (s3_delete_object (en_s3 eng) (en_bucket eng) (fr_s3_key rec)))))))) ?Q w'"
      using body [OF w'] f [symmetric] err [OF w'] by (cases f) (simp_all add: some_act_def del: wp_bind)
  qed (rule err)
qed

lemma e_complete_again:
  assumes "at w m b l" and "frec cod m i = Some rec" and "m (session_key i) = None"
  shows "wp (complete_upload eng now ts i req caller) (\<lambda>_ w'. at w' m b l) w"
  unfolding complete_upload_def
  by (rule e_load_both [OF assms(1)]) (use assms(2,3) in \<open>auto simp: sess_def value_at_def\<close>)

lemma e_readable:
  assumes "at w m b l"
    and "\<And>w' rec. at w' m b l \<Longrightarrow> frec cod m i = Some rec \<Longrightarrow> may_access eng m caller i Read \<Longrightarrow> Q (Inr rec) w'"
    and "\<And>e w'. at w' m b l \<Longrightarrow> Q (Inl e) w'"
  shows "wp (readable_file eng i caller) Q w"
proof -
  have get: "wp (bind_act (on_store (get_file (en_store eng) i)) (\<lambda>f. some_act (NotFound ''file not found'') f)) Q w'"
    if w': "at w' m b l" and may: "may_access eng m caller i Read" for w'
    unfolding wp_bind
    by (rule e_get_file [OF w']) (use may assms(2,3) in \<open>auto split: option.splits\<close>)
  show ?thesis
    unfolding readable_file_def wp_bind [of "can_access _ _ _ _"]
  proof (rule e_can_access [OF assms(1)], unfold sum.case)
    fix w' y
    assume "at w' m b l" and "y = may_access eng m caller i Read"
    then show "wp (if \<not> y then err_act Forbidden
       else bind_act (on_store (get_file (en_store eng) i)) (\<lambda>f. some_act (NotFound ''file not found'') f)) Q w'"
      using get assms(3) by (cases y) (simp_all del: wp_bind)
  qed (rule assms(3))
qed

lemma e_get_object:
  assumes "at w m b l"
  shows "wp (get_object eng i caller)
      (\<lambda>r w'. at w' m b l \<and> (\<forall>rec s. r = Inr (rec, s) \<longrightarrow> frec cod m i = Some rec \<and> may_access eng m caller i Read)) w"
  unfolding get_object_def wp_bind [of "readable_file _ _ _"]
  by (rule e_readable [OF assms]) (auto split: sum.splits intro!: e_bytes_keep [OF _ stream_keeps])

lemma e_get_object_range:
  assumes "at w m b l"
  shows "wp (get_object_range eng i caller x y)
      (\<lambda>r w'. at w' m b l \<and> (\<forall>rec s. r = Inr (rec, s) \<longrightarrow> frec cod m i = Some rec \<and> may_access eng m caller i Read)) w"
  unfolding get_object_range_def wp_bind [of "readable_file _ _ _"] Let_def
  by (rule e_readable [OF assms]) (auto simp: case_prod_unfold split: sum.splits intro!: e_bytes_keep [OF _ range_keeps])

lemma e_get_metadata:
  assumes "at w m b l"
  shows "wp (get_metadata eng i caller) (\<lambda>r w'. at w' m b l \<and> ((\<exists>fm. r = Inr fm) \<longrightarrow> may_access eng m caller i Read)) w"
  unfolding get_metadata_def wp_bind [of "readable_file _ _ _"]
  by (rule e_readable [OF assms]) auto

end

section \<open>An engine in memory\<close>

text \<open>The engine on the in-memory store and backend, with the durable feed; one user has every row.\<close>

definition demo_engine :: "(fs_val mem_kv, (string \<times> fs_val option) list, fs_val, mem_backend object_client, wal_val mem_kv wal) fs_engine" where
  "demo_engine = \<lparr>en_store = mem_fs, en_s3 = object_store_client mem_ce, en_bucket = ''b'',
     en_require_row = (\<lambda>caller _ _ _. if caller = ''ann'' then Inr () else Inl AccessDenied),
     en_authorize_row = (\<lambda>caller _ _ _. Inr (caller = ''ann'')),
     en_feed = Some (wal_append mem_ops tag_codec)\<rparr>"

lemma demo_engine_sel [simp]: "en_store demo_engine = mem_fs" "en_s3 demo_engine = object_store_client mem_ce"
    "en_bucket demo_engine = ''b''" "en_feed demo_engine = Some (wal_append mem_ops tag_codec)"
    "en_require_row demo_engine = (\<lambda>caller _ _ _. if caller = ''ann'' then Inr () else Inl AccessDenied)"
    "en_authorize_row demo_engine = (\<lambda>caller _ _ _. Inr (caller = ''ann''))"
  by (simp_all add: demo_engine_def)

interpretation memeng: engine_over demo_engine mem_abs map_of membytes.states_ok "\<lambda>c. map_of (mb_objs (oc_backend c))"
    "client_path mem_ce" "wal_append mem_ops tag_codec" "\<lambda>w. stored_feed tag_codec (mem_abs (wal_store w))"
    "\<lambda>w. wal_inv tag_codec (mem_abs (wal_store w))" wal_capacity
  unfolding engine_over_def engine_over_axioms_def demo_engine_sel
  by (intro conjI memfs.fs_over_axioms membytes.client.s3_client_axioms memwal.sink.change_sink_axioms refl)

definition one_part :: upload_session where
  "one_part = \<lparr>us_id = ''u1'', us_file_size = 5, us_part_size = 5, us_file_total_parts = 1, us_s3_upload_id = None,
     us_s3_key = ''files/u1'', us_owner_sub = ''ann'', us_created_at = 100, us_etags = [Some ''put''], us_checksums = [None]\<rparr>"

definition demo_world :: "(string \<times> fs_val) list \<Rightarrow> (fs_val mem_kv, mem_backend object_client, wal_val mem_kv wal) fs_world" where
  "demo_world d = \<lparr>fw_store = fs_start d,
     fw_s3 = \<lparr>oc_backend = \<lparr>mb_objs = [(''files/u1'', ''hello'')], mb_uploads = [], mb_next = 0\<rparr>, oc_states = []\<rparr>,
     fw_feed = empty_wal\<rparr>"

lemma demo_world_ok [simp]:
  "membytes.states_ok (fw_s3 (demo_world d))" "wal_inv tag_codec (mem_abs (wal_store (fw_feed (demo_world d))))"
  "stored_feed tag_codec (mem_abs (wal_store (fw_feed (demo_world d)))) = []" "meta mem_abs (demo_world d) = map_of d"
proof -
  have h: "stored_head tag_codec (mem_abs (wal_store empty_wal)) = Some 0"
    by (simp add: stored_head_def mem_abs_def empty_wal_def)
  show "membytes.states_ok (fw_s3 (demo_world d))" by (simp add: membytes.states_ok_def demo_world_def)
  show "wal_inv tag_codec (mem_abs (wal_store (fw_feed (demo_world d))))"
    "stored_feed tag_codec (mem_abs (wal_store (fw_feed (demo_world d)))) = []"
    by (simp_all add: demo_world_def wal_inv_def stored_feed_def stored_entries_def h range_seqs_def)
  show "meta mem_abs (demo_world d) = map_of d" by (simp add: meta_def demo_world_def fs_start_def mem_abs_def)
qed

lemmas engine_run_defs = on_store_def on_s3_def load_owned_def get_session_def get_file_def get_ref_info_def load_one_def get_one_def
  announce_def wal_append_def wal_run_defs fs_call_def fs_read_def fs_start_def plain_fs_codec_def demo_world_def
  save_session_def save_file_def save_one_def delete_session_def session_keys_def

section \<open>Properties\<close>

text \<open>
  Merging an uploaded part changes exactly its own slot, in the session and in the multipart record, and
  leaves every other part of the upload and every other session alone; whatever fails, every part the session counts as
  uploaded is in the record that completes the upload.
\<close>

theorem merge_part_keeps_parts:
  assumes "engine_over eng kvabs txov good objs loc sink feed finv capacity" and "good (fw_s3 w)" and "finv (fw_feed w)"
    and "uploads_inv (fe_cod (en_store eng)) (meta kvabs w)"
    and "\<And>s. sess (fe_cod (en_store eng)) (meta kvabs w) i = Some s \<Longrightarrow> us_s3_upload_id s = upload_id"
    and "merge_part eng i p upload_id etag c caller w = (r, w')"
  shows "uploads_inv (fe_cod (en_store eng)) (meta kvabs w') \<and>
    (r = Inr () \<longrightarrow> merged (fe_cod (en_store eng)) (meta kvabs w) (meta kvabs w') i (unat p) upload_id etag c)"
proof -
  note at = engine_over.atI [OF assms(1-3)]
  from wpD [OF engine_over.e_merge [OF assms(1) at assms(4,5)] assms(6)] show ?thesis
    using engine_over.atD [OF assms(1)] by blast
qed

definition open_upload :: "(string \<times> fs_val) list" where
  "open_upload = [(session_key ''u1'', FSession (one_part\<lparr>us_etags := [None]\<rparr>))]"

lemma open_upload_inv: "uploads_inv plain_fs_codec (map_of open_upload)"
  by (auto simp: uploads_inv_def sess_def mpart_def value_at_def open_upload_def plain_fs_codec_def one_part_def split: if_splits)

theorem merge_part_keeps_parts_witness:
  "\<exists>w'. merge_part demo_engine ''u1'' 0 None ''put'' None ''ann'' (demo_world open_upload) = (Inr (), w') \<and>
     (\<exists>s. sess plain_fs_codec (meta mem_abs w') ''u1'' = Some s \<and> us_etags s = [Some ''put''])"
proof -
  have s: "sess plain_fs_codec (map_of open_upload) ''u1'' = Some (one_part\<lparr>us_etags := [None]\<rparr>)"
    by (simp add: sess_def value_at_def open_upload_def plain_fs_codec_def)
  obtain w' where run: "merge_part demo_engine ''u1'' 0 None ''put'' None ''ann'' (demo_world open_upload) = (Inr (), w')"
    by (simp add: merge_part_def merge_record_def engine_run_defs open_upload_def one_part_def)
  have "merged plain_fs_codec (map_of open_upload) (meta mem_abs w') ''u1'' 0 None ''put'' None"
    using merge_part_keeps_parts [OF memeng.engine_over_axioms _ _ _ _ run] open_upload_inv s
    by (simp add: one_part_def)
  then show ?thesis using run s by (auto simp: merged_def)
qed

text \<open>
  C19: a completed upload is never lost to the feed. Whatever fails, a file that is committed has been announced or
  still has its session, from which a retry announces it; when the call returns the file is committed and
  announced and the session is gone. One call adds at most one entry.
\<close>

theorem complete_upload_announces:
  assumes "engine_over eng kvabs txov good objs loc sink feed finv capacity" and "good (fw_s3 w)" and "finv (fw_feed w)"
    and "length (feed (fw_feed w)) < capacity"
    and "announced_or_pending (fe_cod (en_store eng)) (meta kvabs w) (feed (fw_feed w)) i"
    and "complete_upload eng now ts i req caller w = (r, w')"
  shows "announced_or_pending (fe_cod (en_store eng)) (meta kvabs w') (feed (fw_feed w')) i \<and>
    (feed (fw_feed w') = feed (fw_feed w) \<or> (\<exists>rec. feed (fw_feed w') = feed (fw_feed w) @ [FileCreate rec])) \<and>
    (r = Inr () \<longrightarrow> completed (fe_cod (en_store eng)) (meta kvabs w') (feed (fw_feed w')) i caller)"
proof -
  note at = engine_over.atI [OF assms(1-3)]
  from wpD [OF engine_over.e_complete [OF assms(1) at assms(4,5)] assms(6)]
  obtain m' b' l' where w': "engine_over.at kvabs good objs feed finv w' m' b' l'"
    and post: "announced_or_pending (fe_cod (en_store eng)) m' l' i"
      "l' = feed (fw_feed w) \<or> (\<exists>rec. l' = feed (fw_feed w) @ [FileCreate rec])"
      "r = Inr () \<longrightarrow> completed (fe_cod (en_store eng)) m' l' i caller" by blast
  from engine_over.atD [OF assms(1) w'] post show ?thesis by simp
qed

definition full_upload :: "(string \<times> fs_val) list" where
  "full_upload = [(session_key ''u1'', FSession one_part)]"

definition named :: complete_request where
  "named = \<lparr>cr_name = ''a.txt'', cr_mimetype = ''text/plain''\<rparr>"

theorem complete_upload_announces_witness:
  "\<exists>w'. complete_upload demo_engine 7 7 ''u1'' named ''ann'' (demo_world full_upload) = (Inr (), w') \<and>
     completed plain_fs_codec (meta mem_abs w') (stored_feed tag_codec (mem_abs (wal_store (fw_feed w')))) ''u1'' ''ann''"
proof -
  obtain w' where run: "complete_upload demo_engine 7 7 ''u1'' named ''ann'' (demo_world full_upload) = (Inr (), w')"
    by (simp add: complete_upload_def assemble_def engine_run_defs full_upload_def one_part_def named_def)
  have "announced_or_pending plain_fs_codec (map_of full_upload) [] ''u1''"
    by (simp add: announced_or_pending_def full_upload_def)
  then show ?thesis
    using complete_upload_announces [OF memeng.engine_over_axioms _ _ _ _ run] run by (simp add: wal_capacity_def)
qed

text \<open>
  A repeated completion of an upload that is already complete changes neither the metadata nor the feed, so a client
  that repeats the call cannot grow the feed.
\<close>

theorem complete_upload_repeat:
  assumes "engine_over eng kvabs txov good objs loc sink feed finv capacity" and "good (fw_s3 w)" and "finv (fw_feed w)"
    and "frec (fe_cod (en_store eng)) (meta kvabs w) i = Some rec" and "meta kvabs w (session_key i) = None"
    and "complete_upload eng now ts i req caller w = (r, w')"
  shows "meta kvabs w' = meta kvabs w \<and> feed (fw_feed w') = feed (fw_feed w) \<and> objs (fw_s3 w') = objs (fw_s3 w)"
proof -
  note at = engine_over.atI [OF assms(1-3)]
  from wpD [OF engine_over.e_complete_again [OF assms(1) at assms(4,5)] assms(6)] show ?thesis
    using engine_over.atD [OF assms(1)] by metis
qed

definition demo_file :: file_record where
  "demo_file = \<lparr>fr_id = ''u1'', fr_name = ''a.txt'', fr_mimetype = ''text/plain'', fr_size = 5, fr_s3_key = ''files/u1'',
     fr_owner_sub = ''ann'', fr_created_at = 7\<rparr>"

definition one_file :: "(string \<times> fs_val) list" where
  "one_file = [(file_key ''u1'', FFile demo_file)]"

lemma one_file_rec: "frec plain_fs_codec (map_of one_file) ''u1'' = Some demo_file"
  by (simp add: frec_def value_at_def one_file_def plain_fs_codec_def)

theorem complete_upload_repeat_witness:
  "\<exists>w'. complete_upload demo_engine 9 9 ''u1'' named ''ann'' (demo_world one_file) = (Inr (), w') \<and>
     stored_feed tag_codec (mem_abs (wal_store (fw_feed w'))) = []"
proof -
  obtain w' where run: "complete_upload demo_engine 9 9 ''u1'' named ''ann'' (demo_world one_file) = (Inr (), w')"
    by (simp add: complete_upload_def engine_run_defs one_file_def demo_file_def)
  then show ?thesis
    using complete_upload_repeat [OF memeng.engine_over_axioms _ _ _ _ run] one_file_rec by (simp add: one_file_def)
qed



text \<open>
  C21: a file whose markers are all of rows without a colon is read only by a caller that may read it: the owner while the file is attached to no row, and a
  caller granted the read on one of the rows it is attached to once there is one. The record a read returns is that of the file, and a read changes nothing.
\<close>

theorem reads_need_access:
  assumes "engine_over eng kvabs txov good objs loc sink feed finv capacity" and "good (fw_s3 w)" and "finv (fw_feed w)"
    and "plain_markers (meta kvabs w) i"
    and "get_object eng i caller w = (r1, w1)" and "get_object_range eng i caller x y w = (r2, w2)"
    and "get_metadata eng i caller w = (r3, w3)"
  shows "((\<exists>a. r1 = Inr a) \<or> (\<exists>a. r2 = Inr a) \<or> (\<exists>a. r3 = Inr a) \<longrightarrow> granted eng (meta kvabs w) caller i Read) \<and>
    (\<forall>rec s. r1 = Inr (rec, s) \<or> r2 = Inr (rec, s) \<longrightarrow> frec (fe_cod (en_store eng)) (meta kvabs w) i = Some rec) \<and>
    meta kvabs w1 = meta kvabs w \<and> meta kvabs w2 = meta kvabs w \<and> meta kvabs w3 = meta kvabs w"
proof -
  note at = engine_over.atI [OF assms(1-3)]
  note d = engine_over.atD [OF assms(1)]
  note o = wpD [OF engine_over.e_get_object [OF assms(1) at] assms(5), unfolded may_access_granted [OF assms(4)]]
    and g = wpD [OF engine_over.e_get_object_range [OF assms(1) at] assms(6), unfolded may_access_granted [OF assms(4)]]
    and t = wpD [OF engine_over.e_get_metadata [OF assms(1) at] assms(7), unfolded may_access_granted [OF assms(4)]]
  have "(\<exists>a. r1 = Inr a) \<or> (\<exists>a. r2 = Inr a) \<or> (\<exists>a. r3 = Inr a) \<longrightarrow> granted eng (meta kvabs w) caller i Read"
    using o g t by (metis surj_pair)
  moreover have "\<forall>rec s. r1 = Inr (rec, s) \<or> r2 = Inr (rec, s) \<longrightarrow> frec (fe_cod (en_store eng)) (meta kvabs w) i = Some rec"
    using o g by blast
  ultimately show ?thesis using o g t d [THEN conjunct1] by metis
qed

definition attached_file :: "(string \<times> fs_val) list" where
  "attached_file = [(refs_key ''u1'', FRefs \<lparr>ri_count = 1, ri_orphan_since = None\<rparr>), (rel_key ''post'' ''7'' ''u1'', FBytes ''1'')] @ one_file"

lemma attached_file_plain: "plain_markers (map_of attached_file) ''u1''"
proof -
  have "\<not> prefix rel_prefix (refs_key ''u1'')" "\<not> prefix rel_prefix (file_key ''u1'')"
    by (simp_all add: rel_prefix_def refs_key_def file_key_def files_prefix_def)
  then have "k = rel_key ''post'' ''7'' ''u1''" if "map_of attached_file k \<noteq> None" "prefix rel_prefix k" for k
    using that by (auto simp: attached_file_def one_file_def split: if_splits)
  moreover have "CHR '':'' \<notin> set ''post''" "CHR '':'' \<notin> set ''7''" by simp_all
  ultimately show ?thesis unfolding plain_markers_def by blast
qed

theorem reads_need_access_witness:
  "(\<exists>b w1. get_object demo_engine ''u1'' ''ann'' (demo_world attached_file) = (Inr (demo_file, b), w1)) \<and>
   granted demo_engine (map_of attached_file) ''ann'' ''u1'' Read \<and> (''post'', ''7'') \<in> attached (map_of attached_file) ''u1''"
proof -
  obtain b w1 where r1: "get_object demo_engine ''u1'' ''ann'' (demo_world attached_file) = (Inr (demo_file, b), w1)"
    by (simp add: get_object_def readable_file_def can_access_def rows_for_file_def scan_prefix_def engine_run_defs attached_file_def one_file_def
        demo_file_def mem_gets_def mem_list_def limit_of_def in_range_def map_filter_simps row_of_marker_def is_marker_of_def
        rel_prefix_def rel_key_def refs_key_def prefix_scan_end_def file_key_def files_prefix_def file_meta_suffix_def
        object_store_client_def client_get_object_stream_def on_backend_def mem_be_def client_path_def)
  obtain r2 w2 where r2: "get_object_range demo_engine ''u1'' ''ann'' 0 2 (demo_world attached_file) = (r2, w2)" by force
  obtain r3 w3 where r3: "get_metadata demo_engine ''u1'' ''ann'' (demo_world attached_file) = (r3, w3)" by force
  have "(''post'', ''7'') \<in> attached (map_of attached_file) ''u1''" by (simp add: attached_def attached_file_def)
  then show ?thesis
    using reads_need_access [OF memeng.engine_over_axioms _ _ _ r1 r2 r3] attached_file_plain r1 by auto
qed

end
