(* ===== verification/Fs_Gc.thy ===== *)
theory Fs_Gc
  imports Engine_Props
begin

text \<open>
  The sweeper of \<^verbatim>\<open>src/src/fs/gc.rs\<close>: one sweep over expired upload sessions, orphaned files and orphaned bytes. The
  body of each loop is a definition of its own, which acts on whatever state it meets: the listing it works from was
  taken before. The clean-up of the store's own log objects is an operation of the key-value crate and an argument.
\<close>

section \<open>The sweep\<close>

definition FILE_BYTES_PREFIX :: string where "FILE_BYTES_PREFIX = ''files/''"

definition TTL_SECS :: i64 where "TTL_SECS = 24 * 3600"

text \<open>One listed session: read again under its lock, and kept when it is gone, not expired, or not aborted.\<close>

definition sweep_session :: "('s, 't, 'v, 'o, 'l) fs_engine \<Rightarrow> i64 \<Rightarrow> upload_session \<Rightarrow> nat \<Rightarrow> (('s, 'o, 'l) fs_world, fs_error, nat) act" where
  "sweep_session eng now listed cleaned =
     bind_act (on_store (get_session (en_store eng) (us_id listed))) (\<lambda>x.
     case x of
       None \<Rightarrow> ok_act cleaned
     | Some s \<Rightarrow>
         if \<not> is_expired s now TTL_SECS then ok_act cleaned
         else
           bind_act (try_act (abort_session_upload eng s)) (\<lambda>r.
           case r of
             Inl _ \<Rightarrow> ok_act cleaned
           | Inr _ \<Rightarrow>
               bind_act (on_store (delete_session (en_store eng) (us_id s))) (\<lambda>_.
               ok_act (cleaned + 1))))"

text \<open>One listed file: the bytes go first, then the announcement, then the record; a failure keeps the file.\<close>

definition sweep_file :: "('s, 't, 'v, 'o, 'l) fs_engine \<Rightarrow> i64 \<Rightarrow> (string \<Rightarrow> i64) \<Rightarrow> file_record \<Rightarrow> nat \<Rightarrow> (('s, 'o, 'l) fs_world, fs_error, nat) act" where
  "sweep_file eng now ts f cleaned =
     bind_act (try_act (on_store (get_ref_info (en_store eng) (fr_id f)))) (\<lambda>r.
     case r of
       Inl _ \<Rightarrow> ok_act cleaned
     | Inr info \<Rightarrow>
         if ri_count info \<noteq> 0 then ok_act cleaned
         else
           let age = (case ri_orphan_since info of None \<Rightarrow> fr_created_at f | Some t \<Rightarrow> t) in
           if wrap_i64 (now - age) \<le> TTL_SECS then ok_act cleaned
           else
             bind_act (try_act (on_s3 (s3_delete_object (en_s3 eng) (en_bucket eng) (fr_s3_key f)))) (\<lambda>r.
             case r of
               Inl _ \<Rightarrow> ok_act cleaned
             | Inr _ \<Rightarrow>
                 bind_act (try_act (announce eng (ts (fr_id f)) (FileDelete (fr_id f)))) (\<lambda>r.
                 case r of
                   Inl _ \<Rightarrow> ok_act cleaned
                 | Inr _ \<Rightarrow>
                     bind_act (on_store (delete_file_record (en_store eng) (fr_id f))) (\<lambda>_.
                     ok_act (cleaned + 1)))))"

text \<open>One listed object key.\<close>

definition sweep_key :: "('s, 't, 'v, 'o, 'l) fs_engine \<Rightarrow> i64 \<Rightarrow> string set \<Rightarrow> listed_key \<Rightarrow> nat \<Rightarrow> (('s, 'o, 'l) fs_world, fs_error, nat) act" where
  "sweep_key eng now live entry cleaned =
     (if lk_key entry \<in> live \<or> wrap_i64 (now - lk_last_modified entry) \<le> TTL_SECS then ok_act cleaned
      else
        bind_act (try_act (on_s3 (s3_delete_object (en_s3 eng) (en_bucket eng) (lk_key entry)))) (\<lambda>r.
        case r of Inl _ \<Rightarrow> ok_act cleaned | Inr _ \<Rightarrow> ok_act (cleaned + 1)))"

definition live_keys :: "upload_session list \<Rightarrow> file_record list \<Rightarrow> string set" where
  "live_keys sessions files = set (map us_s3_key sessions) \<union> set (map fr_s3_key files)"

definition sweep_bytes :: "('s, 't, 'v, 'o, 'l) fs_engine \<Rightarrow> i64 \<Rightarrow> upload_session record_scan \<Rightarrow> file_record record_scan \<Rightarrow> nat \<Rightarrow>
    (('s, 'o, 'l) fs_world, fs_error, nat) act" where
  "sweep_bytes eng now sessions files cleaned =
     (if 0 < length (rs_undecodable sessions) + length (rs_undecodable files) then ok_act cleaned
      else
        bind_act (try_act (on_s3 (s3_list_keys (en_s3 eng) (en_bucket eng) FILE_BYTES_PREFIX))) (\<lambda>r.
        for_act (case r of Inl _ \<Rightarrow> [] | Inr keys \<Rightarrow> keys)
          (sweep_key eng now (live_keys (rs_records sessions) (rs_records files))) cleaned))"

definition sweep_once :: "('s, 't, 'v, 'o, 'l) fs_engine \<Rightarrow> ('s, store_error, nat) act \<Rightarrow> i64 \<Rightarrow> (string \<Rightarrow> i64) \<Rightarrow>
    (('s, 'o, 'l) fs_world, fs_error, nat) act" where
  "sweep_once eng gc_orphans now ts =
     bind_act (on_store (list_sessions (en_store eng))) (\<lambda>sessions.
     bind_act (on_store (list_files (en_store eng))) (\<lambda>files.
     bind_act (for_act (rs_records sessions) (sweep_session eng now) 0) (\<lambda>cleaned.
     bind_act (for_act (rs_records files) (sweep_file eng now ts) cleaned) (\<lambda>cleaned.
     bind_act (try_act (on_store (fs_call (en_store eng) gc_orphans))) (\<lambda>_.
     sweep_bytes eng now sessions files cleaned)))))"

section \<open>Rules\<close>

lemma session_keys_refs: "refs_key f \<notin> set (session_keys i x)"
proof -
  have "staged_key i n \<noteq> refs_key f" "multipart_key u \<noteq> refs_key f" for n u
    by (auto simp: staged_key_def multipart_key_def refs_key_def files_prefix_def)
  then show ?thesis by (auto simp: session_keys_def split: option.splits dest: sym)
qed

text \<open>
  What a sweep may have done to the metadata and the feed: it only removes, no file that has references, and no file unannounced.
\<close>

definition swept :: "'v fs_codec \<Rightarrow> (string \<rightharpoonup> 'v) \<Rightarrow> wal_op list \<Rightarrow> (string \<rightharpoonup> 'v) \<Rightarrow> wal_op list \<Rightarrow> bool" where
  "swept cod m l m' l' \<longleftrightarrow> (\<forall>k. m' k = None \<or> m' k = m k) \<and> (\<exists>ops. l' = l @ ops \<and>
     (\<forall>j. ref_count cod m j \<noteq> 0 \<longrightarrow> FileDelete j \<notin> set ops \<and> m' (file_key j) = m (file_key j) \<and> m' (refs_key j) = m (refs_key j)) \<and>
     (\<forall>j. m (file_key j) \<noteq> None \<longrightarrow> m' (file_key j) = None \<longrightarrow> FileDelete j \<in> set ops))"

text \<open>
  What it may have done to the bytes: an object that changed is gone, and it was that of an expired session of a single part, of
  a file with no references, or of no session and no file at all.
\<close>

definition stored_file :: "'v fs_codec \<Rightarrow> (string \<rightharpoonup> 'v) \<Rightarrow> file_record \<Rightarrow> bool" where
  "stored_file cod m f \<longleftrightarrow> (\<exists>k v. m k = Some v \<and> prefix files_prefix k \<and> suffix file_meta_suffix k \<and> dec_file cod v = Inr f)"

definition stored_session :: "'v fs_codec \<Rightarrow> (string \<rightharpoonup> 'v) \<Rightarrow> upload_session \<Rightarrow> bool" where
  "stored_session cod m s \<longleftrightarrow> (\<exists>k v. m k = Some v \<and> prefix ''fs:uploads:'' k \<and> suffix '':meta'' k \<and> dec_session cod v = Inr s)"

definition expired_single :: "'v fs_codec \<Rightarrow> i64 \<Rightarrow> (string \<rightharpoonup> 'v) \<Rightarrow> string \<Rightarrow> bool" where
  "expired_single cod now m k \<longleftrightarrow> (\<exists>i s. sess cod m i = Some s \<and> is_expired s now TTL_SECS \<and> us_s3_upload_id s = None \<and> us_s3_key s = k)"

definition sweepable :: "'v fs_codec \<Rightarrow> i64 \<Rightarrow> (string \<rightharpoonup> 'v) \<Rightarrow> string \<Rightarrow> bool" where
  "sweepable cod now m k \<longleftrightarrow> expired_single cod now m k \<or>
     (\<exists>f. stored_file cod m f \<and> ref_count cod m (fr_id f) = 0 \<and> fr_s3_key f = k) \<or>
     (\<forall>f. stored_file cod m f \<longrightarrow> fr_s3_key f \<noteq> k) \<and> (\<forall>s. stored_session cod m s \<longrightarrow> us_s3_key s \<noteq> k)"

definition swept_bytes :: "'v fs_codec \<Rightarrow> (string \<Rightarrow> string) \<Rightarrow> i64 \<Rightarrow> (string \<rightharpoonup> 'v) \<Rightarrow> (string \<rightharpoonup> bytes) \<Rightarrow> (string \<rightharpoonup> bytes) \<Rightarrow> bool" where
  "swept_bytes cod at_key now m b b' \<longleftrightarrow> (\<forall>p. b' p \<noteq> b p \<longrightarrow> b' p = None \<and> (\<exists>k. p = at_key k \<and> sweepable cod now m k))"

lemma swept_bytes_refl [simp]: "swept_bytes cod at_key now m b b"
  by (simp add: swept_bytes_def)

lemma swept_bytes_delete:
  "swept_bytes cod at_key now m b b1 \<Longrightarrow> sweepable cod now m k \<Longrightarrow> swept_bytes cod at_key now m b (b1(at_key k := None))"
  by (auto simp: swept_bytes_def)

lemma stored_file_frec: "frec cod m j = Some rec \<Longrightarrow> stored_file cod m rec"
proof -
  assume "frec cod m j = Some rec"
  then obtain v where "m (file_key j) = Some v" "dec_file cod v = Inr rec"
    by (cases "m (file_key j)") (auto simp: frec_def value_at_def split: sum.splits)
  moreover have "prefix files_prefix (file_key j)" "suffix file_meta_suffix (file_key j)"
    by (simp_all add: file_key_def suffix_def)
  ultimately show ?thesis unfolding stored_file_def by blast
qed

text \<open>The bytes an orphan pass removes: listed, past the time to live, and of no row that was listed.\<close>

definition only_orphans :: "(string \<Rightarrow> string) \<Rightarrow> i64 \<Rightarrow> string set \<Rightarrow> listed_key list \<Rightarrow> (string \<rightharpoonup> bytes) \<Rightarrow> (string \<rightharpoonup> bytes) \<Rightarrow> bool" where
  "only_orphans at_key now live entries b b' \<longleftrightarrow> (\<forall>p. b' p \<noteq> b p \<longrightarrow> b' p = None \<and>
     (\<exists>x \<in> set entries. p = at_key (lk_key x) \<and> lk_key x \<notin> live \<and> TTL_SECS < wrap_i64 (now - lk_last_modified x)))"

text \<open>The listing an orphan pass works from: none when the call fails.\<close>

definition byte_listing :: "('s, 't, 'v, 'o, 'l) fs_engine \<Rightarrow> ('s, 'o, 'l) fs_world \<Rightarrow> listed_key list" where
  "byte_listing eng w = (case fst (s3_list_keys (en_s3 eng) (en_bucket eng) FILE_BYTES_PREFIX (fw_s3 w)) of Inl _ \<Rightarrow> [] | Inr keys \<Rightarrow> keys)"

context engine_over
begin

lemma e_list_sessions:
  assumes "at w m b l"
    and "\<And>rs w'. at w' m b l \<Longrightarrow> scanned (dec_session cod) ''fs:uploads:'' '':meta'' m rs \<Longrightarrow> Q (Inr rs) w'"
    and "\<And>e w'. at w' m b l \<Longrightarrow> Q (Inl e) w'"
  shows "wp (on_store (list_sessions (en_store eng))) Q w"
  unfolding wp_on_store
  by (rule wp_list_sessions) (simp_all add: assms(2-) at_store [OF assms(1)] at_held [OF assms(1)])

lemma e_list_files:
  assumes "at w m b l"
    and "\<And>rs w'. at w' m b l \<Longrightarrow> scanned (dec_file cod) files_prefix file_meta_suffix m rs \<Longrightarrow> Q (Inr rs) w'"
    and "\<And>e w'. at w' m b l \<Longrightarrow> Q (Inl e) w'"
  shows "wp (on_store (list_files (en_store eng))) Q w"
  unfolding wp_on_store
  by (rule wp_list_files) (simp_all add: assms(2-) at_store [OF assms(1)] at_held [OF assms(1)])

text \<open>Aborting a session touches the bytes of a single-part session only.\<close>

lemma e_abort:
  assumes "at w m b l"
    and ok: "\<And>b' w'. at w' m b' l \<Longrightarrow> b' = b \<and> us_s3_upload_id s \<noteq> None \<or>
        us_s3_upload_id s = None \<and> b' = b(loc (en_bucket eng) (us_s3_key s) := None) \<Longrightarrow> Q (Inr ()) w'"
    and err: "\<And>e b' w'. at w' m b' l \<Longrightarrow> b' = b \<or> us_s3_upload_id s = None \<and> b' = b(loc (en_bucket eng) (us_s3_key s) := None) \<Longrightarrow> Q (Inl e) w'"
  shows "wp (abort_session_upload eng s) Q w"
proof (cases "us_s3_upload_id s")
  case None
  then show ?thesis unfolding abort_session_upload_def None option.case
    by (intro e_delete_object [OF assms(1)]) (auto intro: ok err simp: None)
next
  case (Some u)
  have keep: "at w' m b l \<Longrightarrow> Q r w'" for r w'
    using ok err Some by (cases r) auto
  have abort: "wp (bind_act (try_act (on_s3 (s3_abort_multipart_upload (en_s3 eng) (en_bucket eng) (us_s3_key s) u))) abort_result) Q w'"
    if "at w' m b l" for w'
    by (simp, rule e_bytes_keep [OF that abort_keeps]) (auto intro: keep simp: abort_result_def split: sum.splits fs_error.splits)
  have "wp (bind_act (ensure_multipart eng u) (\<lambda>_. bind_act (try_act (on_s3 (s3_abort_multipart_upload (en_s3 eng) (en_bucket eng) (us_s3_key s) u)))
      abort_result)) Q w'" if "at w' m b l" for w'
    unfolding wp_bind [of "ensure_multipart _ _"]
    by (rule e_ensure [OF that], unfold sum.case) (erule abort, erule keep)
  then show ?thesis
    unfolding abort_session_upload_def Some option.case load_multipart_def wp_bind [of "on_store _"]
    by (intro e_load [OF assms(1)]) (auto simp del: wp_bind intro: keep)
qed

lemma swept_refl [simp]: "swept cod m l m l"
  by (simp add: swept_def)

lemma swept_session: "swept cod m l m' l' \<Longrightarrow> swept cod m l (without (set (session_keys i x)) m') l'"
  unfolding swept_def without_def using session_keys_rows(2) session_keys_refs by auto

lemma swept_ref_count: "swept cod m l m' l' \<Longrightarrow> ref_count cod m j \<noteq> 0 \<Longrightarrow> ref_count cod m' j \<noteq> 0"
  by (auto simp: swept_def ref_count_def value_at_def)

lemma swept_sess: "swept cod m l m' l' \<Longrightarrow> m' (session_key i) = Some v \<Longrightarrow> dec_session cod v = Inr s \<Longrightarrow> sess cod m i = Some s"
  by (auto simp: swept_def sess_def value_at_def dest!: spec [of _ "session_key i"])

lemma swept_announce:
  assumes "swept cod m l m' l'" and "ref_count cod m' i = 0"
  shows "swept cod m l m' (l' @ [FileDelete i])" "swept cod m l (without (file_keys i) m') (l' @ [FileDelete i])"
proof -
  have i: "ref_count cod m i = 0" using swept_ref_count [OF assms(1)] assms(2) by blast
  obtain ops where ops: "l' = l @ ops" "\<forall>k. m' k = None \<or> m' k = m k"
    "\<forall>j. ref_count cod m j \<noteq> 0 \<longrightarrow> FileDelete j \<notin> set ops \<and> m' (file_key j) = m (file_key j) \<and> m' (refs_key j) = m (refs_key j)"
    "\<forall>j. m (file_key j) \<noteq> None \<longrightarrow> m' (file_key j) = None \<longrightarrow> FileDelete j \<in> set ops"
    using assms(1) unfolding swept_def by blast
  show "swept cod m l m' (l' @ [FileDelete i])" "swept cod m l (without (file_keys i) m') (l' @ [FileDelete i])"
    unfolding swept_def without_def file_keys_def
    using ops i by (auto intro!: exI [of _ "ops @ [FileDelete i]"])
qed

text \<open>The state of a sweep that started at \<open>m\<close>, \<open>b\<close>, \<open>l\<close>.\<close>

definition sweeping :: "i64 \<Rightarrow> (string \<rightharpoonup> 'v) \<Rightarrow> (string \<rightharpoonup> bytes) \<Rightarrow> wal_op list \<Rightarrow> (string \<rightharpoonup> 'v) \<Rightarrow> (string \<rightharpoonup> bytes) \<Rightarrow> wal_op list \<Rightarrow> bool" where
  "sweeping now m b l m' b' l' \<longleftrightarrow> swept cod m l m' l' \<and> swept_bytes cod (loc (en_bucket eng)) now m b b'"

lemma e_sweep_session:
  assumes "at w m1 b1 l1" and sw: "sweeping now m b l m1 b1 l1"
    and fin: "\<And>r m' b' w'. at w' m' b' l1 \<Longrightarrow> sweeping now m b l m' b' l1 \<Longrightarrow> Q r w'"
  shows "wp (sweep_session eng now listed n) Q w"
proof -
  have gone: "sweeping now m b l (without (set (session_keys i x)) m1) b' l1" if "sweeping now m b l m1 b' l1" for i x b'
    using that swept_session by (simp add: sweeping_def)
  have del: "wp (bind_act (on_store (delete_session (en_store eng) i)) (\<lambda>_. ok_act (Suc n))) Q w'"
    if "at w' m1 b' l1" "sweeping now m b l m1 b' l1" for w' b' i
    unfolding wp_bind by (rule e_delete_session [OF that(1) refl]) (auto intro: fin that gone [OF that(2)])
  have "wp (bind_act (try_act (abort_session_upload eng s)) (\<lambda>r. case r of Inl _ \<Rightarrow> ok_act n
      | Inr _ \<Rightarrow> bind_act (on_store (delete_session (en_store eng) (us_id s))) (\<lambda>_. ok_act (Suc n)))) Q w'"
    if w': "at w' m1 b1 l1" and s: "m1 (session_key i) = Some v" "dec_session cod v = Inr s" "is_expired s now TTL_SECS" for w' i v s
  proof -
    have cut: "sweeping now m b l m1 b' l1" if "b' = b1 \<or> us_s3_upload_id s = None \<and> b' = b1(loc (en_bucket eng) (us_s3_key s) := None)" for b'
    proof (cases "us_s3_upload_id s = None")
      case True
      have "sess cod m i = Some s" using swept_sess s(1,2) sw by (auto simp: sweeping_def)
      then have "sweepable cod now m (us_s3_key s)" using s(3) True by (auto simp: sweepable_def expired_single_def)
      then show ?thesis using that sw by (auto simp: sweeping_def intro: swept_bytes_delete)
    qed (use that sw in auto)
    show ?thesis
      unfolding wp_bind [of "try_act _"] wp_try
      by (rule e_abort [OF w']) (auto simp del: wp_bind intro: del fin cut)
  qed
  then show ?thesis
    unfolding sweep_session_def wp_bind [of "on_store _"] get_session_def
    by (intro e_load [OF assms(1)]) (auto simp del: wp_bind intro: fin sw)
qed

lemma e_sweep_file:
  assumes "at w m1 b1 l1" and sw: "sweeping now m b l m1 b1 l1" and len: "length l1 < capacity" and stored: "stored_file cod m f"
    and fin: "\<And>r m' b' l' w'. at w' m' b' l' \<Longrightarrow> sweeping now m b l m' b' l' \<Longrightarrow> length l' \<le> Suc (length l1) \<Longrightarrow> Q r w'"
  shows "wp (sweep_file eng now ts f n) Q w"
proof -
  let ?i = "fr_id f"
  have keep: "at w' m1 b' l1 \<Longrightarrow> sweeping now m b l m1 b' l1 \<Longrightarrow> Q r w'" for w' b' r using fin [of w' m1 b' l1 r] by simp
  have said: "sweeping now m b l m1 b' (l1 @ [FileDelete ?i])" "sweeping now m b l (without (file_keys ?i) m1) b' (l1 @ [FileDelete ?i])"
    if "sweeping now m b l m1 b' l1" "ref_count cod m1 ?i = 0" for b'
    using that swept_announce by (auto simp: sweeping_def)
  have row: "wp (bind_act (on_store (delete_file_record (en_store eng) ?i)) (\<lambda>_. ok_act (n + 1))) Q w'"
    if "at w' m1 b' (l1 @ [FileDelete ?i])" "sweeping now m b l m1 b' l1" "ref_count cod m1 ?i = 0" for w' b'
    unfolding wp_bind
    by (rule e_delete_file [OF that(1)]) (use said [OF that(2,3)] in \<open>auto intro: fin\<close>)
  have ann: "wp (bind_act (try_act (announce eng (ts ?i) (FileDelete ?i))) (\<lambda>r. case r of Inl _ \<Rightarrow> ok_act n
      | Inr _ \<Rightarrow> bind_act (on_store (delete_file_record (en_store eng) ?i)) (\<lambda>_. ok_act (n + 1)))) Q w'"
    if "at w' m1 b' l1" "sweeping now m b l m1 b' l1" "ref_count cod m1 ?i = 0" for w' b'
    unfolding wp_bind [of "try_act _"] wp_try
  proof (rule e_announce [OF that(1) len], unfold sum.case)
    fix w2
    assume w2: "at w2 m1 b' (l1 @ [FileDelete ?i])"
    show "wp (bind_act (on_store (delete_file_record (en_store eng) ?i)) (\<lambda>_. ok_act (n + 1))) Q w2" by (rule row [OF w2 that(2,3)])
    show "wp (ok_act n) Q w2" using fin [OF w2 said(1) [OF that(2,3)]] by simp
  qed (simp add: keep that(2))
  have "wp (bind_act (try_act (on_s3 (s3_delete_object (en_s3 eng) (en_bucket eng) (fr_s3_key f)))) (\<lambda>r. case r of Inl _ \<Rightarrow> ok_act n
      | Inr _ \<Rightarrow> bind_act (try_act (announce eng (ts ?i) (FileDelete ?i))) (\<lambda>r. case r of Inl _ \<Rightarrow> ok_act n
      | Inr _ \<Rightarrow> bind_act (on_store (delete_file_record (en_store eng) ?i)) (\<lambda>_. ok_act (n + 1))))) Q w'"
    if "at w' m1 b1 l1" "ref_count cod m1 ?i = 0" for w'
  proof -
    have "ref_count cod m ?i = 0" using swept_ref_count sw that(2) unfolding sweeping_def by metis
    then have "sweepable cod now m (fr_s3_key f)" using stored by (auto simp: sweepable_def)
    then have cut: "sweeping now m b l m1 (b1(loc (en_bucket eng) (fr_s3_key f) := None)) l1"
      using sw by (auto simp: sweeping_def intro: swept_bytes_delete)
    show ?thesis
      unfolding wp_bind [of "try_act (on_s3 _)"] wp_try
      by (rule e_delete_object [OF that(1)], unfold sum.case)
         (auto simp del: wp_bind One_nat_def add_Suc_right Nat.add_0_right intro: ann [OF _ _ that(2)] keep cut sw)
  qed
  then show ?thesis
    unfolding sweep_file_def wp_bind [of "try_act (on_store _)"] wp_try Let_def
    by (intro e_ref_count [OF assms(1)], unfold sum.case)
       (auto simp del: wp_bind One_nat_def add_Suc_right Nat.add_0_right intro: keep sw)
qed

lemma e_sweep_key:
  assumes "at w m b1 l" and sw: "only_orphans (loc (en_bucket eng)) now live entries b b1" and x: "x \<in> set entries"
    and fin: "\<And>n' b' w'. at w' m b' l \<Longrightarrow> only_orphans (loc (en_bucket eng)) now live entries b b' \<Longrightarrow> Q (Inr n') w'"
  shows "wp (sweep_key eng now live x n) Q w"
proof (cases "lk_key x \<in> live \<or> wrap_i64 (now - lk_last_modified x) \<le> TTL_SECS")
  case True
  then show ?thesis using fin [OF assms(1) sw] by (simp add: sweep_key_def)
next
  case False
  have "only_orphans (loc (en_bucket eng)) now live entries b (b1(loc (en_bucket eng) (lk_key x) := None))"
    using False sw x by (auto simp: only_orphans_def)
  then show ?thesis
    using False by (simp add: sweep_key_def, intro e_delete_object [OF assms(1)]) (auto intro: fin sw)
qed

lemma e_sweep_keys:
  assumes "at w m b l" and fin: "\<And>n' b' w'. at w' m b' l \<Longrightarrow> only_orphans (loc (en_bucket eng)) now live entries b b' \<Longrightarrow> Q (Inr n') w'"
  shows "wp (for_act entries (sweep_key eng now live) n) Q w"
proof (rule wp_for [where I = "\<lambda>rest _ w'. set rest \<subseteq> set entries \<and> (\<exists>b'. at w' m b' l \<and> only_orphans (loc (en_bucket eng)) now live entries b b')"], goal_cases)
  case 1
  show ?case using assms(1) by (auto simp: only_orphans_def)
next
  case (2 x rest acc w')
  then show ?case by (elim conjE exE) (rule e_sweep_key, auto)
next
  case (3 acc w')
  then show ?case using fin by auto
qed

lemma e_sweep_bytes:
  assumes "at w m b l"
    and fin: "\<And>n' b' w'. at w' m b' l \<Longrightarrow>
        only_orphans (loc (en_bucket eng)) now (live_keys (rs_records ss) (rs_records fs)) (byte_listing eng w) b b' \<Longrightarrow>
        (b' \<noteq> b \<longrightarrow> rs_undecodable ss = [] \<and> rs_undecodable fs = []) \<Longrightarrow> Q (Inr n') w'"
  shows "wp (sweep_bytes eng now ss fs n) Q w"
proof (cases "rs_undecodable ss = [] \<and> rs_undecodable fs = []")
  case False
  have "only_orphans (loc (en_bucket eng)) now (live_keys (rs_records ss) (rs_records fs)) (byte_listing eng w) b b"
    by (simp add: only_orphans_def)
  then show ?thesis using False fin [OF assms(1)] by (auto simp: sweep_bytes_def)
next
  case True
  then show ?thesis
    by (simp add: sweep_bytes_def, intro e_bytes_result [OF assms(1) list_keeps])
       (auto intro!: e_sweep_keys fin simp: byte_listing_def)
qed

text \<open>The orphan pass within a sweep: what it lists as live covers every stored row.\<close>

lemma sweeping_orphans:
  assumes "sweeping now m b l m1 b1 l1" and "only_orphans (loc (en_bucket eng)) now (live_keys (rs_records ss) (rs_records fs)) entries b1 b2"
    and "scanned (dec_session cod) ''fs:uploads:'' '':meta'' m ss" and "scanned (dec_file cod) files_prefix file_meta_suffix m fs"
  shows "sweeping now m b l m1 b2 l1"
proof -
  have live: "sweepable cod now m k" if "k \<notin> live_keys (rs_records ss) (rs_records fs)" for k
  proof -
    have "stored_file cod m f \<Longrightarrow> f \<in> set (rs_records fs)" "stored_session cod m s \<Longrightarrow> s \<in> set (rs_records ss)" for f s
      using assms(3,4) unfolding scanned_def stored_file_def stored_session_def by blast+
    then show ?thesis using that unfolding sweepable_def live_keys_def by fastforce
  qed
  have "b2 p = None \<and> (\<exists>k. p = loc (en_bucket eng) k \<and> sweepable cod now m k)" if "b2 p \<noteq> b p" for p
  proof (cases "b2 p = b1 p")
    case True
    then show ?thesis using that assms(1) by (auto simp: sweeping_def swept_bytes_def)
  next
    case False
    then show ?thesis using assms(2) live by (auto simp: only_orphans_def)
  qed
  then show ?thesis using assms(1) by (simp add: sweeping_def swept_bytes_def)
qed

lemma e_sweep_once:
  assumes "at w m b l" and gc: "\<forall>s. kvabs (snd (gc s)) = kvabs s"
    and room: "finite (dom m)" "length l + card (dom m) < capacity"
  shows "wp (sweep_once eng gc now ts) (\<lambda>r w'. \<exists>m' b' l'. at w' m' b' l' \<and> sweeping now m b l m' b' l') w" (is "wp _ ?Q w")
proof -
  have start: "sweeping now m b l m b l" by (simp add: sweeping_def)
  have err: "at w' m' b' l' \<Longrightarrow> sweeping now m b l m' b' l' \<Longrightarrow> ?Q r w'" for w' m' b' l' r by blast
  have gc': "kvabs s' = kvabs s" if "gc s = (r, s')" for s r s' using gc that by (metis snd_conv)
  have gcs: "wp (on_store (fs_call (en_store eng) gc)) (\<lambda>_ w2. at w2 m' b' l') w'" if "at w' m' b' l'" for w' m' b' l'
    unfolding wp_on_store wp_fs_call
    by (rule wpI) (use that gc' in \<open>auto simp: at_def held_def split: sum.splits\<close>)
  have tail: "wp (bind_act (try_act (on_store (fs_call (en_store eng) gc))) (\<lambda>_. sweep_bytes eng now ss fs n)) ?Q w'"
    if "scanned (dec_session cod) ''fs:uploads:'' '':meta'' m ss" "scanned (dec_file cod) files_prefix file_meta_suffix m fs"
      "at w' m' b' l'" "sweeping now m b l m' b' l'" for w' m' b' l' n ss fs
    unfolding wp_bind wp_try
    by (rule wp_mono [OF gcs [OF that(3)]]) (auto intro!: e_sweep_bytes intro: err sweeping_orphans [OF that(4) _ that(1,2)])
  have files: "wp (bind_act (for_act fs (sweep_file eng now ts) n) g) ?Q w'"
    if "at w' m' b' l" "sweeping now m b l m' b' l" "length fs \<le> card (dom m)" "\<forall>f \<in> set fs. stored_file cod m f"
      and g: "\<And>k w2 m2 b2 l2. at w2 m2 b2 l2 \<Longrightarrow> sweeping now m b l m2 b2 l2 \<Longrightarrow> wp (g k) ?Q w2" for w' m' b' fs n g
    unfolding wp_bind
  proof (rule wp_for [where I = "\<lambda>rest _ w2. (\<forall>f \<in> set rest. stored_file cod m f) \<and>
      (\<exists>m2 b2 l2. at w2 m2 b2 l2 \<and> sweeping now m b l m2 b2 l2 \<and> length l2 + length rest < capacity)"], goal_cases)
    case 1
    show ?case using that(1-4) room(2) by force
  next
    case (2 f rest acc w2)
    then obtain m2 b2 l2 where a: "at w2 m2 b2 l2" "sweeping now m b l m2 b2 l2" "length l2 + length (f # rest) < capacity"
      and f: "stored_file cod m f" "\<forall>f \<in> set rest. stored_file cod m f" by auto
    then have "length l2 < capacity" by simp
    then show ?case
      by (rule e_sweep_file [OF a(1,2) _ f(1)]) (use a(3) f(2) in \<open>force split: sum.split\<close>)
  next
    case (3 acc w2)
    then show ?case using g by auto
  qed
  have sessions: "wp (bind_act (for_act ss (sweep_session eng now) n) g) ?Q w'"
    if "at w' m b l" and g: "\<And>k w2 m2 b2. at w2 m2 b2 l \<Longrightarrow> sweeping now m b l m2 b2 l \<Longrightarrow> wp (g k) ?Q w2" for w' ss n g
    unfolding wp_bind
  proof (rule wp_for [where I = "\<lambda>_ _ w2. \<exists>m2 b2. at w2 m2 b2 l \<and> sweeping now m b l m2 b2 l"], goal_cases)
    case 1
    show ?case using that(1) start by blast
  next
    case (2 f rest acc w2)
    then show ?case by (elim exE conjE) (rule e_sweep_session, auto split: sum.split)
  qed (use g in auto)
  have body: "wp (bind_act (for_act (rs_records rs1) (sweep_session eng now) 0) (\<lambda>n. bind_act (for_act (rs_records rs2) (sweep_file eng now ts) n) (\<lambda>n.
      bind_act (try_act (on_store (fs_call (en_store eng) gc))) (\<lambda>_. sweep_bytes eng now rs1 rs2 n)))) ?Q w'"
    if w': "at w' m b l" and scans: "scanned (dec_session cod) ''fs:uploads:'' '':meta'' m rs1" "scanned (dec_file cod) files_prefix file_meta_suffix m rs2"
    for w' rs1 rs2
  proof (rule sessions [OF w'], rule files)
    show "length (rs_records rs2) \<le> card (dom m)" using scans(2) room(1) by (simp add: scanned_def)
    show "\<forall>f \<in> set (rs_records rs2). stored_file cod m f" using scans(2) by (auto simp: scanned_def stored_file_def)
  qed (assumption | rule tail [OF scans])+
  show ?thesis
    unfolding sweep_once_def wp_bind [of "on_store _"]
    by (rule e_list_sessions [OF assms(1)], unfold sum.case, rule e_list_files, assumption, unfold sum.case, rule body)
       (use start err in blast)+
qed

text \<open>A session that outlived the commit of its single-part file shares the key of the bytes with the file.\<close>

lemma e_sweep_committed:
  assumes "at w m b l" and s: "sess cod m i = Some s" and id: "us_id s = i" "us_id listed = i" and one: "us_s3_upload_id s = None"
    and old: "is_expired s now TTL_SECS" and rec: "frec cod m i = Some rec" "fr_s3_key rec = us_s3_key s"
  shows "wp (sweep_session eng now listed n)
     (\<lambda>r w'. r = Inr (Suc n) \<longrightarrow> (\<exists>m' b'. at w' m' b' l \<and> frec cod m' i = Some rec \<and> b' (loc (en_bucket eng) (fr_s3_key rec)) = None)) w"
    (is "wp _ ?Q w")
proof -
  have del: "wp (bind_act (on_store (delete_session (en_store eng) i)) (\<lambda>_. ok_act (Suc n))) ?Q w'"
    if "at w' m b' l" "b' (loc (en_bucket eng) (fr_s3_key rec)) = None" for w' b'
  proof -
    have kept: "frec cod (without (set (session_keys i x)) m) i = Some rec" for x
      using rec(1) by (simp add: frec_without)
    show ?thesis
      unfolding wp_bind
      by (rule e_delete_session [OF that(1) refl], unfold sum.case wp_ok) ((use that(2) kept in blast) | simp)+
  qed
  have "wp (bind_act (try_act (abort_session_upload eng s)) (\<lambda>r. case r of Inl _ \<Rightarrow> ok_act n
      | Inr _ \<Rightarrow> bind_act (on_store (delete_session (en_store eng) i)) (\<lambda>_. ok_act (Suc n)))) ?Q w'" if "at w' m b l" for w'
    unfolding wp_bind [of "try_act _"] wp_try
    by (rule e_abort [OF that], unfold sum.case) (auto simp del: wp_bind simp: one rec(2) intro: del [unfolded rec(2)])
  then show ?thesis
    unfolding sweep_session_def get_session_def wp_bind [of "on_store _"] id(2)
    by (intro e_load [OF assms(1)]) (use s old id(1) in \<open>auto simp del: wp_bind simp: sess_def value_at_def\<close>)
qed

end

section \<open>Properties\<close>

text \<open>
  C22: a sweep never touches a file that some row references, and never removes a file behind the back of the replicas. Whatever
  fails in it, it only removes metadata; the record and the count of every file whose count is not zero are what they were, no deletion of it is
  announced, and every file whose record is gone has its deletion in the feed. An object that changed is gone, and it was that of an
  expired session of a single part, of a stored file with count zero, or of no stored session or file. So where distinct keys are distinct
  objects, the bytes of a file whose count is not zero are what they were, unless an expired session of a single part or a file with count zero has the same key.
\<close>

theorem sweep_spares_referenced:
  assumes "engine_over eng kvabs txov good objs loc sink feed finv capacity" and "good (fw_s3 w)" and "finv (fw_feed w)"
    and "\<forall>s. kvabs (snd (gc s)) = kvabs s"
    and "finite (dom (meta kvabs w))" and "length (feed (fw_feed w)) + card (dom (meta kvabs w)) < capacity"
    and "inj (loc (en_bucket eng))" and "sweep_once eng gc now ts w = (r, w')"
    and "cod = fe_cod (en_store eng)" and "m = meta kvabs w"
  shows "swept cod m (feed (fw_feed w)) (meta kvabs w') (feed (fw_feed w')) \<and>
    swept_bytes cod (loc (en_bucket eng)) now m (objs (fw_s3 w)) (objs (fw_s3 w')) \<and>
    (\<forall>j rec. ref_count cod m j \<noteq> 0 \<longrightarrow> frec cod m j = Some rec \<longrightarrow> \<not> expired_single cod now m (fr_s3_key rec) \<longrightarrow>
       (\<forall>f. stored_file cod m f \<longrightarrow> fr_s3_key f = fr_s3_key rec \<longrightarrow> ref_count cod m (fr_id f) \<noteq> 0) \<longrightarrow>
       objs (fw_s3 w') (loc (en_bucket eng) (fr_s3_key rec)) = objs (fw_s3 w) (loc (en_bucket eng) (fr_s3_key rec)))"
proof -
  note at = engine_over.atI [OF assms(1-3)]
  from wpD [OF engine_over.e_sweep_once [OF assms(1) at assms(4-6)] assms(8)]
  obtain m' b' l' where end_at: "engine_over.at kvabs good objs feed finv w' m' b' l'"
    and sw: "engine_over.sweeping eng loc now (meta kvabs w) (objs (fw_s3 w)) (feed (fw_feed w)) m' b' l'" by blast
  have state: "swept cod m (feed (fw_feed w)) (meta kvabs w') (feed (fw_feed w'))"
    and bytes: "swept_bytes cod (loc (en_bucket eng)) now m (objs (fw_s3 w)) (objs (fw_s3 w'))"
    using sw engine_over.atD [OF assms(1) end_at] by (simp_all add: engine_over.sweeping_def [OF assms(1)] assms(9,10))
  have safe: "\<not> sweepable cod now m (fr_s3_key rec)"
    if "frec cod m j = Some rec" "\<not> expired_single cod now m (fr_s3_key rec)"
      "\<forall>f. stored_file cod m f \<longrightarrow> fr_s3_key f = fr_s3_key rec \<longrightarrow> ref_count cod m (fr_id f) \<noteq> 0" for j rec
    using that stored_file_frec [OF that(1)] unfolding sweepable_def by blast
  have same: "objs (fw_s3 w') (loc (en_bucket eng) k) = objs (fw_s3 w) (loc (en_bucket eng) k)" if "\<not> sweepable cod now m k" for k
    using bytes that injD [OF assms(7)] unfolding swept_bytes_def by blast
  show ?thesis
  proof (intro conjI allI impI)
    fix j rec
    assume "frec cod m j = Some rec" "\<not> expired_single cod now m (fr_s3_key rec)"
      "\<forall>f. stored_file cod m f \<longrightarrow> fr_s3_key f = fr_s3_key rec \<longrightarrow> ref_count cod m (fr_id f) \<noteq> 0"
    then show "objs (fw_s3 w') (loc (en_bucket eng) (fr_s3_key rec)) = objs (fw_s3 w) (loc (en_bucket eng) (fr_s3_key rec))"
      by (rule same [OF safe])
  qed (rule state, rule bytes)
qed

theorem sweep_spares_referenced_witness:
  "\<exists>w'. snd (sweep_once demo_engine (\<lambda>s. (Inr 0, s)) 900000 (\<lambda>_. 900000) (demo_world attached_file)) = w' \<and>
     meta mem_abs w' (file_key ''u1'') = Some (FFile demo_file) \<and>
     map_of (mb_objs (oc_backend (fw_s3 w'))) (fr_s3_key demo_file) = map_of (mb_objs (oc_backend (fw_s3 (demo_world attached_file)))) (fr_s3_key demo_file)"
proof -
  let ?m = "map_of attached_file" and ?cod = plain_fs_codec
  obtain r w' where run: "sweep_once demo_engine (\<lambda>s. (Inr 0, s)) 900000 (\<lambda>_. 900000) (demo_world attached_file) = (r, w')" by force
  have "finite (dom ?m)" and "card (dom ?m) \<le> length attached_file"
    by (simp_all add: finite_dom_map_of dom_map_of_conv_image_fst) (metis card_image_le card_length le_trans finite_set length_map list.set_map)
  moreover have "length attached_file < wal_capacity" by (simp add: attached_file_def one_file_def wal_capacity_def)
  moreover have "inj (client_path mem_ce (en_bucket demo_engine))" by (simp add: inj_def client_path_def mem_be_def)
  ultimately have "swept ?cod ?m [] (meta mem_abs w') (stored_feed tag_codec (mem_abs (wal_store (fw_feed w'))))"
    and bytes: "\<forall>j rec. ref_count ?cod ?m j \<noteq> 0 \<longrightarrow> frec ?cod ?m j = Some rec \<longrightarrow> \<not> expired_single ?cod 900000 ?m (fr_s3_key rec) \<longrightarrow>
       (\<forall>f. stored_file ?cod ?m f \<longrightarrow> fr_s3_key f = fr_s3_key rec \<longrightarrow> ref_count ?cod ?m (fr_id f) \<noteq> 0) \<longrightarrow>
       map_of (mb_objs (oc_backend (fw_s3 w'))) (client_path mem_ce ''b'' (fr_s3_key rec)) =
       map_of (mb_objs (oc_backend (fw_s3 (demo_world attached_file)))) (client_path mem_ce ''b'' (fr_s3_key rec))"
    using sweep_spares_referenced [OF memeng.engine_over_axioms _ _ _ _ _ _ run refl refl] by simp_all
  moreover have count: "ref_count ?cod ?m ''u1'' \<noteq> 0"
    by (simp add: ref_count_def value_at_def attached_file_def plain_fs_codec_def)
  ultimately have "meta mem_abs w' (file_key ''u1'') = ?m (file_key ''u1'')" by (auto simp: swept_def)
  moreover have "frec ?cod ?m ''u1'' = Some demo_file"
    by (simp add: attached_file_def one_file_def frec_def value_at_def plain_fs_codec_def)
  moreover have "\<not> expired_single ?cod 900000 ?m k" for k
    by (auto simp: expired_single_def sess_def value_at_def attached_file_def one_file_def plain_fs_codec_def split: if_splits)
  moreover have "f = demo_file" if "stored_file ?cod ?m f" for f
    using that by (auto simp: stored_file_def attached_file_def one_file_def plain_fs_codec_def split: if_splits fs_val.splits)
  moreover have "fr_id demo_file = ''u1''" by (simp add: demo_file_def)
  ultimately have "map_of (mb_objs (oc_backend (fw_s3 w'))) (client_path mem_ce ''b'' (fr_s3_key demo_file)) =
       map_of (mb_objs (oc_backend (fw_s3 (demo_world attached_file)))) (client_path mem_ce ''b'' (fr_s3_key demo_file))"
    and "meta mem_abs w' (file_key ''u1'') = ?m (file_key ''u1'')"
    using bytes count by metis+
  moreover have "?m (file_key ''u1'') = Some (FFile demo_file)" by (simp add: attached_file_def one_file_def)
  ultimately show ?thesis using run by (simp add: client_path_def mem_be_def)
qed

text \<open>
  The orphan pass removes bytes of nobody. Whatever fails, it changes no metadata and no feed entry, an object that
  changes is deleted, and it is one that the backend listed, past the time to live, under a key of no session
  and no file record of the scans; a scan with a row that does not decode deletes nothing. The bytes of
  every scanned row survive where distinct keys are distinct objects.
\<close>

theorem sweep_bytes_only_orphans:
  assumes "engine_over eng kvabs txov good objs loc sink feed finv capacity" and "good (fw_s3 w)" and "finv (fw_feed w)"
    and "inj (loc (en_bucket eng))" and "sweep_bytes eng now ss fs n w = (r, w')"
  shows "meta kvabs w' = meta kvabs w \<and> feed (fw_feed w') = feed (fw_feed w) \<and>
    only_orphans (loc (en_bucket eng)) now (live_keys (rs_records ss) (rs_records fs)) (byte_listing eng w) (objs (fw_s3 w)) (objs (fw_s3 w')) \<and>
    (rs_undecodable ss \<noteq> [] \<or> rs_undecodable fs \<noteq> [] \<longrightarrow> objs (fw_s3 w') = objs (fw_s3 w)) \<and>
    (\<forall>k \<in> live_keys (rs_records ss) (rs_records fs). objs (fw_s3 w') (loc (en_bucket eng) k) = objs (fw_s3 w) (loc (en_bucket eng) k))"
proof -
  note at = engine_over.atI [OF assms(1-3)]
  have "wp (sweep_bytes eng now ss fs n) (\<lambda>r w'. \<exists>b'. engine_over.at kvabs good objs feed finv w' (meta kvabs w) b' (feed (fw_feed w)) \<and>
      only_orphans (loc (en_bucket eng)) now (live_keys (rs_records ss) (rs_records fs)) (byte_listing eng w) (objs (fw_s3 w)) b' \<and>
      (b' \<noteq> objs (fw_s3 w) \<longrightarrow> rs_undecodable ss = [] \<and> rs_undecodable fs = [])) w"
    by (rule engine_over.e_sweep_bytes [OF assms(1) at]) blast
  from wpD [OF this assms(5)] obtain b' where b': "engine_over.at kvabs good objs feed finv w' (meta kvabs w) b' (feed (fw_feed w))"
    and orph: "only_orphans (loc (en_bucket eng)) now (live_keys (rs_records ss) (rs_records fs)) (byte_listing eng w) (objs (fw_s3 w)) b'"
    and u: "b' \<noteq> objs (fw_s3 w) \<longrightarrow> rs_undecodable ss = [] \<and> rs_undecodable fs = []" by blast
  have "b' (loc (en_bucket eng) k) = objs (fw_s3 w) (loc (en_bucket eng) k)" if "k \<in> live_keys (rs_records ss) (rs_records fs)" for k
    using orph that assms(4) by (auto simp: only_orphans_def inj_eq)
  with engine_over.atD [OF assms(1) b'] orph u show ?thesis by auto
qed

definition stray_world :: "(fs_val mem_kv, mem_backend object_client, wal_val mem_kv wal) fs_world" where
  "stray_world = (demo_world full_upload)\<lparr>fw_s3 :=
     \<lparr>oc_backend = \<lparr>mb_objs = [(''files/u9'', ''stray''), (''files/u1'', ''hello'')], mb_uploads = [], mb_next = 0\<rparr>, oc_states = []\<rparr>\<rparr>"

theorem sweep_bytes_only_orphans_witness:
  "\<exists>w'. sweep_bytes demo_engine 90000 \<lparr>rs_records = [one_part], rs_undecodable = []\<rparr> \<lparr>rs_records = [], rs_undecodable = []\<rparr> 0 stray_world = (Inr 1, w') \<and>
     map_of (mb_objs (oc_backend (fw_s3 w'))) ''files/u9'' = None \<and> map_of (mb_objs (oc_backend (fw_s3 w'))) ''files/u1'' = Some ''hello''"
proof -
  obtain w' where run: "sweep_bytes demo_engine 90000 \<lparr>rs_records = [one_part], rs_undecodable = []\<rparr> \<lparr>rs_records = [], rs_undecodable = []\<rparr> 0 stray_world = (Inr 1, w')"
    and gone: "map_of (mb_objs (oc_backend (fw_s3 w'))) ''files/u9'' = None"
    by (simp add: sweep_bytes_def sweep_key_def live_keys_def object_store_client_def client_list_keys_def client_path_def mem_be_def
        on_backend_def on_s3_def stray_world_def one_part_def FILE_BYTES_PREFIX_def TTL_SECS_def client_delete_object_def wrap_i64_def act_defs demo_world_def)
  have "inj (client_path mem_ce (en_bucket demo_engine))" by (simp add: inj_def client_path_def mem_be_def)
  moreover have "membytes.states_ok (fw_s3 stray_world)" by (simp add: membytes.states_ok_def stray_world_def)
  moreover have "wal_inv tag_codec (mem_abs (wal_store (fw_feed stray_world)))" by (simp add: stray_world_def)
  ultimately have "\<forall>k \<in> live_keys [one_part] []. map_of (mb_objs (oc_backend (fw_s3 w'))) (client_path mem_ce ''b'' k)
      = map_of (mb_objs (oc_backend (fw_s3 stray_world))) (client_path mem_ce ''b'' k)"
    using sweep_bytes_only_orphans [OF memeng.engine_over_axioms _ _ _ run] by simp
  then show ?thesis using run gone by (simp add: live_keys_def one_part_def client_path_def mem_be_def stray_world_def)
qed

text \<open>
  C23: a completion that committed the file record and then failed to announce it leaves its session; once that
  session expires, a sweep that has no more parts to abort deletes the bytes of the committed file and then the session, while the
  file record stays, so every later download of the file fails.
\<close>

theorem expired_session_drops_committed_bytes:
  assumes "engine_over eng kvabs txov good objs loc sink feed finv capacity" and "good (fw_s3 w)" and "finv (fw_feed w)"
    and "sess (fe_cod (en_store eng)) (meta kvabs w) i = Some s" and "us_id s = i" and "us_s3_upload_id s = None"
    and "is_expired s now TTL_SECS" and "frec (fe_cod (en_store eng)) (meta kvabs w) i = Some rec" and "fr_s3_key rec = us_s3_key s"
    and "sweep_session eng now s n w = (Inr (Suc n), w')"
  shows "frec (fe_cod (en_store eng)) (meta kvabs w') i = Some rec \<and> objs (fw_s3 w') (loc (en_bucket eng) (fr_s3_key rec)) = None"
proof -
  note at = engine_over.atI [OF assms(1-3)]
  from wpD [OF engine_over.e_sweep_committed [OF assms(1) at assms(4,5,5,6-9)] assms(10)]
  obtain m' b' where "engine_over.at kvabs good objs feed finv w' m' b' (feed (fw_feed w))"
    "frec (fe_cod (en_store eng)) m' i = Some rec" "b' (loc (en_bucket eng) (fr_s3_key rec)) = None" by blast
  with engine_over.atD [OF assms(1) this(1)] show ?thesis by simp
qed

definition fenced_world :: "(fs_val mem_kv, mem_backend object_client, wal_val mem_kv wal) fs_world" where
  "fenced_world = (demo_world full_upload)\<lparr>fw_feed := empty_wal\<lparr>wal_store := \<lparr>mem_data = [], mem_fenced = True\<rparr>\<rparr>\<rparr>"

theorem expired_session_drops_committed_bytes_witness:
  "\<exists>e w1 w2 rec. complete_upload demo_engine 7 7 ''u1'' named ''ann'' fenced_world = (Inl e, w1) \<and>
     sweep_session demo_engine 90000 one_part 0 w1 = (Inr 1, w2) \<and>
     frec plain_fs_codec (meta mem_abs w2) ''u1'' = Some rec \<and> map_of (mb_objs (oc_backend (fw_s3 w2))) (fr_s3_key rec) = None"
proof -
  obtain e w1 w2 where run1: "complete_upload demo_engine 7 7 ''u1'' named ''ann'' fenced_world = (Inl e, w1)"
    and run2: "sweep_session demo_engine 90000 one_part 0 w1 = (Inr 1, w2)"
    and data: "meta mem_abs w1 = map_of [(file_key ''u1'', FFile demo_file), (session_key ''u1'', FSession one_part)]"
    and s3: "fw_s3 w1 = fw_s3 (demo_world [])" and feed: "wal_store (fw_feed w1) = wal_store (fw_feed fenced_world)"
    by (simp add: complete_upload_def assemble_def engine_run_defs full_upload_def one_part_def named_def fenced_world_def demo_file_def
        sweep_session_def is_expired_def TTL_SECS_def wrap_i64_def abort_session_upload_def object_store_client_def client_delete_object_def
        client_path_def mem_be_def meta_def mem_abs_def)
  have "membytes.states_ok (fw_s3 w1)" by (simp add: s3)
  moreover have "wal_inv tag_codec (mem_abs (wal_store (fw_feed w1)))"
    by (simp add: feed fenced_world_def empty_wal_def wal_inv_def mem_abs_def stored_head_def range_seqs_def)
  moreover have "sess plain_fs_codec (meta mem_abs w1) ''u1'' = Some one_part" "frec plain_fs_codec (meta mem_abs w1) ''u1'' = Some demo_file"
    by (simp_all add: data sess_def frec_def value_at_def plain_fs_codec_def)
  ultimately have "frec plain_fs_codec (meta mem_abs w2) ''u1'' = Some demo_file \<and>
      map_of (mb_objs (oc_backend (fw_s3 w2))) (client_path mem_ce ''b'' (fr_s3_key demo_file)) = None"
    using expired_session_drops_committed_bytes [OF memeng.engine_over_axioms, of w1 "''u1''" one_part 90000 demo_file 0 w2] run2
    by (simp add: one_part_def demo_file_def is_expired_def TTL_SECS_def wrap_i64_def)
  then show ?thesis using run1 run2 by (auto simp: client_path_def mem_be_def)
qed

end
