(* ===== verification/Policy_Adapter.thy ===== *)
theory Policy_Adapter
  imports Policy_Types
begin

text \<open>
  The storage adapter of \<^verbatim>\<open>src/src/policy/adapter.rs\<close>: one key and one value per policy rule, over the key-value
  store. The JSON form of a rule is the codec; the in-memory model that a load fills is an argument, the function that
  adds a rule to it. The boxing of a store error in an error of the policy library happens at the caller.
\<close>

section \<open>Keys and validation\<close>

record 'v rule_codec =
  enc_rule :: "string list \<Rightarrow> string + 'v"
  dec_rule :: "'v \<Rightarrow> string + string list"

definition hex_digit :: "nat \<Rightarrow> char" where
  "hex_digit n = (if n < 10 then char_of (48 + n) else char_of (87 + n))"

definition hex_encode :: "string \<Rightarrow> string" where
  "hex_encode s = concat (map (\<lambda>c. [hex_digit (of_char c div 16), hex_digit (of_char c mod 16)]) s)"

definition unit_sep :: char where
  "unit_sep = CHR 0x1F"

fun join_with :: "char \<Rightarrow> string list \<Rightarrow> string" where
  "join_with c [] = []"
| "join_with c [x] = x"
| "join_with c (x # y # r) = x @ c # join_with c (y # r)"

definition rule_key :: "string \<Rightarrow> string \<Rightarrow> string list \<Rightarrow> string" where
  "rule_key sec ptype rule = sec @ '':'' @ ptype @ '':'' @ hex_encode (join_with unit_sep rule)"

text \<open>\<open>splitn(3, SEP)\<close>, where the three parts are there.\<close>

definition split_key :: "string \<Rightarrow> (string \<times> string \<times> string) option" where
  "split_key key = Option.bind (split_once CHR '':'' key) (\<lambda>(sec, r). Option.bind (split_once CHR '':'' r) (\<lambda>(ptype, hash). Some (sec, ptype, hash)))"

definition is_ascii_hexdigit :: "char \<Rightarrow> bool" where
  "is_ascii_hexdigit c = (let n = of_char c :: nat in 48 \<le> n \<and> n \<le> 57 \<or> 65 \<le> n \<and> n \<le> 70 \<or> 97 \<le> n \<and> n \<le> 102)"

definition expected_arity :: "string \<Rightarrow> nat" where
  "expected_arity sec = (if sec = ''p'' then 3 else 2)"

definition validate_rule :: "'v rule_codec \<Rightarrow> string \<Rightarrow> 'v \<Rightarrow> store_error + unit" where
  "validate_rule cod key val =
     (case split_key key of
        None \<Rightarrow> Inl (SOther (''policy keys must be '' @ [CHR 0x27] @ ''{sec}:ptype:{hash}'' @ [CHR 0x27] @ '', got '' @ [CHR 0x27] @ key @ [CHR 0x27]))
      | Some (sec, ptype, hash) \<Rightarrow>
          if sec \<noteq> ''p'' \<and> sec \<noteq> ''g'' then Inl (SOther (''unknown policy section '' @ [CHR 0x27] @ sec @ [CHR 0x27] @ '' in key '' @ [CHR 0x27] @ key @ [CHR 0x27]))
          else if ptype = [] then Inl (SOther (''empty policy type segment in key '' @ [CHR 0x27] @ key @ [CHR 0x27]))
          else if hash = [] \<or> \<not> list_all is_ascii_hexdigit hash then Inl (SOther (''non-hex rule hash segment in key '' @ [CHR 0x27] @ key @ [CHR 0x27]))
          else
            (case dec_rule cod val of
               Inl e \<Rightarrow> Inl (SOther (''policy rule must be a JSON string array: '' @ e))
             | Inr rule \<Rightarrow>
                 if length rule \<noteq> expected_arity sec
                 then Inl (SOther ([CHR 0x27] @ sec @ [CHR 0x27] @ '' rules need '' @ decimal (expected_arity sec) @ '' fields, got '' @ decimal (length rule)))
                 else Inr ()))"

definition encode_rule :: "'v rule_codec \<Rightarrow> string \<Rightarrow> string \<Rightarrow> string list \<Rightarrow> ('s, store_error, string \<times> 'v) act" where
  "encode_rule cod sec ptype rule =
     (let key = rule_key sec ptype rule in
      bind_act (map_err_act SOther (res_act (enc_rule cod rule))) (\<lambda>val.
      bind_act (res_act (validate_rule cod key val)) (\<lambda>_.
      ok_act (key, val))))"

section \<open>Operations\<close>

definition load_all :: "('s, 't, 'v) kv_ops \<Rightarrow> 'v rule_codec \<Rightarrow> ('s, store_error, (string \<times> string \<times> string list) list) act" where
  "load_all ops cod =
     bind_act (kv_gets ops None None None) (\<lambda>kvs.
     for_act kvs (\<lambda>(key, val) out.
       case split_key key of
         None \<Rightarrow> ok_act out
       | Some (sec, ptype, _) \<Rightarrow>
           bind_act (map_err_act SOther (res_act (dec_rule cod val))) (\<lambda>rule.
           ok_act (out @ [(sec, ptype, rule)]))) [])"

definition clear_all :: "('s, 't, 'v) kv_ops \<Rightarrow> ('s, store_error, unit) act" where
  "clear_all ops =
     bind_act (kv_gets ops None None None) (\<lambda>kvs.
     bind_act (kv_begin ops) (\<lambda>tx.
     bind_act (for_act (map fst kvs) (\<lambda>key tx. tx_delete ops tx key) tx) (\<lambda>tx.
     tx_commit ops tx)))"

definition rule_matches :: "string list \<Rightarrow> nat \<Rightarrow> string list \<Rightarrow> bool" where
  "rule_matches rule field_index field_values =
     list_all (\<lambda>(i, v). field_index + i < length rule \<and> rule ! (field_index + i) = v) (List.enumerate 0 field_values)"

definition load_policy :: "('s, 't, 'v) kv_ops \<Rightarrow> 'v rule_codec \<Rightarrow> (string \<Rightarrow> string \<Rightarrow> string list \<Rightarrow> 'm \<Rightarrow> 'm) \<Rightarrow> 'm \<Rightarrow> ('s, store_error, 'm) act" where
  "load_policy ops cod add m =
     bind_act (load_all ops cod) (\<lambda>rs.
     ok_act (foldl (\<lambda>m (sec, ptype, rule). add sec ptype rule m) m rs))"

definition load_filtered_policy :: "('s, 't, 'v) kv_ops \<Rightarrow> 'v rule_codec \<Rightarrow> (string \<Rightarrow> string \<Rightarrow> string list \<Rightarrow> 'm \<Rightarrow> 'm) \<Rightarrow>
    string list \<Rightarrow> string list \<Rightarrow> 'm \<Rightarrow> ('s, store_error, 'm) act" where
  "load_filtered_policy ops cod add fp fg m =
     bind_act (load_all ops cod) (\<lambda>rs.
     ok_act (foldl (\<lambda>m (sec, ptype, rule).
       let wanted = (if sec = ''p'' then Some fp else if sec = ''g'' then Some fg else None) in
       if (case wanted of None \<Rightarrow> False | Some field_values \<Rightarrow> \<not> rule_matches rule 0 field_values) then m
       else add sec ptype rule m) m rs))"

definition encode_all :: "'v rule_codec \<Rightarrow> (string \<times> string \<times> string list) list \<Rightarrow> ('s, store_error, (string \<times> 'v) list) act" where
  "encode_all cod entries =
     for_act entries (\<lambda>(sec, ptype, rule) out. bind_act (encode_rule cod sec ptype rule) (\<lambda>kv. ok_act (out @ [kv]))) []"

definition save_policy :: "('s, 't, 'v) kv_ops \<Rightarrow> 'v rule_codec \<Rightarrow> (string \<times> string \<times> string list) list \<Rightarrow> ('s, store_error, unit) act" where
  "save_policy ops cod entries =
     bind_act (clear_all ops) (\<lambda>_.
     bind_act (encode_all cod entries) (\<lambda>encoded.
     bind_act (kv_begin ops) (\<lambda>tx.
     bind_act (for_act encoded (\<lambda>(key, val) tx. tx_set ops tx key val) tx) (\<lambda>tx.
     tx_commit ops tx))))"

text \<open>The transaction's \<open>has\<close>: whether a read through it finds the key.\<close>

definition tx_has :: "('s, 't, 'v) kv_ops \<Rightarrow> 't \<Rightarrow> string \<Rightarrow> ('s, store_error, bool) act" where
  "tx_has ops tx key = bind_act (tx_get ops tx key) (\<lambda>v. ok_act (v \<noteq> None))"

text \<open>The loops that stage a batch stop at the first rule that refuses: the result is the transaction so far and whether it goes on.\<close>

fun stage_adds :: "('s, 't, 'v) kv_ops \<Rightarrow> (string \<times> 'v) list \<Rightarrow> 't \<Rightarrow> ('s, store_error, 't \<times> bool) act" where
  "stage_adds ops [] tx = ok_act (tx, True)"
| "stage_adds ops ((key, val) # r) tx =
     bind_act (tx_has ops tx key) (\<lambda>there.
     if there then ok_act (tx, False)
     else bind_act (tx_set ops tx key val) (stage_adds ops r))"

fun stage_removes :: "('s, 't, 'v) kv_ops \<Rightarrow> string list \<Rightarrow> 't \<Rightarrow> ('s, store_error, 't \<times> bool) act" where
  "stage_removes ops [] tx = ok_act (tx, True)"
| "stage_removes ops (key # r) tx =
     bind_act (tx_has ops tx key) (\<lambda>there.
     if there then bind_act (tx_delete ops tx key) (stage_removes ops r)
     else ok_act (tx, False))"

definition commit_or_rollback :: "('s, 't, 'v) kv_ops \<Rightarrow> 't \<times> bool \<Rightarrow> ('s, store_error, bool) act" where
  "commit_or_rollback ops staged =
     (case staged of (tx, going) \<Rightarrow>
        if going then bind_act (tx_commit ops tx) (\<lambda>_. ok_act True)
        else bind_act (tx_rollback ops tx) (\<lambda>_. ok_act False))"

definition add_policies :: "('s, 't, 'v) kv_ops \<Rightarrow> 'v rule_codec \<Rightarrow> string \<Rightarrow> string \<Rightarrow> string list list \<Rightarrow> ('s, store_error, bool) act" where
  "add_policies ops cod sec ptype rules =
     bind_act (encode_all cod (map (\<lambda>rule. (sec, ptype, rule)) rules)) (\<lambda>encoded.
     bind_act (kv_begin ops) (\<lambda>tx.
     bind_act (stage_adds ops encoded tx) (commit_or_rollback ops)))"

definition remove_policies :: "('s, 't, 'v) kv_ops \<Rightarrow> string \<Rightarrow> string \<Rightarrow> string list list \<Rightarrow> ('s, store_error, bool) act" where
  "remove_policies ops sec ptype rules =
     bind_act (kv_begin ops) (\<lambda>tx.
     bind_act (stage_removes ops (map (rule_key sec ptype) rules) tx) (commit_or_rollback ops))"

definition remove_filtered_policy :: "('s, 't, 'v) kv_ops \<Rightarrow> 'v rule_codec \<Rightarrow> string \<Rightarrow> string \<Rightarrow> nat \<Rightarrow> string list \<Rightarrow> ('s, store_error, bool) act" where
  "remove_filtered_policy ops cod sec ptype field_index field_values =
     bind_act (kv_gets ops None None None) (\<lambda>kvs.
     bind_act (for_act kvs (\<lambda>(key, val) out.
       if \<not> prefix (sec @ '':'' @ ptype @ '':'') key then ok_act out
       else
         bind_act (map_err_act SOther (res_act (dec_rule cod val))) (\<lambda>rule.
         ok_act (if rule_matches rule field_index field_values then out @ [key] else out))) []) (\<lambda>to_delete.
     bind_act (kv_begin ops) (\<lambda>tx.
     bind_act (for_act to_delete (\<lambda>key tx. tx_delete ops tx key) tx) (\<lambda>tx.
     bind_act (tx_commit ops tx) (\<lambda>_.
     ok_act (to_delete \<noteq> []))))))"

section \<open>Keys are faithful\<close>

text \<open>The digits of a character by its bits, for evaluation.\<close>

fun hex_nibble :: "bool \<Rightarrow> bool \<Rightarrow> bool \<Rightarrow> bool \<Rightarrow> char" where
  "hex_nibble False False False False = CHR ''0''"
| "hex_nibble False False False True = CHR ''1''"
| "hex_nibble False False True False = CHR ''2''"
| "hex_nibble False False True True = CHR ''3''"
| "hex_nibble False True False False = CHR ''4''"
| "hex_nibble False True False True = CHR ''5''"
| "hex_nibble False True True False = CHR ''6''"
| "hex_nibble False True True True = CHR ''7''"
| "hex_nibble True False False False = CHR ''8''"
| "hex_nibble True False False True = CHR ''9''"
| "hex_nibble True False True False = CHR ''a''"
| "hex_nibble True False True True = CHR ''b''"
| "hex_nibble True True False False = CHR ''c''"
| "hex_nibble True True False True = CHR ''d''"
| "hex_nibble True True True False = CHR ''e''"
| "hex_nibble True True True True = CHR ''f''"

lemma hex_nibble_digit: "hex_nibble b3 b2 b1 b0 = hex_digit (of_bool b0 + 2 * of_bool b1 + 4 * of_bool b2 + 8 * of_bool b3)"
  by (cases b3; cases b2; cases b1; cases b0; simp only:; code_simp)

lemma char_nibbles:
  "of_char (Char b0 b1 b2 b3 b4 b5 b6 b7) div 16 = (of_bool b4 + 2 * of_bool b5 + 4 * of_bool b6 + 8 * of_bool b7 :: nat)"
  "of_char (Char b0 b1 b2 b3 b4 b5 b6 b7) mod 16 = (of_bool b0 + 2 * of_bool b1 + 4 * of_bool b2 + 8 * of_bool b3 :: nat)"
  by (cases b0; cases b1; cases b2; cases b3; simp; linarith)+

lemma hex_encode_code [code]:
  "hex_encode [] = []"
  "hex_encode (Char b0 b1 b2 b3 b4 b5 b6 b7 # s) = hex_nibble b7 b6 b5 b4 # hex_nibble b3 b2 b1 b0 # hex_encode s"
  by (simp_all only: hex_encode_def hex_nibble_digit char_nibbles list.map concat.simps append.simps)

lemma hex_digit_eq: "m < 16 \<Longrightarrow> n < 16 \<Longrightarrow> hex_digit m = hex_digit n \<longleftrightarrow> m = n"
proof (rule iffI)
  assume b: "m < 16" "n < 16" and eq: "hex_digit m = hex_digit n"
  have code: "of_char (hex_digit k) = (if k < 10 then 48 + k else 87 + k)" if "k < 16" for k
    using that by (simp add: hex_digit_def)
  from code [OF b(1)] have "(if m < 10 then 48 + m else 87 + m) = (if n < 10 then 48 + n else 87 + n)"
    unfolding eq code [OF b(2)] by (rule sym)
  then show "m = n" using b by (auto split: if_splits)
qed simp

lemma hex_digit_hex: "n < 16 \<Longrightarrow> is_ascii_hexdigit (hex_digit n)"
  by (auto simp: hex_digit_def is_ascii_hexdigit_def Let_def)

lemma char_halves: "of_char c div 16 < (16 :: nat)" "of_char c mod 16 < (16 :: nat)"
  using nat_of_char_less_256 [of c] by (simp_all add: less_mult_imp_div_less)

lemma hex_encode_Cons: "hex_encode (c # s) = hex_digit (of_char c div 16) # hex_digit (of_char c mod 16) # hex_encode s"
  by (simp add: hex_encode_def)

lemma hex_encode_Nil [simp]: "hex_encode [] = []"
  by (simp add: hex_encode_def)

lemma hex_encode_inj: "hex_encode s = hex_encode t \<longleftrightarrow> s = t"
proof (induction s arbitrary: t)
  case Nil
  then show ?case by (cases t) (simp_all add: hex_encode_Cons)
next
  case (Cons c s)
  have "of_char c = (of_char d :: nat)" if "of_char c div 16 = (of_char d div 16 :: nat)" "of_char c mod 16 = (of_char d mod 16 :: nat)" for d :: char
    using that by (metis div_mult_mod_eq)
  then show ?case
    using Cons by (cases t) (auto simp: hex_encode_Cons hex_digit_eq char_halves)
qed

lemma hex_encode_hex: "list_all is_ascii_hexdigit (hex_encode s)"
  by (induction s) (simp_all add: hex_encode_Cons hex_digit_hex char_halves)

lemma hex_encode_length: "length (hex_encode s) = 2 * length s"
  by (induction s) (simp_all add: hex_encode_Cons)

lemma colon_not_hex: "list_all is_ascii_hexdigit s \<Longrightarrow> CHR '':'' \<notin> set s"
  by (auto simp: list_all_iff is_ascii_hexdigit_def)

lemma join_with_inj:
  assumes "join_with c xs = join_with c ys" and "xs \<noteq> []" and "ys \<noteq> []" and "\<forall>x \<in> set xs \<union> set ys. c \<notin> set x"
  shows "xs = ys"
  using assms
proof (induction c xs arbitrary: ys rule: join_with.induct)
  case (2 c x)
  then show ?case
  proof (cases ys)
    case (Cons y r)
    with 2 show ?thesis by (cases r) auto
  qed simp
next
  case (3 c x x' r)
  obtain y y' t where ys: "ys = y # y' # t"
    using 3 by (cases ys; cases "tl ys") auto
  have "split_once c (x @ c # join_with c (x' # r)) = split_once c (y @ c # join_with c (y' # t))"
    using "3.prems"(1) by (simp add: ys)
  moreover have "c \<notin> set x" "c \<notin> set y" using "3.prems"(4) by (simp_all add: ys)
  ultimately have "x = y" and tails: "join_with c (x' # r) = join_with c (y' # t)"
    by (simp_all only: split_once_append not_False_eq_True option.inject prod.inject)
  then show ?case using "3.IH" [OF tails] "3.prems"(4) by (simp add: ys)
qed simp

definition shaped :: "string \<times> string \<times> string list \<Rightarrow> bool" where
  "shaped r = (case r of (sec, ptype, rule) \<Rightarrow>
     (sec = ''p'' \<and> length rule = 3 \<or> sec = ''g'' \<and> length rule = 2) \<and> ptype \<noteq> [] \<and> CHR '':'' \<notin> set ptype)"

definition clean_rule :: "string list \<Rightarrow> bool" where
  "clean_rule rule \<longleftrightarrow> (\<forall>x \<in> set rule. unit_sep \<notin> set x)"

definition key_of :: "string \<times> string \<times> string list \<Rightarrow> string" where
  "key_of r = (case r of (sec, ptype, rule) \<Rightarrow> rule_key sec ptype rule)"

lemma split_key_rule:
  "CHR '':'' \<notin> set sec \<Longrightarrow> CHR '':'' \<notin> set ptype \<Longrightarrow>
     split_key (rule_key sec ptype rule) = Some (sec, ptype, hex_encode (join_with unit_sep rule))"
  unfolding split_key_def rule_key_def by (simp only: split_colon not_False_eq_True bind.bind_lunit prod.case)

lemma shaped_secs: "shaped (sec, ptype, rule) \<Longrightarrow> CHR '':'' \<notin> set sec \<and> CHR '':'' \<notin> set ptype"
  by (auto simp: shaped_def)

lemma key_of_inj:
  assumes "shaped r" "clean_rule (snd (snd r))" "shaped r'" "clean_rule (snd (snd r'))" "key_of r = key_of r'"
  shows "r = r'"
proof -
  obtain sec pt rule sec' pt' rule' where r: "r = (sec, pt, rule)" "r' = (sec', pt', rule')" by (metis prod.exhaust)
  have "split_key (key_of r) = split_key (key_of r')" using assms(5) by simp
  then have "sec = sec'" "pt = pt'" and j: "join_with unit_sep rule = join_with unit_sep rule'"
    using assms(1,3) shaped_secs by (simp_all add: r key_of_def split_key_rule hex_encode_inj)
  moreover have "rule \<noteq> []" "rule' \<noteq> []" using assms(1,3) by (auto simp: r shaped_def)
  then have "rule = rule'" using join_with_inj [OF j] assms(2,4) by (auto simp: r clean_rule_def)
  ultimately show ?thesis by (simp add: r)
qed

lemma split_key_Some:
  assumes "split_key k = Some (sec, ptype, hash)"
  shows "k = sec @ '':'' @ ptype @ '':'' @ hash \<and> CHR '':'' \<notin> set sec \<and> CHR '':'' \<notin> set ptype"
  using assms by (auto simp: split_key_def bind_eq_Some_conv dest!: split_once_Some)

text \<open>Validation lets exactly the rules of the model's shape through.\<close>

lemma split_key_shape:
  assumes k: "split_key (rule_key sec ptype rule) = Some (sec', ptype', hash)" and hex: "list_all is_ascii_hexdigit hash"
  shows "sec' = sec \<and> ptype' = ptype \<and> CHR '':'' \<notin> set ptype"
proof -
  let ?n = "\<lambda>s. count_list s CHR '':''"
  note parts = split_key_Some [OF k]
  have "?n (rule_key sec ptype rule) = 2"
    using parts colon_not_hex [OF hex] by (simp add: count_list_0_iff)
  then have "CHR '':'' \<notin> set sec" "CHR '':'' \<notin> set ptype"
    using colon_not_hex [OF hex_encode_hex] by (simp_all add: rule_key_def count_list_0_iff)
  with k show ?thesis by (simp add: split_key_rule)
qed

lemma hash_not_empty: "2 \<le> length rule \<Longrightarrow> hex_encode (join_with unit_sep rule) \<noteq> []"
  by (cases rule; cases "tl rule"; cases "hd rule") (auto simp: hex_encode_Cons)

lemma validate_rule_iff:
  assumes "dec_rule cod v = Inr rule"
  shows "validate_rule cod (rule_key sec ptype rule) v = Inr () \<longleftrightarrow> shaped (sec, ptype, rule)"
proof
  assume ok: "validate_rule cod (rule_key sec ptype rule) v = Inr ()"
  then obtain sec' ptype' hash where k: "split_key (rule_key sec ptype rule) = Some (sec', ptype', hash)"
    by (auto simp: validate_rule_def split: option.splits)
  with ok have hex: "list_all is_ascii_hexdigit hash" by (auto simp: validate_rule_def split: if_splits)
  show "shaped (sec, ptype, rule)"
    using ok k split_key_shape [OF k hex] assms
    by (auto simp: validate_rule_def shaped_def expected_arity_def split: if_splits)
next
  assume s: "shaped (sec, ptype, rule)"
  then have "2 \<le> length rule" by (auto simp: shaped_def)
  with s show "validate_rule cod (rule_key sec ptype rule) v = Inr ()"
    using shaped_secs [OF s] hash_not_empty [of rule] assms hex_encode_hex
    by (simp add: validate_rule_def split_key_rule) (auto simp: shaped_def expected_arity_def)
qed

section \<open>The store as a set of rules\<close>

text \<open>The store holds exactly the rules of \<open>R\<close>, each under its key, all of the shape of the model.\<close>

definition holds_rules :: "'v rule_codec \<Rightarrow> (string \<rightharpoonup> 'v) \<Rightarrow> (string \<times> string \<times> string list) set \<Rightarrow> bool" where
  "holds_rules cod m R \<longleftrightarrow> dom m = key_of ` R \<and>
     (\<forall>r \<in> R. shaped r \<and> clean_rule (snd (snd r)) \<and> (\<exists>v. m (key_of r) = Some v \<and> dec_rule cod v = Inr (snd (snd r))))"

lemma holds_rules_empty [simp]: "holds_rules cod Map.empty {}"
  by (simp add: holds_rules_def)

lemma holds_rules_inj: "holds_rules cod m R \<Longrightarrow> r \<in> R \<Longrightarrow> shaped r' \<Longrightarrow> clean_rule (snd (snd r')) \<Longrightarrow> key_of r = key_of r' \<Longrightarrow> r = r'"
  by (intro key_of_inj) (auto simp: holds_rules_def)

lemma holds_rules_mem:
  assumes "holds_rules cod m R" and "shaped r" and "clean_rule (snd (snd r))"
  shows "m (key_of r) \<noteq> None \<longleftrightarrow> r \<in> R"
  using assms holds_rules_inj [OF assms(1) _ assms(2,3)] by (auto simp: holds_rules_def dom_def image_iff set_eq_iff)

lemma holds_rules_insert:
  assumes "holds_rules cod m R" and "shaped r" and "clean_rule (snd (snd r))" and "dec_rule cod v = Inr (snd (snd r))"
  shows "holds_rules cod (m(key_of r \<mapsto> v)) (insert r R)"
  using assms holds_rules_inj [OF assms(1) _ assms(2,3)] by (auto simp: holds_rules_def)

lemma holds_rules_delete:
  assumes "holds_rules cod m R" and "r \<in> R"
  shows "holds_rules cod (m(key_of r := None)) (R - {r})"
proof -
  have r: "shaped r" "clean_rule (snd (snd r))" using assms by (auto simp: holds_rules_def)
  show ?thesis using assms holds_rules_inj [OF assms(1) _ r] by (auto simp: holds_rules_def)
qed

lemma scan_all: "scan_of m None None kvs \<Longrightarrow> map_of kvs = m \<and> distinct (map fst kvs)"
  by (auto simp: scan_of_def below_range_def)

lemma holds_rules_without:
  assumes "holds_rules cod m R" and "D \<subseteq> R"
  shows "holds_rules cod (m |` (- key_of ` D)) (R - D)"
proof -
  have inj: "r = r'" if "r \<in> R" "r' \<in> R" "key_of r = key_of r'" for r r'
    using that assms(1) holds_rules_inj by (metis holds_rules_def)
  have "dom (m |` (- key_of ` D)) = key_of ` (R - D)"
    using assms inj by (auto simp: holds_rules_def) blast
  moreover have "(m |` (- key_of ` D)) (key_of r) = m (key_of r)" if "r \<in> R - D" for r
  proof -
    have "key_of r \<notin> key_of ` D" using that assms(2) inj by blast
    then show ?thesis by simp
  qed
  ultimately show ?thesis using assms by (auto simp: holds_rules_def)
qed

text \<open>The rule a stored pair stands for.\<close>

definition rule_at :: "'v rule_codec \<Rightarrow> string \<times> 'v \<Rightarrow> string \<times> string \<times> string list" where
  "rule_at cod kv = (case split_key (fst kv) of None \<Rightarrow> ([], [], []) | Some (sec, ptype, _) \<Rightarrow> (sec, ptype, projr (dec_rule cod (snd kv))))"

lemma rule_at_key:
  assumes "holds_rules cod m R" and "m k = Some v"
  shows "rule_at cod (k, v) \<in> R \<and> key_of (rule_at cod (k, v)) = k \<and> (\<exists>h. split_key k = Some (fst (rule_at cod (k, v)), fst (snd (rule_at cod (k, v))), h)) \<and>
     dec_rule cod v = Inr (snd (snd (rule_at cod (k, v))))"
proof -
  have "k \<in> key_of ` R" using assms by (auto simp: holds_rules_def)
  then obtain r where r: "r \<in> R" "k = key_of r" by blast
  obtain sec pt rule where [simp]: "r = (sec, pt, rule)" by (cases r)
  have "shaped r" and v: "dec_rule cod v = Inr rule" using assms r by (auto simp: holds_rules_def)
  then have "split_key k = Some (sec, pt, hex_encode (join_with unit_sep rule))"
    using shaped_secs by (simp add: r(2) key_of_def split_key_rule)
  then show ?thesis using r v by (simp add: rule_at_def)
qed

lemma rules_of_scan:
  assumes "holds_rules cod m R" and "scan_of m None None kvs"
  shows "set (map (rule_at cod) kvs) = R \<and> distinct (map (rule_at cod) kvs)"
proof -
  have m: "map_of kvs = m" and d: "distinct (map fst kvs)" using scan_all [OF assms(2)] by auto
  have kv: "m k = Some v \<longleftrightarrow> (k, v) \<in> set kvs" for k v using m d by (metis map_of_eq_Some_iff)
  have at: "rule_at cod x \<in> R \<and> key_of (rule_at cod x) = fst x" if "x \<in> set kvs" for x
    using rule_at_key [OF assms(1), of "fst x" "snd x"] kv [of "fst x" "snd x"] that by simp
  have "r \<in> rule_at cod ` set kvs" if rR: "r \<in> R" for r
  proof -
    obtain v where v: "m (key_of r) = Some v" using assms(1) rR by (auto simp: holds_rules_def)
    have "rule_at cod (key_of r, v) = r"
      using rule_at_key [OF assms(1) v] rR holds_rules_inj [OF assms(1)] assms(1) by (metis holds_rules_def)
    with v kv show ?thesis by (metis image_eqI)
  qed
  moreover have "map key_of (map (rule_at cod) kvs) = map fst kvs" using at by simp
  then have "distinct (map (rule_at cod) kvs)" using d by (metis distinct_map)
  ultimately show ?thesis using at by auto
qed

definition encoded_as :: "'v rule_codec \<Rightarrow> string \<times> string \<times> string list \<Rightarrow> string \<times> 'v \<Rightarrow> bool" where
  "encoded_as cod r kv \<longleftrightarrow> shaped r \<and> fst kv = key_of r \<and> dec_rule cod (snd kv) = Inr (snd (snd r))"

locale rule_store = kv_store ops kvabs txov for ops :: "('s, 't, 'v) kv_ops" and kvabs and txov +
  fixes cod :: "'v rule_codec"
  assumes dec_enc: "enc_rule cod rule = Inr v \<Longrightarrow> dec_rule cod v = Inr rule"
begin

lemma wp_encode_rule:
  assumes "\<And>kv. encoded_as cod (sec, ptype, rule) kv \<Longrightarrow> Q (Inr kv) s" and "\<And>e. Q (Inl e) s"
  shows "wp (encode_rule cod sec ptype rule) Q s"
proof (cases "enc_rule cod rule")
  case (Inl e)
  then show ?thesis using assms(2) by (simp add: encode_rule_def Let_def)
next
  case (Inr v)
  note dec = dec_enc [OF Inr]
  show ?thesis
    using assms validate_rule_iff [OF dec, of sec ptype]
    by (cases "validate_rule cod (rule_key sec ptype rule) v")
       (auto simp: encode_rule_def Let_def Inr encoded_as_def key_of_def dec)
qed

lemma wp_encode_all:
  assumes "\<And>kvs. list_all2 (encoded_as cod) entries kvs \<Longrightarrow> Q (Inr kvs) s" and "\<And>e. Q (Inl e) s"
  shows "wp (encode_all cod entries) Q s"
  unfolding encode_all_def
proof (rule wp_for [where I = "\<lambda>rest out s'. s' = s \<and> (\<exists>pre. entries = pre @ rest \<and> list_all2 (encoded_as cod) pre out)"], goal_cases)
  case (2 r rest out s')
  then obtain pre where p: "entries = pre @ r # rest" "list_all2 (encoded_as cod) pre out" "s' = s" by blast
  have "list_all2 (encoded_as cod) (pre @ [r]) (out @ [kv])" if "encoded_as cod r kv" for kv
    using p(2) that by (simp add: list_all2_appendI)
  then show ?case using p assms(2) by (cases r) (fastforce intro: wp_encode_rule)
qed (use assms in auto)

lemma wp_has:
  assumes "\<And>s'. kvabs s' = kvabs s \<Longrightarrow> Q (Inr (overlay (kvabs s) (txov t) k \<noteq> None)) s'" and "\<And>e s'. kvabs s' = kvabs s \<Longrightarrow> Q (Inl e) s'"
  shows "wp (tx_has ops t k) Q s"
  unfolding tx_has_def wp_bind by (rule wp_tget) (use assms in simp_all)

lemma wp_stage_adds:
  assumes "holds_rules cod (overlay (kvabs s) (txov t)) R" and "list_all2 (encoded_as cod) rs kvs" and "\<forall>r \<in> set rs. clean_rule (snd (snd r))"
    and "\<And>s' t'. kvabs s' = kvabs s \<Longrightarrow> holds_rules cod (overlay (kvabs s) (txov t')) (set rs \<union> R) \<Longrightarrow> distinct rs \<Longrightarrow> set rs \<inter> R = {} \<Longrightarrow> Q (Inr (t', True)) s'"
    and "\<And>s' t'. kvabs s' = kvabs s \<Longrightarrow> \<not> distinct rs \<or> set rs \<inter> R \<noteq> {} \<Longrightarrow> Q (Inr (t', False)) s'"
    and "\<And>e s'. kvabs s' = kvabs s \<Longrightarrow> Q (Inl e) s'"
  shows "wp (stage_adds ops kvs t) Q s"
  using assms
proof (induction rs arbitrary: kvs s t R)
  case Nil
  then show ?case by simp
next
  case (Cons r rs)
  from Cons.prems(2) obtain kv kvs' where kv: "kvs = kv # kvs'" "encoded_as cod r kv" "list_all2 (encoded_as cod) rs kvs'"
    by (auto simp: list_all2_Cons1)
  then obtain v where kvs: "kvs = (key_of r, v) # kvs'" "list_all2 (encoded_as cod) rs kvs'" "shaped r" "dec_rule cod v = Inr (snd (snd r))"
    by (cases kv) (auto simp: encoded_as_def)
  have cr: "clean_rule (snd (snd r))" using Cons.prems(3) by simp
  note there = holds_rules_mem [OF Cons.prems(1) kvs(3) cr]
  note ins = holds_rules_insert [OF Cons.prems(1) kvs(3) cr kvs(4)]
  have rest: "wp (stage_adds ops kvs' t') Q s'" if new: "r \<notin> R" and "kvabs s' = kvabs s" "txov t' = (txov t)(key_of r \<mapsto> Some v)" for s' t'
  proof (rule Cons.IH [where R = "insert r R"])
    show "holds_rules cod (overlay (kvabs s') (txov t')) (insert r R)" using ins that by simp
  qed (use kvs(2) Cons.prems that in auto)
  have step: "wp (if there then ok_act (t, False) else bind_act (tx_set ops t (key_of r) v) (stage_adds ops kvs')) Q s'"
    if "kvabs s' = kvabs s" "there = (r \<in> R)" for s' there
  proof (cases "r \<in> R")
    case True
    then show ?thesis using that Cons.prems(5) by simp
  next
    case False
    show ?thesis
      unfolding that(2) if_not_P [OF False] wp_bind
      by (rule wp_tset, unfold sum.case) (use that(1) rest [OF False] Cons.prems(6) in auto)
  qed
  show ?case
    unfolding kvs(1) stage_adds.simps wp_bind
    by (rule wp_has, unfold sum.case there) (use step Cons.prems(6) in auto)
qed

lemma wp_stage_removes:
  assumes "holds_rules cod (overlay (kvabs s) (txov t)) R" and "\<forall>r \<in> set rs. shaped r \<and> clean_rule (snd (snd r))"
    and "\<And>s' t'. kvabs s' = kvabs s \<Longrightarrow> holds_rules cod (overlay (kvabs s) (txov t')) (R - set rs) \<Longrightarrow> distinct rs \<Longrightarrow> set rs \<subseteq> R \<Longrightarrow> Q (Inr (t', True)) s'"
    and "\<And>s' t'. kvabs s' = kvabs s \<Longrightarrow> \<not> distinct rs \<or> \<not> set rs \<subseteq> R \<Longrightarrow> Q (Inr (t', False)) s'"
    and "\<And>e s'. kvabs s' = kvabs s \<Longrightarrow> Q (Inl e) s'"
  shows "wp (stage_removes ops (map key_of rs) t) Q s"
  using assms
proof (induction rs arbitrary: s t R)
  case Nil
  then show ?case by simp
next
  case (Cons r rs)
  have sr: "shaped r" "clean_rule (snd (snd r))" using Cons.prems(2) by simp_all
  note there = holds_rules_mem [OF Cons.prems(1) sr]
  have rest: "wp (stage_removes ops (map key_of rs) t') Q s'" if r: "r \<in> R" and "kvabs s' = kvabs s" "txov t' = (txov t)(key_of r \<mapsto> None)" for s' t'
  proof (rule Cons.IH [where R = "R - {r}"])
    show "holds_rules cod (overlay (kvabs s') (txov t')) (R - {r})" using holds_rules_delete [OF Cons.prems(1) r] that by simp
    show "Q (Inr (t2, True)) s2" if "kvabs s2 = kvabs s'" "holds_rules cod (overlay (kvabs s') (txov t2)) (R - {r} - set rs)" "distinct rs" "set rs \<subseteq> R - {r}" for s2 t2
    proof (rule Cons.prems(3))
      have "R - set (r # rs) = R - {r} - set rs" by auto
      then show "holds_rules cod (overlay (kvabs s) (txov t2)) (R - set (r # rs))" using that(2) \<open>kvabs s' = kvabs s\<close> by simp
      show "set (r # rs) \<subseteq> R" using that(4) r by auto
      show "distinct (r # rs)" using that(3,4) by auto
    qed (use that(1) \<open>kvabs s' = kvabs s\<close> in simp)
    show "Q (Inr (t2, False)) s2" if "kvabs s2 = kvabs s'" "\<not> distinct rs \<or> \<not> set rs \<subseteq> R - {r}" for s2 t2
      by (rule Cons.prems(4)) (use that \<open>kvabs s' = kvabs s\<close> in auto)
  qed (use Cons.prems(2,5) that in auto)
  have step: "wp (if there then bind_act (tx_delete ops t (key_of r)) (stage_removes ops (map key_of rs)) else ok_act (t, False)) Q s'"
    if "kvabs s' = kvabs s" "there = (r \<in> R)" for s' there
  proof (cases "r \<in> R")
    case True
    show ?thesis
      unfolding that(2) if_P [OF True] wp_bind
      by (rule wp_tdelete, unfold sum.case) (use that(1) rest [OF True] Cons.prems(5) in auto)
  next
    case False
    then show ?thesis using that Cons.prems(4) by simp
  qed
  show ?case
    unfolding list.map stage_removes.simps wp_bind
    by (rule wp_has, unfold sum.case there) (use step Cons.prems(5) in auto)
qed

lemma wp_commit_or_rollback:
  assumes "\<And>s'. going \<Longrightarrow> kvabs s' = overlay (kvabs s) (txov t) \<Longrightarrow> Q (Inr True) s'"
    and "\<And>s'. \<not> going \<Longrightarrow> kvabs s' = kvabs s \<Longrightarrow> Q (Inr False) s'"
    and "\<And>e s'. kvabs s' = kvabs s \<or> going \<and> kvabs s' = overlay (kvabs s) (txov t) \<Longrightarrow> Q (Inl e) s'"
  shows "wp (commit_or_rollback ops (t, going)) Q s"
  unfolding commit_or_rollback_def prod.case
  by (cases going) (auto intro!: wp_commit wp_rollback assms split: sum.split)

text \<open>What one call does to the set of rules; in case of an error it did that or nothing.\<close>

lemma wp_add_policies:
  assumes "holds_rules cod (kvabs s) R" and "\<forall>rule \<in> set rules. clean_rule rule"
    and "\<And>s'. holds_rules cod (kvabs s') (Pair sec ` Pair ptype ` set rules \<union> R) \<Longrightarrow> distinct rules \<Longrightarrow> Pair sec ` Pair ptype ` set rules \<inter> R = {} \<Longrightarrow> Q (Inr True) s'"
    and "\<And>s'. kvabs s' = kvabs s \<Longrightarrow> \<not> distinct rules \<or> Pair sec ` Pair ptype ` set rules \<inter> R \<noteq> {} \<Longrightarrow> Q (Inr False) s'"
    and "\<And>e s'. kvabs s' = kvabs s \<or> holds_rules cod (kvabs s') (Pair sec ` Pair ptype ` set rules \<union> R) \<and> distinct rules \<and> Pair sec ` Pair ptype ` set rules \<inter> R = {} \<Longrightarrow> Q (Inl e) s'"
  shows "wp (add_policies ops cod sec ptype rules) Q s"
proof -
  define rs where "rs = map (\<lambda>rule. (sec, ptype, rule)) rules"
  have set: "set rs = Pair sec ` Pair ptype ` set rules" by (auto simp: rs_def)
  have dist: "distinct rs = distinct rules" by (simp add: rs_def distinct_map inj_on_def)
  have clean: "\<forall>r \<in> set rs. clean_rule (snd (snd r))" using assms(2) by (auto simp: rs_def)
  have staged: "wp (bind_act (stage_adds ops kvs t) (commit_or_rollback ops)) Q s1"
    if kvs: "list_all2 (encoded_as cod) rs kvs" and s1: "kvabs s1 = kvabs s" and t: "txov t = Map.empty" for kvs t s1
  proof -
    have h: "holds_rules cod (overlay (kvabs s1) (txov t)) R" using assms(1) s1 t by simp
    show ?thesis
      unfolding wp_bind
      by (rule wp_stage_adds [OF h kvs clean], unfold sum.case)
         ((rule wp_commit_or_rollback; use s1 set dist assms(3-5) in force) | (use s1 assms(5) in simp))+
  qed
  show ?thesis
    unfolding add_policies_def rs_def [symmetric] wp_bind [of "encode_all _ _"]
  proof (rule wp_encode_all, unfold sum.case)
    fix kvs assume "list_all2 (encoded_as cod) rs kvs"
    from staged [OF this] show "wp (bind_act (kv_begin ops) (\<lambda>tx. bind_act (stage_adds ops kvs tx) (commit_or_rollback ops))) Q s"
      unfolding wp_bind [of "kv_begin _"] by (rule_tac wp_begin) (use assms(5) in auto)
  qed (use assms(5) in simp)
qed

lemma wp_scan:
  assumes "\<And>kvs s'. kvabs s' = kvabs s \<Longrightarrow> scan_of (kvabs s) None None kvs \<Longrightarrow> Q (Inr kvs) s'" and "\<And>e s'. kvabs s' = kvabs s \<Longrightarrow> Q (Inl e) s'"
  shows "wp (kv_gets ops None None None) Q s"
  by (rule wp_gets) (use assms in \<open>simp_all add: limit_of_def\<close>)

lemma wp_load_all:
  assumes "holds_rules cod (kvabs s) R"
    and "\<And>rs s'. kvabs s' = kvabs s \<Longrightarrow> set rs = R \<Longrightarrow> distinct rs \<Longrightarrow> Q (Inr rs) s'" and "\<And>e s'. kvabs s' = kvabs s \<Longrightarrow> Q (Inl e) s'"
  shows "wp (load_all ops cod) Q s"
  unfolding load_all_def wp_bind [of "kv_gets _ _ _ _"]
proof (rule wp_scan, unfold sum.case)
  fix kvs s1 assume s1: "kvabs s1 = kvabs s" and scan: "scan_of (kvabs s) None None kvs"
  note rs = rules_of_scan [OF assms(1) scan]
  show "wp (for_act kvs (\<lambda>(key, val) out. case split_key key of None \<Rightarrow> ok_act out
      | Some (sec, ptype, _) \<Rightarrow> bind_act (map_err_act SOther (res_act (dec_rule cod val))) (\<lambda>rule. ok_act (out @ [(sec, ptype, rule)]))) []) Q s1"
  proof (rule wp_for [where I = "\<lambda>rest out s'. s' = s1 \<and> (\<exists>pre. kvs = pre @ rest \<and> out = map (rule_at cod) pre)"], goal_cases)
    case (2 kv rest out s')
    then obtain pre where p: "kvs = pre @ kv # rest" "out = map (rule_at cod) pre" "s' = s1" by blast
    obtain k v where kv: "kv = (k, v)" by (cases kv)
    have "kvabs s k = Some v" using p(1) scan_all [OF scan] by (metis kv in_set_conv_decomp map_of_eq_Some_iff)
    from rule_at_key [OF assms(1) this] show ?case
      using p by (auto simp: kv intro!: exI [of _ "pre @ [(k, v)]"])
  qed (use rs s1 assms(2) in auto)
qed (use assms(3) in simp)

lemma wp_delete_keys:
  assumes "\<And>s' t'. kvabs s' = kvabs s \<Longrightarrow> overlay (kvabs s) (txov t') = overlay (kvabs s) (txov t) |` (- set ks) \<Longrightarrow> Q (Inr t') s'"
    and "\<And>e s'. kvabs s' = kvabs s \<Longrightarrow> Q (Inl e) s'"
  shows "wp (for_act ks (\<lambda>k tx. tx_delete ops tx k) t) Q s"
proof (rule wp_for [where I = "\<lambda>rest t' s'. kvabs s' = kvabs s \<and>
    (\<exists>pre. ks = pre @ rest \<and> overlay (kvabs s) (txov t') = overlay (kvabs s) (txov t) |` (- set pre))"], goal_cases)
  case (2 k rest t' s')
  then obtain pre where p: "ks = pre @ k # rest" "overlay (kvabs s) (txov t') = overlay (kvabs s) (txov t) |` (- set pre)" "kvabs s' = kvabs s" by blast
  have "(overlay (kvabs s) (txov t) |` (- set pre))(k := None) = overlay (kvabs s) (txov t) |` (- set (pre @ [k]))"
    by (auto simp: restrict_map_def fun_eq_iff)
  then show ?case
    by (intro wp_tdelete) (use p assms(2) in \<open>auto intro!: exI [of _ "pre @ [k]"]\<close>)
qed (use assms in \<open>auto simp: restrict_map_def\<close>)

lemma wp_clear_all:
  assumes "\<And>s'. kvabs s' = Map.empty \<Longrightarrow> Q (Inr ()) s'" and "\<And>e s'. kvabs s' = kvabs s \<or> kvabs s' = Map.empty \<Longrightarrow> Q (Inl e) s'"
  shows "wp (clear_all ops) Q s"
proof -
  have none: "kvabs s |` (- fst ` set kvs) = Map.empty" if "scan_of (kvabs s) None None kvs" for kvs
    using scan_all [OF that] by (auto simp: restrict_map_def fun_eq_iff) (metis map_of_eq_None_iff)
  show ?thesis
    unfolding clear_all_def wp_bind
    by (rule wp_scan, unfold sum.case, rule wp_begin, unfold sum.case, rule wp_delete_keys, unfold sum.case, rule wp_commit)
       (auto simp: none intro: assms)
qed

lemma wp_remove_policies:
  assumes "holds_rules cod (kvabs s) R" and "\<forall>rule \<in> set rules. shaped (sec, ptype, rule) \<and> clean_rule rule"
    and "\<And>s'. holds_rules cod (kvabs s') (R - Pair sec ` Pair ptype ` set rules) \<Longrightarrow> distinct rules \<Longrightarrow> Pair sec ` Pair ptype ` set rules \<subseteq> R \<Longrightarrow> Q (Inr True) s'"
    and "\<And>s'. kvabs s' = kvabs s \<Longrightarrow> \<not> distinct rules \<or> \<not> Pair sec ` Pair ptype ` set rules \<subseteq> R \<Longrightarrow> Q (Inr False) s'"
    and "\<And>e s'. kvabs s' = kvabs s \<or> holds_rules cod (kvabs s') (R - Pair sec ` Pair ptype ` set rules) \<and> distinct rules \<and> Pair sec ` Pair ptype ` set rules \<subseteq> R \<Longrightarrow> Q (Inl e) s'"
  shows "wp (remove_policies ops sec ptype rules) Q s"
proof -
  define rs where "rs = map (\<lambda>rule. (sec, ptype, rule)) rules"
  have set: "set rs = Pair sec ` Pair ptype ` set rules" by (auto simp: rs_def)
  have dist: "distinct rs = distinct rules" by (simp add: rs_def distinct_map inj_on_def)
  have ok: "\<forall>r \<in> set rs. shaped r \<and> clean_rule (snd (snd r))" using assms(2) by (auto simp: rs_def)
  have keys: "map (rule_key sec ptype) rules = map key_of rs" by (simp add: rs_def key_of_def)
  have staged: "wp (bind_act (stage_removes ops (map key_of rs) t) (commit_or_rollback ops)) Q s1"
    if s1: "kvabs s1 = kvabs s" and t: "txov t = Map.empty" for t s1
  proof -
    have h: "holds_rules cod (overlay (kvabs s1) (txov t)) R" using assms(1) s1 t by simp
    show ?thesis
      unfolding wp_bind
      by (rule wp_stage_removes [OF h ok], unfold sum.case)
         ((rule wp_commit_or_rollback; use s1 set dist assms(3-5) in force) | (use s1 assms(5) in simp))+
  qed
  show ?thesis
    unfolding remove_policies_def keys wp_bind [of "kv_begin _"]
    by (rule wp_begin, unfold sum.case) (use staged assms(5) in auto)
qed

lemma wp_remove_filtered:
  assumes "holds_rules cod (kvabs s) R" and "CHR '':'' \<notin> set sec" and "CHR '':'' \<notin> set ptype"
    and D: "D = {r \<in> R. fst r = sec \<and> fst (snd r) = ptype \<and> rule_matches (snd (snd r)) n vals}"
    and "\<And>s'. holds_rules cod (kvabs s') (R - D) \<Longrightarrow> Q (Inr (D \<noteq> {})) s'"
    and "\<And>e s'. kvabs s' = kvabs s \<or> holds_rules cod (kvabs s') (R - D) \<Longrightarrow> Q (Inl e) s'"
  shows "wp (remove_filtered_policy ops cod sec ptype n vals) Q s"
proof -
  let ?body = "\<lambda>(key, val) out. if \<not> prefix (sec @ '':'' @ ptype @ '':'') key then ok_act out
      else bind_act (map_err_act SOther (res_act (dec_rule cod val))) (\<lambda>rule. ok_act (if rule_matches rule n vals then out @ [key] else out))"
  let ?keep = "\<lambda>kv. rule_at cod kv \<in> D"
  have hit: "prefix (sec @ '':'' @ ptype @ '':'') k \<longleftrightarrow> fst (rule_at cod (k, v)) = sec \<and> fst (snd (rule_at cod (k, v))) = ptype"
    if kv: "kvabs s k = Some v" for k v
  proof
    assume "prefix (sec @ '':'' @ ptype @ '':'') k"
    then obtain h where "k = sec @ '':'' @ ptype @ '':'' @ h" by (auto simp: prefix_def)
    then have "split_key k = Some (sec, ptype, h)"
      unfolding split_key_def using assms(2,3) by (simp only: split_colon not_False_eq_True bind.bind_lunit prod.case)
    then show "fst (rule_at cod (k, v)) = sec \<and> fst (snd (rule_at cod (k, v))) = ptype" by (simp add: rule_at_def)
  next
    assume "fst (rule_at cod (k, v)) = sec \<and> fst (snd (rule_at cod (k, v))) = ptype"
    with rule_at_key [OF assms(1) kv] obtain h where "split_key k = Some (sec, ptype, h)" by auto
    from split_key_Some [OF this] show "prefix (sec @ '':'' @ ptype @ '':'') k" by (auto simp: prefix_def)
  qed
  have loop: "wp (for_act kvs ?body []) Q' s1"
    if scan: "scan_of (kvabs s) None None kvs" and fin: "Q' (Inr (map fst (filter ?keep kvs))) s1" for kvs Q' s1
  proof (rule wp_for [where I = "\<lambda>rest out s'. s' = s1 \<and> (\<exists>pre. kvs = pre @ rest \<and> out = map fst (filter ?keep pre))"], goal_cases)
    case (2 kv rest out s')
    then obtain pre where p: "kvs = pre @ kv # rest" "out = map fst (filter ?keep pre)" "s' = s1" by blast
    obtain k v where kv: "kv = (k, v)" by (cases kv)
    have m: "kvabs s k = Some v" using p(1) scan_all [OF scan] by (metis kv in_set_conv_decomp map_of_eq_Some_iff)
    from rule_at_key [OF assms(1) m] hit [OF m] show ?case
      using p by (auto simp: kv D intro!: exI [of _ "pre @ [(k, v)]"])
  qed (use fin in auto)
  have keys: "fst ` set (filter ?keep kvs) = key_of ` D" if "scan_of (kvabs s) None None kvs" for kvs
  proof -
    have "key_of (rule_at cod kv) = fst kv" if "kv \<in> set kvs" for kv
      using that scan_all [OF \<open>scan_of (kvabs s) None None kvs\<close>] rule_at_key [OF assms(1), of "fst kv" "snd kv"] map_of_eq_Some_iff [of kvs "fst kv" "snd kv"] by simp
    then have "fst ` set (filter ?keep kvs) = key_of ` rule_at cod ` set (filter ?keep kvs)" by (auto simp: image_image intro!: image_cong)
    also have "rule_at cod ` set kvs = R" using rules_of_scan [OF assms(1) that] by simp
    then have "rule_at cod ` set (filter ?keep kvs) = D" using D by auto
    finally show ?thesis .
  qed
  have res: "holds_rules cod (kvabs s |` (- key_of ` D)) (R - D)" by (rule holds_rules_without [OF assms(1)]) (auto simp: D)
  have empty: "filter ?keep kvs \<noteq> [] \<longleftrightarrow> D \<noteq> {}" if "scan_of (kvabs s) None None kvs" for kvs
    using keys [OF that] by (metis image_is_empty set_empty)
  have tail: "wp (bind_act (kv_begin ops) (\<lambda>tx. bind_act (for_act (map fst (filter ?keep kvs)) (\<lambda>key tx. tx_delete ops tx key) tx)
      (\<lambda>tx. bind_act (tx_commit ops tx) (\<lambda>_. ok_act (map fst (filter ?keep kvs) \<noteq> []))))) Q s1"
    if scan: "scan_of (kvabs s) None None kvs" and s1: "kvabs s1 = kvabs s" for kvs s1
    unfolding wp_bind
    by (rule wp_begin, unfold sum.case, rule wp_delete_keys, unfold sum.case, rule wp_commit)
       (use s1 res keys [OF scan] empty [OF scan] assms(5,6) in auto)
  show ?thesis
    unfolding remove_filtered_policy_def wp_bind [of "kv_gets _ _ _ _"]
    by (rule wp_scan, unfold sum.case wp_bind [of "for_act _ _ _"], rule loop, assumption, unfold sum.case, rule tail)
       (use assms(6) in auto)
qed

lemma wp_set_rules:
  assumes "holds_rules cod (overlay (kvabs s) (txov t)) R" and "list_all2 (encoded_as cod) rs kvs" and "\<forall>r \<in> set rs. clean_rule (snd (snd r))"
    and "\<And>s' t'. kvabs s' = kvabs s \<Longrightarrow> holds_rules cod (overlay (kvabs s) (txov t')) (set rs \<union> R) \<Longrightarrow> Q (Inr t') s'"
    and "\<And>e s'. kvabs s' = kvabs s \<Longrightarrow> Q (Inl e) s'"
  shows "wp (for_act kvs (\<lambda>(key, val) tx. tx_set ops tx key val) t) Q s"
  using assms
proof (induction rs arbitrary: kvs s t R)
  case Nil
  then show ?case by simp
next
  case (Cons r rs)
  from Cons.prems(2) obtain kv kvs' where kvs: "kvs = kv # kvs'" "encoded_as cod r kv" "list_all2 (encoded_as cod) rs kvs'"
    by (auto simp: list_all2_Cons1)
  then have ins: "holds_rules cod ((overlay (kvabs s) (txov t))(fst kv \<mapsto> snd kv)) (insert r R)"
    using holds_rules_insert [OF Cons.prems(1)] Cons.prems(3) by (simp add: encoded_as_def)
  have rest: "wp (for_act kvs' (\<lambda>(key, val) tx. tx_set ops tx key val) t') Q s'"
    if "kvabs s' = kvabs s" "txov t' = (txov t)(fst kv \<mapsto> Some (snd kv))" for s' t'
  proof (rule Cons.IH [where R = "insert r R", OF _ kvs(3)])
    show "holds_rules cod (overlay (kvabs s') (txov t')) (insert r R)" using ins that by simp
  qed (use Cons.prems(3-5) that in auto)
  show ?case
    unfolding kvs(1) for_act.simps wp_bind case_prod_unfold
    by (rule wp_tset, unfold sum.case) (use rest Cons.prems(5) in \<open>auto simp: case_prod_unfold\<close>)
qed

lemma wp_save_policy:
  assumes "\<forall>r \<in> set entries. clean_rule (snd (snd r))"
    and "\<And>s'. holds_rules cod (kvabs s') (set entries) \<Longrightarrow> Q (Inr ()) s'"
    and "\<And>e s'. kvabs s' = kvabs s \<or> kvabs s' = Map.empty \<or> holds_rules cod (kvabs s') (set entries) \<Longrightarrow> Q (Inl e) s'"
  shows "wp (save_policy ops cod entries) Q s"
proof -
  have written: "wp (bind_act (for_act kvs (\<lambda>(key, val) tx. tx_set ops tx key val) t) (tx_commit ops)) Q s1"
    if "kvabs s1 = Map.empty" "txov t = Map.empty" and kvs: "list_all2 (encoded_as cod) entries kvs" for kvs t s1
  proof -
    have "holds_rules cod (overlay (kvabs s1) (txov t)) {}" using that by simp
    then show ?thesis
      unfolding wp_bind
      by (rule wp_set_rules [OF _ kvs assms(1)], unfold sum.case) (use that(1) assms(2,3) in \<open>auto intro!: wp_commit\<close>)
  qed
  have stored: "wp (bind_act (encode_all cod entries) (\<lambda>encoded. bind_act (kv_begin ops) (\<lambda>tx.
      bind_act (for_act encoded (\<lambda>(key, val) tx. tx_set ops tx key val) tx) (tx_commit ops)))) Q s1" if "kvabs s1 = Map.empty" for s1
    unfolding wp_bind [of "encode_all _ _"]
    by (rule wp_encode_all, unfold sum.case wp_bind [of "kv_begin _"], rule wp_begin, unfold sum.case)
       (use that assms(3) written in auto)
  show ?thesis
    unfolding save_policy_def wp_bind [of "clear_all _"]
    by (rule wp_clear_all, unfold sum.case) (use stored assms(3) in auto)
qed

end

section \<open>A store in memory\<close>

definition plain_rules :: "string list rule_codec" where
  "plain_rules = \<lparr>enc_rule = Inr, dec_rule = Inr\<rparr>"

interpretation memrules: rule_store mem_ops mem_abs map_of plain_rules
  by (intro rule_store.intro mem.kv_store_axioms rule_store_axioms.intro) (simp_all add: plain_rules_def)

section \<open>Properties\<close>

text \<open>
  The specification of the adapter: a set of rules. Adding or removing a batch is all or nothing, and a batch with
  a rule that is there already, or is not there, changes nothing.
\<close>

datatype adapter_call =
    AddRules string string "string list list"
  | RemoveRules string string "string list list"
  | RemoveFiltered string string nat "string list"
  | ClearRules
  | SavePolicy "(string \<times> string \<times> string list) list"

fun run_adapter :: "('s, 't, 'v) kv_ops \<Rightarrow> 'v rule_codec \<Rightarrow> adapter_call \<Rightarrow> ('s, store_error, bool) act" where
  "run_adapter ops cod (AddRules sec ptype rules) = add_policies ops cod sec ptype rules"
| "run_adapter ops cod (RemoveRules sec ptype rules) = remove_policies ops sec ptype rules"
| "run_adapter ops cod (RemoveFiltered sec ptype n vals) = remove_filtered_policy ops cod sec ptype n vals"
| "run_adapter ops cod ClearRules = bind_act (clear_all ops) (\<lambda>_. ok_act True)"
| "run_adapter ops cod (SavePolicy entries) = bind_act (save_policy ops cod entries) (\<lambda>_. ok_act True)"

fun rules_after :: "adapter_call \<Rightarrow> (string \<times> string \<times> string list) set \<Rightarrow> bool \<times> (string \<times> string \<times> string list) set" where
  "rules_after (AddRules sec ptype rules) R =
     (let new = Pair sec ` Pair ptype ` set rules in if distinct rules \<and> new \<inter> R = {} then (True, new \<union> R) else (False, R))"
| "rules_after (RemoveRules sec ptype rules) R =
     (let old = Pair sec ` Pair ptype ` set rules in if distinct rules \<and> old \<subseteq> R then (True, R - old) else (False, R))"
| "rules_after (RemoveFiltered sec ptype n vals) R =
     (let hit = {r \<in> R. fst r = sec \<and> fst (snd r) = ptype \<and> rule_matches (snd (snd r)) n vals} in (hit \<noteq> {}, R - hit))"
| "rules_after ClearRules R = (True, {})"
| "rules_after (SavePolicy entries) R = (True, set entries)"

text \<open>What a call that fails may leave: the rules as they were or as they should be. A save clears the store in a transaction of its own
  first, so it may also leave no rule.\<close>

fun rules_left :: "adapter_call \<Rightarrow> (string \<times> string \<times> string list) set \<Rightarrow> (string \<times> string \<times> string list) set set" where
  "rules_left (SavePolicy entries) R = {R, {}, set entries}"
| "rules_left c R = {R, snd (rules_after c R)}"

text \<open>Fields do not hold the unit separator; what is removed names a rule of the model's shape.\<close>

fun call_ok :: "adapter_call \<Rightarrow> bool" where
  "call_ok (AddRules sec ptype rules) = (\<forall>rule \<in> set rules. clean_rule rule)"
| "call_ok (RemoveRules sec ptype rules) = (\<forall>rule \<in> set rules. shaped (sec, ptype, rule) \<and> clean_rule rule)"
| "call_ok (RemoveFiltered sec ptype n vals) = (CHR '':'' \<notin> set sec \<and> CHR '':'' \<notin> set ptype)"
| "call_ok ClearRules = True"
| "call_ok (SavePolicy entries) = (\<forall>r \<in> set entries. clean_rule (snd (snd r)))"

text \<open>
  C18: the adapter stores a set of rules, as long as no field of a rule has the unit separator and what is removed names a rule of the model's shape. From a
  store that holds exactly the rules of a set, an add, a removal, a filtered removal, a clear or a save that returns answers and leaves what the specification says.
  A call that fails has done that or nothing, but a save clears the store in a first transaction and writes in a second: a save that
  fails may also leave no rule at all.
\<close>

theorem policy_adapter_refines:
  assumes "rule_store ops kvabs txov cod" and "holds_rules cod (kvabs s) R" and "call_ok c" and "run_adapter ops cod c s = (r, s')"
  shows "case r of
      Inr b \<Rightarrow> b = fst (rules_after c R) \<and> holds_rules cod (kvabs s') (snd (rules_after c R))
    | Inl _ \<Rightarrow> \<exists>R' \<in> rules_left c R. holds_rules cod (kvabs s') R'"
proof -
  have "wp (run_adapter ops cod c) (\<lambda>r s'. case r of
      Inr b \<Rightarrow> b = fst (rules_after c R) \<and> holds_rules cod (kvabs s') (snd (rules_after c R))
    | Inl _ \<Rightarrow> \<exists>R' \<in> rules_left c R. holds_rules cod (kvabs s') R') s"
  proof (cases c)
    case (AddRules sec ptype rules)
    show ?thesis
      unfolding AddRules run_adapter.simps
      by (rule rule_store.wp_add_policies [OF assms(1,2)]; use assms(2,3) AddRules in \<open>simp add: Let_def\<close>) metis
  next
    case (RemoveRules sec ptype rules)
    show ?thesis
      unfolding RemoveRules run_adapter.simps
      by (rule rule_store.wp_remove_policies [OF assms(1,2)]; use assms(2,3) RemoveRules in \<open>simp add: Let_def\<close>) metis
  next
    case (RemoveFiltered sec ptype n vals)
    then show ?thesis
      using assms(2,3) by (auto simp: Let_def intro!: rule_store.wp_remove_filtered [OF assms(1) _ _ _ refl])
  next
    case ClearRules
    then show ?thesis
      using assms(2) by (auto intro!: rule_store.wp_clear_all [OF assms(1)])
  next
    case (SavePolicy entries)
    show ?thesis
      unfolding SavePolicy run_adapter.simps wp_bind
      by (rule rule_store.wp_save_policy [OF assms(1)]) (use assms(2,3) SavePolicy in auto)
  qed
  from wpD [OF this assms(4)] show ?thesis .
qed

theorem policy_adapter_refines_witness:
  "\<exists>s'. run_adapter mem_ops plain_rules (AddRules ''g'' ''g'' [[''ann'', ''staff'']]) \<lparr>mem_data = [], mem_fenced = False\<rparr> = (Inr True, s') \<and>
     holds_rules plain_rules (mem_abs s') {(''g'', ''g'', [''ann'', ''staff''])}"
proof -
  have h: "holds_rules plain_rules (mem_abs \<lparr>mem_data = [], mem_fenced = False\<rparr>) {}" by (simp add: mem_abs_def)
  have ok: "call_ok (AddRules ''g'' ''g'' [[''ann'', ''staff'']])" by (simp add: clean_rule_def unit_sep_def)
  obtain r s' where run: "run_adapter mem_ops plain_rules (AddRules ''g'' ''g'' [[''ann'', ''staff'']]) \<lparr>mem_data = [], mem_fenced = False\<rparr> = (r, s')" by force
  have "validate_rule plain_rules (rule_key ''g'' ''g'' [''ann'', ''staff'']) [''ann'', ''staff''] = Inr ()"
    by (simp add: validate_rule_iff plain_rules_def shaped_def)
  then have "r = Inr True"
    using run by (simp add: add_policies_def encode_all_def encode_rule_def Let_def plain_rules_def mem_ops_def tx_has_def mem_write_def
        commit_or_rollback_def act_defs)
  with policy_adapter_refines [OF memrules.rule_store_axioms h ok run] run show ?thesis by simp
qed

text \<open>
  A saved policy is loaded back. When a save returns, a load that returns has exactly the rules saved, each once.
\<close>

theorem policy_save_load_roundtrip:
  assumes "rule_store ops kvabs txov cod" and "\<forall>r \<in> set entries. clean_rule (snd (snd r))"
    and "save_policy ops cod entries s = (Inr (), s1)" and "load_all ops cod s1 = (Inr rs, s2)"
  shows "set rs = set entries \<and> distinct rs"
proof -
  have "holds_rules cod (kvabs s1) (set entries)"
    using wpD [OF rule_store.wp_save_policy [OF assms(1,2)] assms(3), of "\<lambda>r s'. r = Inr () \<longrightarrow> holds_rules cod (kvabs s') (set entries)"] by simp
  from wpD [OF rule_store.wp_load_all [OF assms(1) this] assms(4), of "\<lambda>r s'. \<forall>rs. r = Inr rs \<longrightarrow> set rs = set entries \<and> distinct rs"]
  show ?thesis by simp
qed

definition demo_rules :: "(string \<times> string \<times> string list) list" where
  "demo_rules = [(''p'', ''p'', [''staff'', ''rules'', ''read'']), (''g'', ''g'', [''ann'', ''staff''])]"

definition no_rules :: "string list mem_kv" where
  "no_rules = \<lparr>mem_data = [], mem_fenced = False\<rparr>"

definition demo_saved :: "string list mem_kv" where
  "demo_saved = snd (save_policy mem_ops plain_rules demo_rules no_rules)"

lemma demo_saved_run: "fst (save_policy mem_ops plain_rules demo_rules no_rules) = Inr ()"
  by code_simp

lemma demo_loaded_run: "fst (load_all mem_ops plain_rules demo_saved) = Inr (rev demo_rules)"
  by code_simp

theorem policy_save_load_roundtrip_witness:
  "\<exists>rs s2. load_all mem_ops plain_rules demo_saved = (Inr rs, s2) \<and> set rs = set demo_rules \<and> distinct rs"
proof -
  have save: "save_policy mem_ops plain_rules demo_rules no_rules = (Inr (), demo_saved)"
    using demo_saved_run by (simp add: demo_saved_def prod_eq_iff)
  obtain s2 where load: "load_all mem_ops plain_rules demo_saved = (Inr (rev demo_rules), s2)"
    using demo_loaded_run by (metis prod.collapse)
  have "\<forall>r \<in> set demo_rules. clean_rule (snd (snd r))" by (simp add: demo_rules_def clean_rule_def unit_sep_def)
  from policy_save_load_roundtrip [OF memrules.rule_store_axioms this save load] load show ?thesis by blast
qed

text \<open>
  A save of a policy with a rule that is not of the model's shape empties the store: the rules are validated only after the
  transaction that clears them, so the failed save leaves none of the old rules.
\<close>

theorem save_malformed_policy_clears:
  assumes "rule_store ops kvabs txov cod" and "clear_all ops s = (Inr (), s1)" and "r \<in> set entries" and "\<not> shaped r"
  shows "\<exists>e. save_policy ops cod entries s = (Inl e, s1) \<and> kvabs s1 = Map.empty"
proof -
  have "wp (encode_all cod entries) (\<lambda>q s'. s' = s1 \<and> (\<exists>e. q = Inl e)) s1"
  proof (rule rule_store.wp_encode_all [OF assms(1)])
    fix kvs assume "list_all2 (encoded_as cod) entries kvs"
    then have "shaped r" using assms(3) by (auto simp: list_all2_conv_all_nth in_set_conv_nth encoded_as_def)
    with assms(4) show "s1 = s1 \<and> (\<exists>e. Inr kvs = Inl e)" by simp
  qed simp
  moreover obtain q s' where run: "encode_all cod entries s1 = (q, s')" by force
  ultimately obtain e where "encode_all cod entries s1 = (Inl e, s1)" using wpD by fastforce
  moreover have "kvabs s1 = Map.empty"
    using wpD [OF rule_store.wp_clear_all [OF assms(1)] assms(2), of "\<lambda>r s'. r = Inr () \<longrightarrow> kvabs s' = Map.empty"] by simp
  ultimately show ?thesis by (simp add: save_policy_def bind_act_def assms(2))
qed

lemma demo_cleared_run: "clear_all mem_ops demo_saved = (Inr (), no_rules)"
  by code_simp

theorem save_malformed_policy_clears_witness:
  "\<exists>e. save_policy mem_ops plain_rules ((''g'', ''g'', [''ann'']) # demo_rules) demo_saved = (Inl e, no_rules) \<and> mem_abs no_rules = Map.empty"
proof -
  have "\<not> shaped (''g'', ''g'', [''ann''])" by (simp add: shaped_def)
  then show ?thesis
    using save_malformed_policy_clears [OF memrules.rule_store_axioms demo_cleared_run, of "(''g'', ''g'', [''ann''])" "(''g'', ''g'', [''ann'']) # demo_rules"] by simp
qed

text \<open>
  Two different rules with the unit separator in a field share a key, so adding the second is answered as a duplicate.
\<close>

lemma rule_key_collision:
  "rule_key sec ptype [a @ unit_sep # b, c, d] = rule_key sec ptype [a, b @ unit_sep # c, d]"
  by (simp add: rule_key_def)

end
