(* ===== verification/Policy_Engine.thy ===== *)
theory Policy_Engine
  imports Policy_Adapter Fencing Wal
begin

text \<open>
  The policy engine of \<^verbatim>\<open>src/src/policy/mod.rs\<close>, its read handle, the row authorizer of \<^verbatim>\<open>row.rs\<close> and the import and
  export of \<^verbatim>\<open>admin.rs\<close>. The enforcer is an object of the policy library: its calls are an interface, and what the
  engine relies on is the locale \<open>enforcer\<close>. An enforcer that keeps its rules in memory and saves them through the
  adapter of this repository satisfies it.
\<close>

section \<open>The enforcer\<close>

record 'e enforcer_ops =
  ef_add_policy :: "string list \<Rightarrow> ('e, casbin_error, bool) act"
  ef_remove_policy :: "string list \<Rightarrow> ('e, casbin_error, bool) act"
  ef_add_grouping :: "string list \<Rightarrow> ('e, casbin_error, bool) act"
  ef_remove_grouping :: "string list \<Rightarrow> ('e, casbin_error, bool) act"
  ef_remove_filtered_grouping :: "nat \<Rightarrow> string list \<Rightarrow> ('e, casbin_error, bool) act"
  ef_enforce :: "string \<Rightarrow> string \<Rightarrow> string \<Rightarrow> 'e \<Rightarrow> casbin_error + bool"
  ef_get_policy :: "'e \<Rightarrow> string list list"
  ef_get_grouping :: "'e \<Rightarrow> string list list"
  ef_get_filtered :: "nat \<Rightarrow> string list \<Rightarrow> 'e \<Rightarrow> string list list"
  ef_users_for_role :: "string \<Rightarrow> 'e \<Rightarrow> string list"
  ef_roles_for_user :: "string \<Rightarrow> 'e \<Rightarrow> string list"
  ef_all_roles :: "'e \<Rightarrow> string list"

record ('e, 'l) policy_engine =
  pe_ops :: "'e enforcer_ops"
  pe_feed :: "(i64 \<Rightarrow> wal_op \<Rightarrow> ('l, string, unit) act) option"

record ('e, 'l) policy_world =
  pw_enforcer :: 'e
  pw_feed :: 'l
  pw_latch :: latch

definition POLICY_PREFIX :: string where "POLICY_PREFIX = ''{db}/policy''"

definition SUPERADMIN_ROLE :: string where "SUPERADMIN_ROLE = ''superadmin''"

definition classify_with :: "latch \<Rightarrow> casbin_error \<Rightarrow> policy_error \<times> latch" where
  "classify_with l e =
     (case ce_adapter e of
        Some (SFenced reason) \<Rightarrow> (PolicyFenced reason, trip POLICY_PREFIX reason l)
      | _ \<Rightarrow> (Casbin e, l))"

text \<open>A call of the enforcer whose error is classified against the latch of the engine.\<close>

definition ef_call :: "('e, casbin_error, 'a) act \<Rightarrow> (('e, 'l) policy_world, policy_error, 'a) act" where
  "ef_call m w =
     (case m (pw_enforcer w) of
        (Inr x, s) \<Rightarrow> (Inr x, w\<lparr>pw_enforcer := s\<rparr>)
      | (Inl e, s) \<Rightarrow> (let (pe, l) = classify_with (pw_latch w) e in (Inl pe, w\<lparr>pw_enforcer := s, pw_latch := l\<rparr>)))"

definition policy_announce :: "('e, 'l) policy_engine \<Rightarrow> (wal_op \<Rightarrow> i64) \<Rightarrow> wal_op \<Rightarrow> (('e, 'l) policy_world, policy_error, unit) act" where
  "policy_announce eng ts op =
     (case pe_feed eng of
        None \<Rightarrow> ok_act ()
      | Some sink \<Rightarrow> focus_act pw_feed (\<lambda>l w. w\<lparr>pw_feed := l\<rparr>) (map_err_act ChangeFeed (sink (ts op) op)))"

section \<open>Rules and groups\<close>

definition get_all_rules :: "('e, 'l) policy_engine \<Rightarrow> ('e, 'l) policy_world \<Rightarrow> string list list" where
  "get_all_rules eng w = ef_get_policy (pe_ops eng) (pw_enforcer w)"

definition add_rule :: "('e, 'l) policy_engine \<Rightarrow> (wal_op \<Rightarrow> i64) \<Rightarrow> string \<Rightarrow> string \<Rightarrow> action \<Rightarrow> (('e, 'l) policy_world, policy_error, bool) act" where
  "add_rule eng ts sub obj act =
     bind_act (ef_call (ef_add_policy (pe_ops eng) [sub, obj, act_text act])) (\<lambda>success.
     bind_act (if success then policy_announce eng ts (PolicyRuleAdd sub obj (act_text act)) else ok_act ()) (\<lambda>_.
     ok_act success))"

definition remove_rule :: "('e, 'l) policy_engine \<Rightarrow> (wal_op \<Rightarrow> i64) \<Rightarrow> string \<Rightarrow> string \<Rightarrow> action \<Rightarrow> (('e, 'l) policy_world, policy_error, bool) act" where
  "remove_rule eng ts sub obj act =
     bind_act (ef_call (ef_remove_policy (pe_ops eng) [sub, obj, act_text act])) (\<lambda>success.
     bind_act (if success then policy_announce eng ts (PolicyRuleRemove sub obj (act_text act)) else ok_act ()) (\<lambda>_.
     ok_act success))"

definition assign_group :: "('e, 'l) policy_engine \<Rightarrow> (wal_op \<Rightarrow> i64) \<Rightarrow> string \<Rightarrow> string \<Rightarrow> (('e, 'l) policy_world, policy_error, bool) act" where
  "assign_group eng ts user_id grp =
     bind_act (ef_call (ef_add_grouping (pe_ops eng) [user_id, grp])) (\<lambda>success.
     bind_act (if success then policy_announce eng ts (GroupAdd user_id grp) else ok_act ()) (\<lambda>_.
     ok_act success))"

definition superadmin_rules :: "(string \<times> action) list" where
  "superadmin_rules = [(''rules'', Read), (''rules'', Write), (''user_groups'', Read), (''user_groups'', Write)]"

definition ensure_superadmin_rules :: "('e, 'l) policy_engine \<Rightarrow> (('e, 'l) policy_world, policy_error, (string \<times> action) list) act" where
  "ensure_superadmin_rules eng =
     for_act superadmin_rules (\<lambda>(obj, act) added.
       bind_act (ef_call (ef_add_policy (pe_ops eng) [SUPERADMIN_ROLE, obj, act_text act])) (\<lambda>new.
       ok_act (if new then added @ [(obj, act)] else added))) []"

definition announce_rules :: "('e, 'l) policy_engine \<Rightarrow> (wal_op \<Rightarrow> i64) \<Rightarrow> (string \<times> action) list \<Rightarrow> (('e, 'l) policy_world, policy_error, unit) act" where
  "announce_rules eng ts added =
     for_act added (\<lambda>(obj, act) _. policy_announce eng ts (PolicyRuleAdd SUPERADMIN_ROLE obj (act_text act))) ()"

definition claim_superadmin :: "('e, 'l) policy_engine \<Rightarrow> (wal_op \<Rightarrow> i64) \<Rightarrow> string \<Rightarrow> (('e, 'l) policy_world, policy_error, bool) act" where
  "claim_superadmin eng ts user_id w0 =
     (if ef_users_for_role (pe_ops eng) SUPERADMIN_ROLE (pw_enforcer w0) \<noteq> [] then
        bind_act (ensure_superadmin_rules eng) (\<lambda>repaired.
        bind_act (announce_rules eng ts repaired) (\<lambda>_.
        ok_act False)) w0
      else
        bind_act (ef_call (ef_add_grouping (pe_ops eng) [user_id, SUPERADMIN_ROLE])) (\<lambda>_.
        bind_act (ensure_superadmin_rules eng) (\<lambda>seeded.
        bind_act (policy_announce eng ts (GroupAdd user_id SUPERADMIN_ROLE)) (\<lambda>_.
        bind_act (announce_rules eng ts seeded) (\<lambda>_.
        ok_act True)))) w0)"

definition remove_from_group :: "('e, 'l) policy_engine \<Rightarrow> (wal_op \<Rightarrow> i64) \<Rightarrow> string \<Rightarrow> string \<Rightarrow> (('e, 'l) policy_world, policy_error, bool) act" where
  "remove_from_group eng ts user_id grp =
     bind_act (ef_call (ef_remove_grouping (pe_ops eng) [user_id, grp])) (\<lambda>success.
     bind_act (if success then policy_announce eng ts (GroupRemove user_id grp) else ok_act ()) (\<lambda>_.
     ok_act success))"

definition delete_group :: "('e, 'l) policy_engine \<Rightarrow> (wal_op \<Rightarrow> i64) \<Rightarrow> string \<Rightarrow> (('e, 'l) policy_world, policy_error, bool) act" where
  "delete_group eng ts grp =
     bind_act (ef_call (ef_remove_filtered_grouping (pe_ops eng) 1 [grp])) (\<lambda>removed.
     bind_act (if removed then policy_announce eng ts (GroupDelete grp) else ok_act ()) (\<lambda>_.
     ok_act removed))"

record group_summary =
  gs_name :: string
  gs_members :: nat

record user_assignment =
  ua_sub :: string
  ua_groups :: "string list"

definition list_groups :: "('e, 'l) policy_engine \<Rightarrow> ('e, 'l) policy_world \<Rightarrow> group_summary list" where
  "list_groups eng w =
     sort_key gs_name (map (\<lambda>name. \<lparr>gs_name = name, gs_members = length (ef_users_for_role (pe_ops eng) name (pw_enforcer w))\<rparr>)
       (ef_all_roles (pe_ops eng) (pw_enforcer w)))"

text \<open>The links grouped by user; the map the code uses has no order of its own, and the result is sorted.\<close>

definition by_user :: "string list list \<Rightarrow> (string \<times> string list) list" where
  "by_user links =
     foldl (\<lambda>m link. bt_insert (link ! 0) ((case map_of m (link ! 0) of None \<Rightarrow> [] | Some gs \<Rightarrow> gs) @ [link ! 1]) m) [] links"

definition list_user_assignments :: "('e, 'l) policy_engine \<Rightarrow> ('e, 'l) policy_world \<Rightarrow> user_assignment list" where
  "list_user_assignments eng w =
     sort_key ua_sub (map (\<lambda>(sub, groups). \<lparr>ua_sub = sub, ua_groups = sort groups\<rparr>)
       (by_user (ef_get_grouping (pe_ops eng) (pw_enforcer w))))"

section \<open>Authorization\<close>

text \<open>The error of an enforcement goes through the conversion without an engine, which uses the process-wide latch.\<close>

definition authorize :: "('e, 'l) policy_engine \<Rightarrow> string \<Rightarrow> string \<Rightarrow> action \<Rightarrow> (('e, 'l) policy_world, policy_error, bool) act" where
  "authorize eng sub obj act w =
     (case ef_enforce (pe_ops eng) sub obj (act_text act) (pw_enforcer w) of
        Inr b \<Rightarrow> (Inr b, w)
      | Inl e \<Rightarrow> (let (pe, l) = classify_with (pw_latch w) e in (Inl pe, w\<lparr>pw_latch := l\<rparr>)))"

definition require :: "('e, 'l) policy_engine \<Rightarrow> string \<Rightarrow> string \<Rightarrow> action \<Rightarrow> (('e, 'l) policy_world, policy_error, unit) act" where
  "require eng sub obj act =
     bind_act (authorize eng sub obj act) (\<lambda>allowed.
     if allowed then ok_act () else err_act AccessDenied)"

definition rules_for_subject :: "('e, 'l) policy_engine \<Rightarrow> string \<Rightarrow> ('e, 'l) policy_world \<Rightarrow> (string \<times> string) list" where
  "rules_for_subject eng sub w =
     List.map_filter (\<lambda>r. if 2 < length r then Some (r ! 1, r ! 2) else None)
       (ef_get_filtered (pe_ops eng) 0 [sub] (pw_enforcer w))"

definition get_users_in_group :: "('e, 'l) policy_engine \<Rightarrow> string \<Rightarrow> ('e, 'l) policy_world \<Rightarrow> string list" where
  "get_users_in_group eng grp w = ef_users_for_role (pe_ops eng) grp (pw_enforcer w)"

definition get_groups_of_user :: "('e, 'l) policy_engine \<Rightarrow> string \<Rightarrow> ('e, 'l) policy_world \<Rightarrow> string list" where
  "get_groups_of_user eng user_id w = ef_roles_for_user (pe_ops eng) user_id (pw_enforcer w)"

definition authorize_row :: "('e, 'l) policy_engine \<Rightarrow> string \<Rightarrow> string \<Rightarrow> string \<Rightarrow> action \<Rightarrow> (('e, 'l) policy_world, policy_error, bool) act" where
  "authorize_row eng sub row_type row_id act = authorize eng sub (row_object row_type row_id) act"

definition require_row :: "('e, 'l) policy_engine \<Rightarrow> string \<Rightarrow> string \<Rightarrow> string \<Rightarrow> action \<Rightarrow> (('e, 'l) policy_world, policy_error, unit) act" where
  "require_row eng sub row_type row_id act = require eng sub (row_object row_type row_id) act"

section \<open>Export and import\<close>

record policy_dump =
  pd_p :: "string list list"
  pd_g :: "string list list"

record import_report =
  ir_rules_added :: nat
  ir_groups_added :: nat
  ir_duplicates :: nat

text \<open>\<open>first().cloned().unwrap_or_default()\<close> and its siblings.\<close>

definition nth_or_default :: "string list \<Rightarrow> nat \<Rightarrow> string" where
  "nth_or_default r i = (if i < length r then r ! i else [])"

definition export_s3 :: "'e enforcer_ops \<Rightarrow> 'e \<Rightarrow> policy_dump" where
  "export_s3 ops enforcer = \<lparr>pd_p = ef_get_policy ops enforcer, pd_g = ef_get_grouping ops enforcer\<rparr>"

text \<open>The import calls the enforcer without an engine and without a latch; its error is the cause.\<close>

definition ef_raw :: "('e, casbin_error, 'a) act \<Rightarrow> (('e, 'l) policy_world, policy_error, 'a) act" where
  "ef_raw m = focus_act pw_enforcer (\<lambda>e w. w\<lparr>pw_enforcer := e\<rparr>) (map_err_act Casbin m)"

definition import_rule :: "('e, 'l) policy_engine \<Rightarrow> (wal_op \<Rightarrow> i64) \<Rightarrow> string list \<Rightarrow> import_report \<Rightarrow> (('e, 'l) policy_world, policy_error, import_report) act" where
  "import_rule eng ts rule rep =
     bind_act (ef_raw (ef_add_policy (pe_ops eng) rule)) (\<lambda>new.
     if new then
       bind_act (policy_announce eng ts (PolicyRuleAdd (nth_or_default rule 0) (nth_or_default rule 1) (nth_or_default rule 2))) (\<lambda>_.
       ok_act (rep\<lparr>ir_rules_added := ir_rules_added rep + 1\<rparr>))
     else ok_act (rep\<lparr>ir_duplicates := ir_duplicates rep + 1\<rparr>))"

definition import_link :: "('e, 'l) policy_engine \<Rightarrow> (wal_op \<Rightarrow> i64) \<Rightarrow> string list \<Rightarrow> import_report \<Rightarrow> (('e, 'l) policy_world, policy_error, import_report) act" where
  "import_link eng ts link rep =
     bind_act (ef_raw (ef_add_grouping (pe_ops eng) link)) (\<lambda>new.
     if new then
       bind_act (policy_announce eng ts (GroupAdd (nth_or_default link 0) (nth_or_default link 1))) (\<lambda>_.
       ok_act (rep\<lparr>ir_groups_added := ir_groups_added rep + 1\<rparr>))
     else ok_act (rep\<lparr>ir_duplicates := ir_duplicates rep + 1\<rparr>))"

definition import_s3 :: "('e, 'l) policy_engine \<Rightarrow> (wal_op \<Rightarrow> i64) \<Rightarrow> policy_dump \<Rightarrow> (('e, 'l) policy_world, policy_error, import_report) act" where
  "import_s3 eng ts dump =
     bind_act (for_act (pd_p dump) (import_rule eng ts) \<lparr>ir_rules_added = 0, ir_groups_added = 0, ir_duplicates = 0\<rparr>) (\<lambda>rep.
     for_act (pd_g dump) (import_link eng ts) rep)"

section \<open>What the engine relies on\<close>

type_synonym policy_sets = "string list set \<times> string list set"

definition links :: "string list set \<Rightarrow> (string \<times> string) set" where
  "links G = {(u, g). [u, g] \<in> G}"

text \<open>
  An enforcer holds a set of permission rules and a set of group links. Adding answers whether the rule is new and removing
  whether it was there; a call that fails has not changed what is enforced, though it may have left the store behind in a
  state where the enforcer promises nothing more. A subject is allowed through a rule of its own or of a group
  it is linked to, and through no rule that its groups do not lead to.
\<close>

locale enforcer =
  fixes ops :: "'e enforcer_ops" and prules grules :: "'e \<Rightarrow> string list set" and einv :: "'e \<Rightarrow> bool"
  assumes add_policy_law: "\<lbrakk>einv e; clean_rule r; length r = 3; ef_add_policy ops r e = (q, e')\<rbrakk> \<Longrightarrow> grules e' = grules e \<and>
      (case q of Inl _ \<Rightarrow> prules e' = prules e | Inr b \<Rightarrow> einv e' \<and> b = (r \<notin> prules e) \<and> prules e' = insert r (prules e))"
    and remove_policy_law: "\<lbrakk>einv e; clean_rule r; length r = 3; ef_remove_policy ops r e = (q, e')\<rbrakk> \<Longrightarrow> grules e' = grules e \<and>
      (case q of Inl _ \<Rightarrow> prules e' = prules e | Inr b \<Rightarrow> einv e' \<and> b = (r \<in> prules e) \<and> prules e' = prules e - {r})"
    and add_grouping_law: "\<lbrakk>einv e; clean_rule r; length r = 2; ef_add_grouping ops r e = (q, e')\<rbrakk> \<Longrightarrow> prules e' = prules e \<and>
      (case q of Inl _ \<Rightarrow> grules e' = grules e | Inr b \<Rightarrow> einv e' \<and> b = (r \<notin> grules e) \<and> grules e' = insert r (grules e))"
    and remove_grouping_law: "\<lbrakk>einv e; clean_rule r; length r = 2; ef_remove_grouping ops r e = (q, e')\<rbrakk> \<Longrightarrow> prules e' = prules e \<and>
      (case q of Inl _ \<Rightarrow> grules e' = grules e | Inr b \<Rightarrow> einv e' \<and> b = (r \<in> grules e) \<and> grules e' = grules e - {r})"
    and remove_filtered_law: "\<lbrakk>einv e; ef_remove_filtered_grouping ops n vals e = (q, e')\<rbrakk> \<Longrightarrow> prules e' = prules e \<and>
      (case q of Inl _ \<Rightarrow> grules e' = grules e
       | Inr b \<Rightarrow> einv e' \<and> b = (\<exists>l \<in> grules e. rule_matches l n vals) \<and> grules e' = {l \<in> grules e. \<not> rule_matches l n vals})"
    and enforce_sound: "\<lbrakk>einv e; ef_enforce ops s ob a e = Inr True\<rbrakk> \<Longrightarrow> \<exists>p. [p, ob, a] \<in> prules e \<and> (s, p) \<in> (links (grules e))\<^sup>*"
    and enforce_direct: "\<lbrakk>einv e; ef_enforce ops s ob a e = Inr False; [p, ob, a] \<in> prules e\<rbrakk> \<Longrightarrow> s \<noteq> p \<and> [s, p] \<notin> grules e"
    and get_policy_law: "einv e \<Longrightarrow> set (ef_get_policy ops e) = prules e \<and> distinct (ef_get_policy ops e)"
    and get_grouping_law: "einv e \<Longrightarrow> set (ef_get_grouping ops e) = grules e \<and> distinct (ef_get_grouping ops e)"
    and filtered_law: "einv e \<Longrightarrow> set (ef_get_filtered ops n vals e) = {r \<in> prules e. rule_matches r n vals}"
    and users_law: "einv e \<Longrightarrow> set (ef_users_for_role ops g e) = {u. [u, g] \<in> grules e}"
    and roles_law: "einv e \<Longrightarrow> set (ef_roles_for_user ops u e) = {g. [u, g] \<in> grules e}"

section \<open>Specification\<close>

datatype policy_op =
    AddRule string string action
  | RemoveRule string string action
  | AssignGroup string string
  | RemoveFromGroup string string
  | DeleteGroup string

fun run_op :: "('e, 'l) policy_engine \<Rightarrow> (wal_op \<Rightarrow> i64) \<Rightarrow> policy_op \<Rightarrow> (('e, 'l) policy_world, policy_error, bool) act" where
  "run_op eng ts (AddRule s ob a) = add_rule eng ts s ob a"
| "run_op eng ts (RemoveRule s ob a) = remove_rule eng ts s ob a"
| "run_op eng ts (AssignGroup u g) = assign_group eng ts u g"
| "run_op eng ts (RemoveFromGroup u g) = remove_from_group eng ts u g"
| "run_op eng ts (DeleteGroup g) = delete_group eng ts g"

text \<open>What a replica makes of an entry of the feed.\<close>

fun replay_op :: "wal_op \<Rightarrow> policy_sets \<Rightarrow> policy_sets" where
  "replay_op (PolicyRuleAdd s ob a) (P, G) = (insert [s, ob, a] P, G)"
| "replay_op (PolicyRuleRemove s ob a) (P, G) = (P - {[s, ob, a]}, G)"
| "replay_op (GroupAdd u g) (P, G) = (P, insert [u, g] G)"
| "replay_op (GroupRemove u g) (P, G) = (P, G - {[u, g]})"
| "replay_op (GroupDelete g) (P, G) = (P, {l \<in> G. \<not> rule_matches l 1 [g]})"
| "replay_op _ PG = PG"

fun wal_of :: "policy_op \<Rightarrow> wal_op" where
  "wal_of (AddRule s ob a) = PolicyRuleAdd s ob (act_text a)"
| "wal_of (RemoveRule s ob a) = PolicyRuleRemove s ob (act_text a)"
| "wal_of (AssignGroup u g) = GroupAdd u g"
| "wal_of (RemoveFromGroup u g) = GroupRemove u g"
| "wal_of (DeleteGroup g) = GroupDelete g"

definition effect :: "policy_op \<Rightarrow> policy_sets \<Rightarrow> policy_sets" where
  "effect op = replay_op (wal_of op)"

fun op_clean :: "policy_op \<Rightarrow> bool" where
  "op_clean (AddRule s ob a) = clean_rule [s, ob]"
| "op_clean (RemoveRule s ob a) = clean_rule [s, ob]"
| "op_clean (AssignGroup u g) = clean_rule [u, g]"
| "op_clean (RemoveFromGroup u g) = clean_rule [u, g]"
| "op_clean (DeleteGroup g) = True"

lemma clean_act [simp]: "unit_sep \<notin> set (act_text a)"
  by (cases a) (simp_all add: unit_sep_def)

lemma clean_rule_simps [simp]: "clean_rule []" "clean_rule (x # r) \<longleftrightarrow> unit_sep \<notin> set x \<and> clean_rule r"
  by (auto simp: clean_rule_def)

text \<open>Every mutation is one call of the enforcer and the announcement of its entry when the call changed something.\<close>

fun op_call :: "'e enforcer_ops \<Rightarrow> policy_op \<Rightarrow> ('e, casbin_error, bool) act" where
  "op_call ops (AddRule s ob a) = ef_add_policy ops [s, ob, act_text a]"
| "op_call ops (RemoveRule s ob a) = ef_remove_policy ops [s, ob, act_text a]"
| "op_call ops (AssignGroup u g) = ef_add_grouping ops [u, g]"
| "op_call ops (RemoveFromGroup u g) = ef_remove_grouping ops [u, g]"
| "op_call ops (DeleteGroup g) = ef_remove_filtered_grouping ops 1 [g]"

lemma run_op_form:
  "run_op eng ts op = bind_act (ef_call (op_call (pe_ops eng) op)) (\<lambda>success.
     bind_act (if success then policy_announce eng ts (wal_of op) else ok_act ()) (\<lambda>_. ok_act success))"
  by (cases op; hypsubst; unfold run_op.simps op_call.simps wal_of.simps add_rule_def remove_rule_def assign_group_def
      remove_from_group_def delete_group_def; rule refl)

context enforcer
begin

lemma op_law:
  assumes "einv e" and "op_clean op" and "op_call ops op e = (q, e')" and PG: "prules e = fst PG" "grules e = snd PG"
  shows "case q of Inl _ \<Rightarrow> prules e' = fst PG \<and> grules e' = snd PG
         | Inr b \<Rightarrow> einv e' \<and> b = (effect op PG \<noteq> PG) \<and> prules e' = fst (effect op PG) \<and> grules e' = snd (effect op PG)"
proof -
  obtain P G where [simp]: "PG = (P, G)" by force
  show ?thesis
  proof (cases op)
    case (AddRule s ob a)
    then show ?thesis
      using add_policy_law [OF assms(1), of "[s, ob, act_text a]" q e'] assms(2-) by (cases q) (auto simp: effect_def)
  next
    case (RemoveRule s ob a)
    then show ?thesis
      using remove_policy_law [OF assms(1), of "[s, ob, act_text a]" q e'] assms(2-) by (cases q) (auto simp: effect_def)
  next
    case (AssignGroup u g)
    then show ?thesis
      using add_grouping_law [OF assms(1), of "[u, g]" q e'] assms(2-) by (cases q) (auto simp: effect_def)
  next
    case (RemoveFromGroup u g)
    then show ?thesis
      using remove_grouping_law [OF assms(1), of "[u, g]" q e'] assms(2-) by (cases q) (auto simp: effect_def)
  next
    case (DeleteGroup g)
    then show ?thesis
      using remove_filtered_law [OF assms(1), of 1 "[g]" q e'] assms(2-) by (cases q) (auto simp: effect_def)
  qed
qed

end

definition sa_rule :: "string \<times> action \<Rightarrow> string list" where
  "sa_rule x = [SUPERADMIN_ROLE, fst x, act_text (snd x)]"

definition sa_entry :: "string \<times> action \<Rightarrow> wal_op" where
  "sa_entry x = PolicyRuleAdd SUPERADMIN_ROLE (fst x) (act_text (snd x))"

definition missing :: "string list set \<Rightarrow> (string \<times> action) list" where
  "missing P = filter (\<lambda>x. sa_rule x \<notin> P) superadmin_rules"

definition sa_rules :: "string list set" where
  "sa_rules = sa_rule ` set superadmin_rules"

lemma sa_rule_inj [simp]: "sa_rule x = sa_rule y \<longleftrightarrow> x = y"
  by (auto simp: sa_rule_def prod_eq_iff)

lemma length_sa_rule [simp]: "length (sa_rule x) = 3"
  by (simp add: sa_rule_def)

lemma superadmin_rules_clean: "x \<in> set superadmin_rules \<Longrightarrow> clean_rule (sa_rule x)"
  by (auto simp: superadmin_rules_def sa_rule_def SUPERADMIN_ROLE_def unit_sep_def)

lemma distinct_superadmin_rules: "distinct superadmin_rules"
  by (simp add: superadmin_rules_def)

lemma length_missing: "length (missing P) \<le> 4"
  using length_filter_le [of _ superadmin_rules] by (simp add: missing_def superadmin_rules_def)

lemma replay_missing: "fold replay_op (map sa_entry (missing P)) (P, G) = (sa_rules \<union> P, G)"
proof -
  have "fold replay_op (map sa_entry xs) (Q, G) = (sa_rule ` set xs \<union> Q, G)" for xs Q
    by (induction xs arbitrary: Q) (auto simp: sa_entry_def sa_rule_def)
  then show ?thesis by (auto simp: missing_def sa_rules_def)
qed

locale policy_over = enforcer "pe_ops eng" prules grules einv + change_sink sink feed finv capacity
  for eng :: "('e, 'l) policy_engine" and prules grules einv sink feed finv capacity +
  assumes wired: "pe_feed eng = Some sink"
begin

definition at :: "('e, 'l) policy_world \<Rightarrow> policy_sets \<Rightarrow> wal_op list \<Rightarrow> bool" where
  "at w PG l \<longleftrightarrow> prules (pw_enforcer w) = fst PG \<and> grules (pw_enforcer w) = snd PG \<and> feed (pw_feed w) = l \<and> finv (pw_feed w)"

definition live :: "('e, 'l) policy_world \<Rightarrow> bool" where
  "live w \<longleftrightarrow> einv (pw_enforcer w)"

lemma wp_announce:
  assumes "at w PG l" and "length l < capacity" and "live w"
    and "\<And>w'. at w' PG (l @ [op]) \<Longrightarrow> live w' \<Longrightarrow> Q (Inr ()) w'"
    and "\<And>w' t l'. at w' PG l' \<Longrightarrow> live w' \<Longrightarrow> l' = l \<or> l' = l @ [op] \<Longrightarrow> Q (Inl (ChangeFeed t)) w'"
  shows "wp (policy_announce eng ts op) Q w"
  unfolding policy_announce_def wired option.case wp_focus wp_map_err
proof (rule wpI)
  fix r s' assume run: "sink (ts op) op (pw_feed w) = (r, s')"
  have f: "finv (pw_feed w)" "length (feed (pw_feed w)) < capacity" using assms(1,2) by (auto simp: at_def)
  have live: "live (w\<lparr>pw_feed := s'\<rparr>)" using assms(3) by (simp add: live_def)
  show "case r of Inl e \<Rightarrow> Q (Inl (ChangeFeed e)) (w\<lparr>pw_feed := s'\<rparr>) | Inr x \<Rightarrow> Q (Inr x) (w\<lparr>pw_feed := s'\<rparr>)"
  proof (cases r)
    case (Inl e)
    with append_err [OF f] run have "finv s' \<and> (feed s' = feed (pw_feed w) \<or> feed s' = feed (pw_feed w) @ [op])" by blast
    then show ?thesis using assms(1) live unfolding Inl sum.case by (intro assms(5) [of _ "feed s'"]) (auto simp: at_def)
  next
    case (Inr u)
    with append_ok [OF f] run have "finv s' \<and> feed s' = feed (pw_feed w) @ [op]" by blast
    then show ?thesis using assms(1) live assms(4) [of "w\<lparr>pw_feed := s'\<rparr>"] by (simp add: Inr at_def)
  qed
qed

text \<open>One call of the enforcer, from its law: \<open>new\<close> is what it answers and \<open>PG'\<close> what it leaves when it answers.\<close>

lemma wp_ef_call:
  assumes "at w PG l" and "live w"
    and law: "\<And>e q e'. einv e \<Longrightarrow> m e = (q, e') \<Longrightarrow> prules e = fst PG \<Longrightarrow> grules e = snd PG \<Longrightarrow>
        (case q of Inl _ \<Rightarrow> prules e' = fst PG \<and> grules e' = snd PG
         | Inr b \<Rightarrow> einv e' \<and> b = new \<and> prules e' = fst PG' \<and> grules e' = snd PG')"
    and "\<And>w'. at w' PG' l \<Longrightarrow> live w' \<Longrightarrow> Q (Inr new) w'"
    and "\<And>w' e. at w' PG l \<Longrightarrow> \<forall>t. e \<noteq> ChangeFeed t \<Longrightarrow> Q (Inl e) w'"
  shows "wp (ef_call m) Q w"
proof (rule wpI)
  fix r w' assume run: "ef_call m w = (r, w')"
  obtain q e' where m: "m (pw_enforcer w) = (q, e')" by force
  have e: "einv (pw_enforcer w)" "prules (pw_enforcer w) = fst PG" "grules (pw_enforcer w) = snd PG"
    using assms(1,2) by (simp_all add: at_def live_def)
  have err: "\<forall>t. fst (classify_with la ce) \<noteq> ChangeFeed t" for la ce
    by (auto simp: classify_with_def split: option.splits store_error.splits)
  show "Q r w'"
  proof (cases q)
    case (Inl ce)
    obtain pe la where c: "classify_with (pw_latch w) ce = (pe, la)" by force
    have r: "r = Inl pe" "w' = w\<lparr>pw_enforcer := e', pw_latch := la\<rparr>"
      using run m c by (simp_all add: ef_call_def Inl)
    show ?thesis unfolding r
      by (rule assms(5)) (use law [OF e(1) m e(2,3)] Inl assms(1) err [of "pw_latch w" ce] c in \<open>simp_all add: at_def\<close>)
  next
    case (Inr b)
    have r: "r = Inr b" "w' = w\<lparr>pw_enforcer := e'\<rparr>" using run m by (simp_all add: ef_call_def Inr)
    have "b = new" using law [OF e(1) m e(2,3)] Inr by simp
    show ?thesis unfolding r \<open>b = new\<close>
      by (rule assms(4)) (use law [OF e(1) m e(2,3)] Inr assms(1) in \<open>simp_all add: at_def live_def\<close>)
  qed
qed

lemma wp_mutation:
  assumes "at w PG l" and "live w" and room: "length l < capacity"
    and law: "\<And>e q e'. einv e \<Longrightarrow> m e = (q, e') \<Longrightarrow> prules e = fst PG \<Longrightarrow> grules e = snd PG \<Longrightarrow>
        (case q of Inl _ \<Rightarrow> prules e' = fst PG \<and> grules e' = snd PG
         | Inr b \<Rightarrow> einv e' \<and> b = (PG' \<noteq> PG) \<and> prules e' = fst PG' \<and> grules e' = snd PG')"
    and "\<And>w'. at w' PG' (l @ [op]) \<Longrightarrow> live w' \<Longrightarrow> PG' \<noteq> PG \<Longrightarrow> Q (Inr True) w'"
    and "\<And>w'. at w' PG l \<Longrightarrow> live w' \<Longrightarrow> PG' = PG \<Longrightarrow> Q (Inr False) w'"
    and "\<And>w' e. at w' PG l \<Longrightarrow> \<forall>t. e \<noteq> ChangeFeed t \<Longrightarrow> Q (Inl e) w'"
    and "\<And>w' t l'. at w' PG' l' \<Longrightarrow> live w' \<Longrightarrow> PG' \<noteq> PG \<Longrightarrow> l' = l \<or> l' = l @ [op] \<Longrightarrow> Q (Inl (ChangeFeed t)) w'"
  shows "wp (bind_act (ef_call m) (\<lambda>success. bind_act (if success then policy_announce eng ts op else ok_act ()) (\<lambda>_. ok_act success))) Q w"
proof -
  have "wp (bind_act (if success then policy_announce eng ts op else ok_act ()) (\<lambda>_. ok_act success)) Q w'"
    if w': "at w' PG' l" "live w'" and success: "success = (PG' \<noteq> PG)" for w' success
  proof (cases "PG' = PG")
    case True
    then show ?thesis using assms(6) w' success by simp
  next
    case False
    then have "success" using success by simp
    then show ?thesis
      unfolding wp_bind by (simp, intro wp_announce [OF w'(1) room w'(2)]) (use False assms(5,8) in auto)
  qed
  then show ?thesis
    unfolding wp_bind [of "ef_call _"]
    by (intro wp_ef_call [OF assms(1,2) law]) (use assms(7) in \<open>auto simp del: wp_bind\<close>)
qed

lemma wp_op:
  assumes "at w PG l" and "live w" and "length l < capacity" and "op_clean op"
    and "\<And>w'. at w' (effect op PG) (l @ [wal_of op]) \<Longrightarrow> live w' \<Longrightarrow> effect op PG \<noteq> PG \<Longrightarrow> Q (Inr True) w'"
    and "\<And>w'. at w' PG l \<Longrightarrow> live w' \<Longrightarrow> effect op PG = PG \<Longrightarrow> Q (Inr False) w'"
    and "\<And>w' e. at w' PG l \<Longrightarrow> \<forall>t. e \<noteq> ChangeFeed t \<Longrightarrow> Q (Inl e) w'"
    and "\<And>w' t l'. at w' (effect op PG) l' \<Longrightarrow> live w' \<Longrightarrow> effect op PG \<noteq> PG \<Longrightarrow> l' = l \<or> l' = l @ [wal_of op] \<Longrightarrow> Q (Inl (ChangeFeed t)) w'"
  shows "wp (run_op eng ts op) Q w"
  unfolding run_op_form by (rule wp_mutation [OF assms(1-3) op_law [OF _ assms(4)] assms(5-8)])

lemma wp_ensure:
  assumes "at w (P, G) l" and "live w"
    and "\<And>w'. at w' (sa_rules \<union> P, G) l \<Longrightarrow> live w' \<Longrightarrow> Q (Inr (missing P)) w'"
    and "\<And>w' e P'. at w' (P', G) l \<Longrightarrow> P \<subseteq> P' \<Longrightarrow> P' \<subseteq> sa_rules \<union> P \<Longrightarrow> \<forall>t. e \<noteq> ChangeFeed t \<Longrightarrow> Q (Inl e) w'"
  shows "wp (ensure_superadmin_rules eng) Q w"
  unfolding ensure_superadmin_rules_def
proof (rule wp_for [where I = "\<lambda>rest added w'. \<exists>pre. superadmin_rules = pre @ rest \<and> live w' \<and>
    at w' (sa_rule ` set pre \<union> P, G) l \<and> added = filter (\<lambda>x. sa_rule x \<notin> P) pre"], goal_cases)
  case 1
  show ?case using assms(1,2) by simp
next
  case (2 x rest added w')
  then obtain pre where p: "superadmin_rules = pre @ x # rest" "live w'" "at w' (sa_rule ` set pre \<union> P, G) l" "added = filter (\<lambda>x. sa_rule x \<notin> P) pre" by blast
  have new: "x \<notin> set pre" using distinct_superadmin_rules by (simp add: p(1))
  have clean: "clean_rule (sa_rule x)" by (rule superadmin_rules_clean) (simp add: p(1))
  have sub: "sa_rule ` set pre \<subseteq> sa_rules" unfolding sa_rules_def p(1) by auto
  have call: "wp (ef_call (ef_add_policy (pe_ops eng) (sa_rule x))) R w'"
    if "\<And>w2. at w2 (sa_rule ` set (pre @ [x]) \<union> P, G) l \<Longrightarrow> live w2 \<Longrightarrow> R (Inr (sa_rule x \<notin> P)) w2"
      and "\<And>w2 e. at w2 (sa_rule ` set pre \<union> P, G) l \<Longrightarrow> \<forall>t. e \<noteq> ChangeFeed t \<Longrightarrow> R (Inl e) w2" for R
    by (rule wp_ef_call [OF p(3,2), where PG' = "(sa_rule ` set (pre @ [x]) \<union> P, G)" and new = "sa_rule x \<notin> P"])
       (use add_policy_law [OF _ clean] length_sa_rule new that in \<open>fastforce split: sum.splits\<close>)+
  have stop: "Q (Inl e) w2" if "at w2 (sa_rule ` set pre \<union> P, G) l" "\<forall>t. e \<noteq> ChangeFeed t" for w2 e
    by (rule assms(4) [OF that(1)]) (use sub that(2) in auto)
  show ?case
    unfolding case_prod_unfold wp_bind sa_rule_def [symmetric]
    by (rule call, unfold sum.case wp_ok) (use stop p(1,4) in \<open>auto intro!: exI [of _ "pre @ [x]"]\<close>)
next
  case (3 added w')
  then show ?case using assms(3) by (auto simp: missing_def sa_rules_def)
qed

lemma wp_announce_rules:
  assumes "at w PG l" and "live w" and "length l + length added \<le> capacity"
    and "\<And>w'. at w' PG (l @ map sa_entry added) \<Longrightarrow> live w' \<Longrightarrow> Q (Inr ()) w'"
    and "\<And>w' t l'. at w' PG l' \<Longrightarrow> live w' \<Longrightarrow> Q (Inl (ChangeFeed t)) w'"
  shows "wp (announce_rules eng ts added) Q w"
  unfolding announce_rules_def
proof (rule wp_for [where I = "\<lambda>rest _ w'. \<exists>pre. added = pre @ rest \<and> live w' \<and> at w' PG (l @ map sa_entry pre)"], goal_cases)
  case (2 x rest acc w')
  then obtain pre where p: "added = pre @ x # rest" "live w'" "at w' PG (l @ map sa_entry pre)" by blast
  have room: "length (l @ map sa_entry pre) < capacity" using assms(3) p(1) by simp
  show ?case
    unfolding case_prod_unfold sa_entry_def [symmetric]
    by (rule wp_announce [OF p(3) room p(2)]) (use p(1) assms(5) in \<open>auto intro!: exI [of _ "pre @ [x]"]\<close>)
qed (use assms in auto)

text \<open>A claim: refused when the role has a holder, and then it only adds the rules of the role that are missing.\<close>

lemma wp_claim:
  assumes "at w (P, G) l" and "live w" and room: "length l + 5 \<le> capacity" and u: "clean_rule [u]"
    and "\<And>w'. at w' (sa_rules \<union> P, G) (l @ map sa_entry (missing P)) \<Longrightarrow> live w' \<Longrightarrow> \<exists>v. [v, SUPERADMIN_ROLE] \<in> G \<Longrightarrow> Q (Inr False) w'"
    and "\<And>w'. at w' (sa_rules \<union> P, insert [u, SUPERADMIN_ROLE] G) (l @ GroupAdd u SUPERADMIN_ROLE # map sa_entry (missing P)) \<Longrightarrow> live w' \<Longrightarrow>
        \<nexists>v. [v, SUPERADMIN_ROLE] \<in> G \<Longrightarrow> Q (Inr True) w'"
    and "\<And>w' e P' G' l'. at w' (P', G') l' \<Longrightarrow> P \<subseteq> P' \<Longrightarrow> P' \<subseteq> sa_rules \<union> P \<Longrightarrow>
        G' = G \<or> G' = insert [u, SUPERADMIN_ROLE] G \<and> (\<nexists>v. [v, SUPERADMIN_ROLE] \<in> G) \<Longrightarrow> Q (Inl e) w'"
  shows "wp (claim_superadmin eng ts u) Q w"
proof -
  have four: "length (missing P) \<le> 4" by (rule length_missing)
  have users: "ef_users_for_role (pe_ops eng) SUPERADMIN_ROLE (pw_enforcer w) \<noteq> [] \<longleftrightarrow> (\<exists>v. [v, SUPERADMIN_ROLE] \<in> G)"
    using users_law [of "pw_enforcer w" SUPERADMIN_ROLE] assms(1,2) by (auto simp: at_def live_def simp flip: set_empty)
  have tell: "wp (bind_act (announce_rules eng ts (missing P)) (\<lambda>_. ok_act b)) Q w'"
    if "at w' (sa_rules \<union> P, G') l'" "live w'" "length l' + 4 \<le> capacity"
      and "\<And>w2. at w2 (sa_rules \<union> P, G') (l' @ map sa_entry (missing P)) \<Longrightarrow> live w2 \<Longrightarrow> Q (Inr b) w2"
      and "G' = G \<or> G' = insert [u, SUPERADMIN_ROLE] G \<and> (\<nexists>v. [v, SUPERADMIN_ROLE] \<in> G)" for w' G' l' b
    unfolding wp_bind
    by (rule wp_announce_rules [OF that(1,2)], use four that(3) in simp) (use that(4,5) assms(7) in auto)
  show ?thesis
  proof (cases "\<exists>v. [v, SUPERADMIN_ROLE] \<in> G")
    case True
    have "wp (bind_act (ensure_superadmin_rules eng) (\<lambda>repaired. bind_act (announce_rules eng ts repaired) (\<lambda>_. ok_act False))) Q w"
      unfolding wp_bind [of "ensure_superadmin_rules _"]
      by (rule wp_ensure [OF assms(1,2)], unfold sum.case, rule tell) (use room True assms(5,7) in auto)
    then show ?thesis using users True by (simp add: wp_def claim_superadmin_def)
  next
    case False
    let ?G = "insert [u, SUPERADMIN_ROLE] G"
    have clean: "clean_rule [u, SUPERADMIN_ROLE]" using u by (simp add: SUPERADMIN_ROLE_def unit_sep_def)
    have say: "wp (bind_act (policy_announce eng ts (GroupAdd u SUPERADMIN_ROLE)) (\<lambda>_. bind_act (announce_rules eng ts (missing P)) (\<lambda>_. ok_act True))) Q w'"
      if "at w' (sa_rules \<union> P, ?G) l" "live w'" for w'
      unfolding wp_bind [of "policy_announce _ _ _"]
      by (rule wp_announce [OF that(1) _ that(2)], use room in simp, unfold sum.case, rule tell) (use room False assms(6,7) in auto)
    have seed: "wp (bind_act (ensure_superadmin_rules eng) (\<lambda>seeded. bind_act (policy_announce eng ts (GroupAdd u SUPERADMIN_ROLE)) (\<lambda>_.
        bind_act (announce_rules eng ts seeded) (\<lambda>_. ok_act True)))) Q w'" if "at w' (P, ?G) l" "live w'" for w'
      unfolding wp_bind [of "ensure_superadmin_rules _"]
      by (rule wp_ensure [OF that], unfold sum.case, rule say) (use False assms(7) in auto)
    have "wp (bind_act (ef_call (ef_add_grouping (pe_ops eng) [u, SUPERADMIN_ROLE])) (\<lambda>_. bind_act (ensure_superadmin_rules eng) (\<lambda>seeded.
        bind_act (policy_announce eng ts (GroupAdd u SUPERADMIN_ROLE)) (\<lambda>_. bind_act (announce_rules eng ts seeded) (\<lambda>_. ok_act True))))) Q w"
      unfolding wp_bind [of "ef_call _"]
      by (rule wp_ef_call [OF assms(1,2), where PG' = "(P, ?G)" and new = True], unfold sum.case)
         (use add_grouping_law [OF _ clean] False seed assms(7) in \<open>fastforce split: sum.splits\<close>)+
    then show ?thesis using users False by (simp add: wp_def claim_superadmin_def)
  qed
qed

end

end
