(* ===== verification/Policy_Props.thy ===== *)
theory Policy_Props
  imports Policy_Engine
begin

text \<open>
  The properties of the policy engine. The enforcer of the witnesses keeps its rules in lists and saves every change
  through the adapter of the repository before it applies it, on the in-memory key-value store.
\<close>

section \<open>An enforcer over the adapter\<close>

record mem_enforcer =
  me_p :: "string list list"
  me_g :: "string list list"
  me_store :: "string list mem_kv"

definition boxed :: "store_error \<Rightarrow> casbin_error" where
  "boxed x = \<lparr>ce_adapter = Some x, ce_text = ''adapter error''\<rparr>"

text \<open>Save first, then apply when the store took the change.\<close>

definition saved :: "(string list mem_kv, store_error, bool) act \<Rightarrow> (mem_enforcer \<Rightarrow> mem_enforcer) \<Rightarrow> (mem_enforcer, casbin_error, bool) act" where
  "saved m f e =
     (case m (me_store e) of
        (Inl x, s) \<Rightarrow> (Inl (boxed x), e\<lparr>me_store := s\<rparr>)
      | (Inr b, s) \<Rightarrow> (Inr b, if b then f (e\<lparr>me_store := s\<rparr>) else e\<lparr>me_store := s\<rparr>))"

fun reaches :: "nat \<Rightarrow> string list list \<Rightarrow> string \<Rightarrow> string \<Rightarrow> bool" where
  "reaches 0 G s p = (s = p)"
| "reaches (Suc n) G s p = (s = p \<or> list_ex (\<lambda>l. length l = 2 \<and> l ! 0 = s \<and> reaches n G (l ! 1) p) G)"

definition mem_enf :: "mem_enforcer enforcer_ops" where
  "mem_enf = \<lparr>
     ef_add_policy = (\<lambda>r. saved (add_policies mem_ops plain_rules ''p'' ''p'' [r]) (\<lambda>e. e\<lparr>me_p := me_p e @ [r]\<rparr>)),
     ef_remove_policy = (\<lambda>r. saved (remove_policies mem_ops ''p'' ''p'' [r]) (\<lambda>e. e\<lparr>me_p := removeAll r (me_p e)\<rparr>)),
     ef_add_grouping = (\<lambda>r. saved (add_policies mem_ops plain_rules ''g'' ''g'' [r]) (\<lambda>e. e\<lparr>me_g := me_g e @ [r]\<rparr>)),
     ef_remove_grouping = (\<lambda>r. saved (remove_policies mem_ops ''g'' ''g'' [r]) (\<lambda>e. e\<lparr>me_g := removeAll r (me_g e)\<rparr>)),
     ef_remove_filtered_grouping = (\<lambda>n vals. saved (remove_filtered_policy mem_ops plain_rules ''g'' ''g'' n vals)
        (\<lambda>e. e\<lparr>me_g := filter (\<lambda>l. \<not> rule_matches l n vals) (me_g e)\<rparr>)),
     ef_enforce = (\<lambda>s ob a e. Inr (list_ex (\<lambda>r. length r = 3 \<and> r ! 1 = ob \<and> r ! 2 = a \<and> reaches 10 (me_g e) s (r ! 0)) (me_p e))),
     ef_get_policy = me_p,
     ef_get_grouping = me_g,
     ef_get_filtered = (\<lambda>n vals e. filter (\<lambda>r. rule_matches r n vals) (me_p e)),
     ef_users_for_role = (\<lambda>g e. map (\<lambda>l. l ! 0) (filter (\<lambda>l. length l = 2 \<and> l ! 1 = g) (me_g e))),
     ef_roles_for_user = (\<lambda>u e. map (\<lambda>l. l ! 1) (filter (\<lambda>l. length l = 2 \<and> l ! 0 = u) (me_g e))),
     ef_all_roles = (\<lambda>e. remdups (map (\<lambda>l. l ! 1) (me_g e)))\<rparr>"

definition tagged :: "string \<Rightarrow> string list set \<Rightarrow> (string \<times> string \<times> string list) set" where
  "tagged sec R = Pair sec ` Pair sec ` R"

definition mem_einv :: "mem_enforcer \<Rightarrow> bool" where
  "mem_einv e \<longleftrightarrow> holds_rules plain_rules (mem_abs (me_store e)) (tagged ''p'' (set (me_p e)) \<union> tagged ''g'' (set (me_g e))) \<and>
     distinct (me_p e) \<and> distinct (me_g e)"

lemma savedE:
  assumes "saved m f e = (q, e')"
  obtains (err) x s where "m (me_store e) = (Inl x, s)" "q = Inl (boxed x)" "e' = e\<lparr>me_store := s\<rparr>"
    | (ok) b s where "m (me_store e) = (Inr b, s)" "q = Inr b" "e' = (if b then f (e\<lparr>me_store := s\<rparr>) else e\<lparr>me_store := s\<rparr>)"
  using assms by (auto simp: saved_def split: prod.splits sum.splits)

lemma tagged_simps [simp]: "(sec, pt, r) \<in> tagged sec' R \<longleftrightarrow> sec = sec' \<and> pt = sec' \<and> r \<in> R" "tagged sec {} = {}"
    "tagged sec (insert r R) = insert (sec, sec, r) (tagged sec R)"
  by (auto simp: tagged_def)

lemma tagged_minus: "tagged sec (A - B) = tagged sec A - tagged sec B" "sec \<noteq> sec' \<Longrightarrow> tagged sec A \<inter> tagged sec' B = {}"
  by (auto simp: tagged_def)

lemma pair_list: "length l = 2 \<Longrightarrow> l = [l ! 0, l ! 1]"
  by (auto simp: numeral_2_eq_2 length_Suc_conv)

lemma triple_list: "length l = 3 \<Longrightarrow> l = [l ! 0, l ! 1, l ! 2]"
  by (auto simp: numeral_3_eq_3 length_Suc_conv numeral_2_eq_2)

lemma mem_einv_length:
  assumes "mem_einv e"
  shows "(r \<in> set (me_p e) \<longrightarrow> length r = 3) \<and> (r \<in> set (me_g e) \<longrightarrow> length r = 2)"
proof -
  have "shaped x" if "x \<in> tagged ''p'' (set (me_p e)) \<union> tagged ''g'' (set (me_g e))" for x
    using assms that by (simp add: mem_einv_def holds_rules_def)
  from this [of "(''p'', ''p'', r)"] this [of "(''g'', ''g'', r)"] show ?thesis by (simp add: shaped_def)
qed

lemma reaches_links: "reaches n G s p \<Longrightarrow> (s, p) \<in> (links (set G))\<^sup>*"
proof (induction n arbitrary: s)
  case (Suc n)
  then consider "s = p" | l where "l \<in> set G" "length l = 2" "l ! 0 = s" "reaches n G (l ! 1) p"
    by (auto simp: list_ex_iff)
  then show ?case
  proof cases
    case (2 l)
    then have "l = [s, l ! 1]" using pair_list [OF 2(2)] by simp
    with 2 have "(s, l ! 1) \<in> links (set G)" by (auto simp: links_def)
    then show ?thesis using Suc.IH [OF 2(4)] by (rule converse_rtrancl_into_rtrancl)
  qed simp
qed simp

lemma mem_add_law:
  assumes "mem_einv e" "clean_rule r" and run: "add_policies mem_ops plain_rules sec sec [r] (me_store e) = (q, s)"
    and R: "R = tagged ''p'' (set (me_p e)) \<union> tagged ''g'' (set (me_g e))"
  shows "case q of Inl _ \<Rightarrow> True | Inr b \<Rightarrow> b = ((sec, sec, r) \<notin> R) \<and> holds_rules plain_rules (mem_abs s) (insert (sec, sec, r) R)"
proof -
  have h: "holds_rules plain_rules (mem_abs (me_store e)) R" using assms(1) by (simp add: mem_einv_def R)
  have "wp (add_policies mem_ops plain_rules sec sec [r])
      (\<lambda>q s. case q of Inl _ \<Rightarrow> True | Inr b \<Rightarrow> b = ((sec, sec, r) \<notin> R) \<and> holds_rules plain_rules (mem_abs s) (insert (sec, sec, r) R)) (me_store e)"
    by (rule memrules.wp_add_policies [OF h]) (use assms(2) h in \<open>auto simp: insert_absorb\<close>)
  from wpD [OF this run] show ?thesis .
qed

lemma mem_remove_law:
  assumes "mem_einv e" "clean_rule r" "shaped (sec, sec, r)" and run: "remove_policies mem_ops sec sec [r] (me_store e) = (q, s)"
    and R: "R = tagged ''p'' (set (me_p e)) \<union> tagged ''g'' (set (me_g e))"
  shows "case q of Inl _ \<Rightarrow> True | Inr b \<Rightarrow> b = ((sec, sec, r) \<in> R) \<and> holds_rules plain_rules (mem_abs s) (R - {(sec, sec, r)})"
proof -
  have h: "holds_rules plain_rules (mem_abs (me_store e)) R" using assms(1) by (simp add: mem_einv_def R)
  have "wp (remove_policies mem_ops sec sec [r])
      (\<lambda>q s. case q of Inl _ \<Rightarrow> True | Inr b \<Rightarrow> b = ((sec, sec, r) \<in> R) \<and> holds_rules plain_rules (mem_abs s) (R - {(sec, sec, r)})) (me_store e)"
    by (rule memrules.wp_remove_policies [OF h]) (use assms(2,3) h in auto)
  from wpD [OF this run] show ?thesis .
qed

lemma mem_filtered_law:
  assumes "mem_einv e" and run: "remove_filtered_policy mem_ops plain_rules ''g'' ''g'' n vals (me_store e) = (q, s)"
  shows "case q of Inl _ \<Rightarrow> True | Inr b \<Rightarrow> b = (\<exists>l \<in> set (me_g e). rule_matches l n vals) \<and>
      holds_rules plain_rules (mem_abs s) (tagged ''p'' (set (me_p e)) \<union> tagged ''g'' {l \<in> set (me_g e). \<not> rule_matches l n vals})"
proof -
  let ?R = "tagged ''p'' (set (me_p e)) \<union> tagged ''g'' (set (me_g e))" let ?D = "{r \<in> ?R. fst r = ''g'' \<and> fst (snd r) = ''g'' \<and> rule_matches (snd (snd r)) n vals}"
  have h: "holds_rules plain_rules (mem_abs (me_store e)) ?R" using assms(1) by (simp add: mem_einv_def)
  have D: "?R - ?D = tagged ''p'' (set (me_p e)) \<union> tagged ''g'' {l \<in> set (me_g e). \<not> rule_matches l n vals}"
    "?D \<noteq> {} \<longleftrightarrow> (\<exists>l \<in> set (me_g e). rule_matches l n vals)"
    by (auto simp: tagged_def) blast
  have "wp (remove_filtered_policy mem_ops plain_rules ''g'' ''g'' n vals)
      (\<lambda>q s. case q of Inl _ \<Rightarrow> True | Inr b \<Rightarrow> b = (?D \<noteq> {}) \<and> holds_rules plain_rules (mem_abs s) (?R - ?D)) (me_store e)"
    by (rule memrules.wp_remove_filtered [OF h _ _ refl]) simp_all
  from wpD [OF this run] show ?thesis unfolding D .
qed

interpretation memenf: enforcer mem_enf "\<lambda>e. set (me_p e)" "\<lambda>e. set (me_g e)" mem_einv
proof (unfold_locales, goal_cases)
  case (1 e r q e')
  have "saved (add_policies mem_ops plain_rules ''p'' ''p'' [r]) (\<lambda>e. e\<lparr>me_p := me_p e @ [r]\<rparr>) e = (q, e')" using 1(4) by (simp add: mem_enf_def)
  then show ?case
  proof (cases rule: savedE)
    case (ok b s)
    show ?thesis using mem_add_law [OF 1(1,2) ok(1) refl] 1(1,3) ok(2,3) by (cases b) (auto simp: mem_einv_def insert_absorb)
  qed (use 1(1) in simp)
next
  case (2 e r q e')
  have "saved (remove_policies mem_ops ''p'' ''p'' [r]) (\<lambda>e. e\<lparr>me_p := removeAll r (me_p e)\<rparr>) e = (q, e')" using 2(4) by (simp add: mem_enf_def)
  then show ?case
  proof (cases rule: savedE)
    case (ok b s)
    show ?thesis using mem_remove_law [OF 2(1,2) _ ok(1) refl] 2(1,3) ok(2,3) by (cases b) (auto simp: mem_einv_def shaped_def tagged_minus distinct_removeAll Un_Diff)
  qed (use 2(1) in simp)
next
  case (3 e r q e')
  have "saved (add_policies mem_ops plain_rules ''g'' ''g'' [r]) (\<lambda>e. e\<lparr>me_g := me_g e @ [r]\<rparr>) e = (q, e')" using 3(4) by (simp add: mem_enf_def)
  then show ?case
  proof (cases rule: savedE)
    case (ok b s)
    show ?thesis using mem_add_law [OF 3(1,2) ok(1) refl] 3(1,3) ok(2,3) by (cases b) (auto simp: mem_einv_def insert_absorb)
  qed (use 3(1) in simp)
next
  case (4 e r q e')
  have "saved (remove_policies mem_ops ''g'' ''g'' [r]) (\<lambda>e. e\<lparr>me_g := removeAll r (me_g e)\<rparr>) e = (q, e')" using 4(4) by (simp add: mem_enf_def)
  then show ?case
  proof (cases rule: savedE)
    case (ok b s)
    show ?thesis using mem_remove_law [OF 4(1,2) _ ok(1) refl] 4(1,3) ok(2,3) by (cases b) (auto simp: mem_einv_def shaped_def tagged_minus distinct_removeAll Un_Diff)
  qed (use 4(1) in simp)
next
  case (5 e n vals q e')
  have "saved (remove_filtered_policy mem_ops plain_rules ''g'' ''g'' n vals) (\<lambda>e. e\<lparr>me_g := filter (\<lambda>l. \<not> rule_matches l n vals) (me_g e)\<rparr>) e = (q, e')"
    using 5(2) by (simp add: mem_enf_def)
  then show ?case
  proof (cases rule: savedE)
    case (ok b s)
    have "{l \<in> set (me_g e). \<not> rule_matches l n vals} = set (me_g e)" if "\<not> (\<exists>l \<in> set (me_g e). rule_matches l n vals)" using that by auto
    then show ?thesis using mem_filtered_law [OF 5(1) ok(1)] 5(1) ok(2,3) by (cases b) (simp_all add: mem_einv_def)
  qed (use 5(1) in simp)
next
  case (6 e s ob a)
  then obtain r where r: "r \<in> set (me_p e)" "length r = 3" "r ! 1 = ob" "r ! 2 = a" "reaches 10 (me_g e) s (r ! 0)"
    by (auto simp: mem_enf_def list_ex_iff)
  have "[r ! 0, ob, a] \<in> set (me_p e)" using r triple_list [OF r(2)] by simp
  with reaches_links [OF r(5)] show ?case by blast
next
  case (7 e s ob a p)
  then have "\<not> reaches 10 (me_g e) s p" by (auto simp: mem_enf_def list_ex_iff)
  moreover have "(10 :: nat) = Suc (Suc 8)" by simp
  ultimately show ?case by (auto simp only: reaches.simps list_ex_iff) force
next
  case (11 e g)
  then show ?case using mem_einv_length [OF 11] pair_list by (force simp: mem_enf_def)
next
  case (12 e u)
  then show ?case using mem_einv_length [OF 12] pair_list by (force simp: mem_enf_def)
qed (auto simp: mem_enf_def mem_einv_def)

definition demo_policy :: "(mem_enforcer, wal_val mem_kv wal) policy_engine" where
  "demo_policy = \<lparr>pe_ops = mem_enf, pe_feed = Some (wal_append mem_ops tag_codec)\<rparr>"

lemma demo_policy_sel [simp]: "pe_ops demo_policy = mem_enf" "pe_feed demo_policy = Some (wal_append mem_ops tag_codec)"
  by (simp_all add: demo_policy_def)

interpretation mempol: policy_over demo_policy "\<lambda>e. set (me_p e)" "\<lambda>e. set (me_g e)" mem_einv
    "wal_append mem_ops tag_codec" "\<lambda>w. stored_feed tag_codec (mem_abs (wal_store w))" "\<lambda>w. wal_inv tag_codec (mem_abs (wal_store w))" wal_capacity
  unfolding policy_over_def policy_over_axioms_def demo_policy_sel
  by (intro conjI memenf.enforcer_axioms memwal.sink.change_sink_axioms refl)

definition empty_policy :: "(mem_enforcer, wal_val mem_kv wal) policy_world" where
  "empty_policy = \<lparr>pw_enforcer = \<lparr>me_p = [], me_g = [], me_store = no_rules\<rparr>, pw_feed = empty_wal, pw_latch = latch_new\<rparr>"

lemma empty_policy_ok [simp]: "mem_einv (pw_enforcer empty_policy)" "wal_inv tag_codec (mem_abs (wal_store (pw_feed empty_policy)))"
    "stored_feed tag_codec (mem_abs (wal_store (pw_feed empty_policy))) = []" "me_p (pw_enforcer empty_policy) = []" "me_g (pw_enforcer empty_policy) = []"
  by (simp_all add: empty_policy_def mem_einv_def no_rules_def mem_abs_def empty_wal_def wal_inv_def stored_head_def stored_feed_def
      stored_entries_def range_seqs_def)

section \<open>Properties\<close>

definition pol :: "('e \<Rightarrow> string list set) \<Rightarrow> ('e \<Rightarrow> string list set) \<Rightarrow> ('e, 'l) policy_world \<Rightarrow> policy_sets" where
  "pol prules grules w = (prules (pw_enforcer w), grules (pw_enforcer w))"

context policy_over
begin

lemma atI: "finv (pw_feed w) \<Longrightarrow> at w (pol prules grules w) (feed (pw_feed w))"
  by (simp add: at_def pol_def)

lemma atD: "at w PG l \<Longrightarrow> pol prules grules w = PG \<and> feed (pw_feed w) = l \<and> finv (pw_feed w)"
  by (simp add: at_def pol_def)

end

text \<open>
  C14: a change of the policy is announced exactly when it happened. A mutation that answers true has changed the rules as it says and added
  exactly its entry to the feed; one that answers false has changed neither; one that fails has changed nothing, or has changed the
  rules and failed to announce them, and says so.
\<close>

theorem policy_change_announced:
  assumes "policy_over eng prules grules einv sink feed finv capacity" and "einv (pw_enforcer w)" and "finv (pw_feed w)"
    and "length (feed (pw_feed w)) < capacity" and "op_clean op" and "run_op eng ts op w = (r, w')"
  shows "case r of
      Inr True \<Rightarrow> pol prules grules w' = effect op (pol prules grules w) \<and> pol prules grules w' \<noteq> pol prules grules w \<and>
        feed (pw_feed w') = feed (pw_feed w) @ [wal_of op]
    | Inr False \<Rightarrow> pol prules grules w' = pol prules grules w \<and> feed (pw_feed w') = feed (pw_feed w)
    | Inl e \<Rightarrow> pol prules grules w' = pol prules grules w \<and> feed (pw_feed w') = feed (pw_feed w) \<or>
        pol prules grules w' = effect op (pol prules grules w) \<and> (\<exists>t. e = ChangeFeed t)"
proof -
  note at = policy_over.atI [OF assms(1,3)]
  have live: "policy_over.live einv w" using assms(2) by (simp add: policy_over.live_def [OF assms(1)])
  note D = policy_over.atD [OF assms(1)]
  have "wp (run_op eng ts op) (\<lambda>r w'. case r of
      Inr True \<Rightarrow> pol prules grules w' = effect op (pol prules grules w) \<and> pol prules grules w' \<noteq> pol prules grules w \<and>
        feed (pw_feed w') = feed (pw_feed w) @ [wal_of op]
    | Inr False \<Rightarrow> pol prules grules w' = pol prules grules w \<and> feed (pw_feed w') = feed (pw_feed w)
    | Inl e \<Rightarrow> pol prules grules w' = pol prules grules w \<and> feed (pw_feed w') = feed (pw_feed w) \<or>
        pol prules grules w' = effect op (pol prules grules w) \<and> (\<exists>t. e = ChangeFeed t)) w"
    by (rule policy_over.wp_op [OF assms(1) at live assms(4,5)]) (auto dest!: D)
  from wpD [OF this assms(6)] show ?thesis .
qed

theorem policy_change_announced_witness:
  "\<exists>w'. run_op demo_policy (\<lambda>_. 7) (AssignGroup ''ann'' ''staff'') empty_policy = (Inr True, w') \<and>
     set (me_g (pw_enforcer w')) = {[''ann'', ''staff'']} \<and>
     stored_feed tag_codec (mem_abs (wal_store (pw_feed w'))) = [GroupAdd ''ann'' ''staff'']"
proof -
  have ok: "op_clean (AssignGroup ''ann'' ''staff'')" by (simp add: unit_sep_def)
  have "fst (run_op demo_policy (\<lambda>_. 7) (AssignGroup ''ann'' ''staff'') empty_policy) = Inr True" by code_simp
  then obtain w' where run: "run_op demo_policy (\<lambda>_. 7) (AssignGroup ''ann'' ''staff'') empty_policy = (Inr True, w')" by (metis prod.collapse)
  from policy_change_announced [OF mempol.policy_over_axioms _ _ _ ok run] show ?thesis
    using run by (simp add: wal_capacity_def effect_def pol_def)
qed

text \<open>A sequence of requests to the engine, each of which has returned; the answers are collected.\<close>

datatype policy_request = Change policy_op | Claim string

fun run_request :: "('e, 'l) policy_engine \<Rightarrow> (wal_op \<Rightarrow> i64) \<Rightarrow> policy_request \<Rightarrow> (('e, 'l) policy_world, policy_error, bool) act" where
  "run_request eng ts (Change op) = run_op eng ts op"
| "run_request eng ts (Claim u) = claim_superadmin eng ts u"

definition run_requests :: "('e, 'l) policy_engine \<Rightarrow> (wal_op \<Rightarrow> i64) \<Rightarrow> policy_request list \<Rightarrow> (('e, 'l) policy_world, policy_error, bool list) act" where
  "run_requests eng ts reqs = for_act reqs (\<lambda>q out. bind_act (run_request eng ts q) (\<lambda>b. ok_act (out @ [b]))) []"

fun request_clean :: "policy_request \<Rightarrow> bool" where
  "request_clean (Change op) = op_clean op"
| "request_clean (Claim u) = clean_rule [u]"

context policy_over
begin

definition follows :: "policy_sets \<Rightarrow> wal_op list \<Rightarrow> nat \<Rightarrow> ('e, 'l) policy_world \<Rightarrow> bool" where
  "follows PG l n w \<longleftrightarrow> live w \<and> (\<exists>ops. length ops \<le> n \<and> at w (fold replay_op ops PG) (l @ ops))"

lemma wp_request:
  assumes "follows PG l n w" and "request_clean q" and "length l + n + 5 \<le> capacity"
    and "\<And>b w'. follows PG l (n + 5) w' \<Longrightarrow> Q (Inr b) w'" and "\<And>e w'. Q (Inl e) w'"
  shows "wp (run_request eng ts q) Q w"
proof -
  from assms(1) obtain ops where live: "live w" and ops: "length ops \<le> n" "at w (fold replay_op ops PG) (l @ ops)" by (auto simp: follows_def)
  have fin: "Q (Inr b) w'" if "live w'" "at w' (fold replay_op new (fold replay_op ops PG)) ((l @ ops) @ new)" "length new \<le> 5" for b w' new
    using that ops(1) by (intro assms(4)) (auto simp: follows_def intro!: exI [of _ "ops @ new"])
  show ?thesis
  proof (cases q)
    case (Change op)
    have room: "length (l @ ops) < capacity" "op_clean op" using assms(2,3) ops(1) Change by simp_all
    show ?thesis
      unfolding Change run_request.simps
    proof (rule wp_op [OF ops(2) live room])
      fix w' assume "at w' (effect op (fold replay_op ops PG)) ((l @ ops) @ [wal_of op])" "live w'"
      then show "Q (Inr True) w'" using fin [of w' "[wal_of op]"] by (simp add: effect_def)
    next
      fix w' assume "at w' (fold replay_op ops PG) (l @ ops)" "live w'"
      then show "Q (Inr False) w'" using fin [of w' "[]"] by simp
    qed (use assms(5) in auto)
  next
    case (Claim u)
    obtain P G where PG: "fold replay_op ops PG = (P, G)" by force
    have at: "at w (P, G) (l @ ops)" and room: "length (l @ ops) + 5 \<le> capacity" "clean_rule [u]" using assms(2,3) ops PG Claim by simp_all
    show ?thesis
      unfolding Claim run_request.simps
    proof (rule wp_claim [OF at live room])
      fix w' assume "at w' (sa_rules \<union> P, G) ((l @ ops) @ map sa_entry (missing P))" "live w'"
      then show "Q (Inr False) w'" using fin [of w' "map sa_entry (missing P)"] length_missing [of P] by (simp add: PG replay_missing)
    next
      fix w' assume "at w' (sa_rules \<union> P, insert [u, SUPERADMIN_ROLE] G) ((l @ ops) @ GroupAdd u SUPERADMIN_ROLE # map sa_entry (missing P))" "live w'"
      then show "Q (Inr True) w'"
        using fin [of w' "GroupAdd u SUPERADMIN_ROLE # map sa_entry (missing P)"] length_missing [of P] by (simp add: PG replay_missing)
    qed (use assms(5) in auto)
  qed
qed

end

text \<open>
  C15: the feed is enough to rebuild the policy. After any sequence of rule changes, group changes and claims of the superadmin role that all return,
  replaying what they added to the feed, in order, on the policy they started from gives exactly the policy they left.
\<close>

theorem policy_feed_replays:
  assumes "policy_over eng prules grules einv sink feed finv capacity" and "einv (pw_enforcer w)" and "finv (pw_feed w)"
    and "length (feed (pw_feed w)) + 5 * length reqs \<le> capacity" and "\<forall>q \<in> set reqs. request_clean q"
    and "run_requests eng ts reqs w = (Inr bs, w')"
  shows "\<exists>ops. feed (pw_feed w') = feed (pw_feed w) @ ops \<and> pol prules grules w' = fold replay_op ops (pol prules grules w)"
proof -
  let ?l = "feed (pw_feed w)" let ?PG = "pol prules grules w"
  let ?I = "\<lambda>rest _ w2. \<exists>pre. reqs = pre @ rest \<and> policy_over.follows prules grules einv feed finv ?PG ?l (5 * length pre) w2"
  note fol = policy_over.follows_def [OF assms(1)] and D = policy_over.atD [OF assms(1)]
  have "wp (run_requests eng ts reqs) (\<lambda>r w'. \<forall>bs. r = Inr bs \<longrightarrow> ?I [] bs w') w"
    unfolding run_requests_def
  proof (rule wp_for [where I = ?I], goal_cases)
    case 1
    show ?case
      using policy_over.atI [OF assms(1,3)] assms(2) by (auto simp: fol policy_over.live_def [OF assms(1)] intro!: exI [of _ "[]"])
  next
    case (2 q rest out w2)
    then obtain pre where p: "reqs = pre @ q # rest" "policy_over.follows prules grules einv feed finv ?PG ?l (5 * length pre) w2" by blast
    have "request_clean q" "length ?l + 5 * length pre + 5 \<le> capacity" using assms(4,5) by (simp_all add: p(1))
    then show ?case
      unfolding wp_bind
      by (rule policy_over.wp_request [OF assms(1) p(2)]) (use p(1) in \<open>auto simp: add.commute intro!: exI [of _ "pre @ [q]"]\<close>)
  qed auto
  from wpD [OF this assms(6)] show ?thesis by (auto simp: fol dest!: D)
qed

theorem policy_feed_replays_witness:
  "\<exists>bs w' ops. run_requests demo_policy (\<lambda>_. 7) [Change (AssignGroup ''ann'' ''staff''), Change (AddRule ''staff'' ''rules'' Read)] empty_policy = (Inr bs, w') \<and>
     stored_feed tag_codec (mem_abs (wal_store (pw_feed w'))) = ops \<and> (set (me_p (pw_enforcer w')), set (me_g (pw_enforcer w'))) = fold replay_op ops ({}, {})"
proof -
  have "fst (run_requests demo_policy (\<lambda>_. 7) [Change (AssignGroup ''ann'' ''staff''), Change (AddRule ''staff'' ''rules'' Read)] empty_policy) = Inr [True, True]" by code_simp
  then obtain w' where run: "run_requests demo_policy (\<lambda>_. 7) [Change (AssignGroup ''ann'' ''staff''), Change (AddRule ''staff'' ''rules'' Read)] empty_policy = (Inr [True, True], w')"
    by (metis prod.collapse)
  have ok: "\<forall>q \<in> set [Change (AssignGroup ''ann'' ''staff''), Change (AddRule ''staff'' ''rules'' Read)]. request_clean q" by (simp add: unit_sep_def)
  from policy_feed_replays [OF mempol.policy_over_axioms _ _ _ ok run] obtain ops where
    "stored_feed tag_codec (mem_abs (wal_store (pw_feed w'))) = ops" "(set (me_p (pw_enforcer w')), set (me_g (pw_enforcer w'))) = fold replay_op ops ({}, {})"
    by (auto simp: wal_capacity_def pol_def)
  with run show ?thesis by blast
qed

text \<open>
  C16: the superadmin role is claimed at most once. A claim that returns answers true exactly if the role had no holder. It then made the caller a holder and
  left the role with all its rules; while the role has a holder, a claim by anyone never answers true and changes no group.
\<close>

theorem claim_superadmin_exclusive:
  assumes "policy_over eng prules grules einv sink feed finv capacity" and "einv (pw_enforcer w)" and "finv (pw_feed w)"
    and "length (feed (pw_feed w)) + 5 \<le> capacity" and "clean_rule [u]" and "claim_superadmin eng ts u w = (r, w')"
  shows "(\<forall>b. r = Inr b \<longrightarrow> (b \<longleftrightarrow> (\<nexists>v. [v, SUPERADMIN_ROLE] \<in> grules (pw_enforcer w)))) \<and>
    (r = Inr True \<longrightarrow>
      grules (pw_enforcer w') = insert [u, SUPERADMIN_ROLE] (grules (pw_enforcer w)) \<and> sa_rules \<subseteq> prules (pw_enforcer w')) \<and>
    ((\<exists>v. [v, SUPERADMIN_ROLE] \<in> grules (pw_enforcer w)) \<longrightarrow> r \<noteq> Inr True \<and> grules (pw_enforcer w') = grules (pw_enforcer w))"
proof -
  note at = policy_over.atI [OF assms(1,3), unfolded pol_def]
  have live: "policy_over.live einv w" using assms(2) by (simp add: policy_over.live_def [OF assms(1)])
  note D = policy_over.atD [OF assms(1), unfolded pol_def]
  have "wp (claim_superadmin eng ts u) (\<lambda>r w'. (\<forall>b. r = Inr b \<longrightarrow> (b \<longleftrightarrow> (\<nexists>v. [v, SUPERADMIN_ROLE] \<in> grules (pw_enforcer w)))) \<and>
    (r = Inr True \<longrightarrow>
      grules (pw_enforcer w') = insert [u, SUPERADMIN_ROLE] (grules (pw_enforcer w)) \<and> sa_rules \<subseteq> prules (pw_enforcer w')) \<and>
    ((\<exists>v. [v, SUPERADMIN_ROLE] \<in> grules (pw_enforcer w)) \<longrightarrow> r \<noteq> Inr True \<and> grules (pw_enforcer w') = grules (pw_enforcer w))) w"
    by (rule policy_over.wp_claim [OF assms(1) at live assms(4,5)]) (auto dest!: D)
  from wpD [OF this assms(6)] show ?thesis .
qed

definition claimed :: "(mem_enforcer, wal_val mem_kv wal) policy_world" where
  "claimed = snd (claim_superadmin demo_policy (\<lambda>_. 7) ''ann'' empty_policy)"

theorem claim_superadmin_exclusive_witness:
  "claim_superadmin demo_policy (\<lambda>_. 7) ''ann'' empty_policy = (Inr True, claimed) \<and>
   [''ann'', SUPERADMIN_ROLE] \<in> set (me_g (pw_enforcer claimed))"
proof -
  have "fst (claim_superadmin demo_policy (\<lambda>_. 7) ''ann'' empty_policy) = Inr True" by code_simp
  then have run: "claim_superadmin demo_policy (\<lambda>_. 7) ''ann'' empty_policy = (Inr True, claimed)" by (simp add: claimed_def prod_eq_iff)
  have ok: "clean_rule [''ann'']" by (simp add: unit_sep_def)
  from claim_superadmin_exclusive [OF mempol.policy_over_axioms _ _ _ ok run] run show ?thesis by (simp add: wal_capacity_def)
qed

text \<open>
  An announcement of a rule that failed is never repeated. When adding a rule changed the policy and then failed to announce it, adding the same rule
  again answers false and leaves the feed alone, so the master keeps a rule that no entry of the feed carries.
\<close>

theorem rule_announcement_lost:
  assumes "policy_over eng prules grules einv sink feed finv capacity" and "einv (pw_enforcer w)" and "finv (pw_feed w)"
    and "length (feed (pw_feed w)) + 1 < capacity" and "clean_rule [s, ob]"
    and "add_rule eng ts s ob a w = (Inl (ChangeFeed t), w1)" and "add_rule eng ts' s ob a w1 = (Inr b, w2)"
  shows "\<not> b \<and> [s, ob, act_text a] \<in> prules (pw_enforcer w2) \<and> feed (pw_feed w2) = feed (pw_feed w1)"
proof -
  let ?r = "[s, ob, act_text a]" let ?op = "AddRule s ob a"
  note at = policy_over.atI [OF assms(1,3)]
  have live: "policy_over.live einv w" using assms(2) by (simp add: policy_over.live_def [OF assms(1)])
  have room: "length (feed (pw_feed w)) < capacity" "op_clean ?op" using assms(4,5) by simp_all
  note D = policy_over.atD [OF assms(1), unfolded pol_def]
  have "wp (run_op eng ts ?op) (\<lambda>r w1. \<forall>t. r = Inl (ChangeFeed t) \<longrightarrow> policy_over.live einv w1 \<and>
      (\<exists>l. policy_over.at prules grules feed finv w1 (effect ?op (pol prules grules w)) l \<and> length l < capacity)) w"
    by (rule policy_over.wp_op [OF assms(1) at live room]) (use assms(4) in auto)
  from wpD [OF this, of "Inl (ChangeFeed t)" w1] assms(6) obtain l where
    w1: "policy_over.live einv w1" "policy_over.at prules grules feed finv w1 (effect ?op (pol prules grules w)) l" "length l < capacity" by auto
  have same: "effect ?op (effect ?op (pol prules grules w)) = effect ?op (pol prules grules w)" by (simp add: effect_def pol_def)
  have "wp (run_op eng ts' ?op) (\<lambda>r w2. \<forall>b. r = Inr b \<longrightarrow> \<not> b \<and> policy_over.at prules grules feed finv w2 (effect ?op (pol prules grules w)) l) w1"
    by (rule policy_over.wp_op [OF assms(1) w1(2,1,3) room(2)]) (simp_all add: same)
  from wpD [OF this, of "Inr b" w2] assms(7) have "\<not> b" "policy_over.at prules grules feed finv w2 (effect ?op (pol prules grules w)) l" by simp_all
  with D [OF w1(2)] D [OF this(2)] show ?thesis by (simp add: effect_def pol_def)
qed

text \<open>The feed of the first call is fenced; the second call finds a feed that works.\<close>

definition fenced_policy :: "(mem_enforcer, wal_val mem_kv wal) policy_world" where
  "fenced_policy = empty_policy\<lparr>pw_feed := empty_wal\<lparr>wal_store := \<lparr>mem_data = [], mem_fenced = True\<rparr>\<rparr>\<rparr>"

definition unannounced :: "(mem_enforcer, wal_val mem_kv wal) policy_world" where
  "unannounced = snd (add_rule demo_policy (\<lambda>_. 7) ''staff'' ''rules'' Read fenced_policy)"

definition readded :: "(mem_enforcer, wal_val mem_kv wal) policy_world" where
  "readded = snd (add_rule demo_policy (\<lambda>_. 8) ''staff'' ''rules'' Read unannounced)"

lemma unannounced_run: "fst (add_rule demo_policy (\<lambda>_. 7) ''staff'' ''rules'' Read fenced_policy) = Inl (ChangeFeed ''internal server error'')"
  by code_simp

lemma readded_run: "fst (add_rule demo_policy (\<lambda>_. 8) ''staff'' ''rules'' Read unannounced) = Inr False"
  by code_simp

theorem rule_announcement_lost_witness:
  "add_rule demo_policy (\<lambda>_. 8) ''staff'' ''rules'' Read unannounced = (Inr False, readded) \<and>
   [''staff'', ''rules'', ''read''] \<in> set (me_p (pw_enforcer readded)) \<and>
   stored_feed tag_codec (mem_abs (wal_store (pw_feed readded))) = stored_feed tag_codec (mem_abs (wal_store (pw_feed unannounced)))"
proof -
  have run1: "add_rule demo_policy (\<lambda>_. 7) ''staff'' ''rules'' Read fenced_policy = (Inl (ChangeFeed ''internal server error''), unannounced)"
    using unannounced_run by (simp add: unannounced_def prod_eq_iff)
  have run2: "add_rule demo_policy (\<lambda>_. 8) ''staff'' ''rules'' Read unannounced = (Inr False, readded)"
    using readded_run by (simp add: readded_def prod_eq_iff)
  have "clean_rule [''staff'', ''rules'']" by (simp add: unit_sep_def)
  moreover have "mem_einv (pw_enforcer fenced_policy)" using empty_policy_ok(1) by (simp add: fenced_policy_def)
  moreover have "wal_inv tag_codec (mem_abs (wal_store (pw_feed fenced_policy)))" "stored_feed tag_codec (mem_abs (wal_store (pw_feed fenced_policy))) = []"
    using empty_policy_ok(2,3) by (simp_all add: fenced_policy_def empty_policy_def empty_wal_def mem_abs_def)
  ultimately show ?thesis
    using rule_announcement_lost [OF mempol.policy_over_axioms _ _ _ _ run1 run2] run2 by (simp add: wal_capacity_def)
qed

text \<open>
  Announcements can overtake each other, because the lock of the enforcer is released before the append. When the addition of a rule and its removal are applied in that
  order and announced in the other, the master has no such rule while a replica that replays the feed ends with it.
\<close>

theorem policy_announcements_reorder:
  assumes "policy_over eng prules grules einv sink feed finv capacity" and "einv (pw_enforcer w)" and "finv (pw_feed w)"
    and "length (feed (pw_feed w)) + 1 < capacity" and "clean_rule [s, ob]"
    and "ef_call (op_call (pe_ops eng) (AddRule s ob a)) w = (Inr True, w1)"
    and "ef_call (op_call (pe_ops eng) (RemoveRule s ob a)) w1 = (Inr True, w2)"
    and "policy_announce eng ts (wal_of (RemoveRule s ob a)) w2 = (Inr (), w3)"
    and "policy_announce eng ts (wal_of (AddRule s ob a)) w3 = (Inr (), w4)"
  shows "\<exists>ops. feed (pw_feed w4) = feed (pw_feed w) @ ops \<and> [s, ob, act_text a] \<notin> prules (pw_enforcer w4) \<and>
    [s, ob, act_text a] \<in> fst (fold replay_op ops (pol prules grules w))"
proof -
  let ?add = "AddRule s ob a" let ?rem = "RemoveRule s ob a" let ?PG = "pol prules grules w" let ?l = "feed (pw_feed w)"
  let ?at = "policy_over.at prules grules feed finv" let ?live = "policy_over.live einv"
  note at = policy_over.atI [OF assms(1,3)]
  have live: "?live w" using assms(2) by (simp add: policy_over.live_def [OF assms(1)])
  have enf: "enforcer (pe_ops eng) prules grules einv" using assms(1) by (simp add: policy_over_def)
  have clean: "op_clean ?add" "op_clean ?rem" using assms(5) by simp_all
  have call: "?at w' (effect op PG) l \<and> ?live w'" if "?at v PG l" "?live v" "op_clean op" "ef_call (op_call (pe_ops eng) op) v = (Inr True, w')" for v PG l op w'
  proof -
    have "wp (ef_call (op_call (pe_ops eng) op)) (\<lambda>r w'. \<forall>b. r = Inr b \<longrightarrow> ?at w' (effect op PG) l \<and> ?live w') v"
      by (rule policy_over.wp_ef_call [OF assms(1) that(1,2) enforcer.op_law [OF enf _ that(3)]]) auto
    from wpD [OF this that(4)] show ?thesis by blast
  qed
  have say: "?at w' PG (l @ [op]) \<and> ?live w'" if "?at v PG l" "length l < capacity" "?live v" "policy_announce eng ts op v = (Inr (), w')" for v PG l op w'
  proof -
    have "wp (policy_announce eng ts op) (\<lambda>r w'. r = Inr () \<longrightarrow> ?at w' PG (l @ [op]) \<and> ?live w') v"
      by (rule policy_over.wp_announce [OF assms(1) that(1-3)]) auto
    from wpD [OF this that(4)] show ?thesis by simp
  qed
  have w1: "?at w1 (effect ?add ?PG) ?l \<and> ?live w1" using call [OF at live clean(1) assms(6)] .
  have w2: "?at w2 (effect ?rem (effect ?add ?PG)) ?l \<and> ?live w2" using call [OF conjunct1 [OF w1] conjunct2 [OF w1] clean(2) assms(7)] .
  have w3: "?at w3 (effect ?rem (effect ?add ?PG)) (?l @ [wal_of ?rem]) \<and> ?live w3"
    using say [OF conjunct1 [OF w2] _ conjunct2 [OF w2] assms(8)] assms(4) by simp
  have w4: "?at w4 (effect ?rem (effect ?add ?PG)) ((?l @ [wal_of ?rem]) @ [wal_of ?add])"
    using say [OF conjunct1 [OF w3] _ conjunct2 [OF w3] assms(9)] assms(4) by simp
  from policy_over.atD [OF assms(1) w4] show ?thesis
    by (intro exI [of _ "[wal_of ?rem, wal_of ?add]"]) (auto simp: effect_def pol_def)
qed

definition race1 :: "(mem_enforcer, wal_val mem_kv wal) policy_world" where
  "race1 = snd (ef_call (op_call mem_enf (AddRule ''staff'' ''rules'' Read)) empty_policy)"

definition race2 :: "(mem_enforcer, wal_val mem_kv wal) policy_world" where
  "race2 = snd (ef_call (op_call mem_enf (RemoveRule ''staff'' ''rules'' Read)) race1)"

definition race3 :: "(mem_enforcer, wal_val mem_kv wal) policy_world" where
  "race3 = snd (policy_announce demo_policy (\<lambda>_. 7) (wal_of (RemoveRule ''staff'' ''rules'' Read)) race2)"

definition race4 :: "(mem_enforcer, wal_val mem_kv wal) policy_world" where
  "race4 = snd (policy_announce demo_policy (\<lambda>_. 7) (wal_of (AddRule ''staff'' ''rules'' Read)) race3)"

lemma race1_run: "fst (ef_call (op_call mem_enf (AddRule ''staff'' ''rules'' Read)) empty_policy) = Inr True"
  by code_simp

lemma race2_run: "fst (ef_call (op_call mem_enf (RemoveRule ''staff'' ''rules'' Read)) race1) = Inr True"
  by code_simp

lemma race3_run: "fst (policy_announce demo_policy (\<lambda>_. 7) (wal_of (RemoveRule ''staff'' ''rules'' Read)) race2) = Inr ()"
  by code_simp

lemma race4_run: "fst (policy_announce demo_policy (\<lambda>_. 7) (wal_of (AddRule ''staff'' ''rules'' Read)) race3) = Inr ()"
  by code_simp

theorem policy_announcements_reorder_witness:
  "\<exists>ops. stored_feed tag_codec (mem_abs (wal_store (pw_feed race4))) = ops \<and> [''staff'', ''rules'', ''read''] \<notin> set (me_p (pw_enforcer race4)) \<and>
     [''staff'', ''rules'', ''read''] \<in> fst (fold replay_op ops ({}, {}))"
proof -
  have r: "ef_call (op_call (pe_ops demo_policy) (AddRule ''staff'' ''rules'' Read)) empty_policy = (Inr True, race1)"
    "ef_call (op_call (pe_ops demo_policy) (RemoveRule ''staff'' ''rules'' Read)) race1 = (Inr True, race2)"
    "policy_announce demo_policy (\<lambda>_. 7) (wal_of (RemoveRule ''staff'' ''rules'' Read)) race2 = (Inr (), race3)"
    "policy_announce demo_policy (\<lambda>_. 7) (wal_of (AddRule ''staff'' ''rules'' Read)) race3 = (Inr (), race4)"
    using race1_run race2_run race3_run race4_run by (simp_all add: race1_def race2_def race3_def race4_def prod_eq_iff)
  have "clean_rule [''staff'', ''rules'']" by (simp add: unit_sep_def)
  then show ?thesis
    using policy_announcements_reorder [OF mempol.policy_over_axioms _ _ _ _ r] by (auto simp: wal_capacity_def pol_def)
qed

end
