(* ===== verification/Api_Error.thy ===== *)
theory Api_Error
  imports Fs_Error
begin

text \<open>
  The error type shared by the HTTP handlers, \<^verbatim>\<open>src/src/http/error.rs\<close>, and the body extractor of
  \<^verbatim>\<open>src/src/http/validation.rs\<close>. A cause carried by an error is its text for the log.
\<close>

datatype api_error =
    MissingCredentials
  | ApiBadRequest
  | InvalidCredentials string
  | ApiForbidden
  | ApiInternal string
  | Conflict
  | ApiTooManyRequests

fun api_display :: "api_error \<Rightarrow> string" where
  "api_display MissingCredentials = ''authentication required''"
| "api_display ApiBadRequest = ''bad request''"
| "api_display (InvalidCredentials _) = ''invalid credentials''"
| "api_display ApiForbidden = ''forbidden''"
| "api_display (ApiInternal _) = ''internal server error''"
| "api_display Conflict = ''conflict''"
| "api_display ApiTooManyRequests = ''too many requests''"

fun api_status :: "api_error \<Rightarrow> nat" where
  "api_status ApiBadRequest = 400"
| "api_status MissingCredentials = 401"
| "api_status (InvalidCredentials _) = 401"
| "api_status ApiForbidden = 403"
| "api_status (ApiInternal _) = 500"
| "api_status Conflict = 409"
| "api_status ApiTooManyRequests = 429"

fun api_code :: "api_error \<Rightarrow> string" where
  "api_code ApiBadRequest = ''invalid_request''"
| "api_code MissingCredentials = ''authentication_required''"
| "api_code (InvalidCredentials _) = ''invalid_credentials''"
| "api_code ApiForbidden = ''forbidden''"
| "api_code (ApiInternal _) = ''internal_error''"
| "api_code Conflict = ''conflict''"
| "api_code ApiTooManyRequests = ''too_many_requests''"

record error_body =
  eb_error :: string
  eb_code :: "string option"
  eb_details :: "string option"

definition envelope :: "nat \<Rightarrow> string \<Rightarrow> string option \<Rightarrow> string option \<Rightarrow> nat \<times> error_body" where
  "envelope status message error_code details = (status, \<lparr>eb_error = message, eb_code = error_code, eb_details = details\<rparr>)"

definition api_error_response :: "api_error \<Rightarrow> nat \<times> error_body" where
  "api_error_response e = envelope (api_status e) (api_display e) (Some (api_code e)) None"

text \<open>The extractor: a body that does not parse and one that does not validate are the same bad request.\<close>

definition validated_json :: "('r \<Rightarrow> string + unit) \<Rightarrow> string + 'r \<Rightarrow> api_error + 'r" where
  "validated_json validate body =
     (case body of
        Inl _ \<Rightarrow> Inl ApiBadRequest
      | Inr req \<Rightarrow> (case validate req of Inl _ \<Rightarrow> Inl ApiBadRequest | Inr _ \<Rightarrow> Inr req))"

text \<open>
  Nothing of a cause reaches the client: an envelope is one of seven, told apart by their codes.
\<close>

lemma api_error_response_sanitized:
  "api_error_response e = api_error_response e' \<longleftrightarrow> api_code e = api_code e'"
  by (cases e; cases e'; simp add: api_error_response_def envelope_def)

end
