(* ===== verification/Policy_Routes.thy ===== *)
theory Policy_Routes
  imports Policy_Props Api_Error Fs_Model
begin

text \<open>
  The routes of \<^verbatim>\<open>src/src/policy/route.rs\<close> and \<^verbatim>\<open>src/src/policy/setup.rs\<close>: the bodies with their validation, the pages of the
  listings and the handlers over the policy engine. The caller is the subject that the token check has established; a body is what
  the JSON layer made of it. Audit lines are left out.
\<close>

section \<open>Requests and replies\<close>

datatype resource = UserGroups | Rules

fun resource_str :: "resource \<Rightarrow> string" where
  "resource_str UserGroups = ''user_groups''"
| "resource_str Rules = ''rules''"

record policy_request_body =
  pr_sub :: string
  pr_obj :: string
  pr_act :: action

record group_request =
  gr_user_id :: string
  gr_group :: string

definition validate_policy_request :: "(char \<Rightarrow> bool) \<Rightarrow> policy_request_body \<Rightarrow> string + unit" where
  "validate_policy_request is_ws r =
     (if trim is_ws (pr_sub r) = [] then Inl ''sub cannot be empty''
      else if trim is_ws (pr_obj r) = [] then Inl ''obj cannot be empty''
      else Inr ())"

definition validate_group_request :: "(char \<Rightarrow> bool) \<Rightarrow> group_request \<Rightarrow> string + unit" where
  "validate_group_request is_ws r =
     (if trim is_ws (gr_user_id r) = [] then Inl ''user_id cannot be empty''
      else if trim is_ws (gr_group r) = [] then Inl ''group cannot be empty''
      else Inr ())"

record list_query =
  lq_limit :: "u64 option"
  lq_offset :: "u64 option"

definition DEFAULT_PAGE_SIZE :: u64 where "DEFAULT_PAGE_SIZE = 100"

definition MAX_PAGE_SIZE :: u64 where "MAX_PAGE_SIZE = 1000"

record page =
  pg_limit :: u64
  pg_offset :: u64

definition page_from_query :: "list_query \<Rightarrow> page" where
  "page_from_query q =
     \<lparr>pg_limit = min (case lq_limit q of None \<Rightarrow> DEFAULT_PAGE_SIZE | Some n \<Rightarrow> n) MAX_PAGE_SIZE,
      pg_offset = (case lq_offset q of None \<Rightarrow> 0 | Some n \<Rightarrow> n)\<rparr>"

definition page_apply :: "page \<Rightarrow> 'a list \<Rightarrow> 'a list" where
  "page_apply p items = take (unat (pg_limit p)) (drop (unat (pg_offset p)) items)"

record 'a paged =
  pd_items :: "'a list"
  pd_total :: nat
  pd_limit :: u64
  pd_offset :: u64

definition paged_reply :: "list_query \<Rightarrow> 'a list \<Rightarrow> 'a paged" where
  "paged_reply q all =
     (let pg = page_from_query q in
      \<lparr>pd_items = page_apply pg all, pd_total = length all, pd_limit = pg_limit pg, pd_offset = pg_offset pg\<rparr>)"

datatype policy_reply =
    RuleList "string list paged"
  | ActionDone bool
  | NameList "string list"
  | GroupList "group_summary paged"
  | UserList "user_assignment paged"
  | SetupDone string string

section \<open>Handlers\<close>

fun api_of_policy :: "policy_error \<Rightarrow> api_error" where
  "api_of_policy AccessDenied = ApiForbidden"
| "api_of_policy e = ApiInternal (policy_display e)"

text \<open>A read of the engine and a call of it, with the error of the API.\<close>

definition reads :: "(('e, 'l) policy_world \<Rightarrow> 'a) \<Rightarrow> (('e, 'l) policy_world, api_error, 'a) act" where
  "reads f w = (Inr (f w), w)"

definition api_call :: "(('e, 'l) policy_world, policy_error, 'a) act \<Rightarrow> (('e, 'l) policy_world, api_error, 'a) act" where
  "api_call = map_err_act api_of_policy"

definition get_rules_route :: "('e, 'l) policy_engine \<Rightarrow> string \<Rightarrow> list_query \<Rightarrow> (('e, 'l) policy_world, api_error, policy_reply) act" where
  "get_rules_route eng caller q =
     bind_act (api_call (require eng caller (resource_str Rules) Read)) (\<lambda>_.
     bind_act (reads (get_all_rules eng)) (\<lambda>all_rules.
     ok_act (RuleList (paged_reply q all_rules))))"

definition add_rule_route :: "('e, 'l) policy_engine \<Rightarrow> (wal_op \<Rightarrow> i64) \<Rightarrow> string \<Rightarrow> policy_request_body \<Rightarrow> (('e, 'l) policy_world, api_error, policy_reply) act" where
  "add_rule_route eng ts caller req =
     bind_act (api_call (require eng caller (resource_str Rules) Write)) (\<lambda>_.
     bind_act (api_call (add_rule eng ts (pr_sub req) (pr_obj req) (pr_act req))) (\<lambda>success.
     ok_act (ActionDone success)))"

definition remove_rule_route :: "('e, 'l) policy_engine \<Rightarrow> (wal_op \<Rightarrow> i64) \<Rightarrow> string \<Rightarrow> policy_request_body \<Rightarrow> (('e, 'l) policy_world, api_error, policy_reply) act" where
  "remove_rule_route eng ts caller req =
     bind_act (api_call (require eng caller (resource_str Rules) Write)) (\<lambda>_.
     bind_act (api_call (remove_rule eng ts (pr_sub req) (pr_obj req) (pr_act req))) (\<lambda>success.
     ok_act (ActionDone success)))"

definition get_user_groups_route :: "('e, 'l) policy_engine \<Rightarrow> string \<Rightarrow> string \<Rightarrow> (('e, 'l) policy_world, api_error, policy_reply) act" where
  "get_user_groups_route eng caller user_id =
     bind_act (api_call (require eng caller (resource_str UserGroups) Read)) (\<lambda>_.
     bind_act (reads (get_groups_of_user eng user_id)) (\<lambda>groups.
     ok_act (NameList groups)))"

definition get_group_users_route :: "('e, 'l) policy_engine \<Rightarrow> string \<Rightarrow> string \<Rightarrow> (('e, 'l) policy_world, api_error, policy_reply) act" where
  "get_group_users_route eng caller group_name =
     bind_act (api_call (require eng caller (resource_str UserGroups) Read)) (\<lambda>_.
     bind_act (reads (get_users_in_group eng group_name)) (\<lambda>users.
     ok_act (NameList users)))"

definition assign_group_route :: "('e, 'l) policy_engine \<Rightarrow> (wal_op \<Rightarrow> i64) \<Rightarrow> string \<Rightarrow> group_request \<Rightarrow> (('e, 'l) policy_world, api_error, policy_reply) act" where
  "assign_group_route eng ts caller req =
     bind_act (api_call (require eng caller (resource_str UserGroups) Write)) (\<lambda>_.
     bind_act (api_call (assign_group eng ts (gr_user_id req) (gr_group req))) (\<lambda>success.
     ok_act (ActionDone success)))"

definition remove_user_from_group_route :: "('e, 'l) policy_engine \<Rightarrow> (wal_op \<Rightarrow> i64) \<Rightarrow> string \<Rightarrow> string \<Rightarrow> string \<Rightarrow>
    (('e, 'l) policy_world, api_error, policy_reply) act" where
  "remove_user_from_group_route eng ts caller group_name user_id =
     bind_act (api_call (require eng caller (resource_str UserGroups) Write)) (\<lambda>_.
     bind_act (api_call (remove_from_group eng ts user_id group_name)) (\<lambda>success.
     ok_act (ActionDone success)))"

definition list_groups_route :: "('e, 'l) policy_engine \<Rightarrow> string \<Rightarrow> list_query \<Rightarrow> (('e, 'l) policy_world, api_error, policy_reply) act" where
  "list_groups_route eng caller q =
     bind_act (api_call (require eng caller (resource_str UserGroups) Read)) (\<lambda>_.
     bind_act (reads (list_groups eng)) (\<lambda>all.
     ok_act (GroupList (paged_reply q all))))"

definition list_users_route :: "('e, 'l) policy_engine \<Rightarrow> string \<Rightarrow> list_query \<Rightarrow> (('e, 'l) policy_world, api_error, policy_reply) act" where
  "list_users_route eng caller q =
     bind_act (api_call (require eng caller (resource_str UserGroups) Read)) (\<lambda>_.
     bind_act (reads (list_user_assignments eng)) (\<lambda>all.
     ok_act (UserList (paged_reply q all))))"

definition delete_group_route :: "('e, 'l) policy_engine \<Rightarrow> (wal_op \<Rightarrow> i64) \<Rightarrow> string \<Rightarrow> string \<Rightarrow> (('e, 'l) policy_world, api_error, policy_reply) act" where
  "delete_group_route eng ts caller group_name =
     bind_act (api_call (require eng caller (resource_str UserGroups) Write)) (\<lambda>_.
     bind_act (api_call (delete_group eng ts group_name)) (\<lambda>success.
     ok_act (ActionDone success)))"

text \<open>The bootstrap route asks for no permission: the store starts with no roles.\<close>

definition claim_admin_route :: "('e, 'l) policy_engine \<Rightarrow> (wal_op \<Rightarrow> i64) \<Rightarrow> string \<Rightarrow> (('e, 'l) policy_world, api_error, policy_reply) act" where
  "claim_admin_route eng ts caller =
     bind_act (api_call (claim_superadmin eng ts caller)) (\<lambda>claimed.
     if \<not> claimed then err_act Conflict else ok_act (SetupDone caller SUPERADMIN_ROLE))"

text \<open>The routes of the module, with the bodies still to be parsed and validated.\<close>

datatype policy_route =
    GetRules list_query
  | PostRule "string + policy_request_body"
  | DeleteRule "string + policy_request_body"
  | GetUserGroups string
  | GetGroupUsers string
  | PostGroup "string + group_request"
  | DeleteMember string string
  | GetGroups list_query
  | GetUsers list_query
  | DeleteGroupRoute string

definition with_body :: "api_error + 'r \<Rightarrow> ('r \<Rightarrow> ('w, api_error, 'a) act) \<Rightarrow> ('w, api_error, 'a) act" where
  "with_body body handler = bind_act (res_act body) handler"

fun serve_policy :: "('e, 'l) policy_engine \<Rightarrow> (char \<Rightarrow> bool) \<Rightarrow> (wal_op \<Rightarrow> i64) \<Rightarrow> string \<Rightarrow> policy_route \<Rightarrow> (('e, 'l) policy_world, api_error, policy_reply) act" where
  "serve_policy eng is_ws ts caller (GetRules q) = get_rules_route eng caller q"
| "serve_policy eng is_ws ts caller (PostRule body) =
     with_body (validated_json (validate_policy_request is_ws) body) (add_rule_route eng ts caller)"
| "serve_policy eng is_ws ts caller (DeleteRule body) =
     with_body (validated_json (validate_policy_request is_ws) body) (remove_rule_route eng ts caller)"
| "serve_policy eng is_ws ts caller (GetUserGroups u) = get_user_groups_route eng caller u"
| "serve_policy eng is_ws ts caller (GetGroupUsers g) = get_group_users_route eng caller g"
| "serve_policy eng is_ws ts caller (PostGroup body) =
     with_body (validated_json (validate_group_request is_ws) body) (assign_group_route eng ts caller)"
| "serve_policy eng is_ws ts caller (DeleteMember g u) = remove_user_from_group_route eng ts caller g u"
| "serve_policy eng is_ws ts caller (GetGroups q) = list_groups_route eng caller q"
| "serve_policy eng is_ws ts caller (GetUsers q) = list_users_route eng caller q"
| "serve_policy eng is_ws ts caller (DeleteGroupRoute g) = delete_group_route eng ts caller g"

section \<open>Properties\<close>

fun route_needs :: "policy_route \<Rightarrow> resource \<times> action" where
  "route_needs (GetRules _) = (Rules, Read)"
| "route_needs (PostRule _) = (Rules, Write)"
| "route_needs (DeleteRule _) = (Rules, Write)"
| "route_needs (GetUserGroups _) = (UserGroups, Read)"
| "route_needs (GetGroupUsers _) = (UserGroups, Read)"
| "route_needs (PostGroup _) = (UserGroups, Write)"
| "route_needs (DeleteMember _ _) = (UserGroups, Write)"
| "route_needs (GetGroups _) = (UserGroups, Read)"
| "route_needs (GetUsers _) = (UserGroups, Read)"
| "route_needs (DeleteGroupRoute _) = (UserGroups, Write)"

text \<open>A handler either got past the check of its permission or failed with the rules and the feed untouched.\<close>

definition refused :: "('e, 'l) policy_world \<Rightarrow> ('w + 'a) \<Rightarrow> ('e, 'l) policy_world \<Rightarrow> bool" where
  "refused w r w' \<longleftrightarrow> (\<exists>e. r = Inl e) \<and> pw_enforcer w' = pw_enforcer w \<and> pw_feed w' = pw_feed w"

lemma require_refuses:
  assumes "bind_act (api_call (require eng caller ob a)) f w = (r, w')"
  shows "ef_enforce (pe_ops eng) caller ob (act_text a) (pw_enforcer w) = Inr True \<or> refused w r w'"
  using assms
  by (auto simp: api_call_def require_def authorize_def refused_def act_eqs split: sum.splits prod.splits if_splits)

lemma with_body_refuses:
  assumes "with_body (validated_json v body) f w = (r, w')"
    and "\<And>req. f req w = (r, w') \<Longrightarrow> P \<or> refused w r w'"
  shows "P \<or> refused w r w'"
  using assms by (auto simp: with_body_def bind_act_eq validated_json_def refused_def split: sum.splits)

lemma serve_policy_checks:
  assumes "serve_policy eng is_ws ts caller rt w = (r, w')"
  shows "ef_enforce (pe_ops eng) caller (resource_str (fst (route_needs rt))) (act_text (snd (route_needs rt))) (pw_enforcer w) = Inr True \<or> refused w r w'"
proof (cases rt)
  case (PostRule body)
  show ?thesis by (rule with_body_refuses [OF assms [unfolded PostRule serve_policy.simps]])
    (simp add: PostRule add_rule_route_def require_refuses del: resource_str.simps act_text.simps)
next
  case (DeleteRule body)
  show ?thesis by (rule with_body_refuses [OF assms [unfolded DeleteRule serve_policy.simps]])
    (simp add: DeleteRule remove_rule_route_def require_refuses del: resource_str.simps act_text.simps)
next
  case (PostGroup body)
  show ?thesis by (rule with_body_refuses [OF assms [unfolded PostGroup serve_policy.simps]])
    (simp add: PostGroup assign_group_route_def require_refuses del: resource_str.simps act_text.simps)
qed (use assms in \<open>simp_all add: get_rules_route_def get_user_groups_route_def get_group_users_route_def remove_user_from_group_route_def
    list_groups_route_def list_users_route_def delete_group_route_def require_refuses del: resource_str.simps act_text.simps\<close>)

text \<open>
  C17: a valid token is not enough to manage the policy. Whatever a route of the module is asked, either the policy lets the caller do it, through a
  rule on the resource of the route for the caller or for a group the caller's groups lead to, or the request fails
  and neither a rule, nor a group, nor the feed has changed.
\<close>

theorem policy_routes_authorized:
  assumes "enforcer (pe_ops eng) prules grules einv" and "einv (pw_enforcer w)" and "serve_policy eng is_ws ts caller rt w = (r, w')"
  shows "(\<exists>p. [p, resource_str (fst (route_needs rt)), act_text (snd (route_needs rt))] \<in> prules (pw_enforcer w) \<and>
      (caller, p) \<in> (links (grules (pw_enforcer w)))\<^sup>*) \<or> refused w r w'"
  using serve_policy_checks [OF assms(3)] enforcer.enforce_sound [OF assms(1,2)] by blast

theorem policy_routes_authorized_witness:
  "\<exists>r w'. serve_policy demo_policy (\<lambda>c. c = CHR '' '') (\<lambda>_. 7) ''eve'' (DeleteGroupRoute ''staff'') empty_policy = (r, w') \<and> refused empty_policy r w'"
proof -
  obtain r w' where run: "serve_policy demo_policy (\<lambda>c. c = CHR '' '') (\<lambda>_. 7) ''eve'' (DeleteGroupRoute ''staff'') empty_policy = (r, w')" by force
  have enf: "enforcer (pe_ops demo_policy) (\<lambda>e. set (me_p e)) (\<lambda>e. set (me_g e)) mem_einv" by (simp add: memenf.enforcer_axioms)
  from policy_routes_authorized [OF enf _ run] have "refused empty_policy r w'" by simp
  with run show ?thesis by blast
qed

text \<open>
  The pages of a listing tile it. Asking for page after page with the limit the replies echo, from the start, returns every item once and in order,
  and no page is longer than the cap.
\<close>

theorem policy_pages_tile:
  assumes "lim = pg_limit (page_from_query q)" and "k * unat lim < 2 ^ 64"
  shows "concat (map (\<lambda>i. pd_items (paged_reply (q\<lparr>lq_offset := Some (of_nat (i * unat lim))\<rparr>) xs)) [0..<k]) = take (k * unat lim) xs \<and>
    unat lim \<le> 1000"
  using assms(2)
proof (induction k)
  case 0
  have "lim \<le> 1000" using assms(1) by (simp add: page_from_query_def MAX_PAGE_SIZE_def)
  then show ?case by (simp add: word_le_nat_alt)
next
  case (Suc k)
  have small: "k * unat lim < 2 ^ 64" using Suc.prems by simp
  then have off: "unat (of_nat (k * unat lim) :: u64) = k * unat lim" by (simp add: unsigned_of_nat take_bit_nat_eq_self del: of_nat_mult)
  have "pd_items (paged_reply (q\<lparr>lq_offset := Some (of_nat (k * unat lim))\<rparr>) xs) = take (unat lim) (drop (k * unat lim) xs)"
    unfolding paged_reply_def Let_def page_apply_def page_from_query_def using assms(1) off by (simp add: page_from_query_def del: of_nat_mult)
  moreover have "take (Suc k * unat lim) xs = take (k * unat lim) xs @ take (unat lim) (drop (k * unat lim) xs)"
    using take_add [of "k * unat lim" "unat lim" xs] by (simp add: add.commute)
  ultimately show ?case using Suc.IH [OF small] by simp
qed

theorem policy_pages_tile_witness:
  "concat (map (\<lambda>i. pd_items (paged_reply (\<lparr>lq_limit = Some 2, lq_offset = None\<rparr>\<lparr>lq_offset := Some (of_nat (i * unat (2 :: u64)))\<rparr>) ''abcde'')) [0..<3]) = ''abcde''"
proof -
  have lim: "(2 :: u64) = pg_limit (page_from_query \<lparr>lq_limit = Some 2, lq_offset = None\<rparr>)"
    by (simp add: page_from_query_def MAX_PAGE_SIZE_def min_def)
  from policy_pages_tile [OF lim, of 3 "''abcde''"] show ?thesis by (simp del: list_query.update_convs)
qed

end
