(* ===== verification/Policy_Import.thy ===== *)
theory Policy_Import
  imports Policy_Props
begin

text \<open>
  What an import of a policy dump does: the policy becomes the union of what it was and the dump, the report counts every entry
  once, and the feed carries exactly the entries that were new.
\<close>

text \<open>A dump as an export writes it: three fields per rule, two per link, and no field with the separator of the keys.\<close>

definition dump_ok :: "policy_dump \<Rightarrow> bool" where
  "dump_ok d \<longleftrightarrow> (\<forall>r \<in> set (pd_p d). length r = 3 \<and> clean_rule r) \<and> (\<forall>l \<in> set (pd_g d). length l = 2 \<and> clean_rule l)"

definition rule_entry :: "string list \<Rightarrow> wal_op" where
  "rule_entry r = PolicyRuleAdd (nth_or_default r 0) (nth_or_default r 1) (nth_or_default r 2)"

definition link_entry :: "string list \<Rightarrow> wal_op" where
  "link_entry l = GroupAdd (nth_or_default l 0) (nth_or_default l 1)"

text \<open>The entries of a list that are new, each at its first occurrence.\<close>

fun fresh :: "'a list \<Rightarrow> 'a set \<Rightarrow> 'a list" where
  "fresh [] S = []"
| "fresh (x # xs) S = (if x \<in> S then fresh xs S else x # fresh xs (insert x S))"

lemma set_fresh: "set (fresh xs S) = set xs - S"
  by (induction xs arbitrary: S) auto

lemma length_fresh: "length (fresh xs S) \<le> length xs"
  by (induction xs arbitrary: S) (auto intro: le_SucI)

lemma distinct_fresh: "distinct (fresh xs S)"
  by (induction xs arbitrary: S) (auto simp: set_fresh)

lemma fresh_snoc: "fresh (xs @ [x]) S = fresh xs S @ (if x \<in> S \<union> set xs then [] else [x])"
  by (induction xs arbitrary: S) auto

lemma replay_rule_entry: "length r = 3 \<Longrightarrow> replay_op (rule_entry r) (P, G) = (insert r P, G)"
  using triple_list [of r] by (simp add: rule_entry_def nth_or_default_def)

lemma replay_link_entry: "length l = 2 \<Longrightarrow> replay_op (link_entry l) (P, G) = (P, insert l G)"
  using pair_list [of l] by (simp add: link_entry_def nth_or_default_def)

lemma fold_rule_entries: "\<forall>r \<in> set rs. length r = 3 \<Longrightarrow> fold replay_op (map rule_entry rs) (P, G) = (set rs \<union> P, G)"
  by (induction rs arbitrary: P) (simp_all add: replay_rule_entry)

lemma fold_link_entries: "\<forall>l \<in> set ls. length l = 2 \<Longrightarrow> fold replay_op (map link_entry ls) (P, G) = (P, set ls \<union> G)"
  by (induction ls arbitrary: G) (simp_all add: replay_link_entry)

context policy_over
begin

lemma wp_ef_raw:
  assumes "at w PG l" and "live w"
    and law: "\<And>e q e'. einv e \<Longrightarrow> m e = (q, e') \<Longrightarrow> prules e = fst PG \<Longrightarrow> grules e = snd PG \<Longrightarrow>
        (case q of Inl _ \<Rightarrow> True | Inr b \<Rightarrow> einv e' \<and> b = new \<and> prules e' = fst PG' \<and> grules e' = snd PG')"
    and "\<And>w'. at w' PG' l \<Longrightarrow> live w' \<Longrightarrow> Q (Inr new) w'" and "\<And>w' e. Q (Inl e) w'"
  shows "wp (ef_raw m) Q w"
  unfolding ef_raw_def wp_focus wp_map_err
proof (rule wpI)
  fix q e' assume m: "m (pw_enforcer w) = (q, e')"
  have e: "einv (pw_enforcer w)" "prules (pw_enforcer w) = fst PG" "grules (pw_enforcer w) = snd PG"
    using assms(1,2) by (simp_all add: at_def live_def)
  show "case q of Inl x \<Rightarrow> Q (Inl (Casbin x)) (w\<lparr>pw_enforcer := e'\<rparr>) | Inr x \<Rightarrow> Q (Inr x) (w\<lparr>pw_enforcer := e'\<rparr>)"
    using law [OF e(1) m e(2,3)] assms(1,5) assms(4) [of "w\<lparr>pw_enforcer := e'\<rparr>"] by (cases q) (auto simp: at_def live_def)
qed

lemma wp_import_rule:
  assumes "at w (P, G) l" and "live w" and "length l < capacity" and r: "length r = 3" "clean_rule r"
    and "\<And>w'. at w' (insert r P, G) (if r \<in> P then l else l @ [rule_entry r]) \<Longrightarrow> live w' \<Longrightarrow>
        Q (Inr (if r \<in> P then rep\<lparr>ir_duplicates := ir_duplicates rep + 1\<rparr> else rep\<lparr>ir_rules_added := ir_rules_added rep + 1\<rparr>)) w'"
    and "\<And>e w'. Q (Inl e) w'"
  shows "wp (import_rule eng ts r rep) Q w"
proof -
  have tail: "wp (if new then bind_act (policy_announce eng ts (PolicyRuleAdd (nth_or_default r 0) (nth_or_default r 1) (nth_or_default r 2))) (\<lambda>_.
       ok_act (rep\<lparr>ir_rules_added := ir_rules_added rep + 1\<rparr>)) else ok_act (rep\<lparr>ir_duplicates := ir_duplicates rep + 1\<rparr>)) Q w'"
    if "at w' (insert r P, G) l" "live w'" "new = (r \<notin> P)" for w' new
  proof (cases "r \<in> P")
    case True
    then show ?thesis using that assms(6) by simp
  next
    case False
    show ?thesis
      unfolding that(3) if_P [OF False] rule_entry_def [symmetric] wp_bind
      by (rule wp_announce [OF that(1) assms(3) that(2)], unfold sum.case wp_ok) (use assms(6,7) False in auto)
  qed
  show ?thesis
    unfolding import_rule_def wp_bind [of "ef_raw _"]
  proof (rule wp_ef_raw [OF assms(1,2), where PG' = "(insert r P, G)" and new = "r \<notin> P"], goal_cases)
    case (1 e q e')
    show ?case using add_policy_law [OF 1(1) r(2,1) 1(2)] 1(3,4) by (cases q) simp_all
  next
    case (2 w')
    show ?case unfolding sum.case by (rule tail [OF 2]) simp
  next
    case (3 w' e)
    show ?case unfolding sum.case by (rule assms(7))
  qed
qed

lemma wp_import_link:
  assumes "at w (P, G) l" and "live w" and "length l < capacity" and k: "length k = 2" "clean_rule k"
    and "\<And>w'. at w' (P, insert k G) (if k \<in> G then l else l @ [link_entry k]) \<Longrightarrow> live w' \<Longrightarrow>
        Q (Inr (if k \<in> G then rep\<lparr>ir_duplicates := ir_duplicates rep + 1\<rparr> else rep\<lparr>ir_groups_added := ir_groups_added rep + 1\<rparr>)) w'"
    and "\<And>e w'. Q (Inl e) w'"
  shows "wp (import_link eng ts k rep) Q w"
proof -
  have tail: "wp (if new then bind_act (policy_announce eng ts (GroupAdd (nth_or_default k 0) (nth_or_default k 1))) (\<lambda>_.
       ok_act (rep\<lparr>ir_groups_added := ir_groups_added rep + 1\<rparr>)) else ok_act (rep\<lparr>ir_duplicates := ir_duplicates rep + 1\<rparr>)) Q w'"
    if "at w' (P, insert k G) l" "live w'" "new = (k \<notin> G)" for w' new
  proof (cases "k \<in> G")
    case True
    then show ?thesis using that assms(6) by simp
  next
    case False
    show ?thesis
      unfolding that(3) if_P [OF False] link_entry_def [symmetric] wp_bind
      by (rule wp_announce [OF that(1) assms(3) that(2)], unfold sum.case wp_ok) (use assms(6,7) False in auto)
  qed
  show ?thesis
    unfolding import_link_def wp_bind [of "ef_raw _"]
  proof (rule wp_ef_raw [OF assms(1,2), where PG' = "(P, insert k G)" and new = "k \<notin> G"], goal_cases)
    case (1 e q e')
    show ?case using add_grouping_law [OF 1(1) k(2,1) 1(2)] 1(3,4) by (cases q) simp_all
  next
    case (2 w')
    show ?case unfolding sum.case by (rule tail [OF 2]) simp
  next
    case (3 w' e)
    show ?case unfolding sum.case by (rule assms(7))
  qed
qed

lemma wp_import:
  assumes "at w (P, G) l" and "live w" and d: "dump_ok d" and room: "length l + length (pd_p d) + length (pd_g d) < capacity"
    and "\<And>w'. at w' (set (pd_p d) \<union> P, set (pd_g d) \<union> G) (l @ map rule_entry (fresh (pd_p d) P) @ map link_entry (fresh (pd_g d) G)) \<Longrightarrow>
        Q (Inr \<lparr>ir_rules_added = length (fresh (pd_p d) P), ir_groups_added = length (fresh (pd_g d) G),
          ir_duplicates = length (pd_p d) - length (fresh (pd_p d) P) + (length (pd_g d) - length (fresh (pd_g d) G))\<rparr>) w'"
    and "\<And>e w'. Q (Inl e) w'"
  shows "wp (import_s3 eng ts d) Q w"
proof -
  let ?rep = "\<lambda>ps gs. \<lparr>ir_rules_added = length (fresh ps P), ir_groups_added = length (fresh gs G),
      ir_duplicates = length ps - length (fresh ps P) + (length gs - length (fresh gs G))\<rparr>"
  let ?feed = "\<lambda>ps gs. l @ map rule_entry (fresh ps P) @ map link_entry (fresh gs G)"
  have links: "wp (for_act (pd_g d) (import_link eng ts) (?rep (pd_p d) [])) Q w'"
    if "at w' (set (pd_p d) \<union> P, G) (?feed (pd_p d) [])" "live w'" for w'
  proof (rule wp_for [where I = "\<lambda>rest rep w2. \<exists>gs. pd_g d = gs @ rest \<and> live w2 \<and> rep = ?rep (pd_p d) gs \<and> at w2 (set (pd_p d) \<union> P, set gs \<union> G) (?feed (pd_p d) gs)"], goal_cases)
    case 1
    show ?case using that by simp
  next
    case (2 k rest rep w2)
    then obtain gs where g: "pd_g d = gs @ k # rest" "live w2" "rep = ?rep (pd_p d) gs" "at w2 (set (pd_p d) \<union> P, set gs \<union> G) (?feed (pd_p d) gs)" by blast
    have k: "length k = 2" "clean_rule k" using d g(1) by (simp_all add: dump_ok_def)
    have cap: "length (?feed (pd_p d) gs) < capacity" using room g(1) length_fresh [of "pd_p d" P] length_fresh [of gs G] by simp
    have le: "length (fresh gs G) \<le> length gs" by (rule length_fresh)
    show ?case
      by (rule wp_import_link [OF g(4,2) cap k])
         (use g(1,3) assms(6) le in \<open>auto simp: fresh_snoc Suc_diff_le intro!: exI [of _ "gs @ [k]"]\<close>)
  next
    case (3 rep w2)
    then show ?case using assms(5) by auto
  qed
  show ?thesis
    unfolding import_s3_def wp_bind [of "for_act _ _ _"]
  proof (rule wp_for [where I = "\<lambda>rest rep w2. \<exists>ps. pd_p d = ps @ rest \<and> live w2 \<and> rep = ?rep ps [] \<and> at w2 (set ps \<union> P, G) (?feed ps [])"], goal_cases)
    case 1
    show ?case using assms(1,2) by simp
  next
    case (2 r rest rep w2)
    then obtain ps where g: "pd_p d = ps @ r # rest" "live w2" "rep = ?rep ps []" "at w2 (set ps \<union> P, G) (?feed ps [])" by blast
    have r: "length r = 3" "clean_rule r" using d g(1) by (simp_all add: dump_ok_def)
    have cap: "length (?feed ps []) < capacity" using room g(1) length_fresh [of ps P] by simp
    have le: "length (fresh ps P) \<le> length ps" by (rule length_fresh)
    show ?case
      by (rule wp_import_rule [OF g(4,2) cap r])
         (use g(1,3) assms(6) le in \<open>auto simp: fresh_snoc Suc_diff_le intro!: exI [of _ "ps @ [r]"]\<close>)
  next
    case (3 rep w2)
    then show ?case using links by auto
  qed
qed

end

section \<open>Properties\<close>

text \<open>
  An import merges. When it returns, the policy is the union of what it was and the dump; the report counts the rules and links that
  were new and every other entry as a duplicate; and replaying what it added to the feed gives the policy it left. So importing an export again
  adds nothing, and importing it into an empty store reproduces the exported policy.
\<close>

theorem policy_import_merges:
  assumes "policy_over eng prules grules einv sink feed finv capacity" and "einv (pw_enforcer w)" and "finv (pw_feed w)"
    and "dump_ok d" and "length (feed (pw_feed w)) + length (pd_p d) + length (pd_g d) < capacity"
    and "import_s3 eng ts d w = (Inr rep, w')"
  shows "pol prules grules w' = (set (pd_p d) \<union> prules (pw_enforcer w), set (pd_g d) \<union> grules (pw_enforcer w)) \<and>
    ir_rules_added rep = card (set (pd_p d) - prules (pw_enforcer w)) \<and> ir_groups_added rep = card (set (pd_g d) - grules (pw_enforcer w)) \<and>
    ir_rules_added rep + ir_groups_added rep + ir_duplicates rep = length (pd_p d) + length (pd_g d) \<and>
    (\<exists>ops. feed (pw_feed w') = feed (pw_feed w) @ ops \<and> length ops = ir_rules_added rep + ir_groups_added rep \<and> pol prules grules w' = fold replay_op ops (pol prules grules w))"
proof -
  let ?P = "prules (pw_enforcer w)" let ?G = "grules (pw_enforcer w)"
  let ?ops = "map rule_entry (fresh (pd_p d) ?P) @ map link_entry (fresh (pd_g d) ?G)"
  note at = policy_over.atI [OF assms(1,3), unfolded pol_def]
  have live: "policy_over.live einv w" using assms(2) by (simp add: policy_over.live_def [OF assms(1)])
  have "wp (import_s3 eng ts d) (\<lambda>r w'. \<forall>rep. r = Inr rep \<longrightarrow>
      rep = \<lparr>ir_rules_added = length (fresh (pd_p d) ?P), ir_groups_added = length (fresh (pd_g d) ?G),
          ir_duplicates = length (pd_p d) - length (fresh (pd_p d) ?P) + (length (pd_g d) - length (fresh (pd_g d) ?G))\<rparr> \<and>
      pol prules grules w' = (set (pd_p d) \<union> ?P, set (pd_g d) \<union> ?G) \<and> feed (pw_feed w') = feed (pw_feed w) @ ?ops) w"
    by (rule policy_over.wp_import [OF assms(1) at live assms(4,5)]) (auto dest!: policy_over.atD [OF assms(1)])
  from wpD [OF this assms(6)] have rep: "rep = \<lparr>ir_rules_added = length (fresh (pd_p d) ?P), ir_groups_added = length (fresh (pd_g d) ?G),
          ir_duplicates = length (pd_p d) - length (fresh (pd_p d) ?P) + (length (pd_g d) - length (fresh (pd_g d) ?G))\<rparr>"
      and new: "pol prules grules w' = (set (pd_p d) \<union> ?P, set (pd_g d) \<union> ?G)" "feed (pw_feed w') = feed (pw_feed w) @ ?ops" by auto
  have "\<forall>r \<in> set (fresh (pd_p d) ?P). length r = 3" "\<forall>l \<in> set (fresh (pd_g d) ?G). length l = 2" using assms(4) by (auto simp: set_fresh dump_ok_def)
  then have "fold replay_op ?ops (pol prules grules w) = pol prules grules w'"
    by (simp add: pol_def [of _ _ w] fold_rule_entries fold_link_entries new(1) set_fresh)
  moreover have "length (fresh (pd_p d) ?P) = card (set (pd_p d) - ?P)" "length (fresh (pd_g d) ?G) = card (set (pd_g d) - ?G)"
    using distinct_card [OF distinct_fresh] by (metis set_fresh)+
  ultimately show ?thesis
    using new length_fresh [of "pd_p d" ?P] length_fresh [of "pd_g d" ?G] by (auto simp: rep intro!: exI [of _ ?ops])
qed

definition small_dump :: policy_dump where
  "small_dump = \<lparr>pd_p = [[''staff'', ''rules'', ''read'']], pd_g = [[''ann'', ''staff''], [''ann'', ''staff'']]\<rparr>"

theorem policy_import_merges_witness:
  "\<exists>rep w'. import_s3 demo_policy (\<lambda>_. 7) small_dump empty_policy = (Inr rep, w') \<and> ir_rules_added rep = 1 \<and> ir_groups_added rep = 1 \<and> ir_duplicates rep = 1"
proof -
  have "case fst (import_s3 demo_policy (\<lambda>_. 7) small_dump empty_policy) of Inr _ \<Rightarrow> True | Inl _ \<Rightarrow> False" by code_simp
  then obtain rep w' where run: "import_s3 demo_policy (\<lambda>_. 7) small_dump empty_policy = (Inr rep, w')"
    by (cases "import_s3 demo_policy (\<lambda>_. 7) small_dump empty_policy") (auto split: sum.splits)
  have ok: "dump_ok small_dump" by (simp add: dump_ok_def small_dump_def unit_sep_def)
  from policy_import_merges [OF mempol.policy_over_axioms _ _ ok _ run] run show ?thesis by (auto simp: wal_capacity_def small_dump_def)
qed

end
