(* ===== verification/Snapshot.thy ===== *)
theory Snapshot
  imports Policy_Engine Object_Client
begin

text \<open>
  The per-user replicas of \<^verbatim>\<open>src/src/sync/snapshot.rs\<close>: the queue of rebuilds, the full rebuild with its filtered copy and its
  merge with the live replica, and the incremental replay of the change feed. The manager reads the feed, the master store
  and the policy, and writes the replica of one subject, a key-value store under a prefix of the bucket.
  The crate that opens such a store, the digest of a subject and the scratch stores are arguments of the model; the RAM mirror
  of the master is left out. A loop of the code that has no bound of its own takes fuel or is a partial
  function; \<open>Inr None\<close> is a loop that has not ended.
\<close>

section \<open>The manager\<close>

record ('s, 't, 'v, 'e, 'l, 'o) snapshot_manager =
  sm_fs :: "('s, 't, 'v) fs_env"
  sm_wal :: "'v wal_codec"
  sm_policy :: "('e, 'l) policy_engine"
  sm_writer :: "string \<Rightarrow> ('o, 't, 'v) kv_ops"
  sm_open_writer :: "string \<Rightarrow> ('o, store_error, unit) act"
  sm_reader :: "string \<Rightarrow> ('o, 't, 'v) kv_ops"
  sm_open_reader :: "string \<Rightarrow> ('o, store_error, unit) act"
  sm_object :: "string \<Rightarrow> ('o, os_error, unit) act"
  sm_scratch :: "string \<Rightarrow> 's"
  sm_sha256 :: "string \<Rightarrow> string"
  sm_db_prefix :: string

text \<open>The state the manager reads and writes: a queue without a pool has no list of jobs.\<close>

record ('s, 'e, 'l, 'o) sync_world =
  sw_wal :: 's
  sw_master :: "'s fs_store"
  sw_policy :: "('e, 'l) policy_world"
  sw_bucket :: 'o
  sw_scratch :: 's
  sw_inflight :: "string set"
  sw_jobs :: "(string \<times> u64) list option"

definition APPLIED_KEY :: string where "APPLIED_KEY = ''sync:applied''"
definition MAX_REPLAY_OPS :: nat where "MAX_REPLAY_OPS = 1000"
definition MAX_POLICY_REPLAY_FILES :: nat where "MAX_POLICY_REPLAY_FILES = 1000"

definition trim_slashes :: "string \<Rightarrow> string" where
  "trim_slashes s = rev (dropWhile (\<lambda>c. c = CHR ''/'') (rev (dropWhile (\<lambda>c. c = CHR ''/'') s)))"

definition safe_sub :: "('s, 't, 'v, 'e, 'l, 'o) snapshot_manager \<Rightarrow> string \<Rightarrow> string" where
  "safe_sub mgr sub = hex_encode (sm_sha256 mgr sub)"

definition user_prefix :: "('s, 't, 'v, 'e, 'l, 'o) snapshot_manager \<Rightarrow> string \<Rightarrow> string" where
  "user_prefix mgr sub = trim_slashes (sm_db_prefix mgr) @ ''/u/'' @ safe_sub mgr sub"

definition resolve_object :: "('s, 't, 'v, 'e, 'l, 'o) snapshot_manager \<Rightarrow> string \<Rightarrow> string \<Rightarrow> fs_error + string" where
  "resolve_object mgr sub path_tail =
     (if list_ex (\<lambda>seg. seg = [] \<or> seg = ''..'') (split_on CHR ''/'' path_tail)
      then Inl (BadRequest ''invalid object path'')
      else Inr (user_prefix mgr sub @ ''/'' @ path_tail))"

section \<open>Actions on the parts of the state\<close>

definition on_wal :: "('s, fs_error, 'a) act \<Rightarrow> (('s, 'e, 'l, 'o) sync_world, fs_error, 'a) act" where
  "on_wal = focus_act sw_wal (\<lambda>s w. w\<lparr>sw_wal := s\<rparr>)"

definition on_master :: "('s fs_store, fs_error, 'a) act \<Rightarrow> (('s, 'e, 'l, 'o) sync_world, fs_error, 'a) act" where
  "on_master = focus_act sw_master (\<lambda>s w. w\<lparr>sw_master := s\<rparr>)"

definition on_bucket :: "('o, 'f, 'a) act \<Rightarrow> (('s, 'e, 'l, 'o) sync_world, 'f, 'a) act" where
  "on_bucket = focus_act sw_bucket (\<lambda>s w. w\<lparr>sw_bucket := s\<rparr>)"

text \<open>A walk reads the handle of its store.\<close>

definition on_master_kv :: "('s, fs_error, 'a) act \<Rightarrow> (('s, 'e, 'l, 'o) sync_world, fs_error, 'a) act" where
  "on_master_kv = focus_act (fs_kv \<circ> sw_master) (\<lambda>s w. w\<lparr>sw_master := (sw_master w)\<lparr>fs_kv := s\<rparr>\<rparr>)"

definition on_scratch_kv :: "('s, fs_error, 'a) act \<Rightarrow> (('s, 'e, 'l, 'o) sync_world, fs_error, 'a) act" where
  "on_scratch_kv = focus_act sw_scratch (\<lambda>s w. w\<lparr>sw_scratch := s\<rparr>)"

text \<open>\<open>FsStore::new\<close> on the scratch store and on the writer of a replica: neither is the master.\<close>

definition on_scratch :: "('s fs_store, fs_error, 'a) act \<Rightarrow> (('s, 'e, 'l, 'o) sync_world, fs_error, 'a) act" where
  "on_scratch = focus_act (\<lambda>w. \<lparr>fs_kv = sw_scratch w, fs_latch = latch_new\<rparr>) (\<lambda>s w. w\<lparr>sw_scratch := fs_kv s\<rparr>)"

definition on_replica :: "('o fs_store, fs_error, 'a) act \<Rightarrow> (('s, 'e, 'l, 'o) sync_world, fs_error, 'a) act" where
  "on_replica = focus_act (\<lambda>w. \<lparr>fs_kv = sw_bucket w, fs_latch = latch_new\<rparr>) (\<lambda>s w. w\<lparr>sw_bucket := fs_kv s\<rparr>)"

definition scratch_env :: "('s, 't, 'v, 'e, 'l, 'o) snapshot_manager \<Rightarrow> ('s, 't, 'v) fs_env" where
  "scratch_env mgr = (sm_fs mgr)\<lparr>fe_primary := False\<rparr>"

definition replica_env :: "('s, 't, 'v, 'e, 'l, 'o) snapshot_manager \<Rightarrow> string \<Rightarrow> ('o, 't, 'v) fs_env" where
  "replica_env mgr sub = \<lparr>fe_ops = sm_writer mgr (user_prefix mgr sub), fe_cod = fe_cod (sm_fs mgr), fe_primary = False\<rparr>"

text \<open>A step that may find an inner loop unfinished.\<close>

definition bind_run :: "('w, 'f, 'a option) act \<Rightarrow> ('a \<Rightarrow> ('w, 'f, 'b option) act) \<Rightarrow> ('w, 'f, 'b option) act" where
  "bind_run m f = bind_act m (\<lambda>x. case x of None \<Rightarrow> ok_act None | Some y \<Rightarrow> f y)"

section \<open>The coverage marker\<close>

definition load_applied :: "('s, 't, 'v, 'e, 'l, 'o) snapshot_manager \<Rightarrow> string \<Rightarrow> (('s, 'e, 'l, 'o) sync_world, fs_error, u64 option) act" where
  "load_applied mgr sub =
     (let p = user_prefix mgr sub; ops = sm_reader mgr p in
      bind_act (try_act (on_bucket (sm_object mgr (p @ ''/manifest.json'')))) (\<lambda>manifest.
      case manifest of
        Inl (OsNotFound _) \<Rightarrow> ok_act None
      | Inl (OsOther e) \<Rightarrow> err_act (Internal e)
      | Inr _ \<Rightarrow>
          bind_act (on_bucket (store_act (sm_open_reader mgr p))) (\<lambda>_.
          bind_act (on_bucket (store_act (kv_begin ops))) (\<lambda>tx.
          bind_act (on_bucket (store_act (tx_get ops tx APPLIED_KEY))) (\<lambda>b.
          bind_act (on_bucket (store_act (tx_rollback ops tx))) (\<lambda>_.
          ok_act (case b of
              None \<Rightarrow> None
            | Some b \<Rightarrow> (case dec_seq (sm_wal mgr) b of Inl _ \<Rightarrow> None | Inr n \<Rightarrow> Some n))))))))"

section \<open>What a subject may read\<close>

text \<open>\<open>authorize_row(\<dots>).await.unwrap_or(false)\<close>\<close>

definition row_readable :: "('s, 't, 'v, 'e, 'l, 'o) snapshot_manager \<Rightarrow> string \<Rightarrow> string \<Rightarrow> string \<Rightarrow>
    (('s, 'e, 'l, 'o) sync_world, fs_error, bool) act" where
  "row_readable mgr sub ty rid w =
     (case authorize_row (sm_policy mgr) sub ty rid Read (sw_policy w) of
        (q, p) \<Rightarrow> (Inr (q = Inr True), w\<lparr>sw_policy := p\<rparr>))"

definition visible_rows :: "('s, 't, 'v, 'e, 'l, 'o) snapshot_manager \<Rightarrow> string \<Rightarrow> string \<Rightarrow>
    (('s, 'e, 'l, 'o) sync_world, fs_error, (string \<times> string) list) act" where
  "visible_rows mgr sub file_id =
     bind_act (on_master (rows_for_file (sm_fs mgr) file_id)) (\<lambda>rows.
     for_act rows (\<lambda>(ty, rid) out.
       bind_act (row_readable mgr sub ty rid) (\<lambda>yes. ok_act (if yes then out @ [(ty, rid)] else out))) [])"

definition can_read :: "('s, 't, 'v, 'e, 'l, 'o) snapshot_manager \<Rightarrow> string \<Rightarrow> string \<Rightarrow>
    (('s, 'e, 'l, 'o) sync_world, fs_error, bool) act" where
  "can_read mgr sub file_id =
     bind_act (on_master (get_file (sm_fs mgr) file_id)) (\<lambda>f.
     case f of
       None \<Rightarrow> ok_act False
     | Some rec \<Rightarrow>
         if fr_owner_sub rec = sub then ok_act True
         else bind_act (visible_rows mgr sub file_id) (\<lambda>rows. ok_act (rows \<noteq> [])))"

section \<open>The full rebuild\<close>

fun copy_loop :: "nat \<Rightarrow> ('s, 't, 'v, 'e, 'l, 'o) snapshot_manager \<Rightarrow> string \<Rightarrow> 'v kv_pages \<Rightarrow> string list \<Rightarrow>
    (('s, 'e, 'l, 'o) sync_world, fs_error, string list option) act" where
  "copy_loop 0 mgr sub scan undecodable = ok_act None"
| "copy_loop (Suc n) mgr sub scan undecodable =
     bind_run (on_master_kv (next_file (Suc n) (sm_fs mgr) scan [])) (\<lambda>((record, skipped), scan').
     case record of
       None \<Rightarrow> ok_act (Some (undecodable @ skipped))
     | Some rec \<Rightarrow>
         bind_act (visible_rows mgr sub (fr_id rec)) (\<lambda>rows.
         if fr_owner_sub rec \<noteq> sub \<and> rows = [] then copy_loop n mgr sub scan' (undecodable @ skipped)
         else
           bind_act (on_scratch (save_file (scratch_env mgr) rec)) (\<lambda>_.
           bind_act (on_master (get_ref_info (sm_fs mgr) (fr_id rec))) (\<lambda>info.
           bind_act (if 0 < ri_count info
                     then for_act rows (\<lambda>(ty, rid) _. bind_act (on_scratch (attach (scratch_env mgr) ty rid (fr_id rec))) (\<lambda>_. ok_act ())) ()
                     else ok_act ()) (\<lambda>_.
           copy_loop n mgr sub scan' (undecodable @ skipped))))))"

definition copy_filtered :: "nat \<Rightarrow> ('s, 't, 'v, 'e, 'l, 'o) snapshot_manager \<Rightarrow> string \<Rightarrow>
    (('s, 'e, 'l, 'o) sync_world, fs_error, string list option) act" where
  "copy_filtered n mgr sub = copy_loop n mgr sub pages_new []"

text \<open>The marker is no data of the replica: the walk over the live side steps over it.\<close>

fun next_data_key :: "nat \<Rightarrow> ('o, 't, 'v) kv_ops \<Rightarrow> 'v kv_pages \<Rightarrow>
    ('o, fs_error, ((string \<times> 'v) option \<times> 'v kv_pages) option) act" where
  "next_data_key 0 ops live = ok_act None"
| "next_data_key (Suc n) ops live =
     bind_act (pages_next ops live) (\<lambda>(kv, live').
     case kv of
       None \<Rightarrow> ok_act (Some (None, live'))
     | Some kv \<Rightarrow> if fst kv \<noteq> APPLIED_KEY then ok_act (Some (Some kv, live')) else next_data_key n ops live')"

text \<open>
  What one round of the merge stages, for the entry \<open>a\<close> of the desired side and the entry \<open>b\<close> of the live side: a put, a delete
  (\<open>None\<close> as the value) or nothing.
\<close>

fun merge_write :: "(string \<times> 'v) option \<Rightarrow> (string \<times> 'v) option \<Rightarrow> (string \<times> 'v option) option" where
  "merge_write None None = None"
| "merge_write (Some a) None = Some (fst a, Some (snd a))"
| "merge_write None (Some b) = Some (fst b, None)"
| "merge_write (Some a) (Some b) =
     (if fst a < fst b then Some (fst a, Some (snd a))
      else if fst b < fst a then Some (fst b, None)
      else if snd a \<noteq> snd b then Some (fst a, Some (snd a)) else None)"

fun stage_write :: "('o, 't, 'v) kv_ops \<Rightarrow> 't \<Rightarrow> (string \<times> 'v option) option \<Rightarrow> ('o, store_error, 't) act" where
  "stage_write ops tx None = ok_act tx"
| "stage_write ops tx (Some (k, Some v)) = tx_set ops tx k v"
| "stage_write ops tx (Some (k, None)) = tx_delete ops tx k"

text \<open>The merge. Every round takes the next entry of both sides.\<close>

fun merge_loop :: "nat \<Rightarrow> ('s, 't, 'v, 'e, 'l, 'o) snapshot_manager \<Rightarrow> string \<Rightarrow> 'v kv_pages \<Rightarrow> 'v kv_pages \<Rightarrow> 't \<Rightarrow> bool \<Rightarrow>
    (('s, 'e, 'l, 'o) sync_world, fs_error, ('t \<times> bool) option) act" where
  "merge_loop 0 mgr sub desired live tx wrote = ok_act None"
| "merge_loop (Suc n) mgr sub desired live tx wrote =
     (let ops = sm_writer mgr (user_prefix mgr sub) in
      bind_act (on_scratch_kv (pages_next (fe_ops (sm_fs mgr)) desired)) (\<lambda>(a, desired').
      bind_run (on_bucket (next_data_key (Suc n) ops live)) (\<lambda>(b, live').
      if a = None \<and> b = None then ok_act (Some (tx, wrote))
      else
        bind_act (on_bucket (store_act (stage_write ops tx (merge_write a b)))) (\<lambda>tx'.
        merge_loop n mgr sub desired' live' tx' (wrote \<or> merge_write a b \<noteq> None)))))"

definition new_scratch :: "'s \<Rightarrow> (('s, 'e, 'l, 'o) sync_world, fs_error, unit) act" where
  "new_scratch s w = (Inr (), w\<lparr>sw_scratch := s\<rparr>)"

definition open_writer :: "('s, 't, 'v, 'e, 'l, 'o) snapshot_manager \<Rightarrow> string \<Rightarrow> (('s, 'e, 'l, 'o) sync_world, fs_error, unit) act" where
  "open_writer mgr sub = on_bucket (store_act (sm_open_writer mgr (user_prefix mgr sub)))"

text \<open>The end of the rebuild: the marker goes into the transaction of the diff.\<close>

definition commit_build :: "('s, 't, 'v, 'e, 'l, 'o) snapshot_manager \<Rightarrow> string \<Rightarrow> u64 \<Rightarrow> 't \<Rightarrow> bool \<Rightarrow>
    (('s, 'e, 'l, 'o) sync_world, fs_error, u64 option) act" where
  "commit_build mgr sub head tx wrote =
     (let ops = sm_writer mgr (user_prefix mgr sub) in
      bind_act (internal_of (enc_seq (sm_wal mgr) head)) (\<lambda>coverage.
      bind_act (load_applied mgr sub) (\<lambda>applied.
      if \<not> wrote \<and> applied = Some head then
        bind_act (on_bucket (store_act (tx_rollback ops tx))) (\<lambda>_. ok_act (Some head))
      else
        bind_act (on_bucket (store_act (tx_set ops tx APPLIED_KEY coverage))) (\<lambda>tx'.
        bind_act (on_bucket (store_act (tx_commit ops tx'))) (\<lambda>_.
        ok_act (Some head))))))"

text \<open>\<open>uuid\<close> is the part of a fresh identifier in the name of the scratch store.\<close>

definition build_full :: "nat \<Rightarrow> ('s, 't, 'v, 'e, 'l, 'o) snapshot_manager \<Rightarrow> string \<Rightarrow> string \<Rightarrow>
    (('s, 'e, 'l, 'o) sync_world, fs_error, u64 option) act" where
  "build_full n mgr uuid sub =
     bind_act (on_wal (wal_head (fe_ops (sm_fs mgr)) (sm_wal mgr))) (\<lambda>head.
     bind_act (new_scratch (sm_scratch mgr (''snap-'' @ safe_sub mgr sub @ ''-'' @ decimal (unat head) @ ''-'' @ uuid))) (\<lambda>_.
     bind_run (copy_filtered n mgr sub) (\<lambda>undecodable.
     if undecodable \<noteq> [] then
       err_act (Internal (''full rebuild refused: '' @ decimal (length undecodable) @ '' file metadata rows did not decode''))
     else
       bind_act (open_writer mgr sub) (\<lambda>_.
       bind_act (on_bucket (store_act (kv_begin (sm_writer mgr (user_prefix mgr sub))))) (\<lambda>tx.
       bind_run (merge_loop n mgr sub pages_new pages_new tx False) (\<lambda>(tx', wrote).
       commit_build mgr sub head tx' wrote))))))"

end
