(* ===== verification/Snapshot_Replay.thy ===== *)
theory Snapshot_Replay
  imports Snapshot "HOL-Library.Product_Lexorder"
begin

text \<open>
  The incremental half of \<^verbatim>\<open>src/src/sync/snapshot.rs\<close>: what one entry of the feed does to the replica of a subject, the replay of a
  range, the queue of rebuilds with its in-flight slots, and the decision between them. One reading of the clock stands for the
  readings of a replay; it only dates the orphans of the replica.
\<close>

section \<open>Groups\<close>

text \<open>One hop: the groups not found yet are noted and put on the frontier.\<close>

definition visit :: "string \<Rightarrow> string list \<times> string list \<Rightarrow> string list \<times> string list" where
  "visit g st = (case st of (found, frontier) \<Rightarrow> if g \<in> set found then st else (found @ [g], frontier @ [g]))"

text \<open>
  The loop of \<open>implicit_groups\<close>. The frontier is a stack, whose top is the end of the list; the set of groups found is kept in the order
  of insertion.
\<close>

partial_function (option) groups_loop :: "(string \<Rightarrow> string list) \<Rightarrow> string list \<Rightarrow> string list \<Rightarrow> string list option" where
  [code]: "groups_loop next_of found frontier =
     (if frontier = [] then Some found
      else case fold visit (next_of (last frontier)) (found, butlast frontier) of
        (found', frontier') \<Rightarrow> groups_loop next_of found' frontier')"

definition implicit_groups :: "('s, 't, 'v, 'e, 'l, 'o) snapshot_manager \<Rightarrow> string \<Rightarrow>
    (('s, 'e, 'l, 'o) sync_world, fs_error, string list option) act" where
  "implicit_groups mgr sub w = (Inr (groups_loop (\<lambda>name. get_groups_of_user (sm_policy mgr) name (sw_policy w)) [] [sub]), w)"

definition eq_ignore_ascii_case :: "string \<Rightarrow> string \<Rightarrow> bool" where
  "eq_ignore_ascii_case s t \<longleftrightarrow> map lower_char s = map lower_char t"

definition split_row_obj :: "string \<Rightarrow> (string \<times> string) option" where
  "split_row_obj obj =
     (case split_once CHR '':'' obj of
        None \<Rightarrow> None
      | Some (ty, rid) \<Rightarrow> if ty = [] \<or> rid = [] then None else Some (ty, rid))"

definition row_of_rule :: "string \<times> string \<Rightarrow> (string \<times> string) option" where
  "row_of_rule rule = (case rule of (obj, act) \<Rightarrow> if eq_ignore_ascii_case act ''read'' then split_row_obj obj else None)"

text \<open>The \<open>BTreeSet\<close> of rows is the sorted list of them.\<close>

definition read_rows_for_group :: "('s, 't, 'v, 'e, 'l, 'o) snapshot_manager \<Rightarrow> string \<Rightarrow>
    (('s, 'e, 'l, 'o) sync_world, fs_error, (string \<times> string) list option) act" where
  "read_rows_for_group mgr grp =
     bind_run (implicit_groups mgr grp) (\<lambda>groups w.
     (Inr (Some (sort (remdups (concat (map (\<lambda>subject. List.map_filter row_of_rule (rules_for_subject (sm_policy mgr) subject (sw_policy w)))
        (grp # groups)))))), w))"

section \<open>One entry of the feed\<close>

datatype apply_outcome = Applied | ApplyNeedsFullRebuild

definition resync_file :: "('s, 't, 'v, 'e, 'l, 'o) snapshot_manager \<Rightarrow> i64 \<Rightarrow> string \<Rightarrow> string \<Rightarrow> string \<Rightarrow> string \<Rightarrow>
    (('s, 'e, 'l, 'o) sync_world, fs_error, unit) act" where
  "resync_file mgr now sub row_type row_id file_id =
     (let dst = replica_env mgr sub in
      bind_act (on_master (get_file (sm_fs mgr) file_id)) (\<lambda>f.
      case f of
        None \<Rightarrow> on_replica (delete_file_record dst file_id)
      | Some rec \<Rightarrow>
          bind_act (can_read mgr sub file_id) (\<lambda>readable.
          if \<not> readable then on_replica (delete_file_record dst file_id)
          else
            bind_act (on_replica (save_file dst rec)) (\<lambda>_.
            bind_act (row_readable mgr sub row_type row_id) (\<lambda>yes.
            bind_act (on_replica (if yes then attach dst row_type row_id file_id else detach dst now row_type row_id file_id)) (\<lambda>_.
            ok_act ()))))))"

definition resync_files :: "('s, 't, 'v, 'e, 'l, 'o) snapshot_manager \<Rightarrow> i64 \<Rightarrow> string \<Rightarrow> string \<Rightarrow> string \<Rightarrow> string list \<Rightarrow>
    (('s, 'e, 'l, 'o) sync_world, fs_error, unit) act" where
  "resync_files mgr now sub row_type row_id files =
     for_act files (\<lambda>file_id _. resync_file mgr now sub row_type row_id file_id) ()"

definition apply_rule_op :: "('s, 't, 'v, 'e, 'l, 'o) snapshot_manager \<Rightarrow> i64 \<Rightarrow> string \<Rightarrow> string \<Rightarrow> string \<Rightarrow> string \<Rightarrow>
    (('s, 'e, 'l, 'o) sync_world, fs_error, apply_outcome option) act" where
  "apply_rule_op mgr now sub rule_sub obj act =
     (if \<not> eq_ignore_ascii_case act ''read'' then ok_act (Some Applied)
      else case split_row_obj obj of
        None \<Rightarrow> ok_act (Some Applied)
      | Some (row_type, row_id) \<Rightarrow>
          bind_run (if rule_sub \<noteq> sub then implicit_groups mgr sub else ok_act (Some [rule_sub])) (\<lambda>groups.
          if rule_sub \<notin> set groups then ok_act (Some Applied)
          else
            bind_act (on_master (files_for_row (sm_fs mgr) row_type row_id)) (\<lambda>files.
            if MAX_POLICY_REPLAY_FILES < length files then ok_act (Some ApplyNeedsFullRebuild)
            else
              bind_act (resync_files mgr now sub row_type row_id files) (\<lambda>_.
              ok_act (Some Applied)))))"

text \<open>The loop over the rows of a group, with the number of files so far.\<close>

fun resync_rows :: "('s, 't, 'v, 'e, 'l, 'o) snapshot_manager \<Rightarrow> i64 \<Rightarrow> string \<Rightarrow> (string \<times> string) list \<Rightarrow> nat \<Rightarrow>
    (('s, 'e, 'l, 'o) sync_world, fs_error, apply_outcome option) act" where
  "resync_rows mgr now sub [] n = ok_act (Some Applied)"
| "resync_rows mgr now sub ((row_type, row_id) # rows) n =
     bind_act (on_master (files_for_row (sm_fs mgr) row_type row_id)) (\<lambda>files.
     if MAX_POLICY_REPLAY_FILES < n + length files then ok_act (Some ApplyNeedsFullRebuild)
     else
       bind_act (resync_files mgr now sub row_type row_id files) (\<lambda>_.
       resync_rows mgr now sub rows (n + length files)))"

definition apply_membership_op :: "('s, 't, 'v, 'e, 'l, 'o) snapshot_manager \<Rightarrow> i64 \<Rightarrow> string \<Rightarrow> string \<Rightarrow> string \<Rightarrow>
    (('s, 'e, 'l, 'o) sync_world, fs_error, apply_outcome option) act" where
  "apply_membership_op mgr now sub user grp =
     (if user \<noteq> sub then ok_act (Some Applied)
      else bind_run (read_rows_for_group mgr grp) (\<lambda>rows. resync_rows mgr now sub rows 0))"

definition apply_group_delete :: "('s, 't, 'v, 'e, 'l, 'o) snapshot_manager \<Rightarrow> i64 \<Rightarrow> string \<Rightarrow> string \<Rightarrow>
    (('s, 'e, 'l, 'o) sync_world, fs_error, apply_outcome option) act" where
  "apply_group_delete mgr now sub grp =
     bind_run (read_rows_for_group mgr grp) (\<lambda>rows.
     if rows = [] then ok_act (Some Applied) else resync_rows mgr now sub rows 0)"

fun apply_op :: "('s, 't, 'v, 'e, 'l, 'o) snapshot_manager \<Rightarrow> i64 \<Rightarrow> string \<Rightarrow> wal_op \<Rightarrow>
    (('s, 'e, 'l, 'o) sync_world, fs_error, apply_outcome option) act" where
  "apply_op mgr now sub (FileCreate rec) =
     bind_act (can_read mgr sub (fr_id rec)) (\<lambda>readable.
     bind_act (if readable then on_replica (save_file (replica_env mgr sub) rec) else ok_act ()) (\<lambda>_.
     ok_act (Some Applied)))"
| "apply_op mgr now sub (FileDelete file_id) =
     bind_act (on_replica (delete_file_record (replica_env mgr sub) file_id)) (\<lambda>_. ok_act (Some Applied))"
| "apply_op mgr now sub (Attach row_type row_id file_id) =
     bind_act (on_master (get_file (sm_fs mgr) file_id)) (\<lambda>f.
     case f of
       None \<Rightarrow> ok_act (Some Applied)
     | Some rec \<Rightarrow>
         bind_act (can_read mgr sub file_id) (\<lambda>readable.
         if \<not> readable then ok_act (Some Applied)
         else
           bind_act (on_replica (save_file (replica_env mgr sub) rec)) (\<lambda>_.
           bind_act (row_readable mgr sub row_type row_id) (\<lambda>yes.
           bind_act (if yes then bind_act (on_replica (attach (replica_env mgr sub) row_type row_id file_id)) (\<lambda>_. ok_act ())
                     else ok_act ()) (\<lambda>_.
           ok_act (Some Applied))))))"
| "apply_op mgr now sub (Detach row_type row_id file_id) =
     bind_act (on_replica (detach (replica_env mgr sub) now row_type row_id file_id)) (\<lambda>_. ok_act (Some Applied))"
| "apply_op mgr now sub (PolicyAdd _) = ok_act (Some ApplyNeedsFullRebuild)"
| "apply_op mgr now sub (PolicyRemove _) = ok_act (Some ApplyNeedsFullRebuild)"
| "apply_op mgr now sub (PolicyRuleAdd rule_sub obj act) = apply_rule_op mgr now sub rule_sub obj act"
| "apply_op mgr now sub (PolicyRuleRemove rule_sub obj act) = apply_rule_op mgr now sub rule_sub obj act"
| "apply_op mgr now sub (GroupAdd user grp) = apply_membership_op mgr now sub user grp"
| "apply_op mgr now sub (GroupRemove user grp) = apply_membership_op mgr now sub user grp"
| "apply_op mgr now sub (GroupDelete grp) = apply_group_delete mgr now sub grp"

section \<open>Replay\<close>

datatype replay_outcome = Advanced u64 | NeedsFullRebuild

fun apply_all :: "('s, 't, 'v, 'e, 'l, 'o) snapshot_manager \<Rightarrow> i64 \<Rightarrow> string \<Rightarrow> wal_entry list \<Rightarrow>
    (('s, 'e, 'l, 'o) sync_world, fs_error, apply_outcome option) act" where
  "apply_all mgr now sub [] = ok_act (Some Applied)"
| "apply_all mgr now sub (entry # entries) =
     bind_run (apply_op mgr now sub (we_op entry)) (\<lambda>outcome.
     if outcome = ApplyNeedsFullRebuild then ok_act (Some ApplyNeedsFullRebuild) else apply_all mgr now sub entries)"

definition replay :: "('s, 't, 'v, 'e, 'l, 'o) snapshot_manager \<Rightarrow> i64 \<Rightarrow> u64 \<Rightarrow> string \<Rightarrow>
    (('s, 'e, 'l, 'o) sync_world, fs_error, replay_outcome option) act" where
  "replay mgr now head sub =
     bind_act (load_applied mgr sub) (\<lambda>applied.
     case applied of
       None \<Rightarrow> ok_act (Some NeedsFullRebuild)
     | Some applied \<Rightarrow>
         if head < applied then ok_act (Some NeedsFullRebuild)
         else if applied = head then ok_act (Some (Advanced applied))
         else
           bind_act (on_wal (wal_range (fe_ops (sm_fs mgr)) (sm_wal mgr) (applied + 1) head)) (\<lambda>entries.
           if MAX_REPLAY_OPS < length entries \<or> list_ex (\<lambda>e. is_legacy_policy_mark (we_op e)) entries
           then ok_act (Some NeedsFullRebuild)
           else
             bind_act (open_writer mgr sub) (\<lambda>_.
             bind_run (apply_all mgr now sub entries) (\<lambda>outcome.
             if outcome = ApplyNeedsFullRebuild then ok_act (Some NeedsFullRebuild)
             else
               bind_act (internal_of (enc_seq (sm_wal mgr) head)) (\<lambda>coverage.
               bind_act (on_bucket (store_act (kv_set (sm_writer mgr (user_prefix mgr sub)) APPLIED_KEY coverage))) (\<lambda>_.
               ok_act (Some (Advanced head))))))))"

section \<open>The queue of rebuilds\<close>

definition claim_slot :: "string \<Rightarrow> (('s, 'e, 'l, 'o) sync_world, fs_error, bool) act" where
  "claim_slot sub w = (Inr (sub \<notin> sw_inflight w), w\<lparr>sw_inflight := insert sub (sw_inflight w)\<rparr>)"

definition drop_claim :: "string \<Rightarrow> ('s, 'e, 'l, 'o) sync_world \<Rightarrow> ('s, 'e, 'l, 'o) sync_world" where
  "drop_claim sub w = w\<lparr>sw_inflight := sw_inflight w - {sub}\<rparr>"

text \<open>\<open>dispatch\<close>: the claim moves into the job; without a pool the job comes back and its claim is dropped.\<close>

definition dispatch :: "string \<Rightarrow> u64 \<Rightarrow> (('s, 'e, 'l, 'o) sync_world, fs_error, bool) act" where
  "dispatch sub head w =
     (case sw_jobs w of
        None \<Rightarrow> (Inr False, drop_claim sub w)
      | Some jobs \<Rightarrow> (Inr True, w\<lparr>sw_jobs := Some (jobs @ [(sub, head)])\<rparr>))"

record advance_outcome =
  ao_applied_seq :: u64
  ao_pending :: bool

definition or_zero :: "u64 option \<Rightarrow> u64" where
  "or_zero n = (case n of None \<Rightarrow> 0 | Some n \<Rightarrow> n)"

text \<open>What \<open>advance\<close> does with the result of its replay, which ran with the slot of the subject held.\<close>

definition settle :: "('s, 't, 'v, 'e, 'l, 'o) snapshot_manager \<Rightarrow> u64 \<Rightarrow> string \<Rightarrow> fs_error + replay_outcome \<Rightarrow>
    (('s, 'e, 'l, 'o) sync_world, fs_error, advance_outcome option) act" where
  "settle mgr head sub result =
     (case result of
        Inr (Advanced seq) \<Rightarrow> (\<lambda>w. (Inr (Some \<lparr>ao_applied_seq = seq, ao_pending = False\<rparr>), drop_claim sub w))
      | Inr NeedsFullRebuild \<Rightarrow>
          bind_act (dispatch sub head) (\<lambda>_.
          bind_act (load_applied mgr sub) (\<lambda>applied.
          ok_act (Some \<lparr>ao_applied_seq = or_zero applied, ao_pending = True\<rparr>)))
      | Inl e \<Rightarrow>
          (\<lambda>w. if is_fencing_loss e then
                 bind_act (load_applied mgr sub) (\<lambda>applied.
                 bind_act (some_act e applied) (\<lambda>seq.
                 ok_act (Some \<lparr>ao_applied_seq = seq, ao_pending = False\<rparr>))) (drop_claim sub w)
               else (Inl e, drop_claim sub w)))"

definition advance :: "('s, 't, 'v, 'e, 'l, 'o) snapshot_manager \<Rightarrow> i64 \<Rightarrow> string \<Rightarrow>
    (('s, 'e, 'l, 'o) sync_world, fs_error, advance_outcome option) act" where
  "advance mgr now sub =
     bind_act (on_wal (wal_head (fe_ops (sm_fs mgr)) (sm_wal mgr))) (\<lambda>head.
     bind_act (load_applied mgr sub) (\<lambda>applied.
     if applied = Some head then ok_act (Some \<lparr>ao_applied_seq = head, ao_pending = False\<rparr>)
     else
       bind_act (claim_slot sub) (\<lambda>mine.
       if \<not> mine then ok_act (Some \<lparr>ao_applied_seq = or_zero applied, ao_pending = True\<rparr>)
       else
         bind_act (try_act (replay mgr now head sub)) (\<lambda>result.
         case result of
           Inl e \<Rightarrow> settle mgr head sub (Inl e)
         | Inr None \<Rightarrow> ok_act None
         | Inr (Some outcome) \<Rightarrow> settle mgr head sub (Inr outcome)))))"

text \<open>One job of a worker: the build, whose error is only logged, and the drop of the job with its claim.\<close>

definition pool_step :: "nat \<Rightarrow> ('s, 't, 'v, 'e, 'l, 'o) snapshot_manager \<Rightarrow> string \<Rightarrow> (('s, 'e, 'l, 'o) sync_world, fs_error, unit option) act" where
  "pool_step n mgr uuid w =
     (case sw_jobs w of
        Some ((sub, _) # jobs) \<Rightarrow>
          (case build_full n mgr uuid sub (w\<lparr>sw_jobs := Some jobs\<rparr>) of
             (Inr None, w') \<Rightarrow> (Inr None, w')
           | (_, w') \<Rightarrow> (Inr (Some ()), drop_claim sub w'))
      | _ \<Rightarrow> (Inr (Some ()), w))"

end
