(* ===== verification/Snapshot_Rules.thy ===== *)
theory Snapshot_Rules
  imports Snapshot_Replay
begin

text \<open>
  What the manager of the replicas relies on, and one rule for each of its calls: the reads leave everything as it is, and a write to
  the replica changes the keys it names.
\<close>

section \<open>What a subject may read, of a state\<close>

definition allowed :: "('s, 't, 'v, 'e, 'l, 'o) snapshot_manager \<Rightarrow> string \<Rightarrow> 'e \<Rightarrow> string \<times> string \<Rightarrow> bool" where
  "allowed mgr sub e row \<longleftrightarrow> ef_enforce (pe_ops (sm_policy mgr)) sub (row_object (fst row) (snd row)) ''read'' e = Inr True"

definition rows_of :: "(string \<rightharpoonup> 'v) \<Rightarrow> string \<Rightarrow> (string \<times> string) set" where
  "rows_of m f = {row. \<exists>k. m k \<noteq> None \<and> row_of_marker f k = Some row}"

definition readable :: "('s, 't, 'v, 'e, 'l, 'o) snapshot_manager \<Rightarrow> string \<Rightarrow> (string \<rightharpoonup> 'v) \<Rightarrow> 'e \<Rightarrow> string \<Rightarrow> bool" where
  "readable mgr sub m e f \<longleftrightarrow> (\<exists>r. value_at (dec_file (fe_cod (sm_fs mgr))) m (file_key f) = Some r \<and>
     (fr_owner_sub r = sub \<or> (\<exists>row \<in> rows_of m f. allowed mgr sub e row)))"

text \<open>The sequence number a replica claims to cover.\<close>

definition coverage :: "('s, 't, 'v, 'e, 'l, 'o) snapshot_manager \<Rightarrow> (string \<rightharpoonup> 'v) \<Rightarrow> u64 option" where
  "coverage mgr m = (case m APPLIED_KEY of None \<Rightarrow> None | Some b \<Rightarrow> (case dec_seq (sm_wal mgr) b of Inl _ \<Rightarrow> None | Inr n \<Rightarrow> Some n))"

lemma applied_key_differs [simp]: "APPLIED_KEY \<noteq> file_key f" "file_key f \<noteq> APPLIED_KEY"
    "APPLIED_KEY \<noteq> refs_key f" "refs_key f \<noteq> APPLIED_KEY" "APPLIED_KEY \<noteq> rel_key t r f" "rel_key t r f \<noteq> APPLIED_KEY"
    "\<not> is_marker_of f APPLIED_KEY"
  by (auto simp: APPLIED_KEY_def file_key_def refs_key_def rel_key_def files_prefix_def rel_prefix_def is_marker_of_def)

lemma applied_not_file_keys [simp]: "APPLIED_KEY \<notin> file_keys f"
  by (simp add: file_keys_def)

lemma file_key_in_file_keys [simp]: "file_key g \<in> file_keys f \<longleftrightarrow> g = f"
  by (auto simp: file_keys_def)

section \<open>The interface\<close>

locale snapshot_over = master: fs_over "sm_fs mgr" mabs txov + replica: fs_over "replica_env mgr sub" rabs txov +
    reader: kv_store "sm_reader mgr (user_prefix mgr sub)" rabs txov
  for mgr :: "('s, 't, 'v, 'e, 'l, 'o) snapshot_manager" and mabs :: "'s \<Rightarrow> (string \<rightharpoonup> 'v)" and rabs :: "'o \<Rightarrow> (string \<rightharpoonup> 'v)"
    and txov :: "'t \<Rightarrow> (string \<rightharpoonup> 'v option)" and sub :: string +
  assumes open_writer_keeps: "sm_open_writer mgr (user_prefix mgr sub) o1 = (q1, o2) \<Longrightarrow> rabs o2 = rabs o1"
    and open_reader_keeps: "sm_open_reader mgr (user_prefix mgr sub) o1 = (q1, o2) \<Longrightarrow> rabs o2 = rabs o1"
    and object_keeps: "sm_object mgr p o1 = (q2, o2) \<Longrightarrow> rabs o2 = rabs o1"
    and scratch_empty: "mabs (sm_scratch mgr p) = Map.empty"
    and seq_codec: "enc_seq (sm_wal mgr) n = Inr b \<Longrightarrow> dec_seq (sm_wal mgr) b = Inr n"
begin

definition mast :: "('s, 'e, 'l, 'o) sync_world \<Rightarrow> (string \<rightharpoonup> 'v)" where
  "mast w = mabs (fs_kv (sw_master w))"

definition repl :: "('s, 'e, 'l, 'o) sync_world \<Rightarrow> (string \<rightharpoonup> 'v)" where
  "repl w = rabs (sw_bucket w)"

definition scr :: "('s, 'e, 'l, 'o) sync_world \<Rightarrow> (string \<rightharpoonup> 'v)" where
  "scr w = mabs (sw_scratch w)"

definition feed_of :: "('s, 'e, 'l, 'o) sync_world \<Rightarrow> (string \<rightharpoonup> 'v)" where
  "feed_of w = mabs (sw_wal w)"

text \<open>The part of the state that no operation on a replica changes, and the slots of the queue.\<close>

definition ctx :: "('s, 'e, 'l, 'o) sync_world \<Rightarrow> (string \<rightharpoonup> 'v) \<times> 'e \<times> (string \<rightharpoonup> 'v)" where
  "ctx w = (mast w, pw_enforcer (sw_policy w), feed_of w)"

definition slots :: "('s, 'e, 'l, 'o) sync_world \<Rightarrow> string set \<times> (string \<times> u64) list option" where
  "slots w = (sw_inflight w, sw_jobs w)"

definition same :: "('s, 'e, 'l, 'o) sync_world \<Rightarrow> ('s, 'e, 'l, 'o) sync_world \<Rightarrow> bool" where
  "same w w' \<longleftrightarrow> ctx w' = ctx w \<and> slots w' = slots w \<and> repl w' = repl w \<and> scr w' = scr w"

definition can :: "('s, 'e, 'l, 'o) sync_world \<Rightarrow> string \<Rightarrow> bool" where
  "can w f \<longleftrightarrow> readable mgr sub (mast w) (pw_enforcer (sw_policy w)) f"

lemmas world_defs = ctx_def slots_def mast_def repl_def scr_def feed_of_def

lemma same_refl [simp]: "same w w"
  by (simp add: same_def)

lemma same_trans: "same w w1 \<Longrightarrow> same w1 w2 \<Longrightarrow> same w w2"
  by (simp add: same_def)

lemma can_ctx: "ctx w' = ctx w \<Longrightarrow> can w' = can w"
  by (rule ext) (simp add: can_def ctx_def)

lemma mast_ctx: "ctx w' = ctx w \<Longrightarrow> mast w' = mast w"
  by (simp add: ctx_def)

lemma bucket_upd [simp]: "ctx (w\<lparr>sw_bucket := b\<rparr>) = ctx w" "slots (w\<lparr>sw_bucket := b\<rparr>) = slots w" "repl (w\<lparr>sw_bucket := b\<rparr>) = rabs b" "scr (w\<lparr>sw_bucket := b\<rparr>) = scr w"
  by (simp_all add: world_defs)

lemma scratch_upd [simp]: "ctx (w\<lparr>sw_scratch := b\<rparr>) = ctx w" "slots (w\<lparr>sw_scratch := b\<rparr>) = slots w" "repl (w\<lparr>sw_scratch := b\<rparr>) = repl w" "scr (w\<lparr>sw_scratch := b\<rparr>) = mabs b"
  by (simp_all add: world_defs)

text \<open>Calls on the parts of the state.\<close>

lemma wp_on_master_read:
  assumes "wp m (\<lambda>r s. mabs (fs_kv s) = mast w \<and> R r) (sw_master w)" and "\<And>r w'. same w w' \<Longrightarrow> R r \<Longrightarrow> Q r w'"
  shows "wp (on_master m) Q w"
  unfolding on_master_def wp_focus using assms(1) by (rule wp_mono) (auto intro!: assms(2) simp: same_def world_defs)

lemma wp_bucket_read:
  assumes "wp m (\<lambda>r s. rabs s = repl w \<and> R r) (sw_bucket w)" and "\<And>r w'. same w w' \<Longrightarrow> R r \<Longrightarrow> Q r w'"
  shows "wp (on_bucket m) Q w"
  unfolding on_bucket_def wp_focus using assms(1) by (rule wp_mono) (auto intro!: assms(2) simp: same_def)

lemma wp_get_master:
  assumes "\<And>w'. same w w' \<Longrightarrow> mast w (file_key f) = None \<Longrightarrow> Q (Inr None) w'"
    and "\<And>r w'. same w w' \<Longrightarrow> value_at (dec_file (fe_cod (sm_fs mgr))) (mast w) (file_key f) = Some r \<Longrightarrow> Q (Inr (Some r)) w'"
    and "\<And>e w'. same w w' \<Longrightarrow> Q (Inl e) w'"
  shows "wp (on_master (get_file (sm_fs mgr) f)) Q w"
proof (rule wp_on_master_read [where R = "\<lambda>r. case r of Inl _ \<Rightarrow> True | Inr None \<Rightarrow> mast w (file_key f) = None
      | Inr (Some x) \<Rightarrow> value_at (dec_file (fe_cod (sm_fs mgr))) (mast w) (file_key f) = Some x"])
  show "wp (get_file (sm_fs mgr) f) (\<lambda>r s. mabs (fs_kv s) = mast w \<and> (case r of Inl _ \<Rightarrow> True | Inr None \<Rightarrow> mast w (file_key f) = None
      | Inr (Some x) \<Rightarrow> value_at (dec_file (fe_cod (sm_fs mgr))) (mast w) (file_key f) = Some x)) (sw_master w)"
    unfolding get_file_def by (rule master.wp_load_one) (simp_all add: master.held_def mast_def value_at_def)
next
  fix r :: "fs_error + file_record option" and w' assume "same w w'" and "case r of Inl _ \<Rightarrow> True | Inr None \<Rightarrow> mast w (file_key f) = None
      | Inr (Some x) \<Rightarrow> value_at (dec_file (fe_cod (sm_fs mgr))) (mast w) (file_key f) = Some x"
  then show "Q r w'" by (auto intro: assms split: sum.splits option.splits)
qed

lemma wp_row_readable:
  assumes "\<And>w'. same w w' \<Longrightarrow> Q (Inr (allowed mgr sub (pw_enforcer (sw_policy w)) (ty, rid))) w'"
  shows "wp (row_readable mgr sub ty rid) Q w"
proof -
  have "pw_enforcer p = pw_enforcer (sw_policy w) \<Longrightarrow> same w (w\<lparr>sw_policy := p\<rparr>)" for p
    by (simp add: same_def world_defs)
  then show ?thesis
    using assms by (auto simp: wp_def row_readable_def authorize_row_def authorize_def allowed_def Let_def split: sum.splits prod.splits)
qed

lemma wp_visible_rows:
  assumes "\<And>rows w'. same w w' \<Longrightarrow> set rows = {row \<in> rows_of (mast w) f. allowed mgr sub (pw_enforcer (sw_policy w)) row} \<Longrightarrow> Q (Inr rows) w'"
    and "\<And>e w'. same w w' \<Longrightarrow> Q (Inl e) w'"
  shows "wp (visible_rows mgr sub f) Q w"
proof -
  let ?A = "allowed mgr sub (pw_enforcer (sw_policy w))"
  have loop: "wp (for_act rows (\<lambda>(ty, rid) out. bind_act (row_readable mgr sub ty rid) (\<lambda>yes. ok_act (if yes then out @ [(ty, rid)] else out))) []) Q w1"
    if w1: "same w w1" and rows: "set rows = rows_of (mast w) f" for rows w1
  proof (rule wp_for [where I = "\<lambda>rest out w2. same w w2 \<and> (\<exists>pre. rows = pre @ rest \<and> set out = {row \<in> set pre. ?A row})"], goal_cases)
    case 1
    show ?case using w1 by simp
  next
    case (2 row rest out w2)
    then obtain pre where pre: "rows = pre @ row # rest" "set out = {row \<in> set pre. ?A row}" and w2: "same w w2" by blast
    have "pw_enforcer (sw_policy w2) = pw_enforcer (sw_policy w)" using w2 by (simp add: same_def ctx_def)
    then show ?case
      using pre w2 by (cases row) (auto intro!: wp_row_readable exI [of _ "pre @ [row]"] dest: same_trans)
  next
    case (3 out w2)
    then show ?case using rows by (auto intro!: assms(1))
  qed
  show ?thesis
    unfolding visible_rows_def wp_bind
  proof (rule wp_on_master_read [where R = "\<lambda>r. case r of Inl _ \<Rightarrow> True | Inr rows \<Rightarrow> set rows = rows_of (mast w) f"])
    show "wp (rows_for_file (sm_fs mgr) f) (\<lambda>r s. mabs (fs_kv s) = mast w \<and> (case r of Inl _ \<Rightarrow> True | Inr rows \<Rightarrow> set rows = rows_of (mast w) f)) (sw_master w)"
      by (rule master.wp_rows_for_file) (simp_all add: master.held_def mast_def rows_of_def)
  next
    fix r :: "fs_error + (string \<times> string) list" and w' assume "same w w'" and "case r of Inl _ \<Rightarrow> True | Inr rows \<Rightarrow> set rows = rows_of (mast w) f"
    then show "case r of Inl e \<Rightarrow> Q (Inl e) w' | Inr x \<Rightarrow> wp (for_act x (\<lambda>(ty, rid) out. bind_act (row_readable mgr sub ty rid)
        (\<lambda>yes. ok_act (if yes then out @ [(ty, rid)] else out))) []) Q w'"
      by (cases r) (auto intro: assms(2) loop)
  qed
qed

lemma wp_can_read:
  assumes "\<And>w'. same w w' \<Longrightarrow> Q (Inr (can w f)) w'" and "\<And>e w'. same w w' \<Longrightarrow> Q (Inl e) w'"
  shows "wp (can_read mgr sub f) Q w"
proof -
  have own: "wp (if fr_owner_sub rec = sub then ok_act True else bind_act (visible_rows mgr sub f) (\<lambda>rows. ok_act (rows \<noteq> []))) Q w1"
    if w1: "same w w1" and rec: "value_at (dec_file (fe_cod (sm_fs mgr))) (mast w) (file_key f) = Some rec" for rec w1
  proof (cases "fr_owner_sub rec = sub")
    case True
    then have "can w f" using rec by (auto simp: can_def readable_def)
    then show ?thesis using True assms(1) [OF w1] by simp
  next
    case False
    have same1: "mast w1 = mast w" "pw_enforcer (sw_policy w1) = pw_enforcer (sw_policy w)" using w1 by (simp_all add: same_def ctx_def)
    have eq: "can w f \<longleftrightarrow> rows \<noteq> []" if "set rows = {row \<in> rows_of (mast w) f. allowed mgr sub (pw_enforcer (sw_policy w)) row}" for rows
      using rec False that by (auto simp: can_def readable_def simp flip: set_empty)
    show ?thesis
      unfolding if_not_P [OF False] wp_bind
      by (rule wp_visible_rows) (use assms same_trans [OF w1] in \<open>auto simp: same1 simp flip: eq\<close>)
  qed
  have none: "\<not> can w f" if "mast w (file_key f) = None"
    using that by (simp add: can_def readable_def value_at_def)
  show ?thesis
    unfolding can_read_def wp_bind
  proof (rule wp_get_master, goal_cases)
    case (1 w')
    then show ?case using none assms(1) [of w'] by simp
  next
    case (2 r w')
    show ?case unfolding sum.case option.case by (rule own [OF 2])
  next
    case (3 e w')
    then show ?case by (simp add: assms(2))
  qed
qed

text \<open>Writes to the replica: where it goes, with everything else as it was.\<close>

definition moved :: "('s, 'e, 'l, 'o) sync_world \<Rightarrow> (string \<rightharpoonup> 'v) \<Rightarrow> ('s, 'e, 'l, 'o) sync_world \<Rightarrow> bool" where
  "moved w m w' \<longleftrightarrow> ctx w' = ctx w \<and> slots w' = slots w \<and> scr w' = scr w \<and> repl w' = m"

lemma wp_on_replica:
  assumes "wp m (\<lambda>r s. R r (rabs (fs_kv s))) \<lparr>fs_kv = sw_bucket w, fs_latch = latch_new\<rparr>"
    and "\<And>r w'. moved w (repl w') w' \<Longrightarrow> R r (repl w') \<Longrightarrow> Q r w'"
  shows "wp (on_replica m) Q w"
  unfolding on_replica_def wp_focus using assms(1) by (rule wp_mono) (rule assms(2), auto simp: moved_def)

lemma held_start: "replica.held \<lparr>fs_kv = sw_bucket w, fs_latch = l\<rparr> = repl w"
  by (simp add: replica.held_def repl_def)

abbreviation "dst \<equiv> replica_env mgr sub"

lemma dst_cod [simp]: "fe_cod dst = fe_cod (sm_fs mgr)"
  by (simp add: replica_env_def)

lemma wp_rep_save:
  assumes "\<And>b w'. enc_file (fe_cod (sm_fs mgr)) r = Inr b \<Longrightarrow> moved w ((repl w)(file_key (fr_id r) \<mapsto> b)) w' \<Longrightarrow> Q (Inr ()) w'"
    and "\<And>e m w'. moved w m w' \<Longrightarrow> m = repl w \<or> (\<exists>b. m = (repl w)(file_key (fr_id r) \<mapsto> b)) \<Longrightarrow> Q (Inl e) w'"
  shows "wp (on_replica (save_file dst r)) Q w"
proof (rule wp_on_replica [where R = "\<lambda>q m. case q of Inr _ \<Rightarrow> (\<exists>b. enc_file (fe_cod (sm_fs mgr)) r = Inr b \<and> m = (repl w)(file_key (fr_id r) \<mapsto> b))
      | Inl _ \<Rightarrow> m = repl w \<or> (\<exists>b. m = (repl w)(file_key (fr_id r) \<mapsto> b))"])
  show "wp (save_file dst r) (\<lambda>q s. case q of Inr _ \<Rightarrow> (\<exists>b. enc_file (fe_cod (sm_fs mgr)) r = Inr b \<and> rabs (fs_kv s) = (repl w)(file_key (fr_id r) \<mapsto> b))
      | Inl _ \<Rightarrow> rabs (fs_kv s) = repl w \<or> (\<exists>b. rabs (fs_kv s) = (repl w)(file_key (fr_id r) \<mapsto> b))) \<lparr>fs_kv = sw_bucket w, fs_latch = latch_new\<rparr>"
    unfolding save_file_def replica.held_fold by (rule replica.wp_save_one) (auto simp: held_start)
next
  fix q :: "fs_error + unit" and w' assume m: "moved w (repl w') w'" and R: "case q of Inr _ \<Rightarrow> (\<exists>b. enc_file (fe_cod (sm_fs mgr)) r = Inr b \<and> repl w' = (repl w)(file_key (fr_id r) \<mapsto> b))
      | Inl _ \<Rightarrow> repl w' = repl w \<or> (\<exists>b. repl w' = (repl w)(file_key (fr_id r) \<mapsto> b))"
  show "Q q w'"
  proof (cases q)
    case (Inl e)
    then show ?thesis using assms(2) [OF m] R by simp
  next
    case (Inr u)
    then show ?thesis using assms(1) [of _ w'] m R by (auto simp: moved_def)
  qed
qed

lemma wp_rep_delete:
  assumes "\<And>w'. moved w (without (file_keys f) (repl w)) w' \<Longrightarrow> Q (Inr ()) w'"
    and "\<And>e m w'. moved w m w' \<Longrightarrow> m = repl w \<or> m = without (file_keys f) (repl w) \<Longrightarrow> Q (Inl e) w'"
  shows "wp (on_replica (delete_file_record dst f)) Q w"
proof (rule wp_on_replica [where R = "\<lambda>q m. m = without (file_keys f) (repl w) \<or> (\<exists>e. q = Inl e) \<and> m = repl w"])
  show "wp (delete_file_record dst f) (\<lambda>q s. rabs (fs_kv s) = without (file_keys f) (repl w) \<or> (\<exists>e. q = Inl e) \<and> rabs (fs_kv s) = repl w)
      \<lparr>fs_kv = sw_bucket w, fs_latch = latch_new\<rparr>"
    unfolding replica.held_fold by (rule replica.wp_delete_file_record) (auto simp: held_start)
next
  fix q :: "fs_error + unit" and w' assume m: "moved w (repl w') w'" and R: "repl w' = without (file_keys f) (repl w) \<or> (\<exists>e. q = Inl e) \<and> repl w' = repl w"
  show "Q q w'" using R m assms(1) [of w'] assms(2) [OF m] by (cases q) (auto simp: moved_def)
qed

lemma wp_rep_attach:
  assumes "\<And>q m w'. moved w m w' \<Longrightarrow> touches t r f (repl w) m \<Longrightarrow> (\<And>c. q = Inr c \<Longrightarrow> m (rel_key t r f) \<noteq> None) \<Longrightarrow> Q q w'"
  shows "wp (on_replica (attach dst t r f)) Q w"
proof (rule wp_on_replica [where R = "\<lambda>q m. touches t r f (repl w) m \<and> (\<forall>c. q = Inr c \<longrightarrow> m (rel_key t r f) \<noteq> None)"])
  show "wp (attach dst t r f) (\<lambda>q s. touches t r f (repl w) (rabs (fs_kv s)) \<and> (\<forall>c. q = Inr c \<longrightarrow> rabs (fs_kv s) (rel_key t r f) \<noteq> None))
      \<lparr>fs_kv = sw_bucket w, fs_latch = latch_new\<rparr>"
    unfolding replica.held_fold by (rule replica.wp_attach_any) (auto simp: held_start)
qed (auto intro: assms)

lemma wp_rep_detach:
  assumes "\<And>q m w'. moved w m w' \<Longrightarrow> touches t r f (repl w) m \<Longrightarrow> (\<And>c. q = Inr c \<Longrightarrow> m (rel_key t r f) = None) \<Longrightarrow> Q q w'"
  shows "wp (on_replica (detach dst now t r f)) Q w"
proof (rule wp_on_replica [where R = "\<lambda>q m. touches t r f (repl w) m \<and> (\<forall>c. q = Inr c \<longrightarrow> m (rel_key t r f) = None)"])
  show "wp (detach dst now t r f) (\<lambda>q s. touches t r f (repl w) (rabs (fs_kv s)) \<and> (\<forall>c. q = Inr c \<longrightarrow> rabs (fs_kv s) (rel_key t r f) = None))
      \<lparr>fs_kv = sw_bucket w, fs_latch = latch_new\<rparr>"
    unfolding replica.held_fold by (rule replica.wp_detach_any) (auto simp: held_start)
qed (auto intro: assms)

text \<open>The marker and the writer.\<close>

lemma wp_open_writer:
  assumes "\<And>q w'. same w w' \<Longrightarrow> Q q w'"
  shows "wp (open_writer mgr sub) Q w"
  unfolding open_writer_def store_act_def
  by (rule wp_bucket_read [where R = "\<lambda>_. True"], unfold wp_map_err)
     (auto intro!: wpI assms dest: open_writer_keeps simp: repl_def split: sum.splits)

lemma wp_load_applied:
  assumes "\<And>q w'. same w w' \<Longrightarrow> q = None \<or> q = coverage mgr (repl w) \<Longrightarrow> Q (Inr q) w'" and "\<And>e w'. same w w' \<Longrightarrow> Q (Inl e) w'"
  shows "wp (load_applied mgr sub) Q w"
proof -
  let ?ops = "sm_reader mgr (user_prefix mgr sub)"
  have rest: "wp (bind_act (on_bucket (store_act (sm_open_reader mgr (user_prefix mgr sub)))) (\<lambda>_.
          bind_act (on_bucket (store_act (kv_begin ?ops))) (\<lambda>tx.
          bind_act (on_bucket (store_act (tx_get ?ops tx APPLIED_KEY))) (\<lambda>b.
          bind_act (on_bucket (store_act (tx_rollback ?ops tx))) (\<lambda>_.
          ok_act (case b of None \<Rightarrow> None | Some b \<Rightarrow> (case dec_seq (sm_wal mgr) b of Inl _ \<Rightarrow> None | Inr n \<Rightarrow> Some n))))))) Q w1"
    if "same w w1" for w1
  proof -
    have ok: "Q (Inr (case rabs (sw_bucket w1) APPLIED_KEY of None \<Rightarrow> None | Some b \<Rightarrow> (case dec_seq (sm_wal mgr) b of Inl _ \<Rightarrow> None | Inr n \<Rightarrow> Some n)))
        (w1\<lparr>sw_bucket := s\<rparr>)" if "rabs s = rabs (sw_bucket w1)" for s
      by (rule assms(1)) (use \<open>same w w1\<close> that in \<open>simp_all add: same_def coverage_def repl_def\<close>)
    have err: "Q (Inl e) (w1\<lparr>sw_bucket := s\<rparr>)" if "rabs s = rabs (sw_bucket w1)" for e s
      by (rule assms(2)) (use \<open>same w w1\<close> that in \<open>simp add: same_def repl_def\<close>)
    show ?thesis
      unfolding on_bucket_def store_act_def wp_bind wp_focus wp_map_err
      by (rule wpI, drule open_reader_keeps)
         (auto intro!: reader.wp_begin reader.wp_tget reader.wp_rollback ok err split: sum.splits)
  qed
  show ?thesis
    unfolding load_applied_def Let_def wp_bind [of "try_act _"] wp_try sum.case
  proof (rule wp_bucket_read [where R = "\<lambda>_. True"])
    show "wp (sm_object mgr (user_prefix mgr sub @ ''/manifest.json'')) (\<lambda>r s. rabs s = repl w \<and> True) (sw_bucket w)"
      by (rule wpI) (simp add: object_keeps repl_def)
  qed (auto intro!: assms rest split: sum.splits os_error.splits simp del: wp_bind)
qed

end

end
