(* ===== verification/Snapshot_Memory.thy ===== *)
theory Snapshot_Memory
  imports Snapshot_Rules Policy_Props "HOL-Library.AList"
begin

text \<open>
  A manager whose stores are in memory and whose bucket keeps one store per prefix, as in the tests of the crate. It satisfies the
  interface of the replicas for every subject; the examples run on it.
\<close>

section \<open>A store inside a larger state\<close>

definition lift_ops :: "('b \<Rightarrow> 's) \<Rightarrow> ('s \<Rightarrow> 'b \<Rightarrow> 'b) \<Rightarrow> ('s, 't, 'v) kv_ops \<Rightarrow> ('b, 't, 'v) kv_ops" where
  "lift_ops get put ops = \<lparr>
     kv_get = (\<lambda>k. focus_act get put (kv_get ops k)),
     kv_set = (\<lambda>k x. focus_act get put (kv_set ops k x)),
     kv_delete = (\<lambda>k. focus_act get put (kv_delete ops k)),
     kv_gets = (\<lambda>lim lo hi. focus_act get put (kv_gets ops lim lo hi)),
     kv_begin = focus_act get put (kv_begin ops),
     tx_get = (\<lambda>t k. focus_act get put (tx_get ops t k)),
     tx_set = (\<lambda>t k x. focus_act get put (tx_set ops t k x)),
     tx_delete = (\<lambda>t k. focus_act get put (tx_delete ops t k)),
     tx_gets = (\<lambda>t lim lo hi. focus_act get put (tx_gets ops t lim lo hi)),
     tx_commit = (\<lambda>t. focus_act get put (tx_commit ops t)),
     tx_rollback = (\<lambda>t. focus_act get put (tx_rollback ops t))\<rparr>"

lemma lift_kv_store:
  assumes "kv_store ops kvabs txov" and "\<And>s b. get (put s b) = s"
  shows "kv_store (lift_ops get put ops) (\<lambda>b. kvabs (get b)) txov"
proof -
  note laws = kv_store.get_keeps [OF assms(1)] kv_store.get_val [OF assms(1)] kv_store.set_ok [OF assms(1)] kv_store.set_err [OF assms(1)]
    kv_store.delete_ok [OF assms(1)] kv_store.delete_err [OF assms(1)] kv_store.gets_keeps [OF assms(1)] kv_store.gets_val [OF assms(1)]
    kv_store.begin_keeps [OF assms(1)] kv_store.begin_empty [OF assms(1)] kv_store.tget_keeps [OF assms(1)] kv_store.tget_val [OF assms(1)]
    kv_store.tset_keeps [OF assms(1)] kv_store.tset_val [OF assms(1)] kv_store.tdelete_keeps [OF assms(1)] kv_store.tdelete_val [OF assms(1)]
    kv_store.tgets_keeps [OF assms(1)] kv_store.tgets_val [OF assms(1)] kv_store.commit_ok [OF assms(1)] kv_store.commit_err [OF assms(1)]
    kv_store.rollback_keeps [OF assms(1)]
  show ?thesis by unfold_locales (auto simp: lift_ops_def focus_act_eq assms(2) dest: laws)
qed

section \<open>The manager\<close>

datatype sync_val = SFs fs_val | SSeq u64 | SEntry wal_entry

fun un_fs :: "(fs_val \<Rightarrow> string + 'a) \<Rightarrow> sync_val \<Rightarrow> string + 'a" where
  "un_fs dec (SFs v) = dec v"
| "un_fs dec _ = Inl ''invalid type''"

fun un_seq :: "sync_val \<Rightarrow> string + u64" where
  "un_seq (SSeq n) = Inr n"
| "un_seq _ = Inl ''invalid type''"

fun un_entry :: "sync_val \<Rightarrow> string + wal_entry" where
  "un_entry (SEntry e) = Inr e"
| "un_entry _ = Inl ''invalid type''"

definition sync_fs_codec :: "sync_val fs_codec" where
  "sync_fs_codec = \<lparr>
     enc_session = Inr \<circ> SFs \<circ> FSession, dec_session = un_fs (dec_session plain_fs_codec),
     enc_multipart = Inr \<circ> SFs \<circ> FMultipart, dec_multipart = un_fs (dec_multipart plain_fs_codec),
     enc_file = Inr \<circ> SFs \<circ> FFile, dec_file = un_fs (dec_file plain_fs_codec),
     enc_refs = Inr \<circ> SFs \<circ> FRefs, dec_refs = un_fs (dec_refs plain_fs_codec),
     marker = SFs (FBytes ''1'')\<rparr>"

definition sync_wal_codec :: "sync_val wal_codec" where
  "sync_wal_codec = \<lparr>enc_seq = Inr \<circ> SSeq, dec_seq = un_seq, enc_entry = Inr \<circ> SEntry, dec_entry = un_entry\<rparr>"

type_synonym mem_bucket = "(string \<times> sync_val mem_kv) list"

definition bucket_at :: "string \<Rightarrow> mem_bucket \<Rightarrow> sync_val mem_kv" where
  "bucket_at p b = (case map_of b p of None \<Rightarrow> \<lparr>mem_data = [], mem_fenced = False\<rparr> | Some s \<Rightarrow> s)"

lemma bucket_at_update [simp]: "bucket_at p (AList.update p s b) = s"
  by (simp add: bucket_at_def update_conv)

definition bucket_ops :: "string \<Rightarrow> (mem_bucket, (string \<times> sync_val option) list, sync_val) kv_ops" where
  "bucket_ops p = lift_ops (bucket_at p) (AList.update p) mem_ops"

definition mem_manager :: "(sync_val mem_kv, (string \<times> sync_val option) list, sync_val, mem_enforcer, wal_val mem_kv wal, mem_bucket) snapshot_manager" where
  "mem_manager = \<lparr>
     sm_fs = \<lparr>fe_ops = mem_ops, fe_cod = sync_fs_codec, fe_primary = True\<rparr>,
     sm_wal = sync_wal_codec,
     sm_policy = demo_policy,
     sm_writer = bucket_ops,
     sm_open_writer = (\<lambda>_. ok_act ()),
     sm_reader = bucket_ops,
     sm_open_reader = (\<lambda>_. ok_act ()),
     sm_object = (\<lambda>_. ok_act ()),
     sm_scratch = (\<lambda>_. \<lparr>mem_data = [], mem_fenced = False\<rparr>),
     sm_sha256 = id,
     sm_db_prefix = ''db''\<rparr>"

lemma mem_manager_sel [simp]:
  "fe_ops (sm_fs mem_manager) = mem_ops" "fe_cod (sm_fs mem_manager) = sync_fs_codec" "sm_wal mem_manager = sync_wal_codec"
  "sm_policy mem_manager = demo_policy" "sm_writer mem_manager = bucket_ops" "sm_reader mem_manager = bucket_ops"
  "sm_open_writer mem_manager p = ok_act ()" "sm_open_reader mem_manager p = ok_act ()" "sm_object mem_manager p = ok_act ()"
  "sm_scratch mem_manager p = \<lparr>mem_data = [], mem_fenced = False\<rparr>"
  by (simp_all add: mem_manager_def)

definition mem_replica :: "string \<Rightarrow> mem_bucket \<Rightarrow> (string \<rightharpoonup> sync_val)" where
  "mem_replica sub b = mem_abs (bucket_at (user_prefix mem_manager sub) b)"

lemma bucket_kv: "kv_store (bucket_ops (user_prefix mem_manager sub)) (mem_replica sub) map_of"
  unfolding bucket_ops_def mem_replica_def by (rule lift_kv_store [OF mem.kv_store_axioms]) simp

lemma sync_codec_laws:
  "enc_session sync_fs_codec x = Inr b \<Longrightarrow> dec_session sync_fs_codec b = Inr x"
  "enc_multipart sync_fs_codec y = Inr b \<Longrightarrow> dec_multipart sync_fs_codec b = Inr y"
  "enc_file sync_fs_codec z = Inr b \<Longrightarrow> dec_file sync_fs_codec b = Inr z"
  "enc_refs sync_fs_codec i = Inr b \<Longrightarrow> dec_refs sync_fs_codec b = Inr i"
  by (auto simp: sync_fs_codec_def plain_fs_codec_def)

interpretation memsnap: snapshot_over mem_manager mem_abs "mem_replica sub" map_of sub for sub
proof -
  have master: "fs_over (sm_fs mem_manager) mem_abs map_of"
    unfolding fs_over_def fs_over_axioms_def mem_manager_sel using mem.kv_store_axioms by (simp add: sync_codec_laws)
  have replica: "fs_over (replica_env mem_manager sub) (mem_replica sub) map_of"
    unfolding fs_over_def fs_over_axioms_def replica_env_def mem_manager_sel using bucket_kv by (simp add: sync_codec_laws)
  show "snapshot_over mem_manager mem_abs (mem_replica sub) map_of sub"
    unfolding snapshot_over_def snapshot_over_axioms_def mem_manager_sel using master replica bucket_kv
    by (auto simp: sync_wal_codec_def mem_abs_def)
qed

text \<open>A state of the manager: the feed, the master, the policy and the replica of one subject.\<close>

definition kv_of :: "(string \<times> sync_val) list \<Rightarrow> sync_val mem_kv" where
  "kv_of d = \<lparr>mem_data = d, mem_fenced = False\<rparr>"

definition sync_state :: "(string \<times> sync_val) list \<Rightarrow> (string \<times> sync_val) list \<Rightarrow> string list list \<Rightarrow> string list list \<Rightarrow> string \<Rightarrow>
    (string \<times> sync_val) list \<Rightarrow> (sync_val mem_kv, mem_enforcer, wal_val mem_kv wal, mem_bucket) sync_world" where
  "sync_state wal_data master p g sub live = \<lparr>
     sw_wal = kv_of wal_data,
     sw_master = \<lparr>fs_kv = kv_of master, fs_latch = latch_new\<rparr>,
     sw_policy = empty_policy\<lparr>pw_enforcer := \<lparr>me_p = p, me_g = g, me_store = no_rules\<rparr>\<rparr>,
     sw_bucket = [(user_prefix mem_manager sub, kv_of live)],
     sw_scratch = kv_of [],
     sw_inflight = {},
     sw_jobs = Some []\<rparr>"

lemma sync_state_sel [simp]:
  "mem_abs (fs_kv (sw_master (sync_state wd md p g sub live))) = map_of md" "mem_abs (sw_wal (sync_state wd md p g sub live)) = map_of wd"
  "mem_replica sub (sw_bucket (sync_state wd md p g sub live)) = map_of live"
  "me_p (pw_enforcer (sw_policy (sync_state wd md p g sub live))) = p" "me_g (pw_enforcer (sw_policy (sync_state wd md p g sub live))) = g"
  "sw_inflight (sync_state wd md p g sub live) = {}" "sw_jobs (sync_state wd md p g sub live) = Some []"
  by (simp_all add: sync_state_def kv_of_def mem_abs_def mem_replica_def bucket_at_def)

definition file_of :: "string \<Rightarrow> string \<Rightarrow> file_record" where
  "file_of f owner = \<lparr>fr_id = f, fr_name = ''n'', fr_mimetype = ''t'', fr_size = 1, fr_s3_key = ''files/'' @ f, fr_owner_sub = owner, fr_created_at = 1\<rparr>"

end
