(* ===== verification/Snapshot_Props.thy ===== *)
theory Snapshot_Props
  imports Snapshot_Memory
begin

text \<open>
  What the incremental replay of the feed does to a replica: the closure of the groups of a subject, the resync of one file, what a replay
  may add, and what it leaves.
\<close>

section \<open>The groups of a subject\<close>

lemma fold_visit:
  "\<exists>new. fold visit gs (found, frontier) = (found @ new, frontier @ new) \<and> set new = set gs - set found \<and> distinct new"
proof (induction gs arbitrary: found frontier)
  case (Cons g gs)
  show ?case
  proof (cases "g \<in> set found")
    case True
    then show ?thesis using Cons.IH [of found frontier] by (auto simp: visit_def)
  next
    case False
    obtain new where "fold visit gs (found @ [g], frontier @ [g]) = ((found @ [g]) @ new, (frontier @ [g]) @ new)"
        "set new = set gs - set (found @ [g])" "distinct new"
      using Cons.IH [of "found @ [g]" "frontier @ [g]"] by blast
    moreover have "fold visit (g # gs) (found, frontier) = fold visit gs (found @ [g], frontier @ [g])" using False by (simp add: visit_def)
    ultimately show ?thesis using False by (intro exI [of _ "g # new"] conjI) (simp_all, blast)
  qed
qed simp

lemma groups_loop_closure:
  assumes next_of: "\<And>u. set (next_of u) = R `` {u}" and fin: "finite (R\<^sup>+ `` {s})"
    and "set found \<subseteq> R\<^sup>+ `` {s}" and "set frontier \<subseteq> insert s (set found)" and "distinct found"
    and "\<forall>x \<in> insert s (set found) - set frontier. R `` {x} \<subseteq> set found"
  shows "\<exists>gs. groups_loop next_of found frontier = Some gs \<and> set gs = R\<^sup>+ `` {s} \<and> distinct gs"
  using assms(3-)
proof (induction "2 * card (R\<^sup>+ `` {s} - set found) + length frontier" arbitrary: found frontier rule: less_induct)
  case less
  show ?case
  proof (cases frontier rule: rev_cases)
    case Nil
    have "x \<in> set found" if "(s, x) \<in> R\<^sup>+" for x
      using that less.prems(4) Nil by (induction rule: trancl_induct) auto
    then have "set found = R\<^sup>+ `` {s}" using less.prems(1) by blast
    then show ?thesis using Nil less.prems(3) by (subst groups_loop.simps) simp
  next
    case (snoc pre name)
    obtain new where new: "fold visit (next_of name) (found, pre) = (found @ new, pre @ new)"
        "set new = R `` {name} - set found" "distinct new"
      using fold_visit [of "next_of name" found pre] next_of by metis
    have name: "name \<in> insert s (set found)" using less.prems(2) snoc by auto
    have reach: "(s, g) \<in> R\<^sup>+" if "(name, g) \<in> R" for g
      using name less.prems(1) that by (auto intro: trancl_into_trancl)
    have found: "set (found @ new) \<subseteq> R\<^sup>+ `` {s}" using less.prems(1) new(2) reach by auto
    have split: "R\<^sup>+ `` {s} - set found = (R\<^sup>+ `` {s} - set (found @ new)) \<union> set new"
      using new(2) reach by auto
    have "card (R\<^sup>+ `` {s} - set found) = card (R\<^sup>+ `` {s} - set (found @ new)) + length new"
      unfolding split distinct_card [OF new(3), symmetric] by (rule card_Un_disjoint) (use fin in auto)
    then have smaller: "2 * card (R\<^sup>+ `` {s} - set (found @ new)) + length (pre @ new) < 2 * card (R\<^sup>+ `` {s} - set found) + length frontier"
      by (simp add: snoc)
    have "\<exists>gs. groups_loop next_of (found @ new) (pre @ new) = Some gs \<and> set gs = R\<^sup>+ `` {s} \<and> distinct gs"
    proof (rule less.hyps [OF smaller found])
      show "set (pre @ new) \<subseteq> insert s (set (found @ new))" using less.prems(2) snoc by auto
      show "distinct (found @ new)" using less.prems(3) new(2,3) by auto
      show "\<forall>x \<in> insert s (set (found @ new)) - set (pre @ new). R `` {x} \<subseteq> set (found @ new)"
        using less.prems(4) snoc new(2) by auto
    qed
    then show ?thesis using snoc new(1) by (subst groups_loop.simps) simp
  qed
qed

lemma implicit_groups_run:
  assumes "enforcer (pe_ops (sm_policy mgr)) prules grules einv" and "einv (pw_enforcer (sw_policy w))"
  shows "\<exists>gs. implicit_groups mgr u w = (Inr (Some gs), w) \<and> distinct gs \<and>
    set gs = (links (grules (pw_enforcer (sw_policy w))))\<^sup>+ `` {u}"
proof -
  let ?R = "links (grules (pw_enforcer (sw_policy w)))"
  have "finite (grules (pw_enforcer (sw_policy w)))"
    using enforcer.get_grouping_law [OF assms] List.finite_set by metis
  moreover have "?R \<subseteq> (\<lambda>l. (l ! 0, l ! 1)) ` grules (pw_enforcer (sw_policy w))"
    by (force simp: links_def)
  ultimately have "finite ?R" by (meson finite_imageI finite_subset)
  then have "finite (?R\<^sup>+ `` {u})" by (simp add: finite_Image)
  moreover have "set (get_groups_of_user (sm_policy mgr) x (sw_policy w)) = ?R `` {x}" for x
    by (auto simp: get_groups_of_user_def links_def enforcer.roles_law [OF assms])
  ultimately have "\<exists>gs. groups_loop (\<lambda>x. get_groups_of_user (sm_policy mgr) x (sw_policy w)) [] [u] = Some gs \<and> set gs = ?R\<^sup>+ `` {u} \<and> distinct gs"
    by (intro groups_loop_closure) simp_all
  then show ?thesis unfolding implicit_groups_def by blast
qed

section \<open>One file\<close>

text \<open>The record of a file carries the identifier it is stored under.\<close>

definition ids_ok :: "'v fs_codec \<Rightarrow> (string \<rightharpoonup> 'v) \<Rightarrow> bool" where
  "ids_ok cod m \<longleftrightarrow> (\<forall>f r. value_at (dec_file cod) m (file_key f) = Some r \<longrightarrow> fr_id r = f)"

lemma rel_key_is_marker: "is_marker_of f (rel_key t r f)"
  by (auto simp: is_marker_of_def rel_key_def suffix_def)

lemma own_keys [simp]: "rel_key t r f \<in> file_keys f" "refs_key f \<in> file_keys f"
  by (simp_all add: file_keys_def rel_key_is_marker)

lemma touches_outside: "touches t r f m m' \<Longrightarrow> k \<notin> file_keys f \<Longrightarrow> m' k = m k"
  unfolding touches_def by (metis own_keys)

lemma touches_file_key: "touches t r f m m' \<Longrightarrow> m' (file_key g) = m (file_key g)"
  by (simp add: touches_def)

context snapshot_over
begin

text \<open>What a resync of a file leaves in the replica.\<close>

definition resynced :: "('s, 'e, 'l, 'o) sync_world \<Rightarrow> string \<Rightarrow> string \<Rightarrow> string \<Rightarrow> (string \<rightharpoonup> 'v) \<Rightarrow> bool" where
  "resynced w t r f m \<longleftrightarrow> (\<forall>k. k \<notin> file_keys f \<longrightarrow> m k = repl w k) \<and>
     (if can w f
      then (\<exists>rec b. value_at (dec_file (fe_cod (sm_fs mgr))) (mast w) (file_key f) = Some rec \<and>
              enc_file (fe_cod (sm_fs mgr)) rec = Inr b \<and> m (file_key f) = Some b) \<and>
           (m (rel_key t r f) \<noteq> None \<longleftrightarrow> allowed mgr sub (pw_enforcer (sw_policy w)) (t, r))
      else \<forall>k \<in> file_keys f. m k = None)"

lemma moved_trans: "moved w m w1 \<Longrightarrow> moved w1 m' w2 \<Longrightarrow> moved w m' w2"
  by (simp add: moved_def)

lemma moved_same: "same w w1 \<Longrightarrow> moved w (repl w) w1" "moved w m w1 \<Longrightarrow> same w1 w2 \<Longrightarrow> moved w m w2" "same w w1 \<Longrightarrow> moved w1 m w2 \<Longrightarrow> moved w m w2"
  by (simp_all add: moved_def same_def)

lemma moved_facts: "moved w m w1 \<Longrightarrow> repl w1 = m \<and> mast w1 = mast w \<and> pw_enforcer (sw_policy w1) = pw_enforcer (sw_policy w) \<and> can w1 = can w"
  using can_ctx [of w1 w] by (simp add: moved_def ctx_def)

lemma same_facts: "same w w1 \<Longrightarrow> repl w1 = repl w \<and> mast w1 = mast w \<and> pw_enforcer (sw_policy w1) = pw_enforcer (sw_policy w) \<and> can w1 = can w"
  using can_ctx [of w1 w] by (simp add: same_def ctx_def)

text \<open>A step on one file that ends with an error has kept the other files, and has not shown one that may not be read.\<close>

definition partial :: "('s, 'e, 'l, 'o) sync_world \<Rightarrow> string \<Rightarrow> (string \<rightharpoonup> 'v) \<Rightarrow> bool" where
  "partial w f m \<longleftrightarrow> (\<forall>k. k \<notin> file_keys f \<longrightarrow> m k = repl w k) \<and> (m (file_key f) \<noteq> None \<longrightarrow> repl w (file_key f) \<noteq> None \<or> can w f)"

lemma wp_resync_drop:
  assumes "same w w1" and "\<not> can w f"
    and ok: "\<And>m w'. moved w m w' \<Longrightarrow> resynced w t r f m \<Longrightarrow> Q (Inr ()) w'"
    and err: "\<And>e m w'. moved w m w' \<Longrightarrow> partial w f m \<Longrightarrow> Q (Inl e) w'"
  shows "wp (on_replica (delete_file_record dst f)) Q w1"
proof (rule wp_rep_delete)
  fix w' assume "moved w1 (without (file_keys f) (repl w1)) w'"
  then have "moved w (without (file_keys f) (repl w)) w'" using assms(1) same_facts [OF assms(1)] by (auto intro: moved_same)
  then show "Q (Inr ()) w'" by (rule ok) (simp add: resynced_def assms(2) without_def)
next
  fix e m w' assume "moved w1 m w'" and m: "m = repl w1 \<or> m = without (file_keys f) (repl w1)"
  then have "moved w m w'" using assms(1) by (auto intro: moved_same)
  then show "Q (Inl e) w'" by (rule err) (use m same_facts [OF assms(1)] in \<open>auto simp: partial_def without_def\<close>)
qed

lemma wp_resync_row:
  assumes w2: "moved w ((repl w)(file_key f \<mapsto> b)) w2" and can: "can w f"
    and rec: "value_at (dec_file (fe_cod (sm_fs mgr))) (mast w) (file_key f) = Some rec" "enc_file (fe_cod (sm_fs mgr)) rec = Inr b"
    and ok: "\<And>m w'. moved w m w' \<Longrightarrow> resynced w t r f m \<Longrightarrow> Q (Inr ()) w'"
    and err: "\<And>e m w'. moved w m w' \<Longrightarrow> partial w f m \<Longrightarrow> Q (Inl e) w'"
  shows "wp (bind_act (row_readable mgr sub t r) (\<lambda>yes.
      bind_act (on_replica (if yes then attach dst t r f else detach dst now t r f)) (\<lambda>_. ok_act ()))) Q w2"
proof -
  let ?A = "allowed mgr sub (pw_enforcer (sw_policy w)) (t, r)"
  have finish: "case q of Inl e \<Rightarrow> Q (Inl e) w4 | Inr _ \<Rightarrow> Q (Inr ()) w4"
    if w3: "same w2 w3" and w4: "moved w3 m w4" and m: "touches t r f (repl w3) m"
      and row: "\<And>c. q = Inr c \<Longrightarrow> m (rel_key t r f) \<noteq> None \<longleftrightarrow> ?A" for q :: "fs_error + u32" and w3 w4 m
  proof -
    have mv: "moved w m w4" using w2 w3 w4 moved_same moved_trans by blast
    have r3: "repl w3 = (repl w)(file_key f \<mapsto> b)" using w2 w3 moved_facts same_facts by metis
    have out: "m k = repl w k" if "k \<notin> file_keys f" for k using touches_outside [OF m that] that by (auto simp: r3)
    have own: "m (file_key f) = Some b" using touches_file_key [OF m] by (simp add: r3)
    show ?thesis
    proof (cases q)
      case (Inl e)
      show ?thesis unfolding Inl sum.case by (rule err [OF mv]) (simp add: partial_def can out)
    next
      case (Inr c)
      show ?thesis unfolding Inr sum.case
        by (rule ok [OF mv]) (use rec out own can row [OF Inr] in \<open>auto simp: resynced_def\<close>)
    qed
  qed
  have pol: "pw_enforcer (sw_policy w2) = pw_enforcer (sw_policy w)" using moved_facts [OF w2] by simp
  show ?thesis
    unfolding wp_bind wp_ok
  proof (rule wp_row_readable, unfold sum.case pol)
    fix w3 assume w3: "same w2 w3"
    show "wp (on_replica (if ?A then attach dst t r f else detach dst now t r f)) (\<lambda>q w'. case q of Inl e \<Rightarrow> Q (Inl e) w' | Inr _ \<Rightarrow> Q (Inr ()) w') w3"
      by (cases ?A; simp only: if_True if_False)
         (rule wp_rep_attach wp_rep_detach, rule finish [OF w3], assumption+, simp)+
  qed
qed

lemma wp_resync_file:
  assumes ids: "ids_ok (fe_cod (sm_fs mgr)) (mast w)"
    and ok: "\<And>m w'. moved w m w' \<Longrightarrow> resynced w t r f m \<Longrightarrow> Q (Inr ()) w'"
    and err: "\<And>e m w'. moved w m w' \<Longrightarrow> partial w f m \<Longrightarrow> Q (Inl e) w'"
  shows "wp (resync_file mgr now sub t r f) Q w"
proof -
  have fail: "Q (Inl e) w'" if "same w w'" for e w'
    by (rule err [OF moved_same(1) [OF that]]) (simp add: partial_def)
  have save: "wp (bind_act (on_replica (save_file dst rec)) (\<lambda>_. bind_act (row_readable mgr sub t r) (\<lambda>yes.
      bind_act (on_replica (if yes then attach dst t r f else detach dst now t r f)) (\<lambda>_. ok_act ())))) Q w1"
    if w1: "same w w1" and c: "can w f" and rec: "value_at (dec_file (fe_cod (sm_fs mgr))) (mast w) (file_key f) = Some rec" for w1 rec
  proof -
    have f: "fr_id rec = f" using ids rec by (simp add: ids_ok_def)
    have r1: "repl w1 = repl w" using same_facts [OF w1] by simp
    show ?thesis
      unfolding wp_bind [of "on_replica (save_file dst rec)"]
    proof (rule wp_rep_save, unfold sum.case f r1)
      fix b w2 assume "enc_file (fe_cod (sm_fs mgr)) rec = Inr b" and "moved w1 ((repl w)(file_key f \<mapsto> b)) w2"
      then show "wp (bind_act (row_readable mgr sub t r) (\<lambda>yes.
          bind_act (on_replica (if yes then attach dst t r f else detach dst now t r f)) (\<lambda>_. ok_act ()))) Q w2"
        using moved_same(3) [OF w1] by (intro wp_resync_row [OF _ c rec]) (blast intro: ok err)+
    next
      fix e m w2 assume "moved w1 m w2" and "m = repl w \<or> (\<exists>b. m = (repl w)(file_key f \<mapsto> b))"
      then have "moved w m w2" "partial w f m" using moved_same(3) [OF w1] c by (auto simp: partial_def)
      then show "Q (Inl e) w2" by (rule err)
    qed
  qed
  show ?thesis
    unfolding resync_file_def Let_def wp_bind [of "on_master _"]
  proof (rule wp_get_master, goal_cases)
    case (1 w1)
    then have "\<not> can w f" by (simp add: can_def readable_def value_at_def)
    with 1 show ?case unfolding sum.case option.case by (intro wp_resync_drop) (blast intro: ok err)+
  next
    case (2 rec w1)
    note w1 = same_facts [OF 2(1)]
    show ?case
      unfolding sum.case option.case wp_bind [of "can_read mgr sub f"]
    proof (rule wp_can_read, goal_cases)
      case (1 w2)
      then have w2: "same w w2" using 2(1) same_trans by blast
      show ?case
        using w1 save [OF w2 _ 2(2)] wp_resync_drop [OF w2, of f t r Q] ok err by (cases "can w f") (simp_all del: wp_bind)
    next
      case (2 e w2)
      then show ?case using \<open>same w w1\<close> same_trans fail by simp
    qed
  next
    case (3 e w1)
    then show ?case by (simp add: fail)
  qed
qed

section \<open>What a replay may add\<close>

definition gains :: "('s, 'e, 'l, 'o) sync_world \<Rightarrow> ('s, 'e, 'l, 'o) sync_world \<Rightarrow> bool" where
  "gains w0 w \<longleftrightarrow> ctx w = ctx w0 \<and> slots w = slots w0 \<and> (\<forall>f. repl w (file_key f) \<noteq> None \<longrightarrow> repl w0 (file_key f) \<noteq> None \<or> can w0 f)"

definition gain :: "('s, 'e, 'l, 'o) sync_world \<Rightarrow> ('s, 'e, 'l, 'o) sync_world \<Rightarrow> bool" where
  "gain w0 w \<longleftrightarrow> gains w0 w \<and> repl w APPLIED_KEY = repl w0 APPLIED_KEY"

lemma gain_refl: "gain w w"
  by (simp add: gain_def gains_def)

lemma gain_ctx: "gain w0 w \<Longrightarrow> ctx w = ctx w0"
  by (simp add: gain_def gains_def)

lemma gain_same: "gain w0 w \<Longrightarrow> same w w' \<Longrightarrow> gain w0 w'"
  by (simp add: gain_def gains_def same_def)

lemma gain_moved:
  assumes "gain w0 w" and "moved w m w'" and "\<And>f. m (file_key f) \<noteq> None \<Longrightarrow> repl w (file_key f) \<noteq> None \<or> can w f"
    and "m APPLIED_KEY = repl w APPLIED_KEY"
  shows "gain w0 w'"
  using assms can_ctx [of w w0] by (auto simp: gain_def gains_def moved_def)

lemma gain_partial:
  assumes "gain w0 w" and "moved w m w'" and "partial w f m"
  shows "gain w0 w'"
proof (rule gain_moved [OF assms(1,2)])
  fix g assume "m (file_key g) \<noteq> None"
  then show "repl w (file_key g) \<noteq> None \<or> can w g"
    using assms(3) by (cases "g = f") (auto simp: partial_def)
next
  show "m APPLIED_KEY = repl w APPLIED_KEY" using assms(3) by (simp add: partial_def)
qed

lemma resynced_partial: "resynced w t r f m \<Longrightarrow> partial w f m"
  by (auto simp: resynced_def partial_def split: if_splits)

lemma keeps_wpI: "(\<And>w. P w \<Longrightarrow> wp m (\<lambda>_ w'. P w') w) \<Longrightarrow> keeps P m"
  by (rule keepsI) (blast dest: wpD)

lemma keeps_wpD: "keeps P m \<Longrightarrow> P w \<Longrightarrow> wp m (\<lambda>_ w'. P w') w"
  by (rule wpI) (blast dest: keepsD)

lemma keeps_bind_run [keeps_rules]: "keeps P m \<Longrightarrow> (\<And>x. keeps P (f x)) \<Longrightarrow> keeps P (bind_run m f)"
  unfolding bind_run_def by (intro keeps_rules) (auto intro: keeps_rules split: option.split)

lemma keeps_reads:
  shows "keeps (gain w0) (can_read mgr sub f)" and "keeps (gain w0) (row_readable mgr sub t r)" and "keeps (gain w0) (open_writer mgr sub)"
    and "keeps (gain w0) (load_applied mgr sub)" and "keeps (gain w0) (on_master (get_file (sm_fs mgr) f))"
  by (rule keeps_wpI; blast intro: wp_can_read wp_row_readable wp_open_writer wp_load_applied wp_get_master gain_same)+

lemma keeps_files_for_row: "keeps (gain w0) (on_master (files_for_row (sm_fs mgr) t r))"
proof (rule keeps_wpI)
  fix w assume "gain w0 w"
  then show "wp (on_master (files_for_row (sm_fs mgr) t r)) (\<lambda>_ w'. gain w0 w') w"
    by (intro wp_on_master_read [where R = "\<lambda>_. True"])
       (auto intro!: master.wp_scan_prefix intro: gain_same simp: files_for_row_def Let_def master.held_def mast_def)
qed

lemma keeps_resync_file:
  assumes "ids_ok (fe_cod (sm_fs mgr)) (mast w0)"
  shows "keeps (gain w0) (resync_file mgr now sub t r f)"
proof (rule keeps_wpI)
  fix w assume w: "gain w0 w"
  have "ids_ok (fe_cod (sm_fs mgr)) (mast w)" using assms mast_ctx [OF gain_ctx [OF w]] by simp
  then show "wp (resync_file mgr now sub t r f) (\<lambda>_ w'. gain w0 w') w"
    by (rule wp_resync_file) (blast intro: gain_partial [OF w] resynced_partial)+
qed

lemma keeps_implicit [keeps_rules]: "keeps P (implicit_groups mgr u)"
  by (simp add: keeps_def implicit_groups_def)

lemma keeps_rows_for_group [keeps_rules]: "keeps P (read_rows_for_group mgr g)"
  unfolding read_rows_for_group_def by (intro keeps_rules) (simp add: keeps_def)

lemma keeps_resync_files:
  assumes "ids_ok (fe_cod (sm_fs mgr)) (mast w0)"
  shows "keeps (gain w0) (resync_files mgr now sub t r fs)"
  unfolding resync_files_def by (intro keeps_rules keeps_resync_file [OF assms])

lemma keeps_resync_rows:
  assumes "ids_ok (fe_cod (sm_fs mgr)) (mast w0)"
  shows "keeps (gain w0) (resync_rows mgr now sub rows n)"
  by (induction rows arbitrary: n) (auto intro!: keeps_rules keeps_files_for_row keeps_resync_files [OF assms])

lemma keeps_attach:
  assumes ids: "ids_ok (fe_cod (sm_fs mgr)) (mast w0)"
  shows "keeps (gain w0) (apply_op mgr now sub (Attach t r f))"
proof -
  let ?rest = "bind_act (row_readable mgr sub t r) (\<lambda>yes.
           bind_act (if yes then bind_act (on_replica (attach dst t r f)) (\<lambda>_. ok_act ()) else ok_act ()) (\<lambda>_. ok_act (Some Applied)))"
  have "keeps (gain w0) (on_replica (attach dst t r f))"
    by (intro keeps_wpI wp_rep_attach) (auto elim!: gain_moved simp: touches_file_key touches_def)
  then have rest: "keeps (gain w0) ?rest" by (intro keeps_rules keeps_reads) auto
  have save: "wp (on_replica (save_file dst rec)) (\<lambda>q w'. case q of Inl e \<Rightarrow> gain w0 w' | Inr _ \<Rightarrow> wp ?rest (\<lambda>_. gain w0) w') w"
    if w: "gain w0 w" and rec: "fr_id rec = f" and c: "can w f" for w rec
    by (intro wp_rep_save; unfold sum.case rec; (intro keeps_wpD [OF rest])?) (auto intro!: gain_partial [OF w, where f = f] simp: partial_def c)
  have tail: "keeps (gain w0) (bind_act (can_read mgr sub f) (\<lambda>readable. if \<not> readable then ok_act (Some Applied) else bind_act (on_replica (save_file dst rec)) (\<lambda>_. ?rest)))"
    if "fr_id rec = f" for rec
  proof (rule keeps_wpI)
    fix w assume w: "gain w0 w"
    show "wp (bind_act (can_read mgr sub f) (\<lambda>readable. if \<not> readable then ok_act (Some Applied) else bind_act (on_replica (save_file dst rec)) (\<lambda>_. ?rest))) (\<lambda>_. gain w0) w"
      unfolding wp_bind [of "can_read mgr sub f"]
    proof (rule wp_can_read, unfold sum.case)
      fix w1 assume w1: "same w w1"
      then show "wp (if \<not> can w f then ok_act (Some Applied) else bind_act (on_replica (save_file dst rec)) (\<lambda>_. ?rest)) (\<lambda>_. gain w0) w1"
        using save [OF gain_same [OF w w1] that] gain_same [OF w w1] same_facts [OF w1]
        by (cases "can w f") (simp_all only: not_False_eq_True not_True_eq_False if_True if_False wp_ok wp_bind [of "on_replica _"] simp_thms)
    qed (use w gain_same in blast)
  qed
  show ?thesis
    unfolding apply_op.simps
  proof (rule keeps_wpI)
    fix w assume w: "gain w0 w"
    have "ids_ok (fe_cod (sm_fs mgr)) (mast w)" using ids mast_ctx [OF gain_ctx [OF w]] by simp
    then have same: "fr_id rec = f" if "value_at (dec_file (fe_cod (sm_fs mgr))) (mast w) (file_key f) = Some rec" for rec using that by (simp add: ids_ok_def)
    show "wp (bind_act (on_master (get_file (sm_fs mgr) f)) (\<lambda>g. case g of None \<Rightarrow> ok_act (Some Applied) | Some rec \<Rightarrow>
       bind_act (can_read mgr sub f) (\<lambda>readable. if \<not> readable then ok_act (Some Applied) else bind_act (on_replica (save_file dst rec)) (\<lambda>_. ?rest)))) (\<lambda>_. gain w0) w"
      unfolding wp_bind [of "on_master _"]
      by (rule wp_get_master; unfold sum.case option.case) (auto intro: keeps_wpD [OF tail] gain_same [OF w] same simp del: wp_bind wp_if)
  qed
qed

lemma keeps_apply_op:
  assumes ids: "ids_ok (fe_cod (sm_fs mgr)) (mast w0)"
  shows "keeps (gain w0) (apply_op mgr now sub wop)"
proof (cases wop)
  case (FileCreate rec)
  show ?thesis unfolding FileCreate apply_op.simps
  proof (rule keeps_wpI)
    fix w assume w: "gain w0 w"
    show "wp (bind_act (can_read mgr sub (fr_id rec)) (\<lambda>readable. bind_act (if readable then on_replica (save_file dst rec) else ok_act ()) (\<lambda>_. ok_act (Some Applied)))) (\<lambda>_ w'. gain w0 w') w"
      unfolding wp_bind
    proof (rule wp_can_read, unfold sum.case)
      fix w1 assume w1: "same w w1"
      then show "wp (if can w (fr_id rec) then on_replica (save_file dst rec) else ok_act ()) (\<lambda>r w'. case r of Inl e \<Rightarrow> gain w0 w' | Inr x \<Rightarrow> wp (ok_act (Some Applied)) (\<lambda>_. gain w0) w') w1"
        using gain_same [OF w w1] same_facts [OF w1]
        by (auto intro!: wp_rep_save elim!: gain_moved split: if_splits)
    qed (use w gain_same in blast)
  qed
next
  case (FileDelete f)
  show ?thesis unfolding FileDelete apply_op.simps
    by (intro keeps_rules keeps_wpI wp_rep_delete) (auto elim!: gain_moved simp: without_def split: if_splits)
next
  case (Detach t r f)
  show ?thesis unfolding Detach apply_op.simps
    by (intro keeps_rules keeps_wpI wp_rep_detach) (auto elim!: gain_moved simp: touches_file_key touches_def)
next
  case (Attach t r f)
  show ?thesis unfolding Attach by (rule keeps_attach [OF ids])
qed (use assms in \<open>auto intro!: keeps_rules keeps_files_for_row keeps_resync_files keeps_resync_rows
   simp: apply_rule_op_def apply_membership_op_def apply_group_delete_def split: option.split\<close>)

lemma keeps_apply_all:
  assumes "ids_ok (fe_cod (sm_fs mgr)) (mast w0)"
  shows "keeps (gain w0) (apply_all mgr now sub entries)"
  by (induction entries) (auto intro!: keeps_rules keeps_apply_op [OF assms])

text \<open>Entries that a replay passes over or answers with less than they take away: memberships of other subjects, and detached rows.\<close>

fun blind :: "wal_op \<Rightarrow> bool" where
  "blind (GroupAdd user grp) = (user \<noteq> sub)"
| "blind (GroupRemove user grp) = (user \<noteq> sub)"
| "blind (Detach t r f) = True"
| "blind _ = False"

definition stays :: "('s, 'e, 'l, 'o) sync_world \<Rightarrow> ('s, 'e, 'l, 'o) sync_world \<Rightarrow> bool" where
  "stays w0 w \<longleftrightarrow> ctx w = ctx w0 \<and> repl w APPLIED_KEY = repl w0 APPLIED_KEY \<and> (\<forall>f. repl w (file_key f) = repl w0 (file_key f))"

lemma keeps_blind:
  assumes "\<forall>e \<in> set entries. blind (we_op e)"
  shows "keeps (stays w0) (apply_all mgr now sub entries)"
  using assms
proof (induction entries)
  case (Cons e entries)
  have "keeps (stays w0) (apply_op mgr now sub (we_op e))"
  proof (cases "we_op e")
    case (Detach t r f)
    show ?thesis unfolding Detach apply_op.simps
      by (intro keeps_rules keeps_wpI wp_rep_detach) (auto simp: stays_def moved_def touches_file_key touches_def)
  qed (use Cons.prems in \<open>auto intro!: keeps_rules simp: apply_membership_op_def\<close>)
  then show ?case using Cons by (auto intro!: keeps_rules)
qed (auto intro!: keeps_rules)

lemma blind_iff: "(\<exists>user grp. user \<noteq> sub \<and> (wop = GroupAdd user grp \<or> wop = GroupRemove user grp)) \<or> (\<exists>t r f. wop = Detach t r f) \<longleftrightarrow> blind wop"
  by (cases wop) auto

text \<open>Reading a range of the feed.\<close>

lemma u64_succ_le: "(a :: u64) < h \<Longrightarrow> a + 1 \<le> n \<Longrightarrow> a < n"
proof -
  assume "a < h" and le: "a + 1 \<le> n"
  moreover have "unat h < 2 ^ 64" using unsigned_less [of h] by simp
  ultimately have "unat a + 1 < 2 ^ 64" by (simp add: word_less_nat_alt)
  then have "unat (a + 1) = unat a + 1" by (simp add: unat_word_ariths)
  then show "a < n" using le by (simp add: word_less_nat_alt word_le_nat_alt)
qed

lemma wp_range_world:
  assumes "\<And>entries w'. same w w' \<Longrightarrow> \<forall>e \<in> set entries. \<exists>seq. from \<le> seq \<and> seq \<le> to \<and> stored_entry (sm_wal mgr) (feed_of w) seq = Some e \<Longrightarrow> Q (Inr entries) w'"
    and "\<And>e w'. same w w' \<Longrightarrow> Q (Inl e) w'"
  shows "wp (on_wal (wal_range (fe_ops (sm_fs mgr)) (sm_wal mgr) from to)) Q w"
proof -
  let ?ok = "\<lambda>seq e. from \<le> seq \<and> seq \<le> to \<and> stored_entry (sm_wal mgr) (feed_of w) seq = Some e"
  have seqs: "from \<le> seq \<and> seq \<le> to" if mem: "seq \<in> set (range_seqs from to)" for seq
  proof -
    obtain x where x: "seq = of_nat x" "unat from \<le> x" "x \<le> unat to"
      using mem by (auto simp: range_seqs_def less_Suc_eq_le image_iff)
    have "unat to < 2 ^ 64" using unsigned_less [of to] by simp
    then have "x < 2 ^ 64" using x(3) by linarith
    then show ?thesis using x by (simp add: word_le_nat_alt unsigned_of_nat take_bit_nat_eq_self)
  qed
  have world: "same w (w\<lparr>sw_wal := s\<rparr>)" if "mabs s = feed_of w" for s
    using that by (simp add: same_def world_defs)
  have "wp (for_act (range_seqs from to) (range_body (fe_ops (sm_fs mgr)) (sm_wal mgr)) [])
      (\<lambda>r s. mabs s = feed_of w \<and> (case r of Inl _ \<Rightarrow> True | Inr entries \<Rightarrow> \<forall>e \<in> set entries. \<exists>seq. ?ok seq e)) (sw_wal w)"
  proof (rule wp_for [where I = "\<lambda>rest out s. set rest \<subseteq> set (range_seqs from to) \<and> mabs s = feed_of w \<and> (\<forall>e \<in> set out. \<exists>seq. ?ok seq e)"], goal_cases)
    case (2 seq rest out s)
    then have "?ok seq e" if "feed_of w (entry_key seq) = Some b" "dec_entry (sm_wal mgr) b = Inr e" "we_seq e = seq" for b e
      using seqs that by (simp add: stored_entry_def)
    with 2 show ?case
      by (auto simp: range_body_def store_act_def intro!: master.wp_get split: option.splits sum.splits) blast
  qed (auto simp: feed_of_def)
  then have "wp (wal_range (fe_ops (sm_fs mgr)) (sm_wal mgr) from to)
      (\<lambda>r s. mabs s = feed_of w \<and> (case r of Inl _ \<Rightarrow> True | Inr entries \<Rightarrow> \<forall>e \<in> set entries. \<exists>seq. ?ok seq e)) (sw_wal w)"
    by (auto simp: wal_range_def feed_of_def)
  then show ?thesis
    unfolding on_wal_def wp_focus
    by (rule wp_mono) (auto intro!: assms world split: sum.splits)
qed

text \<open>The end of a replay: the marker is set once every entry was applied.\<close>

lemma wp_set_marker:
  assumes "\<And>w' b. moved w ((repl w)(APPLIED_KEY \<mapsto> b)) w' \<Longrightarrow> dec_seq (sm_wal mgr) b = Inr head \<Longrightarrow> Q (Inr x) w'"
    and "\<And>e m w'. moved w m w' \<Longrightarrow> m = repl w \<or> (\<exists>b. dec_seq (sm_wal mgr) b = Inr head \<and> m = (repl w)(APPLIED_KEY \<mapsto> b)) \<Longrightarrow> Q (Inl e) w'"
  shows "wp (bind_act (internal_of (enc_seq (sm_wal mgr) head)) (\<lambda>b.
      bind_act (on_bucket (store_act (kv_set (sm_writer mgr (user_prefix mgr sub)) APPLIED_KEY b))) (\<lambda>_. ok_act x))) Q w"
proof (cases "enc_seq (sm_wal mgr) head")
  case (Inl e)
  then show ?thesis using assms(2) [of "repl w" w] by (simp add: moved_def)
next
  case (Inr b)
  have ops: "fe_ops dst = sm_writer mgr (user_prefix mgr sub)" by (simp add: replica_env_def)
  have mv: "moved w (rabs s) (w\<lparr>sw_bucket := s\<rparr>)" for s by (simp add: moved_def)
  show ?thesis
    using Inr seq_codec [OF Inr]
    by (auto simp: on_bucket_def store_act_def ops [symmetric] intro!: replica.wp_set) (metis assms mv repl_def)+
qed

text \<open>The result of a replay, and what it leaves of a predicate that its reads and the entries it applies keep.\<close>

lemma wp_replay:
  assumes P: "P w" "\<And>w1 w2. P w1 \<Longrightarrow> same w1 w2 \<Longrightarrow> P w2"
    and reads: "\<And>w1. P w1 \<Longrightarrow> coverage mgr (repl w1) = coverage mgr (repl w) \<and> feed_of w1 = feed_of w"
    and apply_all: "\<And>applied entries. coverage mgr (repl w) = Some applied \<Longrightarrow>
        \<forall>e \<in> set entries. \<exists>seq. applied < seq \<and> seq \<le> head \<and> stored_entry (sm_wal mgr) (feed_of w) seq = Some e \<Longrightarrow>
        keeps P (apply_all mgr now sub entries)"
    and Q: "\<And>q w'. P w' \<Longrightarrow> (\<And>h. q = Inr (Some (Advanced h)) \<Longrightarrow> h = head \<and> coverage mgr (repl w) = Some head) \<Longrightarrow> Q q w'"
    and set: "\<And>q w1 w' b. P w1 \<Longrightarrow> moved w1 ((repl w1)(APPLIED_KEY \<mapsto> b)) w' \<Longrightarrow> dec_seq (sm_wal mgr) b = Inr head \<Longrightarrow>
        q = Inr (Some (Advanced head)) \<or> (\<exists>e. q = Inl e) \<Longrightarrow> Q q w'"
  shows "wp (replay mgr now head sub) Q w"
proof -
  have stop: "Q q w'" if "P w'" "\<forall>h. q \<noteq> Inr (Some (Advanced h))" for q w' using Q that by blast
  let ?fin = "\<lambda>outcome. if outcome = ApplyNeedsFullRebuild then ok_act (Some NeedsFullRebuild)
       else bind_act (internal_of (enc_seq (sm_wal mgr) head)) (\<lambda>b.
         bind_act (on_bucket (store_act (kv_set (sm_writer mgr (user_prefix mgr sub)) APPLIED_KEY b))) (\<lambda>_. ok_act (Some (Advanced head))))"
  have fin: "wp (?fin outcome) Q w1" if w1: "P w1" for outcome w1
  proof (cases outcome)
    case Applied
    have unchanged: "Q (Inl e) w'" if "moved w1 (repl w1) w'" for e w'
      by (rule stop) (use that P(2) [OF w1] in \<open>auto simp: moved_def same_def\<close>)
    show ?thesis unfolding Applied if_not_P [OF apply_outcome.distinct(1)]
      by (rule wp_set_marker) (auto intro: set [OF w1] unchanged)
  qed (simp add: stop [OF w1])
  have body: "wp (bind_act (open_writer mgr sub) (\<lambda>_. bind_run (apply_all mgr now sub entries) ?fin)) Q w1"
    if w1: "P w1" and k: "keeps P (apply_all mgr now sub entries)" for entries w1
  proof -
    have "wp (bind_run (apply_all mgr now sub entries) ?fin) Q w2" if "P w2" for w2
      unfolding bind_run_def wp_bind [of "apply_all mgr now sub entries"]
      using keeps_wpD [OF k that]
    proof (rule wp_mono)
      fix r w3 assume w3: "P w3"
      show "case r of Inl e \<Rightarrow> Q (Inl e) w3 | Inr x \<Rightarrow> wp (case x of None \<Rightarrow> ok_act None | Some y \<Rightarrow> ?fin y) Q w3"
        using stop [OF w3] fin [OF w3] by (cases r; cases "projr r") (simp_all only: sum.case option.case wp_ok sum.sel simp_thms sum.distinct sum.inject option.inject option.distinct)
    qed
    then show ?thesis
      unfolding wp_bind [of "open_writer mgr sub"]
      by (intro wp_open_writer) (auto intro: stop P(2) [OF w1] split: sum.split)
  qed
  show ?thesis
    unfolding replay_def wp_bind [of "load_applied mgr sub"]
  proof (rule wp_load_applied, goal_cases)
    case (1 a w1)
    note w1 = P(2) [OF P(1) 1(1)]
    show ?case
    proof (cases a)
      case None
      then show ?thesis using stop [OF w1] by simp
    next
      case (Some applied)
      then have c: "coverage mgr (repl w) = Some applied" using 1(2) by simp
      consider "head < applied" | "applied = head" | "\<not> head < applied" "applied \<noteq> head" by blast
      then show ?thesis
      proof cases
        case 1
        then show ?thesis using Some stop [OF w1] by simp
      next
        case 2
        then show ?thesis using Some c Q [OF w1, of "Inr (Some (Advanced head))"] by simp
      next
        case 3
        show ?thesis
          unfolding Some sum.case option.case if_not_P [OF 3(1)] if_not_P [OF 3(2)] wp_bind [of "on_wal _"]
        proof (rule wp_range_world, unfold sum.case, goal_cases)
          case (1 entries w2)
          have "applied < head" using 3 by simp
          then have "\<forall>e \<in> set entries. \<exists>seq. applied < seq \<and> seq \<le> head \<and> stored_entry (sm_wal mgr) (feed_of w) seq = Some e"
            using 1(2) reads [OF w1] u64_succ_le by metis
          from body [OF P(2) [OF w1 1(1)] apply_all [OF c this]] stop [OF P(2) [OF w1 1(1)]] show ?case
            by (simp del: wp_bind)
        next
          case (2 e w2)
          show ?case by (rule stop [OF P(2) [OF w1 2]]) simp
        qed
      qed
    qed
  next
    case (2 e w1)
    then show ?case using stop [OF P(2) [OF P(1)]] by simp
  qed
qed

lemma wp_replay_gain:
  "wp (replay mgr now head sub) (\<lambda>q w'. ids_ok (fe_cod (sm_fs mgr)) (mast w) \<longrightarrow> gains w w' \<and>
     (case q of
        Inr (Some (Advanced h)) \<Rightarrow> h = head \<and> coverage mgr (repl w') = Some head
      | Inr _ \<Rightarrow> coverage mgr (repl w') = coverage mgr (repl w)
      | Inl _ \<Rightarrow> coverage mgr (repl w') \<in> {coverage mgr (repl w), Some head})) w"
proof (cases "ids_ok (fe_cod (sm_fs mgr)) (mast w)")
  case True
  have cov: "coverage mgr (repl w1) = coverage mgr (repl w)" if "gain w w1" for w1 using that by (simp add: gain_def coverage_def)
  show ?thesis
  proof (rule wp_replay [where P = "gain w"], goal_cases)
    case (4 applied entries)
    show ?case by (rule keeps_apply_all [OF True])
  next
    case (5 q w')
    then show ?case using cov by (auto simp: gain_def split: sum.split option.split replay_outcome.split)
  next
    case (6 q w1 w' b)
    then have "gains w w'" "coverage mgr (repl w') = Some head" by (auto simp: gain_def gains_def moved_def coverage_def)
    then show ?case using 6(4) by auto
  next
    case 1
    show ?case by (rule gain_refl)
  next
    case (2 w1 w2)
    then show ?case by (rule gain_same)
  next
    case (3 w1)
    then show ?case using cov gain_ctx [of w w1] by (simp add: ctx_def)
  qed
qed (simp add: wp_def split: prod.split)

lemma wp_replay_blind:
  "wp (replay mgr now head sub) (\<lambda>q w'. \<forall>applied h. coverage mgr (repl w) = Some applied \<longrightarrow>
     (\<forall>seq e. applied < seq \<longrightarrow> stored_entry (sm_wal mgr) (feed_of w) seq = Some e \<longrightarrow>
        (\<exists>user grp. user \<noteq> sub \<and> (we_op e = GroupAdd user grp \<or> we_op e = GroupRemove user grp)) \<or> (\<exists>t r f. we_op e = Detach t r f)) \<longrightarrow>
     q = Inr (Some (Advanced h)) \<longrightarrow>
     (\<forall>f. repl w' (file_key f) = repl w (file_key f)) \<and> coverage mgr (repl w') = Some head) w"
proof (cases "\<exists>applied. coverage mgr (repl w) = Some applied \<and> (\<forall>seq e. applied < seq \<longrightarrow> stored_entry (sm_wal mgr) (feed_of w) seq = Some e \<longrightarrow> blind (we_op e))")
  case True
  then obtain applied where a: "coverage mgr (repl w) = Some applied"
      "\<And>seq e. applied < seq \<Longrightarrow> stored_entry (sm_wal mgr) (feed_of w) seq = Some e \<Longrightarrow> blind (we_op e)" by blast
  show ?thesis
    unfolding blind_iff
  proof (rule wp_replay [where P = "stays w"], goal_cases)
    case (4 applied' entries)
    then have "\<forall>e \<in> set entries. blind (we_op e)" using a by (metis option.inject)
    then show ?case by (rule keeps_blind)
  next
    case (5 q w')
    then show ?case using a by (auto simp: stays_def coverage_def)
  next
    case (6 q w1 w' b)
    then show ?case by (auto simp: stays_def moved_def coverage_def)
  qed (auto simp: stays_def same_def coverage_def ctx_def)
next
  case False
  then show ?thesis unfolding blind_iff by (intro wpI) blast
qed

end

section \<open>Properties\<close>

text \<open>
  The closure of the groups of a subject is exact and the loop that computes it ends. On any policy, cycles included, the groups
  found are those that one or more membership links lead to, each once, and nothing is written.
\<close>

theorem implicit_groups_exact:
  assumes "enforcer (pe_ops (sm_policy mgr)) prules grules einv" and "einv (pw_enforcer (sw_policy w))"
  shows "\<exists>gs. implicit_groups mgr u w = (Inr (Some gs), w) \<and> distinct gs \<and>
    set gs = {g. (u, g) \<in> (links (grules (pw_enforcer (sw_policy w))))\<^sup>+}"
  using implicit_groups_run [OF assms, of u] by (auto simp: Image_def)

definition cyclic_links :: mem_enforcer where
  "cyclic_links = snd (ef_add_grouping mem_enf [''b'', ''a''] (snd (ef_add_grouping mem_enf [''a'', ''b''] (pw_enforcer empty_policy))))"

definition cyclic_groups :: "(sync_val mem_kv, mem_enforcer, wal_val mem_kv wal, mem_bucket) sync_world" where
  "cyclic_groups = (sync_state [] [] [] [] ''ann'' [])\<lparr>sw_policy := empty_policy\<lparr>pw_enforcer := cyclic_links\<rparr>\<rparr>"

lemma add_link_ok:
  assumes "mem_einv e" and "clean_rule l" and "length l = 2" and "fst (ef_add_grouping mem_enf l e) = Inr b"
  shows "mem_einv (snd (ef_add_grouping mem_enf l e)) \<and> set (me_g (snd (ef_add_grouping mem_enf l e))) = insert l (set (me_g e))"
  using memenf.add_grouping_law [OF assms(1-3) prod.collapse [symmetric]] assms(4) by auto

lemma cyclic_links_ok: "mem_einv cyclic_links \<and> set (me_g cyclic_links) = {[''a'', ''b''], [''b'', ''a'']}"
proof -
  let ?e = "snd (ef_add_grouping mem_enf [''a'', ''b''] (pw_enforcer empty_policy))"
  have "fst (ef_add_grouping mem_enf [''a'', ''b''] (pw_enforcer empty_policy)) = Inr True" by code_simp
  then have 1: "mem_einv ?e \<and> set (me_g ?e) = {[''a'', ''b'']}"
    using add_link_ok [of "pw_enforcer empty_policy" "[''a'', ''b'']"] by (simp add: clean_rule_def unit_sep_def)
  have "fst (ef_add_grouping mem_enf [''b'', ''a''] ?e) = Inr True" by code_simp
  then show ?thesis
    using add_link_ok [of ?e "[''b'', ''a'']"] 1 by (simp add: cyclic_links_def clean_rule_def unit_sep_def insert_commute)
qed

theorem implicit_groups_exact_witness:
  "\<exists>gs. implicit_groups mem_manager ''a'' cyclic_groups = (Inr (Some gs), cyclic_groups) \<and> {''a'', ''b''} \<subseteq> set gs"
proof -
  let ?R = "links (set (me_g cyclic_links))"
  have ab: "(''a'', ''b'') \<in> ?R" "(''b'', ''a'') \<in> ?R" using cyclic_links_ok by (simp_all add: links_def)
  then have "(''a'', ''b'') \<in> ?R\<^sup>+" "(''a'', ''a'') \<in> ?R\<^sup>+" by (meson trancl.intros)+
  moreover have "enforcer (pe_ops (sm_policy mem_manager)) (\<lambda>e. set (me_p e)) (\<lambda>e. set (me_g e)) mem_einv"
    by (simp add: memenf.enforcer_axioms)
  moreover have "mem_einv (pw_enforcer (sw_policy cyclic_groups))" using cyclic_links_ok by (simp add: cyclic_groups_def)
  ultimately show ?thesis
    using implicit_groups_exact [of mem_manager "\<lambda>e. set (me_p e)" "\<lambda>e. set (me_g e)" mem_einv cyclic_groups "''a''"]
    by (auto simp: cyclic_groups_def)
qed


text \<open>A file of alice that is in the feed and in the master, with nothing in her replica yet but the marker.\<close>

definition created :: "(sync_val mem_kv, mem_enforcer, wal_val mem_kv wal, mem_bucket) sync_world" where
  "created = sync_state [(seq_key, SSeq 1), (entry_key 1, SEntry \<lparr>we_seq = 1, we_op = FileCreate (file_of ''f1'' ''alice''), we_ts = 5\<rparr>)]
     [(file_key ''f1'', SFs (FFile (file_of ''f1'' ''alice'')))] [] [] ''alice'' [(APPLIED_KEY, SSeq 0)]"

lemma ids_ok_list: "ids_ok cod (map_of d)" if "\<forall>(k, b) \<in> set d. \<forall>f r. k = file_key f \<longrightarrow> dec_file cod b = Inr r \<longrightarrow> fr_id r = f"
  unfolding ids_ok_def value_at_def
proof (intro allI impI)
  fix f r assume "Option.bind (map_of d (file_key f)) (\<lambda>b. case dec_file cod b of Inl x \<Rightarrow> None | Inr x \<Rightarrow> Some x) = Some r"
  then obtain b where "map_of d (file_key f) = Some b" "dec_file cod b = Inr r"
    by (cases "map_of d (file_key f)"; cases "dec_file cod (the (map_of d (file_key f)))") auto
  then show "fr_id r = f" using that map_of_SomeD by fastforce
qed

lemma sync_dec_file [simp]: "dec_file sync_fs_codec (SFs (FFile r)) = Inr r" "dec_file sync_fs_codec (SFs (FBytes b)) = Inl ''not a file''"
    "dec_file sync_fs_codec (SFs (FRefs i)) = Inl ''not a file''"
  by (simp_all add: sync_fs_codec_def plain_fs_codec_def)

lemma created_ids: "ids_ok sync_fs_codec (mem_abs (fs_kv (sw_master created)))"
  unfolding created_def sync_state_sel by (rule ids_ok_list) (simp add: file_of_def)

lemma created_readable: "readable mem_manager ''alice'' (mem_abs (fs_kv (sw_master created))) (pw_enforcer (sw_policy created)) ''f1''"
  by (simp add: created_def readable_def value_at_def) (simp add: file_of_def)

lemma created_replica: "mem_replica ''alice'' (sw_bucket created) = [APPLIED_KEY \<mapsto> SSeq 0]"
  by (simp add: created_def)



definition caught_up :: "(sync_val mem_kv, mem_enforcer, wal_val mem_kv wal, mem_bucket) sync_world" where
  "caught_up = snd (replay mem_manager 9 1 ''alice'' created)"

lemma caught_up_run:
  "replay mem_manager 9 1 ''alice'' created = (Inr (Some (Advanced 1)), caught_up)"
  "mem_replica ''alice'' (sw_bucket caught_up) (file_key ''f1'') \<noteq> None"
proof -
  have "(case replay mem_manager 9 1 ''alice'' created of (q, w') \<Rightarrow>
      (q, map_of (mem_data (bucket_at (user_prefix mem_manager ''alice'') (sw_bucket w'))) (file_key ''f1'') \<noteq> None)) = (Inr (Some (Advanced 1)), True)"
    by code_simp
  then show "replay mem_manager 9 1 ''alice'' created = (Inr (Some (Advanced 1)), caught_up)"
    "mem_replica ''alice'' (sw_bucket caught_up) (file_key ''f1'') \<noteq> None"
    by (auto simp: caught_up_def mem_replica_def mem_abs_def split: prod.splits)
qed


text \<open>
  The marker moves last. A replay that answers that the replica covers the head has set the marker to it; one that asks for a rebuild
  has left the marker, and one that fails has left it or failed with the marker as its only open write.
\<close>

theorem replay_marker_last:
  assumes "snapshot_over mgr mabs rabs txov sub" and "ids_ok (fe_cod (sm_fs mgr)) (mabs (fs_kv (sw_master w)))"
    and "replay mgr now head sub w = (q, w')"
  shows "case q of
      Inr (Some (Advanced h)) \<Rightarrow> h = head \<and> coverage mgr (rabs (sw_bucket w')) = Some head
    | Inr _ \<Rightarrow> coverage mgr (rabs (sw_bucket w')) = coverage mgr (rabs (sw_bucket w))
    | Inl _ \<Rightarrow> coverage mgr (rabs (sw_bucket w')) \<in> {coverage mgr (rabs (sw_bucket w)), Some head}"
  using wpD [OF snapshot_over.wp_replay_gain [OF assms(1)] assms(3)] assms(2)
  unfolding snapshot_over.repl_def [OF assms(1)] snapshot_over.mast_def [OF assms(1)] by blast

theorem replay_marker_last_witness:
  "replay mem_manager 9 1 ''alice'' created = (Inr (Some (Advanced 1)), caught_up) \<and>
   coverage mem_manager (mem_replica ''alice'' (sw_bucket caught_up)) = Some 1"
  using replay_marker_last [OF memsnap.snapshot_over_axioms [where sub = "''alice''"] _ caught_up_run(1)] created_ids caught_up_run(1) by simp

text \<open>
  C7: what a replay does not take away. When the entries to replay are memberships of other subjects, groups among them, and detached rows, the
  replay keeps every file record of the replica as it is and moves the marker, whatever those entries took from the subject.
\<close>

theorem replay_keeps_revoked_files:
  assumes "snapshot_over mgr mabs rabs txov sub" and "coverage mgr (rabs (sw_bucket w)) = Some applied"
    and "\<And>seq e. applied < seq \<Longrightarrow> stored_entry (sm_wal mgr) (mabs (sw_wal w)) seq = Some e \<Longrightarrow>
      (\<exists>user grp. user \<noteq> sub \<and> (we_op e = GroupAdd user grp \<or> we_op e = GroupRemove user grp)) \<or> (\<exists>t r f. we_op e = Detach t r f)"
    and "replay mgr now head sub w = (Inr (Some (Advanced h)), w')"
  shows "rabs (sw_bucket w') (file_key f) = rabs (sw_bucket w) (file_key f) \<and> coverage mgr (rabs (sw_bucket w')) = Some head"
  using wpD [OF snapshot_over.wp_replay_blind [OF assms(1)] assms(4)] assms(2,3)
  unfolding snapshot_over.repl_def [OF assms(1)] snapshot_over.feed_of_def [OF assms(1)] by blast

text \<open>Alice was in the editors and those in the staff, who may read the row of the file; then the editors left the staff.\<close>

definition revoked :: "(sync_val mem_kv, mem_enforcer, wal_val mem_kv wal, mem_bucket) sync_world" where
  "revoked = sync_state [(seq_key, SSeq 1), (entry_key 1, SEntry \<lparr>we_seq = 1, we_op = GroupRemove ''editors'' ''staff'', we_ts = 5\<rparr>)]
     [(file_key ''f1'', SFs (FFile (file_of ''f1'' ''bob''))), (rel_key ''invoice'' ''1'' ''f1'', SFs (FBytes ''1''))]
     [[''staff'', ''invoice:1'', ''read'']] [[''alice'', ''editors'']] ''alice''
     [(APPLIED_KEY, SSeq 0), (file_key ''f1'', SFs (FFile (file_of ''f1'' ''bob'')))]"

definition still_there :: "(sync_val mem_kv, mem_enforcer, wal_val mem_kv wal, mem_bucket) sync_world" where
  "still_there = snd (replay mem_manager 9 1 ''alice'' revoked)"

lemma revoked_not_readable: "\<not> readable mem_manager ''alice'' (mem_abs (fs_kv (sw_master revoked))) (pw_enforcer (sw_policy revoked)) ''f1''"
proof -
  let ?e = "pw_enforcer (sw_policy revoked)"
  have "\<not> reaches 10 [[''alice'', ''editors'']] ''alice'' ''staff''" by code_simp
  then have "\<not> allowed mem_manager ''alice'' ?e row" for row
    by (auto simp: allowed_def revoked_def sync_state_def mem_enf_def)
  then show ?thesis
    by (auto simp: readable_def revoked_def value_at_def file_of_def)
qed

lemma revoked_entry:
  assumes "stored_entry sync_wal_codec (mem_abs (sw_wal revoked)) seq = Some e"
  shows "we_op e = GroupRemove ''editors'' ''staff''"
  using assms by (auto simp: stored_entry_def revoked_def sync_wal_codec_def split: option.splits sum.splits if_splits)

theorem replay_keeps_revoked_files_witness:
  "replay mem_manager 9 1 ''alice'' revoked = (Inr (Some (Advanced 1)), still_there) \<and>
   mem_replica ''alice'' (sw_bucket still_there) (file_key ''f1'') \<noteq> None \<and> coverage mem_manager (mem_replica ''alice'' (sw_bucket still_there)) = Some 1 \<and>
   \<not> readable mem_manager ''alice'' (mem_abs (fs_kv (sw_master revoked))) (pw_enforcer (sw_policy revoked)) ''f1''"
proof -
  have "fst (replay mem_manager 9 1 ''alice'' revoked) = Inr (Some (Advanced 1))" by code_simp
  then have run: "replay mem_manager 9 1 ''alice'' revoked = (Inr (Some (Advanced 1)), still_there)" by (simp add: still_there_def prod_eq_iff)
  have cov: "coverage mem_manager (mem_replica ''alice'' (sw_bucket revoked)) = Some 0"
    by (simp add: revoked_def coverage_def sync_wal_codec_def)
  have "mem_replica ''alice'' (sw_bucket revoked) (file_key ''f1'') \<noteq> None" by (simp add: revoked_def)
  with replay_keeps_revoked_files [OF memsnap.snapshot_over_axioms [where sub = "''alice''"] cov _ run, of "''f1''"] revoked_entry run revoked_not_readable
  show ?thesis by force
qed

end
