(* ===== verification/Snapshot_Build.thy ===== *)
theory Snapshot_Build
  imports Snapshot_Props
begin

text \<open>
  What a full rebuild leaves in a replica: the filtered copy into the scratch store, the writes that the merge stages, and the commit. The
  merge takes an entry of both sides in every round, so that its result is the filtered copy only where the two sides list the same keys or
  the replica held nothing.
\<close>

section \<open>The writes of the merge\<close>

fun option_list :: "'a option \<Rightarrow> 'a list" where
  "option_list None = []"
| "option_list (Some x) = [x]"

fun staged :: "(string \<times> 'v) list \<Rightarrow> (string \<times> 'v) list \<Rightarrow> (string \<times> 'v option) list" where
  "staged [] [] = []"
| "staged (a # as) [] = option_list (merge_write (Some a) None) @ staged as []"
| "staged [] (b # bs) = option_list (merge_write None (Some b)) @ staged [] bs"
| "staged (a # as) (b # bs) = option_list (merge_write (Some a) (Some b)) @ staged as bs"

definition stage_all :: "(string \<times> 'v option) list \<Rightarrow> (string \<rightharpoonup> 'v option) \<Rightarrow> (string \<rightharpoonup> 'v option)" where
  "stage_all ws t = t ++ map_of (rev ws)"

definition data :: "(string \<times> 'v) list \<Rightarrow> (string \<times> 'v) list" where
  "data kvs = filter (\<lambda>kv. fst kv \<noteq> APPLIED_KEY) kvs"

lemma stage_all_simps [simp]: "stage_all [] t = t" "stage_all (w # ws) t = stage_all ws (t(fst w \<mapsto> snd w))"
  by (auto simp: stage_all_def fun_eq_iff map_add_def split: option.splits)

lemma stage_all_append: "stage_all (xs @ ys) t = stage_all ys (stage_all xs t)"
  by (simp add: stage_all_def map_add_assoc)

lemma head_of: "(case xs of [] \<Rightarrow> None | x # _ \<Rightarrow> Some x) = (if xs = [] then None else Some (hd xs))"
  by (simp split: list.split)

lemma staged_step:
  assumes "xs \<noteq> [] \<or> ys \<noteq> []"
  shows "staged xs ys = option_list (merge_write (if xs = [] then None else Some (hd xs)) (if ys = [] then None else Some (hd ys))) @ staged (tl xs) (tl ys)"
  using assms by (cases xs; cases ys) simp_all

text \<open>Onto an empty replica, and onto one that lists the same keys, the writes give the copy.\<close>

lemma staged_fresh: "staged xs [] = map (\<lambda>kv. (fst kv, Some (snd kv))) xs"
  by (induction xs) simp_all

lemma staged_gone: "staged [] ys = map (\<lambda>kv. (fst kv, None)) ys"
  by (induction ys) simp_all

lemma staged_aligned:
  assumes "map fst xs = map fst ys" and "distinct (map fst ys)"
  shows "stage_all (staged xs ys) t k = (if k \<in> fst ` set ys \<and> map_of xs k \<noteq> map_of ys k then Some (map_of xs k) else t k)"
  using assms
proof (induction ys arbitrary: xs t)
  case (Cons y ys)
  then obtain x xs' where xs: "xs = x # xs'" "fst x = fst y" "map fst xs' = map fst ys" by (cases xs) auto
  have out: "fst y \<notin> fst ` set ys" using Cons.prems(2) by simp
  then have "map_of xs' (fst y) = None" "map_of ys (fst y) = None" using xs(3) by (metis list.set_map map_of_eq_None_iff)+
  then show ?case
    using xs out Cons.prems(2) by (cases x; cases y) (auto simp: Cons.IH [OF xs(3)])
qed simp

text \<open>
  One key of the replica that is not in the copy and comes first: from there on every key of the replica is compared with its successor, and
  is deleted.
\<close>

lemma staged_shifted:
  assumes "map fst ys = k0 # map fst xs" and "sorted_wrt (<) (k0 # map fst xs)"
  shows "staged xs ys = map (\<lambda>kv. (fst kv, None)) ys"
  using assms
proof (induction xs arbitrary: ys k0)
  case (Cons x xs)
  then obtain y ys' where ys: "ys = y # ys'" "fst y = k0" "map fst ys' = fst x # map fst xs" by (cases ys) auto
  have lt: "fst y < fst x" using Cons.prems(2) ys(2) by simp
  then have "merge_write (Some x) (Some y) = Some (fst y, None)" by auto
  then show ?case using Cons.IH [OF ys(3)] Cons.prems(2) ys(1) by simp
qed (auto simp: staged_gone)

lemma stage_fresh:
  "distinct (map fst xs) \<Longrightarrow> stage_all (staged xs []) t k = (case map_of xs k of None \<Rightarrow> t k | Some v \<Rightarrow> Some (Some v))"
  by (induction xs arbitrary: t) (auto simp: staged_fresh image_iff split: option.splits dest!: map_of_SomeD)

lemma stage_gone: "stage_all (map (\<lambda>kv. (fst kv, None)) ys) t k = (if k \<in> fst ` set ys then Some None else t k)"
  by (induction ys arbitrary: t) auto

lemma scan_keys: "scan_of m None None xs \<Longrightarrow> map_of xs = m \<and> fst ` set xs = dom m \<and> sorted (map fst xs) \<and> distinct (map fst xs)"
proof -
  assume scan: "scan_of m None None xs"
  then have "map_of xs = m" by (intro ext) (simp add: scan_of_def below_range_def)
  moreover from this have "fst ` set xs = dom m" using dom_map_of_conv_image_fst [of xs] by simp
  ultimately show ?thesis using scan by (simp add: scan_of_def)
qed

lemma data_keys:
  assumes "scan_of m None None xs"
  shows "fst ` set (data xs) = dom m - {APPLIED_KEY} \<and> sorted (map fst (data xs)) \<and> distinct (map fst (data xs)) \<and> (\<forall>k. k \<noteq> APPLIED_KEY \<longrightarrow> map_of (data xs) k = m k)"
proof -
  note keys = scan_keys [OF assms]
  have "map fst (data xs) = filter (\<lambda>k. k \<noteq> APPLIED_KEY) (map fst xs)" by (induction xs) (simp_all add: data_def)
  moreover have "map_of (data xs) k = map_of xs k" if "k \<noteq> APPLIED_KEY" for k
    using that by (induction xs) (auto simp: data_def)
  ultimately show ?thesis using keys by (auto simp: sorted_filter [of id, simplified] simp flip: set_map)
qed

text \<open>The replica after the merge, for the two cases in which the walks stay in step, and for the one where they do not.\<close>

lemma overlay_in_step:
  assumes das: "scan_of c None None das" and las: "scan_of m None None las" and c: "APPLIED_KEY \<notin> dom c"
    and keys: "dom m - {APPLIED_KEY} = {} \<or> dom m - {APPLIED_KEY} = dom c" and k: "k \<noteq> APPLIED_KEY"
  shows "overlay m (stage_all (staged das (data las)) Map.empty) k = c k"
proof (cases "dom m - {APPLIED_KEY} = {}")
  case True
  then have "data las = []" using conjunct1 [OF data_keys [OF las]] by (simp only: image_is_empty set_empty)
  moreover have "m k = None" using True k by auto
  ultimately show ?thesis using scan_keys [OF das] by (simp add: overlay_def stage_fresh split: option.split)
next
  case False
  note dk = scan_keys [OF das] and lk = data_keys [OF las]
  have iff: "k \<in> dom m \<longleftrightarrow> k \<in> dom c" using False keys k by blast
  have "set (map fst das) = set (map fst (data las))" using False keys dk lk by simp
  then have "map fst das = map fst (data las)" using dk lk by (intro sorted_distinct_set_unique) auto
  then have "stage_all (staged das (data las)) Map.empty k = (if k \<in> dom c \<and> c k \<noteq> m k then Some (c k) else None)"
    using staged_aligned [of das "data las" Map.empty k] dk lk k by (simp add: iff)
  moreover have "m k = c k" if "k \<notin> dom c"
  proof -
    have "k \<notin> dom m" using that False keys k by auto
    then show ?thesis using that by (simp add: domIff)
  qed
  ultimately show ?thesis by (auto simp: overlay_def)
qed

lemma overlay_shifted:
  assumes das: "scan_of c None None das" and las: "scan_of m None None las"
    and keys: "dom m - {APPLIED_KEY} = insert k0 (dom c)" and first: "\<And>k. k \<in> dom c \<Longrightarrow> k0 < k" and k: "k \<noteq> APPLIED_KEY"
  shows "overlay m (stage_all (staged das (data las)) Map.empty) k = None"
proof -
  note dk = scan_keys [OF das] and lk = data_keys [OF las]
  have new: "k0 \<notin> fst ` set das" using first dk by blast
  have "sorted (k0 # map fst das)" using dk first by (auto simp: less_imp_le)
  then have "k0 # map fst das = map fst (data las)"
    using keys dk lk new by (intro sorted_distinct_set_unique) auto
  moreover have "sorted_wrt (<) (k0 # map fst das)"
    using dk first by (auto simp: strict_sorted_iff)
  ultimately have "staged das (data las) = map (\<lambda>kv. (fst kv, None)) (data las)" using staged_shifted by metis
  moreover have "m k = None" if "k \<notin> fst ` set (data las)" using that lk k by auto
  ultimately show ?thesis by (auto simp: overlay_def stage_gone)
qed

section \<open>What a copy may hold\<close>

text \<open>The keys of a replica of the subject: the record of a file it may read, its count, and the markers of the rows it may read.\<close>

definition shown :: "('s, 't, 'v, 'e, 'l, 'o) snapshot_manager \<Rightarrow> string \<Rightarrow> (string \<rightharpoonup> 'v) \<Rightarrow> 'e \<Rightarrow> string set" where
  "shown mgr sub m e = {k. \<exists>f. readable mgr sub m e f \<and>
     (k = file_key f \<or> k = refs_key f \<or> (\<exists>row \<in> rows_of m f. allowed mgr sub e row \<and> k = rel_key (fst row) (snd row) f))}"

definition ref_count :: "'v fs_codec \<Rightarrow> (string \<rightharpoonup> 'v) \<Rightarrow> string \<Rightarrow> u32" where
  "ref_count cod m f = (case value_at (dec_refs cod) m (refs_key f) of None \<Rightarrow> ri_count ref_info_default | Some info \<Rightarrow> ri_count info)"

text \<open>The record of a readable file as the master has it, and the markers of its rows once it is attached.\<close>

definition stored :: "('s, 't, 'v, 'e, 'l, 'o) snapshot_manager \<Rightarrow> string \<Rightarrow> (string \<rightharpoonup> 'v) \<Rightarrow> 'e \<Rightarrow> string \<Rightarrow> (string \<rightharpoonup> 'v) \<Rightarrow> bool" where
  "stored mgr sub m e f c \<longleftrightarrow>
     (\<exists>r b. value_at (dec_file (fe_cod (sm_fs mgr))) m (file_key f) = Some r \<and> enc_file (fe_cod (sm_fs mgr)) r = Inr b \<and> c (file_key f) = Some b) \<and>
     (0 < ref_count (fe_cod (sm_fs mgr)) m f \<longrightarrow>
        (\<forall>row \<in> rows_of m f. allowed mgr sub e row \<longrightarrow> c (rel_key (fst row) (snd row) f) \<noteq> None))"

text \<open>Every record of the master that decodes stands under the key of its identifier.\<close>

definition files_named :: "'v fs_codec \<Rightarrow> (string \<rightharpoonup> 'v) \<Rightarrow> bool" where
  "files_named cod m \<longleftrightarrow> (\<forall>k b r. m k = Some b \<longrightarrow> prefix files_prefix k \<longrightarrow> suffix file_meta_suffix k \<longrightarrow> dec_file cod b = Inr r \<longrightarrow> k = file_key (fr_id r))"

lemma file_key_family: "prefix files_prefix (file_key f)" "suffix file_meta_suffix (file_key f)"
  by (auto simp: file_key_def suffix_def)

lemma files_named_ids: "files_named cod m \<Longrightarrow> ids_ok cod m"
  unfolding ids_ok_def
proof (intro allI impI)
  fix f r assume m: "files_named cod m" and "value_at (dec_file cod) m (file_key f) = Some r"
  then obtain b where "m (file_key f) = Some b" "dec_file cod b = Inr r" by (auto simp: value_at_def split: bind_splits sum.splits)
  then have "file_key f = file_key (fr_id r)" using m file_key_family unfolding files_named_def by blast
  then show "fr_id r = f" by simp
qed

lemma file_key_shown [simp]: "file_key f \<in> shown mgr sub m e \<longleftrightarrow> readable mgr sub m e f"
  by (auto simp: shown_def)

lemma applied_not_shown [simp]: "APPLIED_KEY \<notin> shown mgr sub m e"
  by (auto simp: shown_def)

lemma readable_key: "readable mgr sub m e f \<Longrightarrow> \<exists>b r. m (file_key f) = Some b \<and> dec_file (fe_cod (sm_fs mgr)) b = Inr r"
  by (auto simp: readable_def value_at_def split: bind_splits sum.splits)

lemma stored_upd:
  assumes "stored mgr sub m e f c" and "\<And>r. c' (rel_key (fst r) (snd r) f) = None \<Longrightarrow> c (rel_key (fst r) (snd r) f) = None" and "c' (file_key f) = c (file_key f)"
  shows "stored mgr sub m e f c'"
  using assms unfolding stored_def by metis

lemma finite_rows_of: "finite (dom m) \<Longrightarrow> finite (rows_of m f)"
proof -
  assume "finite (dom m)"
  then have "finite ((\<lambda>k. the (row_of_marker f k)) ` dom m)" by simp
  moreover have "rows_of m f \<subseteq> (\<lambda>k. the (row_of_marker f k)) ` dom m" by (force simp: rows_of_def image_iff)
  ultimately show ?thesis by (rule rev_finite_subset)
qed

lemma finite_shown:
  assumes fin: "finite (dom m)"
  shows "finite (shown mgr sub m e)"
proof -
  let ?F = "{f. readable mgr sub m e f}"
  have "file_key ` ?F \<subseteq> dom m" using readable_key by fastforce
  then have "finite (file_key ` ?F)" using fin by (rule finite_subset)
  then have "finite ?F" by (rule finite_imageD) (simp add: inj_on_def)
  moreover have "shown mgr sub m e \<subseteq> (\<Union>f \<in> ?F. {file_key f, refs_key f} \<union> (\<lambda>row. rel_key (fst row) (snd row) f) ` rows_of m f)"
    by (auto simp: shown_def)
  ultimately show ?thesis using finite_rows_of [OF fin] by (auto intro: finite_subset)
qed

lemma scan_exists:
  fixes m :: "string \<rightharpoonup> 'v"
  assumes "finite (dom m)"
  shows "\<exists>xs. scan_of m None None xs \<and> length xs = card (dom m)"
proof -
  let ?xs = "map (\<lambda>k. (k, the (m k))) (sorted_list_of_set (dom m))"
  have "map_of ?xs k = m k" for k
    using assms by (cases "m k") (auto simp: map_of_map_restrict restrict_map_def)
  then show ?thesis
    using assms by (intro exI [of _ ?xs]) (auto simp: scan_of_def in_range_def o_def)
qed

lemma scan_finite: "scan_of m None None xs \<Longrightarrow> finite (dom m)"
proof -
  assume "scan_of m None None xs"
  then have "map_of xs = m" by (intro ext) (simp add: scan_of_def below_range_def)
  then show ?thesis using finite_dom_map_of by metis
qed

section \<open>The calls on the scratch store\<close>

sublocale snapshot_over \<subseteq> scratch: fs_over "scratch_env mgr" mabs txov
  unfolding fs_over_def fs_over_axioms_def scratch_env_def
  using master.kv_store_axioms by (simp add: master.session_codec master.multipart_codec master.file_codec master.refs_codec)

context snapshot_over
begin

definition copied :: "('s, 'e, 'l, 'o) sync_world \<Rightarrow> (string \<rightharpoonup> 'v) \<Rightarrow> ('s, 'e, 'l, 'o) sync_world \<Rightarrow> bool" where
  "copied w m w' \<longleftrightarrow> ctx w' = ctx w \<and> slots w' = slots w \<and> repl w' = repl w \<and> scr w' = m"

lemma wp_on_scratch:
  assumes "wp m (\<lambda>r s. R r (mabs (fs_kv s))) \<lparr>fs_kv = sw_scratch w, fs_latch = latch_new\<rparr>"
    and "\<And>r w'. copied w (scr w') w' \<Longrightarrow> R r (scr w') \<Longrightarrow> Q r w'"
  shows "wp (on_scratch m) Q w"
  unfolding on_scratch_def wp_focus using assms(1) by (rule wp_mono) (rule assms(2), auto simp: copied_def)

lemma scratch_held: "scratch.held \<lparr>fs_kv = sw_scratch w, fs_latch = l\<rparr> = scr w"
  by (simp add: scratch.held_def scr_def)

lemma scratch_cod [simp]: "fe_cod (scratch_env mgr) = fe_cod (sm_fs mgr)" "fe_ops (scratch_env mgr) = fe_ops (sm_fs mgr)"
  by (simp_all add: scratch_env_def)

lemma wp_scr_save:
  assumes "\<And>b w'. enc_file (fe_cod (sm_fs mgr)) r = Inr b \<Longrightarrow> copied w ((scr w)(file_key (fr_id r) \<mapsto> b)) w' \<Longrightarrow> Q (Inr ()) w'"
    and "\<And>e w'. ctx w' = ctx w \<Longrightarrow> slots w' = slots w \<Longrightarrow> repl w' = repl w \<Longrightarrow> Q (Inl e) w'"
  shows "wp (on_scratch (save_file (scratch_env mgr) r)) Q w"
proof (rule wp_on_scratch [where R = "\<lambda>q m. \<forall>u. q = Inr u \<longrightarrow> (\<exists>b. enc_file (fe_cod (sm_fs mgr)) r = Inr b \<and> m = (scr w)(file_key (fr_id r) \<mapsto> b))"])
  show "wp (save_file (scratch_env mgr) r) (\<lambda>q s. \<forall>u. q = Inr u \<longrightarrow> (\<exists>b. enc_file (fe_cod (sm_fs mgr)) r = Inr b \<and> mabs (fs_kv s) = (scr w)(file_key (fr_id r) \<mapsto> b)))
      \<lparr>fs_kv = sw_scratch w, fs_latch = latch_new\<rparr>"
    unfolding save_file_def scratch.held_fold by (rule scratch.wp_save_one) (auto simp: scratch_held)
next
  fix q :: "fs_error + unit" and w' assume "copied w (scr w') w'" and "\<forall>u. q = Inr u \<longrightarrow> (\<exists>b. enc_file (fe_cod (sm_fs mgr)) r = Inr b \<and> scr w' = (scr w)(file_key (fr_id r) \<mapsto> b))"
  then show "Q q w'" using assms by (cases q) (auto simp: copied_def)
qed

lemma wp_scr_attach:
  assumes "\<And>q m w'. copied w m w' \<Longrightarrow> touches t r f (scr w) m \<Longrightarrow> (\<And>c. q = Inr c \<Longrightarrow> m (rel_key t r f) \<noteq> None) \<Longrightarrow> Q q w'"
  shows "wp (on_scratch (attach (scratch_env mgr) t r f)) Q w"
proof (rule wp_on_scratch [where R = "\<lambda>q m. touches t r f (scr w) m \<and> (\<forall>c. q = Inr c \<longrightarrow> m (rel_key t r f) \<noteq> None)"])
  show "wp (attach (scratch_env mgr) t r f) (\<lambda>q s. touches t r f (scr w) (mabs (fs_kv s)) \<and> (\<forall>c. q = Inr c \<longrightarrow> mabs (fs_kv s) (rel_key t r f) \<noteq> None))
      \<lparr>fs_kv = sw_scratch w, fs_latch = latch_new\<rparr>"
    unfolding scratch.held_fold by (rule scratch.wp_attach_any) (auto simp: scratch_held)
qed (auto intro: assms)

section \<open>The filtered copy\<close>

abbreviation "may_show w \<equiv> shown mgr sub (mast w) (pw_enforcer (sw_policy w))"
abbreviation "holds w f \<equiv> stored mgr sub (mast w) (pw_enforcer (sw_policy w)) f"

definition frame :: "('s, 'e, 'l, 'o) sync_world \<Rightarrow> ('s, 'e, 'l, 'o) sync_world \<Rightarrow> bool" where
  "frame w0 w \<longleftrightarrow> ctx w = ctx w0 \<and> slots w = slots w0 \<and> repl w = repl w0"

definition progress :: "('s, 'e, 'l, 'o) sync_world \<Rightarrow> (string \<times> 'v) list \<Rightarrow> ('s, 'e, 'l, 'o) sync_world \<Rightarrow> bool" where
  "progress w0 rem w \<longleftrightarrow> frame w0 w \<and> dom (scr w) \<subseteq> may_show w0 \<and>
     (\<forall>f. can w0 f \<longrightarrow> file_key f \<notin> fst ` set rem \<longrightarrow> holds w0 f (scr w))"

lemma frame_same: "frame w0 w \<Longrightarrow> same w w' \<Longrightarrow> frame w0 w'"
  by (simp add: frame_def same_def)

lemma progress_same: "progress w0 rem w \<Longrightarrow> same w w' \<Longrightarrow> progress w0 rem w'"
  by (simp add: progress_def frame_def same_def)

lemma frame_facts: "frame w0 w \<Longrightarrow> mast w = mast w0 \<and> pw_enforcer (sw_policy w) = pw_enforcer (sw_policy w0) \<and> repl w = repl w0"
  by (simp add: frame_def ctx_def)

lemma wp_ref_count:
  assumes "\<And>info w'. same w w' \<Longrightarrow> ri_count info = ref_count (fe_cod (sm_fs mgr)) (mast w) f \<Longrightarrow> Q (Inr info) w'" and "\<And>e w'. same w w' \<Longrightarrow> Q (Inl e) w'"
  shows "wp (on_master (get_ref_info (sm_fs mgr) f)) Q w"
proof (rule wp_on_master_read [where R = "\<lambda>r. case r of Inl _ \<Rightarrow> True | Inr info \<Rightarrow> ri_count info = ref_count (fe_cod (sm_fs mgr)) (mast w) f"])
  show "wp (get_ref_info (sm_fs mgr) f) (\<lambda>r s. mabs (fs_kv s) = mast w \<and> (case r of Inl _ \<Rightarrow> True | Inr info \<Rightarrow> ri_count info = ref_count (fe_cod (sm_fs mgr)) (mast w) f)) (sw_master w)"
    unfolding get_ref_info_def wp_bind
    by (rule master.wp_load_one) (simp_all add: master.held_def mast_def value_at_def ref_count_def)
next
  fix r :: "fs_error + ref_info" and w' assume "same w w'" and "case r of Inl _ \<Rightarrow> True | Inr info \<Rightarrow> ri_count info = ref_count (fe_cod (sm_fs mgr)) (mast w) f"
  then show "Q r w'" using assms by (cases r) simp_all
qed

lemma wp_copy_rows:
  assumes w1: "frame w0 w1" "dom (scr w1) \<subseteq> may_show w0" and f: "can w0 f"
    and rows: "set rows = {row \<in> rows_of (mast w0) f. allowed mgr sub (pw_enforcer (sw_policy w0)) row}"
    and ok: "\<And>w'. frame w0 w' \<Longrightarrow> dom (scr w') \<subseteq> may_show w0 \<Longrightarrow> (\<forall>g. scr w' (file_key g) = scr w1 (file_key g)) \<Longrightarrow>
       (\<forall>t r g. scr w1 (rel_key t r g) \<noteq> None \<longrightarrow> scr w' (rel_key t r g) \<noteq> None) \<Longrightarrow>
       (\<forall>row \<in> set rows. scr w' (rel_key (fst row) (snd row) f) \<noteq> None) \<Longrightarrow> Q (Inr ()) w'"
    and err: "\<And>e w'. frame w0 w' \<Longrightarrow> Q (Inl e) w'"
  shows "wp (for_act rows (\<lambda>(ty, rid) _. bind_act (on_scratch (attach (scratch_env mgr) ty rid f)) (\<lambda>_. ok_act ())) ()) Q w1"
proof (rule wp_for [where I = "\<lambda>rest _ w. frame w0 w \<and> dom (scr w) \<subseteq> may_show w0 \<and> (\<forall>g. scr w (file_key g) = scr w1 (file_key g)) \<and>
      (\<forall>t r g. scr w1 (rel_key t r g) \<noteq> None \<longrightarrow> scr w (rel_key t r g) \<noteq> None) \<and>
      (\<exists>pre. rows = pre @ rest \<and> (\<forall>row \<in> set pre. scr w (rel_key (fst row) (snd row) f) \<noteq> None))"], goal_cases)
  case 1
  show ?case using w1 by simp
next
  case (2 row rest u w)
  then obtain pre where pre: "rows = pre @ row # rest" "\<forall>row \<in> set pre. scr w (rel_key (fst row) (snd row) f) \<noteq> None" by blast
  have "row \<in> rows_of (mast w0) f" "allowed mgr sub (pw_enforcer (sw_policy w0)) row" using rows pre(1) by auto
  then have own: "rel_key (fst row) (snd row) f \<in> may_show w0" "refs_key f \<in> may_show w0"
    using f by (auto simp: shown_def can_def)
  have keep: "scr w k \<noteq> None \<Longrightarrow> k = rel_key t r g \<Longrightarrow> m k \<noteq> None"
    if "touches (fst row) (snd row) f (scr w) m" "m (rel_key (fst row) (snd row) f) \<noteq> None" for m k t r g
    using that by (cases "k = rel_key (fst row) (snd row) f") (auto simp: touches_def)
  show ?case
  proof (cases row, simp, rule wp_scr_attach, goal_cases)
    case (1 ty rid q m w')
    then have fr: "frame w0 w'" using 2 by (simp add: copied_def frame_def)
    show ?case
    proof (cases q)
      case (Inl e)
      then show ?thesis using err [OF fr] by simp
    next
      case (Inr c)
      have m: "scr w' = m" and t: "touches (fst row) (snd row) f (scr w) m" and got: "m (rel_key (fst row) (snd row) f) \<noteq> None"
        using 1 Inr by (simp_all add: copied_def)
      have "dom m \<subseteq> may_show w0"
      proof
        fix k assume "k \<in> dom m"
        then show "k \<in> may_show w0"
          using t own 2 by (cases "k = rel_key (fst row) (snd row) f \<or> k = refs_key f") (auto simp: touches_def)
      qed
      moreover have "\<forall>g. m (file_key g) = scr w1 (file_key g)" using touches_file_key [OF t] 2 by simp
      moreover have "\<forall>t r g. scr w1 (rel_key t r g) \<noteq> None \<longrightarrow> m (rel_key t r g) \<noteq> None" using keep [OF t got] 2 by blast
      moreover have "\<forall>x \<in> set (pre @ [row]). m (rel_key (fst x) (snd x) f) \<noteq> None" using keep [OF t got] pre(2) got by auto
      moreover have "rows = (pre @ [row]) @ rest" using pre(1) by simp
      ultimately show ?thesis unfolding Inr sum.case wp_ok m using fr by blast
    qed
  qed
next
  case (3 u w)
  then show ?case using ok by simp
qed

text \<open>One record of the walk.\<close>

lemma wp_next_master:
  assumes scan: "scan_of (mast w) None None all" and inv: "page_inv all p rem"
    and "\<And>w'. same w w' \<Longrightarrow> n \<le> length rem \<Longrightarrow> Q (Inr None) w'"
    and "\<And>p' w'. same w w' \<Longrightarrow> master.no_record rem \<Longrightarrow> Q (Inr (Some ((None, u @ master.undecoded rem), p'))) w'"
    and "\<And>pre k b rest r p' w'. same w w' \<Longrightarrow> rem = pre @ (k, b) # rest \<Longrightarrow> master.no_record pre \<Longrightarrow> master.family k \<Longrightarrow>
        dec_file (fe_cod (sm_fs mgr)) b = Inr r \<Longrightarrow> page_inv all p' rest \<Longrightarrow> Q (Inr (Some ((Some r, u @ master.undecoded pre), p'))) w'"
    and "\<And>e w'. same w w' \<Longrightarrow> Q (Inl e) w'"
  shows "wp (on_master_kv (next_file n (sm_fs mgr) p u)) Q w"
proof -
  have same: "same w (w\<lparr>sw_master := (sw_master w)\<lparr>fs_kv := s\<rparr>\<rparr>)" if "mabs s = mabs ((fs_kv \<circ> sw_master) w)" for s
    using that by (simp add: same_def world_defs)
  show ?thesis
    unfolding on_master_kv_def wp_focus
    by (rule master.wp_next_file [where rem = rem and all = all]) (use scan inv assms(3-) same in \<open>auto simp: mast_def\<close>)
qed

lemma unread_prefix:
  assumes "files_named (fe_cod (sm_fs mgr)) (mast w)" and "scan_of (mast w) None None all" and "set pre \<subseteq> set all" and "master.no_record pre" and "can w f"
  shows "file_key f \<notin> fst ` set pre"
proof
  assume "file_key f \<in> fst ` set pre"
  then obtain b where b: "(file_key f, b) \<in> set pre" by auto
  then have "mast w (file_key f) = Some b" using assms(2,3) by (auto simp: scan_of_def)
  moreover have "\<exists>e. dec_file (fe_cod (sm_fs mgr)) b = Inl e"
    using b assms(4) file_key_family [of f] by (auto simp: master.no_record_def master.family_def)
  ultimately show False using readable_key [of mgr sub "mast w" "pw_enforcer (sw_policy w)" f] assms(5) by (auto simp: can_def)
qed

lemma progress_skip:
  assumes "progress w0 rem w" and "rem = pre @ rest" and "\<And>f. can w0 f \<Longrightarrow> file_key f \<notin> fst ` set pre"
  shows "progress w0 rest w"
  using assms unfolding progress_def by (auto simp: image_Un)

lemma wp_copy_record:
  assumes w: "progress w0 ((file_key f, b) # rest) w" and r: "fr_id r = f" "value_at (dec_file (fe_cod (sm_fs mgr))) (mast w0) (file_key f) = Some r"
    and next_round: "\<And>w'. progress w0 rest w' \<Longrightarrow> wp m Q w'"
    and err: "\<And>e w'. frame w0 w' \<Longrightarrow> Q (Inl e) w'"
  shows "wp (bind_act (visible_rows mgr sub (fr_id r)) (\<lambda>rows.
         if fr_owner_sub r \<noteq> sub \<and> rows = [] then m
         else
           bind_act (on_scratch (save_file (scratch_env mgr) r)) (\<lambda>_.
           bind_act (on_master (get_ref_info (sm_fs mgr) (fr_id r))) (\<lambda>info.
           bind_act (if 0 < ri_count info
                     then for_act rows (\<lambda>(ty, rid) _. bind_act (on_scratch (attach (scratch_env mgr) ty rid (fr_id r))) (\<lambda>_. ok_act ())) ()
                     else ok_act ()) (\<lambda>_. m))))) Q w"
  unfolding wp_bind [of "visible_rows mgr sub _"] r(1)
proof (rule wp_visible_rows, goal_cases)
  case (1 rows w1)
  have w1: "progress w0 ((file_key f, b) # rest) w1" using progress_same [OF w 1(1)] .
  then have fr: "frame w0 w1" and dom: "dom (scr w1) \<subseteq> may_show w0" by (simp_all add: progress_def)
  have rows: "set rows = {row \<in> rows_of (mast w0) f. allowed mgr sub (pw_enforcer (sw_policy w0)) row}"
    using 1(2) frame_facts [of w0 w] w by (simp add: progress_def)
  have can: "can w0 f \<longleftrightarrow> fr_owner_sub r = sub \<or> rows \<noteq> []"
    using rows r(2) by (auto simp: can_def readable_def simp flip: set_empty)
  show ?case
  proof (cases "can w0 f")
    case False
    have "progress w0 rest w1" using w1 False by (auto simp: progress_def)
    then show ?thesis using False can next_round by simp
  next
    case True
    have last: "wp m Q w'" if "frame w0 w'" "dom (scr w') \<subseteq> may_show w0" "holds w0 f (scr w')"
        "\<And>g. g \<noteq> f \<Longrightarrow> scr w' (file_key g) = scr w1 (file_key g)" "\<And>t i g. scr w1 (rel_key t i g) \<noteq> None \<Longrightarrow> scr w' (rel_key t i g) \<noteq> None" for w'
    proof (rule next_round, unfold progress_def, intro conjI allI impI)
      fix g assume "can w0 g" and "file_key g \<notin> fst ` set rest"
      then have "holds w0 g (scr w1)" if "g \<noteq> f" using w1 that by (simp add: progress_def)
      moreover have "holds w0 g (scr w')" if "holds w0 g (scr w1)" "g \<noteq> f"
        by (rule stored_upd [OF that(1)]) (use \<open>g \<noteq> f\<close> \<open>\<And>g. g \<noteq> f \<Longrightarrow> _\<close> \<open>\<And>t i g. scr w1 (rel_key t i g) \<noteq> None \<Longrightarrow> _\<close> in blast)+
      ultimately show "holds w0 g (scr w')" using \<open>holds w0 f (scr w')\<close> by blast
    qed (use that in simp_all)
    have saved: "wp (bind_act (on_master (get_ref_info (sm_fs mgr) f)) (\<lambda>info.
           bind_act (if 0 < ri_count info
                     then for_act rows (\<lambda>(ty, rid) _. bind_act (on_scratch (attach (scratch_env mgr) ty rid f)) (\<lambda>_. ok_act ())) ()
                     else ok_act ()) (\<lambda>_. m))) Q w2"
      if enc: "enc_file (fe_cod (sm_fs mgr)) r = Inr b'" and w2: "copied w1 ((scr w1)(file_key f \<mapsto> b')) w2" for b' w2
      unfolding wp_bind
    proof (rule wp_ref_count, goal_cases)
      case (1 info w3)
      have w3: "frame w0 w3" "scr w3 = (scr w1)(file_key f \<mapsto> b')" using 1(1) w2 fr by (simp_all add: frame_def same_def copied_def)
      have dom3: "dom (scr w3) \<subseteq> may_show w0" using dom True by (auto simp: w3(2) can_def)
      have n: "ri_count info = ref_count (fe_cod (sm_fs mgr)) (mast w0) f" using 1(2) w2 fr by (simp add: copied_def frame_def ctx_def)
      show ?case
      proof (cases "0 < ri_count info")
        case False
        then show ?thesis using last [OF w3(1) dom3] n enc r(2) by (simp add: w3(2) stored_def)
      next
        case True
        show ?thesis unfolding sum.case if_P [OF True]
          by (rule wp_copy_rows [OF w3(1) dom3 \<open>can w0 f\<close> rows])
             (use last err enc r(2) rows in \<open>auto simp: w3(2) stored_def\<close>)
      qed
    next
      case (2 e w3)
      then show ?case using err fr w2 by (simp add: frame_def same_def copied_def)
    qed
    have "\<not> (fr_owner_sub r \<noteq> sub \<and> rows = [])" using True can by blast
    then show ?thesis unfolding sum.case if_not_P [OF \<open>\<not> (fr_owner_sub r \<noteq> sub \<and> rows = [])\<close>] wp_bind [of "on_scratch (save_file (scratch_env mgr) r)"]
      using saved err fr by (intro wp_scr_save) (simp_all add: r(1) frame_def del: wp_bind)
  qed
next
  case (2 e w1)
  then show ?case using err [OF frame_same [of w0 w]] w by (simp add: progress_def)
qed

lemma wp_copy_loop:
  assumes named: "files_named (fe_cod (sm_fs mgr)) (mast w0)" and scan: "scan_of (mast w0) None None all"
    and "page_inv all p rem" and "suffix rem all" and "progress w0 rem w"
    and ok: "\<And>w'. progress w0 [] w' \<Longrightarrow> Q (Inr (Some (u @ master.undecoded rem))) w'"
    and none: "\<And>w'. frame w0 w' \<Longrightarrow> n \<le> length rem \<Longrightarrow> Q (Inr None) w'" and err: "\<And>e w'. frame w0 w' \<Longrightarrow> Q (Inl e) w'"
  shows "wp (copy_loop n mgr sub p u) Q w"
  using assms(3-)
proof (induction n arbitrary: p rem u w)
  case 0
  then show ?case by (simp add: progress_def)
next
  case (Suc n)
  have fr: "frame w0 w" using Suc.prems(3) by (simp add: progress_def)
  have m: "mast w = mast w0" using frame_facts [OF fr] by simp
  show ?case
    unfolding copy_loop.simps bind_run_def wp_bind [of "on_master_kv _"]
  proof (rule wp_next_master [where all = all and rem = rem], goal_cases)
    case 1
    show ?case using scan m by simp
  next
    case 2
    show ?case by (rule Suc.prems(1))
  next
    case (3 w')
    then show ?case using Suc.prems(5) [OF frame_same [OF fr]] by simp
  next
    case (4 p' w')
    have "progress w0 [] w'"
      by (rule progress_skip [OF progress_same [OF Suc.prems(3) 4(1)], of rem])
         (use unread_prefix [OF named scan _ 4(2)] set_mono_suffix [OF Suc.prems(2)] in auto)
    then show ?case using Suc.prems(4) by simp
  next
    case (5 pre k b rest r p' w')
    have sub: "set rem \<subseteq> set all" using set_mono_suffix [OF Suc.prems(2)] .
    have kb: "mast w0 k = Some b" using scan sub 5(2) by (auto simp: scan_of_def)
    have k: "k = file_key (fr_id r)" using named kb 5(4,5) unfolding files_named_def master.family_def by blast
    have val: "value_at (dec_file (fe_cod (sm_fs mgr))) (mast w0) (file_key (fr_id r)) = Some r"
      using kb 5(5) by (simp add: value_at_def flip: k)
    have pr: "progress w0 ((file_key (fr_id r), b) # rest) w'"
      by (rule progress_skip [OF progress_same [OF Suc.prems(3) 5(1)], of pre])
         (use 5(2) k sub unread_prefix [OF named scan _ 5(3)] in auto)
    have un: "u @ master.undecoded rem = (u @ master.undecoded pre) @ master.undecoded rest"
      using 5(2,5) by (simp add: master.undecoded_def)
    have again: "wp (copy_loop n mgr sub p' (u @ master.undecoded pre)) Q w2" if "progress w0 rest w2" for w2
    proof (rule Suc.IH [OF 5(6) _ that])
      show "suffix rest all" using Suc.prems(2) 5(2) by (auto simp: suffix_def)
    qed (use Suc.prems(4-6) un 5(2) in auto)
    show ?case
      unfolding sum.case option.case prod.case append_Nil
      by (rule wp_copy_record [OF pr refl val again Suc.prems(6)])
  next
    case (6 e w')
    then show ?case using Suc.prems(6) frame_same [OF fr] by simp
  qed
qed

section \<open>The merge\<close>

lemma wp_live_key:
  assumes scan: "scan_of (repl w) None None all" and inv: "page_inv all p rem"
    and "\<And>p' rest w'. same w w' \<Longrightarrow> page_inv all p' rest \<Longrightarrow> data rest = tl (data rem) \<Longrightarrow> length rest \<le> length rem - 1 \<Longrightarrow>
       Q (Inr (Some (case data rem of [] \<Rightarrow> None | kv # _ \<Rightarrow> Some kv, p'))) w'"
    and "\<And>w'. same w w' \<Longrightarrow> n \<le> length rem \<Longrightarrow> Q (Inr None) w'" and "\<And>e w'. same w w' \<Longrightarrow> Q (Inl e) w'"
  shows "wp (on_bucket (next_data_key n (sm_writer mgr (user_prefix mgr sub)) p)) Q w"
proof -
  have "wp (next_data_key n (fe_ops dst) p) (\<lambda>q s. rabs s = repl w \<and> (case q of Inl _ \<Rightarrow> True | Inr None \<Rightarrow> n \<le> length rem
      | Inr (Some (kv, p')) \<Rightarrow> (\<exists>rest. page_inv all p' rest \<and> data rest = tl (data rem) \<and> length rest \<le> length rem - 1 \<and>
          kv = (case data rem of [] \<Rightarrow> None | kv # _ \<Rightarrow> Some kv)))) s" if "rabs s = repl w" for s
    using inv that
  proof (induction n arbitrary: p rem s)
    case (Suc n)
    show ?case
      unfolding next_data_key.simps wp_bind
    proof (rule replica.wp_pages_next [where all = all and rem = rem], goal_cases)
      case 1
      show ?case using scan Suc.prems(2) by simp
    next
      case 2
      show ?case by (rule Suc.prems(1))
    next
      case (3 p' s')
      show ?case
      proof (cases rem)
        case Nil
        then show ?thesis using 3 Suc.prems by (auto simp: data_def)
      next
        case (Cons kv rest)
        have s': "rabs s' = repl w" using 3(1) Suc.prems(2) by simp
        have "page_inv all p' rest" using 3(2) Cons by simp
        note ih = Suc.IH [OF this s']
        show ?thesis
        proof (cases "fst kv = APPLIED_KEY")
          case True
          show ?thesis using Cons True by (simp, intro wp_mono [OF ih]) (fastforce simp: data_def split: sum.splits option.splits)
        next
          case False
          then show ?thesis using Cons s' \<open>page_inv all p' rest\<close> by (auto simp: data_def)
        qed
      qed
    next
      case (4 e s')
      then show ?case using Suc.prems(2) by simp
    qed
  qed simp
  then have base: "wp (next_data_key n (sm_writer mgr (user_prefix mgr sub)) p) (\<lambda>q s. rabs s = repl w \<and> (case q of Inl _ \<Rightarrow> True | Inr None \<Rightarrow> n \<le> length rem
      | Inr (Some (kv, p')) \<Rightarrow> (\<exists>rest. page_inv all p' rest \<and> data rest = tl (data rem) \<and> length rest \<le> length rem - 1 \<and>
          kv = (case data rem of [] \<Rightarrow> None | kv # _ \<Rightarrow> Some kv)))) (sw_bucket w)"
    by (simp add: replica_env_def repl_def)
  show ?thesis
    by (rule wp_bucket_read [OF base]) (use assms(3-) in \<open>force split: sum.splits option.splits\<close>)
qed

lemma dst_ops: "fe_ops dst = sm_writer mgr (user_prefix mgr sub)"
  by (simp add: replica_env_def)

lemma wp_desired:
  assumes scan: "scan_of (scr w) None None all" and inv: "page_inv all p rem"
    and "\<And>p' w'. same w w' \<Longrightarrow> page_inv all p' (tl rem) \<Longrightarrow> Q (Inr (case rem of [] \<Rightarrow> None | kv # _ \<Rightarrow> Some kv, p')) w'"
    and "\<And>e w'. same w w' \<Longrightarrow> Q (Inl e) w'"
  shows "wp (on_scratch_kv (pages_next (fe_ops (sm_fs mgr)) p)) Q w"
  unfolding on_scratch_kv_def wp_focus
  by (rule master.wp_pages_next [where all = all and rem = rem]) (use scan inv assms(3-) in \<open>auto simp: scr_def same_def\<close>)

lemma wp_stage_write:
  assumes "\<And>tx' w'. same w w' \<Longrightarrow> txov tx' = stage_all (option_list wr) (txov tx) \<Longrightarrow> Q (Inr tx') w'" and "\<And>e w'. same w w' \<Longrightarrow> Q (Inl e) w'"
  shows "wp (on_bucket (store_act (stage_write (sm_writer mgr (user_prefix mgr sub)) tx wr))) Q w"
proof -
  have "wp (stage_write (fe_ops dst) tx wr) (\<lambda>q s. rabs s = repl w \<and> (\<forall>tx'. q = Inr tx' \<longrightarrow> txov tx' = stage_all (option_list wr) (txov tx))) (sw_bucket w)"
  proof (cases wr)
    case (Some kx)
    obtain k x where "kx = (k, x)" by force
    then show ?thesis using Some by (cases x) (auto intro!: replica.wp_tset replica.wp_tdelete simp: repl_def)
  qed (simp add: repl_def)
  then have base: "wp (store_act (stage_write (sm_writer mgr (user_prefix mgr sub)) tx wr))
      (\<lambda>q s. rabs s = repl w \<and> (\<forall>tx'. q = Inr tx' \<longrightarrow> txov tx' = stage_all (option_list wr) (txov tx))) (sw_bucket w)"
    unfolding store_act_def wp_map_err dst_ops by (rule wp_mono) (split sum.split, blast)
  show ?thesis
  proof (rule wp_bucket_read [where R = "\<lambda>q. \<forall>tx'. q = Inr tx' \<longrightarrow> txov tx' = stage_all (option_list wr) (txov tx)"], rule base)
    fix q :: "fs_error + 't" and w' assume "same w w'" and "\<forall>tx'. q = Inr tx' \<longrightarrow> txov tx' = stage_all (option_list wr) (txov tx)"
    then show "Q q w'" using assms by (cases q) blast+
  qed
qed

lemma wp_merge_loop:
  assumes live: "scan_of (repl w) None None las" "page_inv las lp lrem" and des: "scan_of (scr w) None None das" "page_inv das dp drem"
    and ok: "\<And>tx' w'. same w w' \<Longrightarrow> txov tx' = stage_all (staged drem (data lrem)) (txov tx) \<Longrightarrow> Q (Inr (Some (tx', wrote \<or> staged drem (data lrem) \<noteq> []))) w'"
    and none: "\<And>w'. same w w' \<Longrightarrow> n \<le> length drem \<or> n \<le> length lrem \<Longrightarrow> Q (Inr None) w'" and err: "\<And>e w'. same w w' \<Longrightarrow> Q (Inl e) w'"
  shows "wp (merge_loop n mgr sub dp lp tx wrote) Q w"
  using assms
proof (induction n arbitrary: dp lp drem lrem tx wrote w)
  case (Suc n)
  show ?case
    unfolding merge_loop.simps Let_def bind_run_def wp_bind [of "on_scratch_kv _"]
  proof (rule wp_desired [OF Suc.prems(3,4)], goal_cases)
    case (1 dp' w1)
    note w1 = 1(1)
    have live1: "scan_of (repl w1) None None las" using Suc.prems(1) w1 by (simp add: same_def)
    show ?case
      unfolding sum.case prod.case wp_bind [of "on_bucket (next_data_key _ _ _)"]
    proof (rule wp_live_key [OF live1 Suc.prems(2)], goal_cases)
      case (1 lp' rest w2)
      note w2 = same_trans [OF w1 1(1)]
      let ?a = "if drem = [] then None else Some (hd drem)" and ?b = "if data lrem = [] then None else Some (hd (data lrem))"
      show ?case
      proof (cases "drem = [] \<and> data lrem = []")
        case True
        then show ?thesis using Suc.prems(5) [OF w2, of tx] by simp
      next
        case False
        have st: "staged drem (data lrem) = option_list (merge_write ?a ?b) @ staged (tl drem) (data rest)"
          using staged_step [of drem "data lrem"] False 1(3) by auto
        have some: "wrote \<or> staged drem (data lrem) \<noteq> [] \<longleftrightarrow> (wrote \<or> merge_write ?a ?b \<noteq> None) \<or> staged (tl drem) (data rest) \<noteq> []"
          unfolding st by (cases "merge_write ?a ?b") auto
        have again: "wp (merge_loop n mgr sub dp' lp' tx' (wrote \<or> merge_write ?a ?b \<noteq> None)) Q w3"
          if w23: "same w2 w3" and tx': "txov tx' = stage_all (option_list (merge_write ?a ?b)) (txov tx)" for tx' w3
        proof -
          have w3: "same w w3" using same_trans [OF w2 w23] .
          show ?thesis
          proof (rule Suc.IH [where lrem = rest and drem = "tl drem"], goal_cases)
            case 5
            then show ?case using Suc.prems(5) [OF same_trans [OF w3]] unfolding some by (simp add: st stage_all_append tx')
          next
            case 6
            have "lrem \<noteq> [] \<or> drem \<noteq> []" using False by (auto simp: data_def)
            then have "Suc n \<le> length drem \<or> Suc n \<le> length lrem" using 6(2) 1(4) by (cases lrem; cases drem) auto
            then show ?case using 6(1) Suc.prems(6) [OF same_trans [OF w3]] by blast
          qed (use Suc.prems w3 same_trans [OF w3] 1(2) \<open>page_inv das dp' (tl drem)\<close> in \<open>auto simp: same_def\<close>)
        qed
        have ne: "\<not> (?a = None \<and> ?b = None)" using False by auto
        show ?thesis
          unfolding sum.case option.case prod.case head_of if_not_P [OF ne] wp_bind [of "on_bucket _"]
        proof (rule wp_stage_write, goal_cases)
          case (1 tx' w3)
          then show ?case unfolding sum.case by (rule again)
        next
          case (2 e w3)
          then show ?case unfolding sum.case using Suc.prems(7) same_trans [OF w2] by blast
        qed
      qed
    next
      case (2 w2)
      then show ?case using Suc.prems(6) [OF same_trans [OF w1]] by simp
    next
      case (3 e w2)
      then show ?case using Suc.prems(7) [OF same_trans [OF w1]] by simp
    qed
  next
    case (2 e w1)
    then show ?case using Suc.prems(7) by simp
  qed
qed simp

section \<open>The whole rebuild\<close>

lemma wp_commit_build:
  assumes rolled: "\<And>w'. same w w' \<Longrightarrow> \<not> wrote \<Longrightarrow> coverage mgr (repl w) = Some head \<Longrightarrow> Q (Inr (Some head)) w'"
    and committed: "\<And>b w'. enc_seq (sm_wal mgr) head = Inr b \<Longrightarrow> moved w (overlay (repl w) ((txov tx)(APPLIED_KEY \<mapsto> Some b))) w' \<Longrightarrow> Q (Inr (Some head)) w'"
    and err: "\<And>e m w'. moved w m w' \<Longrightarrow> m = repl w \<or> (\<exists>b. enc_seq (sm_wal mgr) head = Inr b \<and> m = overlay (repl w) ((txov tx)(APPLIED_KEY \<mapsto> Some b))) \<Longrightarrow> Q (Inl e) w'"
  shows "wp (commit_build mgr sub head tx wrote) Q w"
proof (cases "enc_seq (sm_wal mgr) head")
  case (Inl e)
  then show ?thesis using err [of "repl w" w] by (simp add: commit_build_def Let_def internal_of_def moved_def)
next
  case (Inr b)
  let ?ops = "fe_ops dst"
  have fail: "Q (Inl e) w'" if "same w w'" for e w' using err [of "repl w" w'] moved_same(1) [OF that] by simp
  have done_: "wp (bind_act (on_bucket (store_act (tx_set ?ops tx APPLIED_KEY b))) (\<lambda>tx'. bind_act (on_bucket (store_act (tx_commit ?ops tx'))) (\<lambda>_. ok_act (Some head)))) Q w1"
    if w1: "same w w1" for w1
    unfolding on_bucket_def store_act_def wp_bind wp_focus wp_map_err
  proof (rule replica.wp_tset, goal_cases)
    case (1 t' s)
    have eq: "rabs s = repl w" "rabs (sw_bucket w1) = repl w" using 1 w1 by (simp_all add: same_def repl_def)
    have mv: "moved w (rabs s') (w1\<lparr>sw_bucket := s, sw_bucket := s'\<rparr>)" for s' using w1 by (simp add: moved_def same_def)
    have com: "Q (Inr (Some head)) (w1\<lparr>sw_bucket := s'\<rparr>)" if "rabs s' = (overlay (repl w) (txov tx))(APPLIED_KEY \<mapsto> b)" for s'
      using committed [OF Inr] mv [of s'] that by simp
    have no: "Q (Inl e) (w1\<lparr>sw_bucket := s'\<rparr>)" if "rabs s' = repl w \<or> rabs s' = (overlay (repl w) (txov tx))(APPLIED_KEY \<mapsto> b)" for e s'
      using err [OF mv [of s']] Inr that by auto
    show ?case using 1 eq by (auto intro!: replica.wp_commit intro: com no)
  next
    case (2 e s)
    then show ?case using w1 by (auto intro!: fail simp: same_def repl_def)
  qed
  have rollback: "wp (bind_act (on_bucket (store_act (tx_rollback ?ops tx))) (\<lambda>_. ok_act (Some head))) Q w1"
    if w1: "same w w1" and "\<not> wrote" "coverage mgr (repl w) = Some head" for w1
    unfolding on_bucket_def store_act_def wp_bind wp_focus wp_map_err
    by (rule replica.wp_rollback) (use that in \<open>auto intro!: rolled fail simp: same_def repl_def split: sum.split\<close>)
  have "internal_of (Inr b) = ok_act b" by (simp add: internal_of_def)
  then show ?thesis
    unfolding commit_build_def Let_def Inr dst_ops [symmetric] wp_bind [of "ok_act b"] wp_bind [of "internal_of (Inr b)"] wp_bind [of "load_applied mgr sub"]
    by (simp del: wp_bind) (rule wp_load_applied; use done_ rollback fail in \<open>auto simp del: wp_bind\<close>)
qed

lemma wp_world_head:
  assumes "\<And>h w'. same w w' \<Longrightarrow> Q (Inr h) w'" and "\<And>e w'. same w w' \<Longrightarrow> Q (Inl e) w'"
  shows "wp (on_wal (wal_head (fe_ops (sm_fs mgr)) (sm_wal mgr))) Q w"
proof -
  have world: "same w (w\<lparr>sw_wal := s\<rparr>)" if "mabs s = mabs (sw_wal w)" for s
    using that by (simp add: same_def world_defs)
  show ?thesis
    unfolding on_wal_def wal_head_def store_act_def
    by (auto intro!: master.wp_get assms world split: option.splits sum.splits)
qed

text \<open>What a rebuild that returns has done: the copy is in the scratch store, the writes of the merge and the marker in the replica.\<close>

definition built :: "('s, 'e, 'l, 'o) sync_world \<Rightarrow> (string \<times> 'v) list \<Rightarrow> u64 \<Rightarrow> ('s, 'e, 'l, 'o) sync_world \<Rightarrow> bool" where
  "built w las head w' \<longleftrightarrow> ctx w' = ctx w \<and> slots w' = slots w \<and> dom (scr w') \<subseteq> may_show w \<and> (\<forall>f. can w f \<longrightarrow> holds w f (scr w')) \<and>
     coverage mgr (repl w') = Some head \<and>
     (\<forall>das k. scan_of (scr w') None None das \<longrightarrow> k \<noteq> APPLIED_KEY \<longrightarrow> repl w' k = overlay (repl w) (stage_all (staged das (data las)) Map.empty) k)"

lemma wp_merge_commit:
  assumes w1: "progress w [] w1" and las: "scan_of (repl w) None None las" and fin: "finite (dom (mast w))"
    and ok: "\<And>w'. built w las head w' \<Longrightarrow> Q (Inr (Some head)) w'"
    and none: "\<And>w'. ctx w' = ctx w \<Longrightarrow> slots w' = slots w \<Longrightarrow> repl w' = repl w \<Longrightarrow> n \<le> card (may_show w) \<or> n \<le> length las \<Longrightarrow> Q (Inr None) w'"
    and err: "\<And>e w'. ctx w' = ctx w \<Longrightarrow> slots w' = slots w \<Longrightarrow> Q (Inl e) w'"
  shows "wp (bind_act (on_bucket (store_act (kv_begin (sm_writer mgr (user_prefix mgr sub))))) (\<lambda>tx.
       bind_run (merge_loop n mgr sub pages_new pages_new tx False) (\<lambda>(tx', wrote).
       commit_build mgr sub head tx' wrote))) Q w1"
proof -
  have dom: "dom (scr w1) \<subseteq> may_show w" and fr: "frame w w1" and all: "\<forall>f. can w f \<longrightarrow> holds w f (scr w1)" using w1 by (simp_all add: progress_def)
  have "finite (dom (scr w1))" using dom finite_shown [OF fin] by (rule finite_subset)
  then obtain das where das: "scan_of (scr w1) None None das" "length das = card (dom (scr w1))" using scan_exists by blast
  then have len: "length das \<le> card (may_show w)" using card_mono [OF finite_shown [OF fin] dom] by simp
  have later: "ctx w' = ctx w" "slots w' = slots w" "repl w' = repl w" if "same w1 w'" for w' using that fr by (simp_all add: same_def frame_def)
  have commit: "wp (commit_build mgr sub head tx' wrote) Q w3"
    if w3: "same w1 w3" and tx': "txov tx' = stage_all (staged das (data las)) Map.empty" and wrote: "wrote \<longleftrightarrow> staged das (data las) \<noteq> []" for tx' wrote w3
  proof -
    let ?new = "overlay (repl w) (stage_all (staged das (data las)) Map.empty)"
    have eq: "repl w3 = repl w" "scr w3 = scr w1" using w3 fr by (simp_all add: same_def frame_def)
    have done_: "built w las head w'" if "ctx w' = ctx w" "slots w' = slots w" "scr w' = scr w1" "coverage mgr (repl w') = Some head" "\<forall>k. k \<noteq> APPLIED_KEY \<longrightarrow> repl w' k = ?new k" for w'
      using that dom all scan_unique [OF das(1)] by (auto simp: built_def)
    show ?thesis
    proof (rule wp_commit_build, goal_cases)
      case (1 w')
      then show ?case using w3 wrote eq later(1) [OF w3] later(2) [OF w3] by (intro ok done_) (auto simp: same_def)
    next
      case (2 b w')
      then show ?case
        using w3 eq later(1) [OF w3] later(2) [OF w3] seq_codec [OF 2(1)] tx'
        by (intro ok done_) (auto simp: moved_def coverage_def)
    next
      case (3 e m w')
      then show ?case using later [OF w3] err by (simp add: moved_def)
    qed
  qed
  have merge: "wp (bind_run (merge_loop n mgr sub pages_new pages_new tx False) (\<lambda>(tx', wrote). commit_build mgr sub head tx' wrote)) Q w2"
    if w2: "same w1 w2" and tx: "txov tx = Map.empty" for tx w2
    unfolding bind_run_def wp_bind
  proof (rule wp_merge_loop [where las = las and das = das and lrem = las and drem = das], goal_cases)
    case (5 tx' w')
    then show ?case using commit [OF same_trans [OF w2 5(1)], of tx'] tx by simp
  next
    case (6 w')
    then show ?case using none [of w'] later [OF same_trans [OF w2 6(1)]] len by auto
  next
    case (7 e w')
    then show ?case using err later [OF same_trans [OF w2 7]] by simp
  qed (use las das(1) w2 fr in \<open>simp_all add: page_inv_new same_def frame_def\<close>)
  have start: "wp (store_act (kv_begin (fe_ops dst))) (\<lambda>q s. rabs s = repl w1 \<and> (\<forall>tx. q = Inr tx \<longrightarrow> txov tx = Map.empty)) (sw_bucket w1)"
    unfolding store_act_def wp_map_err by (rule replica.wp_begin) (auto simp: repl_def)
  show ?thesis
    unfolding wp_bind [of "on_bucket _"]
  proof (rule wp_bucket_read [OF start [unfolded dst_ops]])
    fix q :: "fs_error + 't" and w' assume "same w1 w'" and "\<forall>tx. q = Inr tx \<longrightarrow> txov tx = Map.empty"
    then show "case q of Inl e \<Rightarrow> Q (Inl e) w' | Inr x \<Rightarrow> wp (bind_run (merge_loop n mgr sub pages_new pages_new x False) (\<lambda>(tx', wrote). commit_build mgr sub head tx' wrote)) Q w'"
      using err merge later by (cases q) simp_all
  qed
qed

lemma wp_build_full:
  assumes named: "files_named (fe_cod (sm_fs mgr)) (mast w)" and mas: "scan_of (mast w) None None mas" and las: "scan_of (repl w) None None las"
    and ok: "\<And>head w'. master.undecoded mas = [] \<Longrightarrow> built w las head w' \<Longrightarrow> Q (Inr (Some head)) w'"
    and none: "\<And>w'. ctx w' = ctx w \<Longrightarrow> slots w' = slots w \<Longrightarrow> repl w' = repl w \<Longrightarrow> n \<le> length mas \<or> n \<le> card (may_show w) \<or> n \<le> length las \<Longrightarrow> Q (Inr None) w'"
    and err: "\<And>e w'. ctx w' = ctx w \<Longrightarrow> slots w' = slots w \<Longrightarrow> master.undecoded mas = [] \<or> repl w' = repl w \<Longrightarrow> Q (Inl e) w'"
  shows "wp (build_full n mgr uuid sub) Q w"
proof -
  have fin: "finite (dom (mast w))" using scan_finite [OF mas] .
  have rest: "wp (bind_run (copy_filtered n mgr sub) (\<lambda>undecodable.
     if undecodable \<noteq> [] then
       err_act (Internal (''full rebuild refused: '' @ decimal (length undecodable) @ '' file metadata rows did not decode''))
     else
       bind_act (open_writer mgr sub) (\<lambda>_.
       bind_act (on_bucket (store_act (kv_begin (sm_writer mgr (user_prefix mgr sub))))) (\<lambda>tx.
       bind_run (merge_loop n mgr sub pages_new pages_new tx False) (\<lambda>(tx', wrote).
       commit_build mgr sub head tx' wrote))))) Q w1"
    if w1: "progress w mas w1" for head w1
    unfolding copy_filtered_def bind_run_def [of "copy_loop _ _ _ _ _"] wp_bind [of "copy_loop _ _ _ _ _"]
  proof (rule wp_copy_loop [OF named mas page_inv_new suffix_order.refl w1], goal_cases)
    case (1 w2)
    then have fr: "frame w w2" by (simp add: progress_def)
    show ?case
    proof (cases "master.undecoded mas = []")
      case False
      then show ?thesis using err fr by (simp add: frame_def)
    next
      case True
      have "wp (bind_act (open_writer mgr sub) (\<lambda>_.
         bind_act (on_bucket (store_act (kv_begin (sm_writer mgr (user_prefix mgr sub))))) (\<lambda>tx.
         bind_run (merge_loop n mgr sub pages_new pages_new tx False) (\<lambda>(tx', wrote).
         commit_build mgr sub head tx' wrote)))) Q w2"
        unfolding wp_bind [of "open_writer mgr sub"]
      proof (rule wp_open_writer)
        fix q :: "fs_error + unit" and w3 assume w3: "same w2 w3"
        have "wp (bind_act (on_bucket (store_act (kv_begin (sm_writer mgr (user_prefix mgr sub))))) (\<lambda>tx.
           bind_run (merge_loop n mgr sub pages_new pages_new tx False) (\<lambda>(tx', wrote).
           commit_build mgr sub head tx' wrote))) Q w3"
          by (rule wp_merge_commit [OF progress_same [OF 1 w3] las fin]) (use ok none err True in auto)
        then show "case q of Inl e \<Rightarrow> Q (Inl e) w3 | Inr x \<Rightarrow> wp (bind_act (on_bucket (store_act (kv_begin (sm_writer mgr (user_prefix mgr sub))))) (\<lambda>tx.
           bind_run (merge_loop n mgr sub pages_new pages_new tx False) (\<lambda>(tx', wrote).
           commit_build mgr sub head tx' wrote))) Q w3"
          using err [of w3] frame_same [OF fr w3] True by (cases q) (simp_all add: frame_def del: wp_bind)
      qed
      then show ?thesis using True by (simp del: wp_bind)
    qed
  next
    case (2 w2)
    then show ?case using none by (simp add: frame_def)
  next
    case (3 e w2)
    then show ?case using err by (simp add: frame_def)
  qed
  have fresh: "progress w mas (w1\<lparr>sw_scratch := sm_scratch mgr x\<rparr>)" if "same w w1" for w1 x
  proof -
    have "file_key f \<in> fst ` set mas" if "can w f" for f
      using readable_key [of mgr sub "mast w"] that mas unfolding can_def scan_of_def
      by (metis below_range_def option.case(1) option.distinct(1) map_of_eq_None_iff)
    then show ?thesis using that by (auto simp: progress_def frame_def same_def scratch_empty)
  qed
  show ?thesis
    unfolding build_full_def wp_bind [of "on_wal _"]
    by (rule wp_world_head, unfold sum.case wp_bind [of "new_scratch _"], unfold new_scratch_def wp_def [of "\<lambda>w. (Inr (), _ w)"] prod.case sum.case)
       (use rest fresh err in \<open>auto simp: same_def\<close>)
qed

lemma wp_build_refused:
  assumes "files_named (fe_cod (sm_fs mgr)) (mast w)" and "finite (dom (mast w))" and "finite (dom (repl w))"
    and "mast w (file_key f) = Some b" and "dec_file (fe_cod (sm_fs mgr)) b = Inl x"
  shows "wp (build_full n mgr uuid sub) (\<lambda>q w'. (\<forall>head. q \<noteq> Inr (Some head)) \<and> repl w' = repl w) w"
proof -
  obtain mas las where mas: "scan_of (mast w) None None mas" and las: "scan_of (repl w) None None las"
    using scan_exists assms(2,3) by meson
  have "(file_key f, b) \<in> set mas" using assms(4) scan_keys [OF mas] map_of_SomeD by metis
  then have "file_key f \<in> set (master.undecoded mas)"
    using assms(5) file_key_family [of f] by (force simp: master.undecoded_def master.family_def)
  then have "master.undecoded mas \<noteq> []" by auto
  then show ?thesis by (intro wp_build_full [OF assms(1) mas las]) simp_all
qed

end

lemma build_full_run:
  assumes "snapshot_over mgr mabs rabs txov sub" and "files_named (fe_cod (sm_fs mgr)) (mabs (fs_kv (sw_master w)))"
    and "finite (dom (mabs (fs_kv (sw_master w))))" and "finite (dom (rabs (sw_bucket w)))"
    and "build_full n mgr uuid sub w = (Inr (Some head), w')" and "scan_of (rabs (sw_bucket w)) None None las"
  defines "m \<equiv> mabs (fs_kv (sw_master w))" and "e \<equiv> pw_enforcer (sw_policy w)" and "c \<equiv> mabs (sw_scratch w')"
  shows "coverage mgr (rabs (sw_bucket w')) = Some head \<and> dom c \<subseteq> shown mgr sub m e \<and> (\<forall>f. readable mgr sub m e f \<longrightarrow> stored mgr sub m e f c) \<and>
    (\<exists>das. scan_of c None None das \<and>
      (\<forall>k. k \<noteq> APPLIED_KEY \<longrightarrow> rabs (sw_bucket w') k = overlay (rabs (sw_bucket w)) (stage_all (staged das (data las)) Map.empty) k))"
proof -
  obtain mas where mas: "scan_of m None None mas" using scan_exists assms(3) unfolding m_def by meson
  note defs = snapshot_over.repl_def [OF assms(1)] snapshot_over.mast_def [OF assms(1)] snapshot_over.can_def [OF assms(1)] snapshot_over.scr_def [OF assms(1)]
  have "wp (build_full n mgr uuid sub) (\<lambda>q w'. \<forall>head. q = Inr (Some head) \<longrightarrow> snapshot_over.built mgr mabs rabs sub w las head w') w"
    by (rule snapshot_over.wp_build_full [OF assms(1), where mas = mas and las = las]) (use assms(2,6) mas in \<open>simp_all add: defs m_def\<close>)
  from wpD [OF this assms(5)] have built: "snapshot_over.built mgr mabs rabs sub w las head w'" by simp
  then have c: "dom c \<subseteq> shown mgr sub m e" by (simp add: snapshot_over.built_def [OF assms(1)] defs c_def m_def e_def)
  have "finite (shown mgr sub m e)" unfolding m_def by (rule finite_shown [OF assms(3)])
  then have "finite (dom c)" by (rule finite_subset [OF c])
  then obtain das where "scan_of c None None das" using scan_exists by blast
  then show ?thesis
    using built c by (auto simp: snapshot_over.built_def [OF assms(1)] defs c_def m_def e_def)
qed

lemma build_full_returns:
  assumes "snapshot_over mgr mabs rabs txov sub" and "files_named (fe_cod (sm_fs mgr)) (mabs (fs_kv (sw_master w)))"
    and "finite (dom (mabs (fs_kv (sw_master w))))" and "finite (dom (rabs (sw_bucket w)))"
  shows "\<exists>n0. \<forall>n \<ge> n0. \<forall>uuid. fst (build_full n mgr uuid sub w) \<noteq> Inr None"
proof -
  obtain mas las where mas: "scan_of (mabs (fs_kv (sw_master w))) None None mas" and las: "scan_of (rabs (sw_bucket w)) None None las"
    using scan_exists assms(3,4) by meson
  note defs = snapshot_over.repl_def [OF assms(1)] snapshot_over.mast_def [OF assms(1)]
  define n0 where "n0 = Suc (length mas + length las + card (shown mgr sub (mabs (fs_kv (sw_master w))) (pw_enforcer (sw_policy w))))"
  have "wp (build_full n mgr uuid sub) (\<lambda>q w'. q \<noteq> Inr None) w" if "n0 \<le> n" for n uuid
    by (rule snapshot_over.wp_build_full [OF assms(1), where mas = mas and las = las]) (use assms(2) mas las that in \<open>auto simp: defs n0_def\<close>)
  then have "fst (build_full n mgr uuid sub w) \<noteq> Inr None" if "n0 \<le> n" for n uuid
    using wpD [OF _ prod.collapse [symmetric]] that by fast
  then show ?thesis by blast
qed

section \<open>Properties\<close>


text \<open>
  C6: a rebuild ends. For every state of the stores there is an amount of fuel from which on no loop of the rebuild is cut off, so the rebuild
  returns a head or an error.
\<close>

theorem rebuild_returns:
  assumes "snapshot_over mgr mabs rabs txov sub" and "files_named (fe_cod (sm_fs mgr)) (mabs (fs_kv (sw_master w)))"
    and "finite (dom (mabs (fs_kv (sw_master w))))" and "finite (dom (rabs (sw_bucket w)))"
  shows "\<exists>n0. \<forall>n \<ge> n0. \<forall>uuid. fst (build_full n mgr uuid sub w) \<noteq> Inr None"
  by (rule build_full_returns [OF assms])

text \<open>
  A rebuild refuses a master it cannot read. If a file record of the master does not decode, the rebuild returns no head and the replica
  is as it was.
\<close>

theorem rebuild_refuses_undecodable:
  assumes "snapshot_over mgr mabs rabs txov sub" and "m = mabs (fs_kv (sw_master w))"
    and "files_named (fe_cod (sm_fs mgr)) m" and "finite (dom m)" and "finite (dom (rabs (sw_bucket w)))"
    and "m (file_key f) = Some b" and "dec_file (fe_cod (sm_fs mgr)) b = Inl x"
    and "build_full n mgr uuid sub w = (q, w')"
  shows "(\<forall>head. q \<noteq> Inr (Some head)) \<and> rabs (sw_bucket w') = rabs (sw_bucket w)"
proof -
  note defs = snapshot_over.repl_def [OF assms(1)] snapshot_over.mast_def [OF assms(1)]
  have "wp (build_full n mgr uuid sub) (\<lambda>q w'. (\<forall>head. q \<noteq> Inr (Some head)) \<and> rabs (sw_bucket w') = rabs (sw_bucket w)) w"
    using snapshot_over.wp_build_refused [OF assms(1), of w f b x n uuid] assms(2-7) by (simp add: defs)
  from wpD [OF this assms(8)] show ?thesis .
qed

text \<open>
  C3: a stale key empties the replica. When the replica lists the keys of the filtered copy and one more, which sorts first (a file the subject
  may no longer read, or that was deleted), a rebuild that returns has deleted every data key, the readable files included, and has set the marker
  to the head.
\<close>

theorem rebuild_stale_key_empties:
  assumes "snapshot_over mgr mabs rabs txov sub" and "files_named (fe_cod (sm_fs mgr)) (mabs (fs_kv (sw_master w)))"
    and "finite (dom (mabs (fs_kv (sw_master w))))" and "finite (dom (rabs (sw_bucket w)))"
    and "build_full n mgr uuid sub w = (Inr (Some head), w')"
    and "dom (rabs (sw_bucket w)) - {APPLIED_KEY} = insert k0 (dom (mabs (sw_scratch w')))" and "\<And>k. k \<in> dom (mabs (sw_scratch w')) \<Longrightarrow> k0 < k"
  shows "dom (rabs (sw_bucket w')) = {APPLIED_KEY} \<and> coverage mgr (rabs (sw_bucket w')) = Some head"
proof -
  obtain las where las: "scan_of (rabs (sw_bucket w)) None None las" using scan_exists assms(4) by meson
  have built: "coverage mgr (rabs (sw_bucket w')) = Some head \<and> (\<exists>das. scan_of (mabs (sw_scratch w')) None None das \<and>
      (\<forall>k. k \<noteq> APPLIED_KEY \<longrightarrow> rabs (sw_bucket w') k = overlay (rabs (sw_bucket w)) (stage_all (staged das (data las)) Map.empty) k))"
    using build_full_run [OF assms(1-5) las] by blast
  then obtain das where das: "scan_of (mabs (sw_scratch w')) None None das"
    and ov: "\<And>k. k \<noteq> APPLIED_KEY \<Longrightarrow> rabs (sw_bucket w') k = overlay (rabs (sw_bucket w)) (stage_all (staged das (data las)) Map.empty) k" by blast
  have "rabs (sw_bucket w') k = None" if "k \<noteq> APPLIED_KEY" for k
    unfolding ov [OF that] by (rule overlay_shifted [OF das las assms(6,7) that])
  moreover have "rabs (sw_bucket w') APPLIED_KEY \<noteq> None" using built by (auto simp: coverage_def split: option.splits)
  ultimately have "k \<in> dom (rabs (sw_bucket w')) \<longleftrightarrow> k = APPLIED_KEY" for k by (cases "k = APPLIED_KEY") auto
  then show ?thesis using built by blast
qed

text \<open>Alice owns the second of two files. Her replica is new, or it still lists the first file, which was hers to read before.\<close>

definition two_files :: "(string \<times> sync_val) list" where
  "two_files = [(file_key ''f1'', SFs (FFile (file_of ''f1'' ''bob''))), (file_key ''f2'', SFs (FFile (file_of ''f2'' ''alice'')))]"

definition new_replica :: "(sync_val mem_kv, mem_enforcer, wal_val mem_kv wal, mem_bucket) sync_world" where
  "new_replica = sync_state [(seq_key, SSeq 3)] two_files [] [] ''alice'' []"

definition stale_replica :: "(sync_val mem_kv, mem_enforcer, wal_val mem_kv wal, mem_bucket) sync_world" where
  "stale_replica = sync_state [(seq_key, SSeq 3)] two_files [] [] ''alice'' ((APPLIED_KEY, SSeq 0) # two_files)"

lemma mem_build_full:
  "build_full n mem_manager uuid sub =
     bind_act (on_wal (wal_head mem_ops sync_wal_codec)) (\<lambda>head.
     bind_act (new_scratch \<lparr>mem_data = [], mem_fenced = False\<rparr>) (\<lambda>_.
     bind_run (copy_filtered n mem_manager sub) (\<lambda>undecodable.
     if undecodable \<noteq> [] then
       err_act (Internal (''full rebuild refused: '' @ decimal (length undecodable) @ '' file metadata rows did not decode''))
     else
       bind_act (open_writer mem_manager sub) (\<lambda>_.
       bind_act (on_bucket (store_act (kv_begin (sm_writer mem_manager (user_prefix mem_manager sub))))) (\<lambda>tx.
       bind_run (merge_loop n mem_manager sub pages_new pages_new tx False) (\<lambda>(tx', wrote).
       commit_build mem_manager sub head tx' wrote))))))"
  by (simp add: build_full_def)

lemma new_run: "fst (build_full 4 mem_manager ''u'' ''alice'' new_replica) = Inr (Some 3)"
  unfolding mem_build_full by code_simp

lemma stale_run:
  "fst (build_full 4 mem_manager ''u'' ''alice'' stale_replica) = Inr (Some 3) \<and>
   map fst (mem_data (sw_scratch (snd (build_full 4 mem_manager ''u'' ''alice'' stale_replica)))) = [file_key ''f2'']"
  unfolding mem_build_full by code_simp

lemma two_files_named: "files_named sync_fs_codec (map_of two_files)"
  by (auto simp: files_named_def two_files_def file_of_def split: if_splits)

lemma alice_reads: "readable mem_manager ''alice'' (map_of two_files) e ''f2''"
  by (simp add: readable_def value_at_def two_files_def file_of_def)


theorem rebuild_returns_witness:
  "\<exists>n0. \<forall>n \<ge> n0. \<forall>uuid. fst (build_full n mem_manager uuid ''alice'' stale_replica) \<noteq> Inr None"
  using rebuild_returns [OF memsnap.snapshot_over_axioms [where sub = "''alice''"], of stale_replica] two_files_named
  by (simp add: stale_replica_def finite_dom_map_of)

definition bad_row :: "(string \<times> sync_val) list" where
  "bad_row = [(file_key ''f1'', SFs (FBytes ''?''))]"

lemma bad_row_facts: "files_named sync_fs_codec (map_of bad_row)" "map_of bad_row (file_key ''f1'') = Some (SFs (FBytes ''?''))"
  by (auto simp: files_named_def bad_row_def split: if_splits)

theorem rebuild_refuses_undecodable_witness:
  "mem_replica ''alice'' (sw_bucket (snd (build_full 4 mem_manager ''u'' ''alice'' (sync_state [] bad_row [] [] ''alice'' two_files)))) = map_of two_files"
  using rebuild_refuses_undecodable [OF memsnap.snapshot_over_axioms [where sub = "''alice''"] refl _ _ _ _ _ prod.collapse [symmetric],
      where w = "sync_state [] bad_row [] [] ''alice'' two_files" and f = "''f1''" and b = "SFs (FBytes ''?'')" and n = 4 and uuid = "''u''" and x = "''not a file''"]
    bad_row_facts by (simp add: finite_dom_map_of)

theorem rebuild_stale_key_empties_witness:
  "\<exists>w'. build_full 4 mem_manager ''u'' ''alice'' stale_replica = (Inr (Some 3), w') \<and>
     readable mem_manager ''alice'' (mem_abs (fs_kv (sw_master stale_replica))) (pw_enforcer (sw_policy stale_replica)) ''f2'' \<and>
     mem_replica ''alice'' (sw_bucket stale_replica) (file_key ''f2'') \<noteq> None \<and> dom (mem_replica ''alice'' (sw_bucket w')) = {APPLIED_KEY}"
proof -
  define w' where "w' = snd (build_full 4 mem_manager ''u'' ''alice'' stale_replica)"
  have run: "build_full 4 mem_manager ''u'' ''alice'' stale_replica = (Inr (Some 3), w')"
    using stale_run by (simp add: w'_def prod_eq_iff)
  have copy: "dom (mem_abs (sw_scratch w')) = {file_key ''f2''}"
    using stale_run by (simp add: mem_abs_def w'_def dom_map_of_conv_image_fst flip: set_map)
  have less: "file_key ''f1'' < file_key ''f2''" by code_simp
  have live: "dom (mem_replica ''alice'' (sw_bucket stale_replica)) - {APPLIED_KEY} = insert (file_key ''f1'') {file_key ''f2''}"
    by (auto simp: stale_replica_def two_files_def)
  show ?thesis
    using rebuild_stale_key_empties [OF memsnap.snapshot_over_axioms [where sub = "''alice''"] _ _ _ run, of "file_key ''f1''"] copy live less run two_files_named alice_reads
    by (simp add: stale_replica_def finite_dom_map_of, simp add: two_files_def)
qed

end
