(* ===== verification/Session_Locks.thy ===== *)
theory Session_Locks
  imports Prelude
begin

text \<open>
  The locks that serialise the requests on one upload, of \<^verbatim>\<open>src/src/fs/mod.rs\<close>: a table of reference-counted entries, each with the
  asynchronous mutex of one session. The requests are the tasks of a step relation; a step of the relation is one critical section of the table
  or one call of a mutex, so that every interleaving of the tasks is a run. An \<open>Arc\<close> is the address of its entry. Of the mutex the
  model has what its crate documents: a call is granted only while nobody holds it. A count of claims is the number of live values of a type,
  so it does not reach the end of its machine integer.
\<close>

section \<open>The table\<close>

datatype lock_phase = Pending | Holding | Released

record session_entry =
  se_holder :: "nat option"
  se_claims :: nat

record session_lock =
  sl_key :: string
  sl_entry :: nat
  sl_phase :: lock_phase

record lock_table =
  lt_map :: "string \<rightharpoonup> nat"
  lt_entries :: "nat \<Rightarrow> session_entry"
  lt_fresh :: nat
  lt_tasks :: "nat \<rightharpoonup> session_lock"

definition no_locks :: lock_table where
  "no_locks = \<lparr>lt_map = Map.empty, lt_entries = (\<lambda>_. \<lparr>se_holder = None, se_claims = 0\<rparr>), lt_fresh = 0, lt_tasks = Map.empty\<rparr>"

text \<open>\<open>SessionLocks::acquire\<close>: the claim is counted under the lock of the table.\<close>

definition locks_acquire :: "nat \<Rightarrow> string \<Rightarrow> lock_table \<Rightarrow> lock_table" where
  "locks_acquire t key s =
     (let s1 = (case lt_map s key of
                  Some _ \<Rightarrow> s
                | None \<Rightarrow> s\<lparr>lt_map := (lt_map s)(key \<mapsto> lt_fresh s),
                            lt_entries := (lt_entries s)(lt_fresh s := \<lparr>se_holder = None, se_claims = 0\<rparr>),
                            lt_fresh := Suc (lt_fresh s)\<rparr>);
          a = the (lt_map s1 key); e = lt_entries s1 a in
      s1\<lparr>lt_entries := (lt_entries s1)(a := e\<lparr>se_claims := se_claims e + 1\<rparr>),
         lt_tasks := (lt_tasks s1)(t \<mapsto> \<lparr>sl_key = key, sl_entry = a, sl_phase = Pending\<rparr>)\<rparr>)"

text \<open>\<open>SessionLock::acquire\<close>: the wait for the mutex ends.\<close>

definition lock_acquire :: "nat \<Rightarrow> lock_table \<Rightarrow> lock_table option" where
  "lock_acquire t s =
     (case lt_tasks s t of
        Some l \<Rightarrow>
          (if sl_phase l = Pending \<and> se_holder (lt_entries s (sl_entry l)) = None
           then Some (s\<lparr>lt_entries := (lt_entries s)(sl_entry l := (lt_entries s (sl_entry l))\<lparr>se_holder := Some t\<rparr>),
                        lt_tasks := (lt_tasks s)(t \<mapsto> l\<lparr>sl_phase := Holding\<rparr>)\<rparr>)
           else None)
      | None \<Rightarrow> None)"

text \<open>The guard of the mutex goes before the claim it borrows from.\<close>

definition guard_drop :: "nat \<Rightarrow> lock_table \<Rightarrow> lock_table option" where
  "guard_drop t s =
     (case lt_tasks s t of
        Some l \<Rightarrow>
          (if sl_phase l = Holding
           then Some (s\<lparr>lt_entries := (lt_entries s)(sl_entry l := (lt_entries s (sl_entry l))\<lparr>se_holder := None\<rparr>),
                        lt_tasks := (lt_tasks s)(t \<mapsto> l\<lparr>sl_phase := Released\<rparr>)\<rparr>)
           else None)
      | None \<Rightarrow> None)"

text \<open>\<open>SessionLock::drop\<close>, after the guard or, when the request is cancelled, while it waits.\<close>

definition lock_drop :: "nat \<Rightarrow> lock_table \<Rightarrow> lock_table option" where
  "lock_drop t s =
     (case lt_tasks s t of
        Some l \<Rightarrow>
          (if sl_phase l = Holding then None
           else
             let gone = s\<lparr>lt_tasks := (lt_tasks s)(t := None)\<rparr>; a = sl_entry l; e = lt_entries s a in
             if lt_map s (sl_key l) \<noteq> Some a then Some gone
             else
               let left = gone\<lparr>lt_entries := (lt_entries s)(a := e\<lparr>se_claims := se_claims e - 1\<rparr>)\<rparr> in
               Some (if se_claims e = 1 then left\<lparr>lt_map := (lt_map s)(sl_key l := None)\<rparr> else left))
      | None \<Rightarrow> None)"

text \<open>One step of a request that is under way, and the runs of all of them with new requests coming in.\<close>

inductive lock_step :: "lock_table \<Rightarrow> lock_table \<Rightarrow> bool" where
  granted: "lock_acquire t s = Some s' \<Longrightarrow> lock_step s s'"
| released: "guard_drop t s = Some s' \<Longrightarrow> lock_step s s'"
| left: "lock_drop t s = Some s' \<Longrightarrow> lock_step s s'"

inductive lock_run :: "lock_table \<Rightarrow> bool" where
  start: "lock_run no_locks"
| enter: "lock_run s \<Longrightarrow> lt_tasks s t = None \<Longrightarrow> lock_run (locks_acquire t key s)"
| move: "lock_run s \<Longrightarrow> lock_step s s' \<Longrightarrow> lock_run s'"

section \<open>The invariant\<close>

text \<open>
  The table has exactly the keys of the live claims, under one entry each that counts its claims; a mutex is held by exactly the task that is in
  its critical section.
\<close>

definition claimants :: "lock_table \<Rightarrow> nat \<Rightarrow> nat set" where
  "claimants s a = {t. \<exists>l. lt_tasks s t = Some l \<and> sl_entry l = a}"

definition lock_inv :: "lock_table \<Rightarrow> bool" where
  "lock_inv s \<longleftrightarrow> finite (dom (lt_tasks s)) \<and>
     (\<forall>t l. lt_tasks s t = Some l \<longrightarrow> lt_map s (sl_key l) = Some (sl_entry l)) \<and>
     (\<forall>k a. lt_map s k = Some a \<longrightarrow> a < lt_fresh s \<and> claimants s a \<noteq> {} \<and> se_claims (lt_entries s a) = card (claimants s a)) \<and>
     inj_on (lt_map s) (dom (lt_map s)) \<and>
     (\<forall>a t. se_holder (lt_entries s a) = Some t \<longleftrightarrow> (\<exists>l. lt_tasks s t = Some l \<and> sl_entry l = a \<and> sl_phase l = Holding))"

lemma finite_claimants: "finite (dom (lt_tasks s)) \<Longrightarrow> finite (claimants s a)"
  by (rule finite_subset [of _ "dom (lt_tasks s)"]) (auto simp: claimants_def)

lemma lock_inv_start: "lock_inv no_locks"
  by (simp add: lock_inv_def no_locks_def)

lemma lock_inv_phase:
  assumes "lock_inv s" and "lt_tasks s t = Some l" and "sl_phase l \<noteq> p"
    and "s' = s\<lparr>lt_entries := (lt_entries s)(sl_entry l := (lt_entries s (sl_entry l))\<lparr>se_holder := h\<rparr>), lt_tasks := (lt_tasks s)(t \<mapsto> l\<lparr>sl_phase := p\<rparr>)\<rparr>"
    and "h = (if p = Holding then Some t else None)" and "p = Holding \<Longrightarrow> se_holder (lt_entries s (sl_entry l)) = None"
    and "p \<noteq> Holding \<Longrightarrow> se_holder (lt_entries s (sl_entry l)) = Some t"
  shows "lock_inv s'"
proof -
  have cl: "claimants s' a = claimants s a" for a
    using assms(2) by (auto simp: claimants_def assms(4))
  have inv: "\<And>t l. lt_tasks s t = Some l \<Longrightarrow> lt_map s (sl_key l) = Some (sl_entry l)"
    and held: "\<And>a t. se_holder (lt_entries s a) = Some t \<longleftrightarrow> (\<exists>l. lt_tasks s t = Some l \<and> sl_entry l = a \<and> sl_phase l = Holding)"
    using assms(1) by (simp_all add: lock_inv_def)
  have "se_holder (lt_entries s' a) = Some u \<longleftrightarrow> (\<exists>l. lt_tasks s' u = Some l \<and> sl_entry l = a \<and> sl_phase l = Holding)" for a u
    using assms(2,5-7) held [of a u] held [of "sl_entry l" u] by (cases "p = Holding") (auto simp: assms(4))
  then show ?thesis
    using assms(1,2) inv by (simp add: lock_inv_def cl) (simp add: assms(4))
qed

lemma lock_inv_enter:
  assumes inv: "lock_inv s" and t: "lt_tasks s t = None"
  shows "lock_inv (locks_acquire t key s)"
proof -
  let ?s = "locks_acquire t key s"
  define a where "a = (case lt_map s key of Some a \<Rightarrow> a | None \<Rightarrow> lt_fresh s)"
  have fin: "finite (dom (lt_tasks s))"
    and keys: "\<And>t l. lt_tasks s t = Some l \<Longrightarrow> lt_map s (sl_key l) = Some (sl_entry l)"
    and count: "\<And>k a. lt_map s k = Some a \<Longrightarrow> a < lt_fresh s \<and> claimants s a \<noteq> {} \<and> se_claims (lt_entries s a) = card (claimants s a)"
    and inj: "inj_on (lt_map s) (dom (lt_map s))"
    and held: "\<And>a t. se_holder (lt_entries s a) = Some t \<longleftrightarrow> (\<exists>l. lt_tasks s t = Some l \<and> sl_entry l = a \<and> sl_phase l = Holding)"
    using inv by (simp_all add: lock_inv_def)
  have fresh: "claimants s (lt_fresh s) = {}" "se_holder (lt_entries s (lt_fresh s)) = None"
  proof -
    have no: "sl_entry l \<noteq> lt_fresh s" if "lt_tasks s u = Some l" for u l using count [OF keys [OF that]] by simp
    then show "claimants s (lt_fresh s) = {}" by (auto simp: claimants_def)
    show "se_holder (lt_entries s (lt_fresh s)) = None" using held [of "lt_fresh s"] no by (metis option.exhaust)
  qed
  have tasks: "lt_tasks ?s = (lt_tasks s)(t \<mapsto> \<lparr>sl_key = key, sl_entry = a, sl_phase = Pending\<rparr>)"
    and map: "lt_map ?s = (lt_map s)(key \<mapsto> a)"
    and claims: "\<And>b. se_claims (lt_entries ?s b) = (if b = a then Suc (case lt_map s key of Some _ \<Rightarrow> se_claims (lt_entries s a) | None \<Rightarrow> 0) else se_claims (lt_entries s b))"
    and next_a: "lt_fresh s \<le> lt_fresh ?s"
    by (simp_all add: locks_acquire_def Let_def a_def map_upd_triv split: option.split)
  have holder: "se_holder (lt_entries ?s b) = se_holder (lt_entries s b)" for b
    using fresh(2) by (simp add: locks_acquire_def Let_def split: option.split)
  have a: "a < lt_fresh ?s"
    using count [of key a] by (cases "lt_map s key") (simp_all add: locks_acquire_def Let_def a_def)
  have cl: "claimants ?s b = (if b = a then insert t (claimants s b) else claimants s b)" for b
    using t by (auto simp: claimants_def tasks)
  have "t \<notin> claimants s a" using t by (simp add: claimants_def)
  moreover have "card (claimants s a) = (case lt_map s key of Some _ \<Rightarrow> se_claims (lt_entries s a) | None \<Rightarrow> 0)"
    using count fresh(1) by (simp add: a_def split: option.split)
  ultimately have counted: "se_claims (lt_entries ?s a) = card (claimants ?s a)"
    using finite_claimants [OF fin] by (simp add: claims cl)
  have "lt_map s k \<noteq> Some a" if "k \<noteq> key" for k
    using that inj count [of k a] by (auto simp: a_def inj_on_def dom_def split: option.splits)
  then have "inj_on (lt_map ?s) (dom (lt_map ?s))"
    using inj by (auto simp: map inj_on_def dom_def)
  moreover have "b < lt_fresh ?s \<and> claimants ?s b \<noteq> {} \<and> se_claims (lt_entries ?s b) = card (claimants ?s b)" if "lt_map ?s k = Some b" for k b
    using that count [of k b] counted next_a a by (cases "b = a") (auto simp: map cl claims split: if_splits)
  moreover have "lt_map ?s (sl_key l) = Some (sl_entry l)" if "lt_tasks ?s u = Some l" for u l
    using that keys [of u l] by (auto simp: tasks map a_def split: if_splits option.splits)
  moreover have "se_holder (lt_entries ?s b) = Some u \<longleftrightarrow> (\<exists>l. lt_tasks ?s u = Some l \<and> sl_entry l = b \<and> sl_phase l = Holding)" for b u
    using held [of b u] t by (auto simp: holder tasks)
  ultimately show ?thesis using fin by (simp add: lock_inv_def tasks)
qed

lemma lock_inv_drop:
  assumes inv: "lock_inv s" and drop: "lock_drop t s = Some s'"
  shows "lock_inv s'"
proof -
  obtain l where l: "lt_tasks s t = Some l" "sl_phase l \<noteq> Holding"
    using drop by (auto simp: lock_drop_def split: option.splits if_splits)
  let ?a = "sl_entry l"
  have fin: "finite (dom (lt_tasks s))"
    and keys: "\<And>t l. lt_tasks s t = Some l \<Longrightarrow> lt_map s (sl_key l) = Some (sl_entry l)"
    and count: "\<And>k a. lt_map s k = Some a \<Longrightarrow> a < lt_fresh s \<and> claimants s a \<noteq> {} \<and> se_claims (lt_entries s a) = card (claimants s a)"
    and inj: "inj_on (lt_map s) (dom (lt_map s))"
    and held: "\<And>a t. se_holder (lt_entries s a) = Some t \<longleftrightarrow> (\<exists>l. lt_tasks s t = Some l \<and> sl_entry l = a \<and> sl_phase l = Holding)"
    using inv by (simp_all add: lock_inv_def)
  have key: "lt_map s (sl_key l) = Some ?a" by (rule keys [OF l(1)])
  have t: "t \<in> claimants s ?a" using l by (simp add: claimants_def)
  have n: "se_claims (lt_entries s ?a) = card (claimants s ?a)" using count [OF key] by simp
  have one: "se_claims (lt_entries s ?a) = Suc 0 \<longleftrightarrow> claimants s ?a = {t}"
    using t by (auto simp: n card_1_singleton_iff)
  define left where "left = s\<lparr>lt_tasks := (lt_tasks s)(t := None), lt_entries := (lt_entries s)(?a := (lt_entries s ?a)\<lparr>se_claims := se_claims (lt_entries s ?a) - 1\<rparr>)\<rparr>"
  have s': "s' = (if claimants s ?a = {t} then left\<lparr>lt_map := (lt_map s)(sl_key l := None)\<rparr> else left)"
    using drop l key by (cases "claimants s ?a = {t}") (simp_all add: lock_drop_def Let_def left_def one)
  have tasks: "lt_tasks s' = (lt_tasks s)(t := None)" and map: "lt_map s' = (if claimants s ?a = {t} then (lt_map s)(sl_key l := None) else lt_map s)"
    and holder: "\<And>b. se_holder (lt_entries s' b) = se_holder (lt_entries s b)" and next_a: "lt_fresh s' = lt_fresh s"
    and claims: "\<And>b. se_claims (lt_entries s' b) = (if b = ?a then se_claims (lt_entries s b) - 1 else se_claims (lt_entries s b))"
    by (simp_all add: s' left_def)
  have cl: "claimants s' b = claimants s b - {t}" for b by (auto simp: claimants_def tasks)
  have others: "t \<notin> claimants s b" if "b \<noteq> ?a" for b using that l by (simp add: claimants_def)
  have "inj_on (lt_map s') (dom (lt_map s'))" using inj by (auto simp: map inj_on_def dom_def split: if_splits)
  moreover have "b < lt_fresh s' \<and> claimants s' b \<noteq> {} \<and> se_claims (lt_entries s' b) = card (claimants s' b)" if "lt_map s' k = Some b" for k b
  proof (cases "b = ?a")
    case True
    have "k = sl_key l" if "lt_map s k = Some ?a" using inj that key by (auto simp: inj_on_def dom_def)
    then have "claimants s ?a \<noteq> {t}" using \<open>lt_map s' k = Some b\<close> True by (auto simp: map split: if_splits)
    then show ?thesis using True t n count [OF key] finite_claimants [OF fin, of ?a] by (auto simp: cl claims next_a card_Diff_singleton)
  next
    case False
    have "lt_map s k = Some b" using that by (auto simp: map split: if_splits)
    then show ?thesis using count [of k b] others [OF False] False by (simp add: cl claims next_a)
  qed
  moreover have "lt_map s' (sl_key m) = Some (sl_entry m)" if "lt_tasks s' u = Some m" for u m
  proof -
    have m: "lt_tasks s u = Some m" "u \<noteq> t" using that by (auto simp: tasks split: if_splits)
    have "claimants s ?a \<noteq> {t}" if "sl_key m = sl_key l"
      using keys [OF m(1)] key m that by (auto simp: claimants_def)
    then show ?thesis using keys [OF m(1)] by (auto simp: map)
  qed
  moreover have "se_holder (lt_entries s' b) = Some u \<longleftrightarrow> (\<exists>l. lt_tasks s' u = Some l \<and> sl_entry l = b \<and> sl_phase l = Holding)" for b u
    using held [of b u] l by (auto simp: holder tasks)
  ultimately show ?thesis using fin by (simp add: lock_inv_def tasks)
qed

lemma lock_inv_step:
  assumes "lock_step s s'" and "lock_inv s"
  shows "lock_inv s'"
  using assms
proof cases
  case (granted t)
  then obtain l where l: "lt_tasks s t = Some l" "sl_phase l = Pending" "se_holder (lt_entries s (sl_entry l)) = None"
    and s': "s' = s\<lparr>lt_entries := (lt_entries s)(sl_entry l := (lt_entries s (sl_entry l))\<lparr>se_holder := Some t\<rparr>), lt_tasks := (lt_tasks s)(t \<mapsto> l\<lparr>sl_phase := Holding\<rparr>)\<rparr>"
    by (auto simp: lock_acquire_def split: option.splits if_splits)
  show ?thesis by (rule lock_inv_phase [OF assms(2) l(1) _ s']) (simp_all add: l)
next
  case (released t)
  then obtain l where l: "lt_tasks s t = Some l" "sl_phase l = Holding"
    and s': "s' = s\<lparr>lt_entries := (lt_entries s)(sl_entry l := (lt_entries s (sl_entry l))\<lparr>se_holder := None\<rparr>), lt_tasks := (lt_tasks s)(t \<mapsto> l\<lparr>sl_phase := Released\<rparr>)\<rparr>"
    by (auto simp: guard_drop_def split: option.splits if_splits)
  have "se_holder (lt_entries s (sl_entry l)) = Some t" using l assms(2) by (auto simp: lock_inv_def)
  then show ?thesis by (intro lock_inv_phase [OF assms(2) l(1) _ s']) (simp_all add: l)
qed (blast intro: lock_inv_drop)

lemma lock_run_inv: "lock_run s \<Longrightarrow> lock_inv s"
  by (induction rule: lock_run.induct) (auto intro: lock_inv_start lock_inv_enter lock_inv_step)

section \<open>Progress\<close>

fun phase_weight :: "lock_phase \<Rightarrow> nat" where
  "phase_weight Pending = 3"
| "phase_weight Holding = 2"
| "phase_weight Released = 1"

text \<open>The steps that the live requests still have at most.\<close>

definition steps_left :: "lock_table \<Rightarrow> nat" where
  "steps_left s = (\<Sum>t \<in> dom (lt_tasks s). phase_weight (sl_phase (the (lt_tasks s t))))"

lemma steps_left_upd:
  assumes "finite (dom m)" and "m t = Some l" and "phase_weight (sl_phase l') < phase_weight (sl_phase l)"
  shows "(\<Sum>u \<in> dom (m(t \<mapsto> l')). phase_weight (sl_phase (the ((m(t \<mapsto> l')) u)))) < (\<Sum>u \<in> dom m. phase_weight (sl_phase (the (m u))))"
proof -
  have dom: "dom (m(t \<mapsto> l')) = dom m" using assms(2) by auto
  show ?thesis unfolding dom by (rule sum_strict_mono_ex1) (use assms in \<open>auto intro!: bexI [of _ t]\<close>)
qed

lemma steps_left_drop:
  assumes "finite (dom m)" and "m t = Some l"
  shows "(\<Sum>u \<in> dom (m(t := None)). phase_weight (sl_phase (the ((m(t := None)) u)))) < (\<Sum>u \<in> dom m. phase_weight (sl_phase (the (m u))))"
proof -
  have "(\<Sum>u \<in> dom m. phase_weight (sl_phase (the (m u)))) = phase_weight (sl_phase l) + (\<Sum>u \<in> dom m - {t}. phase_weight (sl_phase (the (m u))))"
    using sum.remove [OF assms(1), of t "\<lambda>u. phase_weight (sl_phase (the (m u)))"] assms(2) by (simp add: domI)
  moreover have "0 < phase_weight (sl_phase l)" by (cases "sl_phase l") simp_all
  moreover have "(\<Sum>u \<in> dom (m(t := None)). phase_weight (sl_phase (the ((m(t := None)) u)))) = (\<Sum>u \<in> dom m - {t}. phase_weight (sl_phase (the (m u))))"
    by (rule sum.cong) auto
  ultimately show ?thesis by simp
qed

lemma step_decreases:
  assumes "lock_step s s'" and "lock_inv s"
  shows "steps_left s' < steps_left s"
proof -
  have fin: "finite (dom (lt_tasks s))" using assms(2) by (simp add: lock_inv_def)
  from assms(1) show ?thesis
    by cases
      (auto simp: steps_left_def lock_acquire_def guard_drop_def lock_drop_def Let_def simp del: fun_upd_apply dom_fun_upd
        split: option.splits if_splits intro!: steps_left_upd [OF fin] steps_left_drop [OF fin])
qed

lemma steps_left_bound: "finite (dom (lt_tasks s)) \<Longrightarrow> steps_left s \<le> 3 * card (dom (lt_tasks s))"
proof -
  have "phase_weight p \<le> 3" for p by (cases p) simp_all
  then show ?thesis unfolding steps_left_def using sum_bounded_above [of "dom (lt_tasks s)"] by (metis (no_types, lifting) mult.commute of_nat_id)
qed

lemma steps_bounded: "(lock_step ^^ n) s s' \<Longrightarrow> lock_inv s \<Longrightarrow> lock_inv s' \<and> n + steps_left s' \<le> steps_left s"
proof (induction n arbitrary: s')
  case (Suc n)
  then obtain m where m: "(lock_step ^^ n) s m" "lock_step m s'" by auto
  then show ?case using Suc.IH [OF m(1) Suc.prems(2)] step_decreases [OF m(2)] lock_inv_step [OF m(2)] by force
qed simp

lemma waiter_granted:
  assumes inv: "lock_inv s" and t: "lt_tasks s t = Some l" "sl_phase l = Pending"
  shows "\<exists>s'. lock_step\<^sup>*\<^sup>* s s' \<and> (\<exists>l'. lt_tasks s' t = Some l' \<and> sl_key l' = sl_key l \<and> sl_phase l' = Holding)"
proof (cases "se_holder (lt_entries s (sl_entry l))")
  case None
  then have "\<exists>s'. lock_acquire t s = Some s' \<and> (\<exists>l'. lt_tasks s' t = Some l' \<and> sl_key l' = sl_key l \<and> sl_phase l' = Holding)"
    using t by (simp add: lock_acquire_def)
  then show ?thesis by (meson lock_step.granted r_into_rtranclp)
next
  case (Some u)
  then obtain lu where u: "lt_tasks s u = Some lu" "sl_entry lu = sl_entry l" "sl_phase lu = Holding"
    using inv by (auto simp: lock_inv_def)
  have ne: "u \<noteq> t" using u t by auto
  define s1 where "s1 = s\<lparr>lt_entries := (lt_entries s)(sl_entry lu := (lt_entries s (sl_entry lu))\<lparr>se_holder := None\<rparr>), lt_tasks := (lt_tasks s)(u \<mapsto> lu\<lparr>sl_phase := Released\<rparr>)\<rparr>"
  have s1: "guard_drop u s = Some s1" using u by (simp add: guard_drop_def s1_def)
  have "\<exists>s'. lock_acquire t s1 = Some s' \<and> (\<exists>l'. lt_tasks s' t = Some l' \<and> sl_key l' = sl_key l \<and> sl_phase l' = Holding)"
    using t u ne by (simp add: lock_acquire_def s1_def)
  then show ?thesis using lock_step.released [OF s1] by (meson lock_step.granted converse_rtranclp_into_rtranclp r_into_rtranclp)
qed

lemma step_possible:
  assumes "lock_inv s" and "lt_tasks s t = Some l"
  shows "\<exists>s'. lock_step s s'"
proof (cases "sl_phase l = Holding")
  case True
  then show ?thesis using assms(2) lock_step.released [of t s] by (simp add: guard_drop_def) blast
next
  case False
  then have "\<exists>s'. lock_drop t s = Some s'" using assms(2) by (simp add: lock_drop_def Let_def)
  then show ?thesis using lock_step.left by blast
qed

lemma idle_empty:
  assumes "lock_inv s" and "lt_tasks s = Map.empty"
  shows "lt_map s = Map.empty"
  using assms by (force simp: lock_inv_def claimants_def)

section \<open>Properties\<close>

text \<open>
  C24: requests on one upload exclude each other. However the requests interleave, are granted, cancelled and end, at most one of them is inside
  the critical section of a session, and the table has an entry for exactly the sessions with a live claim.
\<close>

theorem session_locks_exclusive:
  assumes "lock_run s"
  shows "(\<forall>t1 l1 t2 l2. lt_tasks s t1 = Some l1 \<longrightarrow> lt_tasks s t2 = Some l2 \<longrightarrow> sl_phase l1 = Holding \<longrightarrow> sl_phase l2 = Holding \<longrightarrow>
      sl_key l1 = sl_key l2 \<longrightarrow> t1 = t2) \<and> dom (lt_map s) = {sl_key l |t l. lt_tasks s t = Some l}"
proof -
  have inv: "lock_inv s" using assms by (rule lock_run_inv)
  have keys: "\<And>t l. lt_tasks s t = Some l \<Longrightarrow> lt_map s (sl_key l) = Some (sl_entry l)" using inv by (simp add: lock_inv_def)
  have one: "t1 = t2" if "lt_tasks s t1 = Some l1" "lt_tasks s t2 = Some l2" "sl_phase l1 = Holding" "sl_phase l2 = Holding" "sl_key l1 = sl_key l2" for t1 l1 t2 l2
  proof -
    have "sl_entry l1 = sl_entry l2" using keys [OF that(1)] keys [OF that(2)] that(5) by simp
    then have "se_holder (lt_entries s (sl_entry l1)) = Some t1" "se_holder (lt_entries s (sl_entry l1)) = Some t2"
      using inv that by (auto simp: lock_inv_def)
    then show ?thesis by simp
  qed
  have "\<exists>t l. lt_tasks s t = Some l \<and> k = sl_key l" if key: "lt_map s k = Some a" for k a
  proof -
    have "claimants s a \<noteq> {}" using inv key unfolding lock_inv_def by blast
    then obtain t l where t: "lt_tasks s t = Some l" "sl_entry l = a" by (auto simp: claimants_def)
    then have "k = sl_key l" using keys [OF t(1)] key inv by (auto simp: lock_inv_def inj_on_def dom_def)
    then show ?thesis using t by blast
  qed
  then have "dom (lt_map s) \<subseteq> {sl_key l |t l. lt_tasks s t = Some l}" by blast
  moreover have "{sl_key l |t l. lt_tasks s t = Some l} \<subseteq> dom (lt_map s)" using keys by auto
  ultimately show ?thesis using one by (intro conjI) (blast, rule subset_antisym)
qed

text \<open>
  C25: no request waits for ever. In every reachable state a waiting request can be granted by steps of the requests that are there; without new
  requests, every run of steps has at most three per request, and a run that cannot go on has served them all and left an empty table.
\<close>

theorem session_locks_drain:
  assumes "lock_run s"
  shows "(\<forall>t l. lt_tasks s t = Some l \<longrightarrow> sl_phase l = Pending \<longrightarrow>
      (\<exists>s'. lock_step\<^sup>*\<^sup>* s s' \<and> (\<exists>l'. lt_tasks s' t = Some l' \<and> sl_key l' = sl_key l \<and> sl_phase l' = Holding))) \<and>
    (\<forall>n s'. (lock_step ^^ n) s s' \<longrightarrow> n \<le> 3 * card (dom (lt_tasks s)) \<and>
      ((\<nexists>s''. lock_step s' s'') \<longrightarrow> lt_tasks s' = Map.empty \<and> lt_map s' = Map.empty))"
proof (intro conjI allI impI)
  have inv: "lock_inv s" using assms by (rule lock_run_inv)
  show "\<exists>s'. lock_step\<^sup>*\<^sup>* s s' \<and> (\<exists>l'. lt_tasks s' t = Some l' \<and> sl_key l' = sl_key l \<and> sl_phase l' = Holding)"
    if "lt_tasks s t = Some l" "sl_phase l = Pending" for t l using waiter_granted [OF inv that] .
  fix n s' assume run: "(lock_step ^^ n) s s'"
  show "n \<le> 3 * card (dom (lt_tasks s))"
    using steps_bounded [OF run inv] steps_left_bound [of s] inv by (simp add: lock_inv_def)
  assume stuck: "\<nexists>s''. lock_step s' s''"
  have inv': "lock_inv s'" using steps_bounded [OF run inv] by simp
  then show none: "lt_tasks s' = Map.empty" using step_possible stuck by (metis option.exhaust)
  show "lt_map s' = Map.empty" by (rule idle_empty [OF inv' none])
qed

text \<open>Two parts of one upload arrive together; the first is inside.\<close>

definition two_claims :: lock_table where
  "two_claims = the (lock_acquire 1 (locks_acquire 2 ''f'' (locks_acquire 1 ''f'' no_locks)))"

lemma two_claims_run: "lock_run two_claims"
proof -
  have "lock_run (locks_acquire 2 ''f'' (locks_acquire 1 ''f'' no_locks))"
    by (intro lock_run.enter lock_run.start) (simp_all add: no_locks_def locks_acquire_def)
  moreover have "lock_step (locks_acquire 2 ''f'' (locks_acquire 1 ''f'' no_locks)) two_claims"
    by (rule lock_step.granted [of 1]) (simp add: two_claims_def no_locks_def locks_acquire_def lock_acquire_def)
  ultimately show ?thesis by (rule lock_run.move)
qed

lemma two_claims_tasks: "lt_tasks two_claims = [1 \<mapsto> \<lparr>sl_key = ''f'', sl_entry = 0, sl_phase = Holding\<rparr>, 2 \<mapsto> \<lparr>sl_key = ''f'', sl_entry = 0, sl_phase = Pending\<rparr>]"
  by (auto simp: two_claims_def no_locks_def locks_acquire_def lock_acquire_def)

theorem session_locks_exclusive_witness: "lock_run two_claims \<and> dom (lt_map two_claims) = {''f''} \<and> lock_acquire 2 two_claims = None"
proof -
  have "dom (lt_map two_claims) = {''f''}"
    using conjunct2 [OF session_locks_exclusive [OF two_claims_run]] by (auto simp: two_claims_tasks split: if_splits)
  moreover have "lock_acquire 2 two_claims = None" by (simp add: two_claims_def no_locks_def locks_acquire_def lock_acquire_def)
  ultimately show ?thesis using two_claims_run by blast
qed

theorem session_locks_drain_witness: "\<exists>s'. lock_step\<^sup>*\<^sup>* two_claims s' \<and> (\<exists>l'. lt_tasks s' 2 = Some l' \<and> sl_phase l' = Holding)"
proof -
  have "lt_tasks two_claims 2 = Some \<lparr>sl_key = ''f'', sl_entry = 0, sl_phase = Pending\<rparr>" by (simp add: two_claims_tasks)
  with conjunct1 [OF session_locks_drain [OF two_claims_run]] show ?thesis by (metis session_lock.select_convs(3))
qed

end
