(* ===== verification/Snapshot_Slots.thy ===== *)
theory Snapshot_Slots
  imports Snapshot_Build
begin

text \<open>
  The in-flight slots of the queue of rebuilds of \<^verbatim>\<open>src/src/sync/snapshot.rs\<close>: who holds the slot of a subject when requests and
  workers interleave, and that a request and a worker give it back.
\<close>

section \<open>Work leaves the slots alone\<close>

definition slots_are :: "string set \<times> (string \<times> u64) list option \<Rightarrow> ('s, 'e, 'l, 'o) sync_world \<Rightarrow> bool" where
  "slots_are sl w \<longleftrightarrow> (sw_inflight w, sw_jobs w) = sl"

lemma keeps_focus: "(\<And>x w. P w \<Longrightarrow> P (put x w)) \<Longrightarrow> keeps P (focus_act get put m)"
  by (simp add: keeps_def focus_act_def split: prod.split)

lemma keeps_run [keeps_rules]: "keeps P m \<Longrightarrow> (\<And>x. keeps P (f x)) \<Longrightarrow> keeps P (bind_run m f)"
  unfolding bind_run_def by (intro keeps_rules) (auto intro: keeps_rules split: option.split)

named_theorems slot_rules "the calls that leave the slots alone"

lemma slots_parts [slot_rules]:
  "keeps (slots_are sl) (on_wal m1)" "keeps (slots_are sl) (on_master m2)" "keeps (slots_are sl) (on_bucket m3)" "keeps (slots_are sl) (on_master_kv m4)"
  "keeps (slots_are sl) (on_scratch_kv m4)" "keeps (slots_are sl) (on_scratch m2)" "keeps (slots_are sl) (on_replica m5)" "keeps (slots_are sl) (new_scratch s)"
  "keeps (slots_are sl) (internal_of r)"
  by (auto simp: on_wal_def on_master_def on_bucket_def on_master_kv_def on_scratch_kv_def on_scratch_def on_replica_def slots_are_def
      new_scratch_def internal_of_def keeps_def focus_act_def ok_act_def err_act_def split: prod.split sum.split)

lemma slots_row_readable [slot_rules]: "keeps (slots_are sl) (row_readable mgr sub ty rid)"
  by (simp add: keeps_def row_readable_def slots_are_def split: prod.split)

lemma slots_load_applied [slot_rules]: "keeps (slots_are sl) (load_applied mgr sub)"
  unfolding load_applied_def Let_def
  by (intro keeps_rules slot_rules) (auto intro!: keeps_rules slot_rules split: sum.split os_error.split)

lemma slots_visible_rows [slot_rules]: "keeps (slots_are sl) (visible_rows mgr sub f)"
  unfolding visible_rows_def by (intro keeps_rules slot_rules) (auto intro!: keeps_rules slot_rules split: prod.split)

lemma slots_can_read [slot_rules]: "keeps (slots_are sl) (can_read mgr sub f)"
  unfolding can_read_def by (intro keeps_rules slot_rules) (auto intro!: keeps_rules slot_rules split: option.split)

lemma slots_copy_loop [slot_rules]: "keeps (slots_are sl) (copy_loop n mgr sub p u)"
  by (induction n arbitrary: p u) (auto intro!: keeps_rules slot_rules split: option.split prod.split)

lemma slots_merge_loop [slot_rules]: "keeps (slots_are sl) (merge_loop n mgr sub dp lp tx wrote)"
  by (induction n arbitrary: dp lp tx wrote) (auto intro!: keeps_rules slot_rules simp: Let_def split: prod.split)

lemma slots_build_full [slot_rules]: "keeps (slots_are sl) (build_full n mgr uuid sub)"
  unfolding build_full_def copy_filtered_def open_writer_def commit_build_def Let_def
  by (intro keeps_rules slot_rules) (auto intro!: keeps_rules slot_rules split: prod.split)

lemma slots_implicit_groups [slot_rules]: "keeps (slots_are sl) (implicit_groups mgr sub)"
  by (simp add: keeps_def implicit_groups_def)

lemma slots_rows_for_group [slot_rules]: "keeps (slots_are sl) (read_rows_for_group mgr g)"
  unfolding read_rows_for_group_def by (intro keeps_rules slot_rules) (simp add: keeps_def)

lemma slots_resync_file [slot_rules]: "keeps (slots_are sl) (resync_file mgr now sub t r f)"
  unfolding resync_file_def Let_def by (intro keeps_rules slot_rules) (auto intro!: keeps_rules slot_rules split: option.split)

lemma slots_resync_files [slot_rules]: "keeps (slots_are sl) (resync_files mgr now sub t r fs)"
  unfolding resync_files_def by (intro keeps_rules slot_rules)

lemma slots_resync_rows [slot_rules]: "keeps (slots_are sl) (resync_rows mgr now sub rows n)"
  by (induction rows arbitrary: n) (auto intro!: keeps_rules slot_rules)

lemma slots_apply_op [slot_rules]: "keeps (slots_are sl) (apply_op mgr now sub wop)"
  by (cases wop) (auto intro!: keeps_rules slot_rules simp: apply_rule_op_def apply_membership_op_def apply_group_delete_def split: option.split)

lemma slots_apply_all [slot_rules]: "keeps (slots_are sl) (apply_all mgr now sub entries)"
  by (induction entries) (auto intro!: keeps_rules slot_rules)

lemma slots_replay [slot_rules]: "keeps (slots_are sl) (replay mgr now head sub)"
  unfolding replay_def open_writer_def by (intro keeps_rules slot_rules) (auto intro!: keeps_rules slot_rules split: option.split)

lemma slots_kept: "keeps (slots_are (sw_inflight w, sw_jobs w)) m \<Longrightarrow> m w = (q, w') \<Longrightarrow> sw_inflight w' = sw_inflight w \<and> sw_jobs w' = sw_jobs w"
  using keepsD [of "slots_are (sw_inflight w, sw_jobs w)" m w q w'] by (simp add: slots_are_def)

section \<open>Requests and workers\<close>

text \<open>
  The requests and the workers, interleaved where the code awaits: \<open>busy\<close> lists the subjects whose slot a request or a worker holds at the moment,
  once for each holder. A replay and a build run while their subject is listed.
\<close>

inductive queue_step :: "('s, 't, 'v, 'e, 'l, 'o) snapshot_manager \<Rightarrow> ('s, 'e, 'l, 'o) sync_world \<times> string list \<Rightarrow>
    ('s, 'e, 'l, 'o) sync_world \<times> string list \<Rightarrow> bool" for mgr where
  claimed: "claim_slot sub w = (Inr True, w') \<Longrightarrow> queue_step mgr (w, busy) (w', sub # busy)"
| refused: "claim_slot sub w = (Inr False, w') \<Longrightarrow> queue_step mgr (w, busy) (w', busy)"
| replayed: "sub \<in> set busy \<Longrightarrow> replay mgr now head sub w = (q, w') \<Longrightarrow> queue_step mgr (w, busy) (w', busy)"
| rebuilt: "sub \<in> set busy \<Longrightarrow> build_full n mgr uuid sub w = (b, w') \<Longrightarrow> queue_step mgr (w, busy) (w', busy)"
| handed_over: "sub \<in> set busy \<Longrightarrow> dispatch sub head w = (Inr d, w') \<Longrightarrow> queue_step mgr (w, busy) (w', remove1 sub busy)"
| picked: "sw_jobs w = Some ((sub, head) # jobs) \<Longrightarrow> queue_step mgr (w, busy) (w\<lparr>sw_jobs := Some jobs\<rparr>, sub # busy)"
| finished: "sub \<in> set busy \<Longrightarrow> queue_step mgr (w, busy) (drop_claim sub w, remove1 sub busy)"

definition queued :: "('s, 'e, 'l, 'o) sync_world \<Rightarrow> string list" where
  "queued w = (case sw_jobs w of None \<Rightarrow> [] | Some jobs \<Rightarrow> map fst jobs)"

definition slots_inv :: "('s, 'e, 'l, 'o) sync_world \<times> string list \<Rightarrow> bool" where
  "slots_inv st \<longleftrightarrow> (case st of (w, busy) \<Rightarrow> distinct (busy @ queued w) \<and> sw_inflight w = set busy \<union> set (queued w))"

lemma slots_inv_step:
  assumes "queue_step mgr st st'" and "slots_inv st"
  shows "slots_inv st'"
  using assms
proof cases
  case (replayed sub busy now head w q w')
  then show ?thesis using assms(2) slots_kept [OF slots_replay replayed(4)] by (simp add: slots_inv_def queued_def)
next
  case (rebuilt sub busy n uuid w b w')
  then show ?thesis using assms(2) slots_kept [OF slots_build_full rebuilt(4)] by (simp add: slots_inv_def queued_def)
qed (use assms(2) in \<open>auto simp: slots_inv_def queued_def claim_slot_def dispatch_def drop_claim_def split: option.splits\<close>)

text \<open>Nobody is at work: every slot belongs to a queued job.\<close>

definition slots_idle :: "('s, 'e, 'l, 'o) sync_world \<Rightarrow> bool" where
  "slots_idle w \<longleftrightarrow> distinct (queued w) \<and> sw_inflight w = set (queued w)"

lemma wp_slots:
  assumes "\<And>sl. keeps (slots_are sl) m" and "\<And>q w'. sw_inflight w' = sw_inflight w \<Longrightarrow> sw_jobs w' = sw_jobs w \<Longrightarrow> Q q w'"
  shows "wp m Q w"
  by (rule wpI) (use slots_kept [OF assms(1)] assms(2) in blast)

lemma slots_idle_cong: "sw_inflight w' = sw_inflight w \<Longrightarrow> sw_jobs w' = sw_jobs w \<Longrightarrow> slots_idle w' = slots_idle w"
  by (simp add: slots_idle_def queued_def)

lemma wp_settle:
  fixes mgr :: "('s, 't, 'v, 'e, 'l, 'o) snapshot_manager"
  assumes "distinct (queued w)" and "sub \<notin> set (queued w)" and "sw_inflight w = insert sub (set (queued w))"
  shows "wp (settle mgr head sub r) (\<lambda>_. slots_idle) w"
proof -
  have drop: "slots_idle (drop_claim sub w)" using assms by (simp add: slots_idle_def queued_def drop_claim_def)
  have load: "wp (bind_act (load_applied mgr sub) f) (\<lambda>_. slots_idle) w1"
    if "slots_idle w1" and "\<And>x sl. keeps (slots_are sl) (f x)" for w1 and f :: "u64 option \<Rightarrow> (('s, 'e, 'l, 'o) sync_world, fs_error, advance_outcome option) act"
    by (rule wp_slots) (use that slots_idle_cong [of _ w1] in \<open>auto intro!: keeps_rules slot_rules\<close>)
  show ?thesis
  proof (cases r)
    case (Inl e)
    have "wp (bind_act (load_applied mgr sub) (\<lambda>applied. bind_act (some_act e applied) (\<lambda>seq. ok_act (Some \<lparr>ao_applied_seq = seq, ao_pending = False\<rparr>))))
        (\<lambda>_. slots_idle) (drop_claim sub w)"
      by (rule load [OF drop]) (intro keeps_rules)
    then show ?thesis using Inl drop by (simp add: settle_def wp_def)
  next
    case (Inr oc)
    show ?thesis
    proof (cases oc)
      case (Advanced seq)
      then show ?thesis using Inr drop by (simp add: settle_def wp_def)
    next
      case NeedsFullRebuild
      have "slots_idle (snd (dispatch sub head w))"
        using assms drop by (auto simp: slots_idle_def queued_def dispatch_def split: option.splits)
      moreover have "fst (dispatch sub head w) = Inr (sw_jobs w \<noteq> None)" by (simp add: dispatch_def split: option.split)
      ultimately have "wp (dispatch sub head) (\<lambda>q w'. slots_idle w' \<and> (\<exists>b. q = Inr b)) w" by (auto simp: wp_def split: prod.splits)
      then show ?thesis
        unfolding settle_def Inr NeedsFullRebuild sum.case replay_outcome.case wp_bind [of "dispatch sub head"]
        by (rule wp_mono) (auto simp del: wp_bind intro!: load keeps_rules)
    qed
  qed
qed

lemma wp_advance:
  fixes mgr :: "('s, 't, 'v, 'e, 'l, 'o) snapshot_manager"
  assumes "slots_idle w"
  shows "wp (advance mgr now sub) (\<lambda>q w'. q = Inr None \<or> slots_idle w') w"
proof -
  have won: "wp (bind_act (try_act (replay mgr now head sub)) (\<lambda>result.
         case result of
           Inl e \<Rightarrow> settle mgr head sub (Inl e)
         | Inr None \<Rightarrow> ok_act None
         | Inr (Some outcome) \<Rightarrow> settle mgr head sub (Inr outcome))) (\<lambda>q w'. q = Inr None \<or> slots_idle w') w1"
    if w1: "distinct (queued w1)" "sub \<notin> set (queued w1)" "sw_inflight w1 = insert sub (set (queued w1))" for head w1
    unfolding wp_bind wp_try
  proof (rule wp_slots [OF slots_replay])
    fix r :: "fs_error + replay_outcome option" and w2 :: "('s, 'e, 'l, 'o) sync_world" assume w2: "sw_inflight w2 = sw_inflight w1" "sw_jobs w2 = sw_jobs w1"
    then have "queued w2 = queued w1" by (simp add: queued_def)
    then have "wp (settle mgr head sub x) (\<lambda>_. slots_idle) w2" for x using w1 w2 by (intro wp_settle) simp_all
    then have "wp (settle mgr head sub x) (\<lambda>q w'. q = Inr None \<or> slots_idle w') w2" for x by (rule wp_mono) simp
    then show "case Inr r of Inl e \<Rightarrow> Inl e = Inr None \<or> slots_idle w2 | Inr result \<Rightarrow> wp (case result of Inl e \<Rightarrow> settle mgr head sub (Inl e)
        | Inr None \<Rightarrow> ok_act None | Inr (Some outcome) \<Rightarrow> settle mgr head sub (Inr outcome)) (\<lambda>q w'. q = Inr None \<or> slots_idle w') w2"
      by (auto split: sum.split option.split)
  qed
  have claim: "wp (bind_act (claim_slot sub) (\<lambda>mine.
       if \<not> mine then ok_act (Some \<lparr>ao_applied_seq = or_zero applied, ao_pending = True\<rparr>)
       else
         bind_act (try_act (replay mgr now head sub)) (\<lambda>result.
         case result of
           Inl e \<Rightarrow> settle mgr head sub (Inl e)
         | Inr None \<Rightarrow> ok_act None
         | Inr (Some outcome) \<Rightarrow> settle mgr head sub (Inr outcome)))) (\<lambda>q w'. q = Inr None \<or> slots_idle w') w1"
    if w1: "slots_idle w1" for applied head w1
  proof (cases "sub \<in> sw_inflight w1")
    case True
    then show ?thesis using w1 by (simp add: wp_bind [of "claim_slot sub"] wp_def [of "claim_slot sub"] claim_slot_def insert_absorb)
  next
    case False
    show ?thesis
      unfolding wp_bind [of "claim_slot sub"] wp_def [of "claim_slot sub"] claim_slot_def
      using False won [of "w1\<lparr>sw_inflight := insert sub (sw_inflight w1)\<rparr>"] w1 unfolding slots_idle_def
      by (simp del: wp_bind add: queued_def)
  qed
  show ?thesis
    unfolding advance_def wp_bind [of "on_wal _"]
  proof (rule wp_slots [OF slots_parts(1)])
    fix h :: "fs_error + u64" and w1 :: "('s, 'e, 'l, 'o) sync_world" assume w1: "sw_inflight w1 = sw_inflight w" "sw_jobs w1 = sw_jobs w"
    then have i1: "slots_idle w1" using assms slots_idle_cong by blast
    have "wp (bind_act (load_applied mgr sub) (\<lambda>applied.
       if applied = Some head then ok_act (Some \<lparr>ao_applied_seq = head, ao_pending = False\<rparr>)
       else
         bind_act (claim_slot sub) (\<lambda>mine.
         if \<not> mine then ok_act (Some \<lparr>ao_applied_seq = or_zero applied, ao_pending = True\<rparr>)
         else
           bind_act (try_act (replay mgr now head sub)) (\<lambda>result.
           case result of
             Inl e \<Rightarrow> settle mgr head sub (Inl e)
           | Inr None \<Rightarrow> ok_act None
           | Inr (Some outcome) \<Rightarrow> settle mgr head sub (Inr outcome))))) (\<lambda>q w'. q = Inr None \<or> slots_idle w') w1" for head
      unfolding wp_bind [of "load_applied mgr sub"]
    proof (rule wp_slots [OF slots_load_applied])
      fix a :: "fs_error + u64 option" and w2 :: "('s, 'e, 'l, 'o) sync_world" assume "sw_inflight w2 = sw_inflight w1" "sw_jobs w2 = sw_jobs w1"
      then have i2: "slots_idle w2" using i1 slots_idle_cong by blast
      show "case a of Inl e \<Rightarrow> Inl e = Inr None \<or> slots_idle w2 | Inr applied \<Rightarrow> wp (if applied = Some head then ok_act (Some \<lparr>ao_applied_seq = head, ao_pending = False\<rparr>)
       else
         bind_act (claim_slot sub) (\<lambda>mine.
         if \<not> mine then ok_act (Some \<lparr>ao_applied_seq = or_zero applied, ao_pending = True\<rparr>)
         else
           bind_act (try_act (replay mgr now head sub)) (\<lambda>result.
           case result of
             Inl e \<Rightarrow> settle mgr head sub (Inl e)
           | Inr None \<Rightarrow> ok_act None
           | Inr (Some outcome) \<Rightarrow> settle mgr head sub (Inr outcome)))) (\<lambda>q w'. q = Inr None \<or> slots_idle w') w2"
        using i2 claim [OF i2] by (simp del: wp_bind split: sum.split)
    qed
    then show "case h of Inl e \<Rightarrow> Inl e = Inr None \<or> slots_idle w1 | Inr head \<Rightarrow> wp (bind_act (load_applied mgr sub) (\<lambda>applied.
       if applied = Some head then ok_act (Some \<lparr>ao_applied_seq = head, ao_pending = False\<rparr>)
       else
         bind_act (claim_slot sub) (\<lambda>mine.
         if \<not> mine then ok_act (Some \<lparr>ao_applied_seq = or_zero applied, ao_pending = True\<rparr>)
         else
           bind_act (try_act (replay mgr now head sub)) (\<lambda>result.
           case result of
             Inl e \<Rightarrow> settle mgr head sub (Inl e)
           | Inr None \<Rightarrow> ok_act None
           | Inr (Some outcome) \<Rightarrow> settle mgr head sub (Inr outcome))))) (\<lambda>q w'. q = Inr None \<or> slots_idle w') w1"
      using i1 by (simp del: wp_bind split: sum.split)
  qed
qed

section \<open>Properties\<close>

text \<open>
  C26: no subject is worked on twice at once. However requests and workers interleave, the slot of a subject is held by at most one request, worker or
  queued job, and the in-flight set is exactly the subjects held or queued, so that a claim succeeds exactly if nobody is at work on the subject.
\<close>

theorem build_slots_exclusive:
  assumes "(queue_step mgr)\<^sup>*\<^sup>* (w0, []) (w, busy)" and "sw_inflight w0 = {}" and "queued w0 = []"
  shows "distinct (busy @ queued w) \<and> sw_inflight w = set busy \<union> set (queued w) \<and>
    (fst (claim_slot sub w) = Inr True \<longleftrightarrow> sub \<notin> set busy \<and> sub \<notin> set (queued w))"
proof -
  have "slots_inv (w0, [])" using assms(2,3) by (simp add: slots_inv_def)
  with assms(1) have "slots_inv (w, busy)" by (induction rule: rtranclp_induct) (auto intro: slots_inv_step)
  then show ?thesis by (auto simp: slots_inv_def claim_slot_def)
qed

text \<open>
  A request gives its slot back. When an advance returns, whatever failed in it, the in-flight set is again the set of queued subjects, each
  queued once.
\<close>

theorem advance_returns_slot:
  assumes "advance mgr now sub w = (q, w')" and "q \<noteq> Inr None" and "distinct (queued w)" and "sw_inflight w = set (queued w)"
  shows "distinct (queued w') \<and> sw_inflight w' = set (queued w')"
  using wpD [OF wp_advance assms(1)] assms(2-4) by (simp add: slots_idle_def)

text \<open>
  C27: a queued rebuild is served. With enough fuel a worker takes the first job of the queue, ends its build, whatever fails in it, and frees the slot
  of its subject.
\<close>

theorem pool_step_serves:
  assumes "snapshot_over mgr mabs rabs txov sub" and "files_named (fe_cod (sm_fs mgr)) (mabs (fs_kv (sw_master w)))"
    and "finite (dom (mabs (fs_kv (sw_master w))))" and "finite (dom (rabs (sw_bucket w)))"
    and "sw_jobs w = Some ((sub, head) # jobs)"
  shows "\<exists>n0. \<forall>n \<ge> n0. \<forall>uuid. fst (pool_step n mgr uuid w) = Inr (Some ()) \<and>
    sw_jobs (snd (pool_step n mgr uuid w)) = Some jobs \<and> sw_inflight (snd (pool_step n mgr uuid w)) = sw_inflight w - {sub}"
proof -
  let ?w = "w\<lparr>sw_jobs := Some jobs\<rparr>"
  obtain n0 where n0: "\<And>n uuid. n0 \<le> n \<Longrightarrow> fst (build_full n mgr uuid sub ?w) \<noteq> Inr None"
    using build_full_returns [OF assms(1), of ?w] assms(2-4) by auto
  have "fst (pool_step n mgr uuid w) = Inr (Some ()) \<and> sw_jobs (snd (pool_step n mgr uuid w)) = Some jobs \<and>
      sw_inflight (snd (pool_step n mgr uuid w)) = sw_inflight w - {sub}" if "n0 \<le> n" for n uuid
  proof -
    obtain q w' where run: "build_full n mgr uuid sub ?w = (q, w')" by force
    have "q \<noteq> Inr None" using n0 [OF that, of uuid] run by simp
    moreover have "sw_inflight w' = sw_inflight w" "sw_jobs w' = Some jobs" using slots_kept [OF slots_build_full run] by simp_all
    ultimately show ?thesis using assms(5) run by (auto simp: pool_step_def drop_claim_def split: sum.split option.split)
  qed
  then show ?thesis by blast
qed

text \<open>The request of a subject whose replica was never built queues a rebuild, and the worker serves it.\<close>

definition asked :: "(sync_val mem_kv, mem_enforcer, wal_val mem_kv wal, mem_bucket) sync_world" where
  "asked = snd (advance mem_manager 9 ''alice'' new_replica)"

lemma asked_run: "fst (advance mem_manager 9 ''alice'' new_replica) = Inr (Some \<lparr>ao_applied_seq = 0, ao_pending = True\<rparr>)"
  by code_simp

lemma new_replica_idle: "sw_inflight new_replica = {}" "queued new_replica = []"
  by (simp_all add: new_replica_def sync_state_def queued_def)

theorem advance_returns_slot_witness:
  "advance mem_manager 9 ''alice'' new_replica = (Inr (Some \<lparr>ao_applied_seq = 0, ao_pending = True\<rparr>), asked) \<and>
   sw_inflight asked = set (queued asked)"
proof -
  have run: "advance mem_manager 9 ''alice'' new_replica = (Inr (Some \<lparr>ao_applied_seq = 0, ao_pending = True\<rparr>), asked)"
    using asked_run by (simp add: asked_def prod_eq_iff)
  show ?thesis using advance_returns_slot [OF run] run by (simp add: new_replica_idle)
qed

theorem build_slots_exclusive_witness:
  "(queue_step mem_manager)\<^sup>*\<^sup>* (new_replica, []) (snd (claim_slot ''alice'' new_replica), [''alice'']) \<and>
   fst (claim_slot ''alice'' (snd (claim_slot ''alice'' new_replica))) = Inr False"
proof -
  have "queue_step mem_manager (new_replica, []) (snd (claim_slot ''alice'' new_replica), [''alice''])"
    by (rule queue_step.claimed) (simp add: claim_slot_def new_replica_idle)
  then have run: "(queue_step mem_manager)\<^sup>*\<^sup>* (new_replica, []) (snd (claim_slot ''alice'' new_replica), [''alice''])" by blast
  have "fst (claim_slot ''alice'' (snd (claim_slot ''alice'' new_replica))) \<noteq> Inr True"
    using build_slots_exclusive [OF run new_replica_idle, of "''alice''"] by simp
  then show ?thesis using run by (simp add: claim_slot_def)
qed

theorem pool_step_serves_witness:
  "\<exists>n0. \<forall>n \<ge> n0. \<forall>uuid. sw_jobs (snd (pool_step n mem_manager uuid (stale_replica\<lparr>sw_jobs := Some [(''alice'', 3)], sw_inflight := {''alice''}\<rparr>))) = Some []"
  using pool_step_serves [OF memsnap.snapshot_over_axioms [where sub = "''alice''"], of "stale_replica\<lparr>sw_jobs := Some [(''alice'', 3)], sw_inflight := {''alice''}\<rparr>"]
    two_files_named by (auto simp: stale_replica_def finite_dom_map_of)

end
