(* ===== verification/Rate_Limits.thy ===== *)
theory Rate_Limits
  imports Complex_Main Api_Error
begin

text \<open>
  The cost controls of \<^verbatim>\<open>src/src/limits.rs\<close>: the token buckets of the peers, the sweep of idle ones, the gate on concurrent downloads and
  the middleware. A floating-point number is a rational and each operation on it is the exact one followed by a rounding, which is an argument;
  an instant is a number of nanoseconds. The table of the buckets is listed in the order in which its map iterates.
\<close>

section \<open>Token buckets\<close>

definition IDLE_EVICT :: nat where "IDLE_EVICT = 600 * 1000000000"
definition IDLE_SWEEP_EVERY :: u64 where "IDLE_SWEEP_EVERY = 64"
definition MAX_TRACKED_PEERS :: nat where "MAX_TRACKED_PEERS = 4096"

record bucket_state =
  bs_tokens :: rat
  bs_last :: nat

record token_bucket =
  tb_capacity :: rat
  tb_refill_per_sec :: rat
  tb_buckets :: "(string \<times> bucket_state) list"
  tb_since_sweep :: u64

text \<open>\<open>min_by_key\<close> returns the first of the least elements.\<close>

fun min_by :: "('a \<Rightarrow> nat) \<Rightarrow> 'a list \<Rightarrow> 'a option" where
  "min_by f [] = None"
| "min_by f (x # xs) = (case min_by f xs of None \<Rightarrow> Some x | Some y \<Rightarrow> if f x \<le> f y then Some x else Some y)"

definition drop_key :: "string \<Rightarrow> (string \<times> 'b) list \<Rightarrow> (string \<times> 'b) list" where
  "drop_key k m = filter (\<lambda>e. fst e \<noteq> k) m"

lemma min_by_in: "min_by f xs = Some x \<Longrightarrow> x \<in> set xs"
  by (induction xs arbitrary: x) (auto split: option.splits if_splits)

lemma drop_key_shorter: "e \<in> set m \<Longrightarrow> length (drop_key (fst e) m) < length m"
  unfolding drop_key_def by (rule length_filter_less [of e]) simp_all

function make_room :: "(string \<times> bucket_state) list \<Rightarrow> (string \<times> bucket_state) list" where
  "make_room buckets =
     (if MAX_TRACKED_PEERS \<le> length buckets then
        case min_by (\<lambda>e. bs_last (snd e)) buckets of
          None \<Rightarrow> buckets
        | Some coldest \<Rightarrow> make_room (drop_key (fst coldest) buckets)
      else buckets)"
  by pat_completeness auto
termination
  by (relation "measure length") (auto dest: min_by_in intro: drop_key_shorter)

definition token_bucket_new :: "(rat \<Rightarrow> rat) \<Rightarrow> u32 \<Rightarrow> u32 \<Rightarrow> token_bucket" where
  "token_bucket_new rnd capacity per_minute =
     \<lparr>tb_capacity = of_nat (unat capacity), tb_refill_per_sec = rnd (of_nat (unat per_minute) / 60), tb_buckets = [],
      tb_since_sweep = IDLE_SWEEP_EVERY - 1\<rparr>"

text \<open>The two atomic operations of \<open>sweep_due\<close>, and the call where no other worker comes between them.\<close>

definition sweep_count :: "u64 \<Rightarrow> u64 \<times> u64" where
  "sweep_count counter = (counter, counter + 1)"

definition sweep_claims :: "u64 \<Rightarrow> bool" where
  "sweep_claims seen \<longleftrightarrow> \<not> seen + 1 < IDLE_SWEEP_EVERY"

definition sweep_reset :: "u64 \<Rightarrow> u64 \<Rightarrow> u64" where
  "sweep_reset seen counter = counter - (seen + 1)"

definition sweep_due :: "token_bucket \<Rightarrow> bool \<times> token_bucket" where
  "sweep_due b =
     (case sweep_count (tb_since_sweep b) of (seen, c) \<Rightarrow>
        if \<not> sweep_claims seen then (False, b\<lparr>tb_since_sweep := c\<rparr>)
        else (True, b\<lparr>tb_since_sweep := sweep_reset seen c\<rparr>))"

definition bucket_disabled :: "token_bucket \<Rightarrow> bool" where
  "bucket_disabled b \<longleftrightarrow> tb_refill_per_sec b = 0"

text \<open>\<open>Duration::as_secs_f64\<close>\<close>

definition secs_f64 :: "(rat \<Rightarrow> rat) \<Rightarrow> nat \<Rightarrow> rat" where
  "secs_f64 rnd ns = rnd (rnd (of_nat (ns div 1000000000)) + rnd (rnd (of_nat (ns mod 1000000000)) / 1000000000))"

definition refilled :: "(rat \<Rightarrow> rat) \<Rightarrow> token_bucket \<Rightarrow> nat \<Rightarrow> bucket_state \<Rightarrow> rat" where
  "refilled rnd b now st =
     min (rnd (bs_tokens st + rnd (secs_f64 rnd (now - bs_last st) * tb_refill_per_sec b))) (tb_capacity b)"

definition take_token :: "(rat \<Rightarrow> rat) \<Rightarrow> nat \<Rightarrow> string \<Rightarrow> token_bucket \<Rightarrow> bool \<times> token_bucket" where
  "take_token rnd now key b =
     (if bucket_disabled b then (True, b)
      else
        let buckets = (if key \<in> fst ` set (tb_buckets b) then tb_buckets b else make_room (tb_buckets b) @ [(key, \<lparr>bs_tokens = tb_capacity b, bs_last = now\<rparr>)]);
            tokens = refilled rnd b now (the (map_of buckets key));
            ok = 1 \<le> tokens;
            st = \<lparr>bs_tokens = (if ok then rnd (tokens - 1) else tokens), bs_last = now\<rparr> in
        (ok, b\<lparr>tb_buckets := map (\<lambda>e. if fst e = key then (key, st) else e) buckets\<rparr>))"

definition evict_idle :: "nat \<Rightarrow> token_bucket \<Rightarrow> token_bucket" where
  "evict_idle now b =
     (if bucket_disabled b then b else b\<lparr>tb_buckets := filter (\<lambda>e. now - bs_last (snd e) < IDLE_EVICT) (tb_buckets b)\<rparr>)"

section \<open>The middleware\<close>

text \<open>The text of an address is an argument; a missing one has a bucket of its own.\<close>

definition peer_key :: "('ip \<Rightarrow> string) \<Rightarrow> ('ip \<times> nat) option \<Rightarrow> string" where
  "peer_key to_string addr = (case addr of None \<Rightarrow> ''unknown'' | Some (ip, port) \<Rightarrow> to_string ip)"

definition rate_limit_call :: "(rat \<Rightarrow> rat) \<Rightarrow> nat \<Rightarrow> string \<Rightarrow> ('s, api_error, 'a) act \<Rightarrow> (token_bucket \<times> 's, api_error, 'a) act" where
  "rate_limit_call rnd now key service w =
     (case w of (b, s) \<Rightarrow>
        case sweep_due b of (due, b1) \<Rightarrow>
        let b2 = (if due then evict_idle now b1 else b1) in
        case take_token rnd now key b2 of (ok, b3) \<Rightarrow>
          if ok then (case service s of (r, s') \<Rightarrow> (r, (b3, s'))) else (Inl ApiTooManyRequests, (b3, s)))"

section \<open>The gate on downloads\<close>

text \<open>The semaphore is its number of free permits.\<close>

record concurrency_gate =
  cg_max :: "nat option"
  cg_free :: nat

definition gate_new :: "nat \<Rightarrow> concurrency_gate" where
  "gate_new n = (if n = 0 then \<lparr>cg_max = None, cg_free = 0\<rparr> else \<lparr>cg_max = Some n, cg_free = n\<rparr>)"

definition gate_disabled :: "concurrency_gate \<Rightarrow> bool" where
  "gate_disabled g \<longleftrightarrow> cg_max g = None"

definition gate_acquire :: "concurrency_gate \<Rightarrow> bool \<times> concurrency_gate" where
  "gate_acquire g =
     (if gate_disabled g then (False, g)
      else if cg_free g = 0 then (False, g)
      else (True, g\<lparr>cg_free := cg_free g - 1\<rparr>))"

text \<open>The body that holds a permit is dropped: it ended, the client left or the task was cancelled.\<close>

definition permit_drop :: "concurrency_gate \<Rightarrow> concurrency_gate" where
  "permit_drop g = g\<lparr>cg_free := cg_free g + 1\<rparr>"

section \<open>Evictions\<close>

lemma min_by_None [simp]: "min_by f xs = None \<longleftrightarrow> xs = []"
  by (cases xs) (auto split: option.splits)

lemma min_by_least: "min_by f xs = Some x \<Longrightarrow> y \<in> set xs \<Longrightarrow> f x \<le> f y"
  by (induction xs arbitrary: x) (fastforce split: option.splits if_splits)+

declare make_room.simps [simp del]

text \<open>There is room for one more, and what went was no more recent than what stayed.\<close>

lemma make_room_room: "length (make_room m) < MAX_TRACKED_PEERS"
proof (induction m rule: make_room.induct)
  case (1 m)
  show ?case
  proof (cases "MAX_TRACKED_PEERS \<le> length m")
    case True
    then have "m \<noteq> []" by (auto simp: MAX_TRACKED_PEERS_def)
    then obtain c where c: "min_by (\<lambda>e. bs_last (snd e)) m = Some c" by (metis min_by_None option.exhaust)
    show ?thesis using 1 [OF True c] True c by (subst make_room.simps) simp
  next
    case False
    then show ?thesis by (subst make_room.simps) simp
  qed
qed

lemma make_room_subset:
  "set (make_room m) \<subseteq> set m \<and> (distinct (map fst m) \<longrightarrow> distinct (map fst (make_room m)))"
proof (induction m rule: make_room.induct)
  case (1 m)
  have fil: "distinct (map fst m) \<Longrightarrow> distinct (map fst (drop_key k m))" "set (drop_key k m) \<subseteq> set m" for k
    by (auto simp: drop_key_def intro: distinct_map_filter)
  show ?case
  proof (cases "MAX_TRACKED_PEERS \<le> length m \<and> m \<noteq> []")
    case True
    then obtain c where c: "min_by (\<lambda>e. bs_last (snd e)) m = Some c" by (metis min_by_None option.exhaust)
    have "make_room m = make_room (drop_key (fst c) m)" using True c by (subst make_room.simps) simp
    then show ?thesis using 1 [OF conjunct1 [OF True] c] fil [of "fst c"] by auto
  next
    case False
    then have "make_room m = m" by (subst make_room.simps) auto
    then show ?thesis by simp
  qed
qed

lemma make_room_coldest:
  "distinct (map fst m) \<Longrightarrow> e \<in> set m \<Longrightarrow> e \<notin> set (make_room m) \<Longrightarrow> e' \<in> set (make_room m) \<Longrightarrow> bs_last (snd e) \<le> bs_last (snd e')"
proof (induction m rule: make_room.induct)
  case (1 m)
  show ?case
  proof (cases "MAX_TRACKED_PEERS \<le> length m")
    case True
    then have "m \<noteq> []" by (auto simp: MAX_TRACKED_PEERS_def)
    then obtain c where c: "min_by (\<lambda>e. bs_last (snd e)) m = Some c" by (metis min_by_None option.exhaust)
    have step: "make_room m = make_room (drop_key (fst c) m)" using True c by (subst make_room.simps) simp
    have d: "distinct (map fst (drop_key (fst c) m))" using 1(2) by (simp add: drop_key_def distinct_map_filter)
    have e': "e' \<in> set m" using 1(5) make_room_subset [of m] by blast
    show ?thesis
    proof (cases "e \<in> set (drop_key (fst c) m)")
      case True
      show ?thesis using 1(1) [OF \<open>MAX_TRACKED_PEERS \<le> length m\<close> c d True] 1(4,5) step by simp
    next
      case False
      then have "fst e = fst c" using 1(3) by (simp add: drop_key_def)
      then have "e = c" using 1(2,3) min_by_in [OF c] by (metis eq_key_imp_eq_value prod.collapse)
      then show ?thesis using min_by_least [OF c e'] by simp
    qed
  next
    case False
    then have "make_room m = m" by (subst make_room.simps) simp
    then show ?thesis using 1 by simp
  qed
qed

section \<open>The invariant of the table\<close>

text \<open>What is used of the rounding: it is monotone, and exact on the integers a capacity may be.\<close>

definition rounds :: "(rat \<Rightarrow> rat) \<Rightarrow> bool" where
  "rounds rnd \<longleftrightarrow> mono rnd \<and> (\<forall>n \<le> 2 ^ 32. rnd (of_nat n) = of_nat n)"

definition bucket_ok :: "token_bucket \<Rightarrow> bool" where
  "bucket_ok b \<longleftrightarrow> (\<exists>n. n < 2 ^ 32 \<and> tb_capacity b = of_nat n) \<and> 0 \<le> tb_refill_per_sec b \<and>
     distinct (map fst (tb_buckets b)) \<and> length (tb_buckets b) \<le> MAX_TRACKED_PEERS \<and>
     (\<forall>(k, st) \<in> set (tb_buckets b). 0 \<le> bs_tokens st \<and> bs_tokens st \<le> tb_capacity b)"

lemma rounds_mono: "rounds rnd \<Longrightarrow> x \<le> y \<Longrightarrow> rnd x \<le> rnd y"
  by (simp add: rounds_def monoD)

lemma rounds_nat: "rounds rnd \<Longrightarrow> n \<le> 2 ^ 32 \<Longrightarrow> rnd (of_nat n) = of_nat n"
  by (simp add: rounds_def)

lemma rounds_pos: "rounds rnd \<Longrightarrow> 0 \<le> x \<Longrightarrow> 0 \<le> rnd x"
  using rounds_mono [of rnd 0 x] rounds_nat [of rnd 0] by simp

lemma rounds_le_nat: "rounds rnd \<Longrightarrow> x \<le> of_nat n \<Longrightarrow> n \<le> 2 ^ 32 \<Longrightarrow> rnd x \<le> of_nat n"
  using rounds_mono [of rnd x "of_nat n"] rounds_nat [of rnd n] by simp

lemma secs_f64_pos:
  assumes "rounds rnd"
  shows "0 \<le> secs_f64 rnd x"
proof -
  have "0 \<le> rnd (rnd (of_nat (x mod 1000000000)) / 1000000000)" by (intro rounds_pos [OF assms] divide_nonneg_nonneg) simp_all
  moreover have "0 \<le> rnd (of_nat (x div 1000000000))" by (intro rounds_pos [OF assms]) simp
  ultimately show ?thesis unfolding secs_f64_def by (intro rounds_pos [OF assms]) simp
qed

lemma refilled_range:
  assumes "rounds rnd" and "0 \<le> tb_refill_per_sec b" and "0 \<le> bs_tokens st" and "0 \<le> tb_capacity b"
  shows "0 \<le> refilled rnd b now st \<and> refilled rnd b now st \<le> tb_capacity b"
proof -
  have "0 \<le> rnd (secs_f64 rnd (now - bs_last st) * tb_refill_per_sec b)"
    by (rule rounds_pos [OF assms(1)], rule mult_nonneg_nonneg [OF secs_f64_pos [OF assms(1)] assms(2)])
  then have "0 \<le> rnd (bs_tokens st + rnd (secs_f64 rnd (now - bs_last st) * tb_refill_per_sec b))"
    using assms(3) by (intro rounds_pos [OF assms(1)]) simp
  then show ?thesis using assms(4) by (simp add: refilled_def)
qed

text \<open>What one call finds and leaves for its key.\<close>

definition entry_for :: "token_bucket \<Rightarrow> nat \<Rightarrow> string \<Rightarrow> bucket_state" where
  "entry_for b now key = (case map_of (tb_buckets b) key of None \<Rightarrow> \<lparr>bs_tokens = tb_capacity b, bs_last = now\<rparr> | Some st \<Rightarrow> st)"

lemma map_update_key: "map_of (map (\<lambda>e. if fst e = k then (k, st) else e) m) k' = (if k' = k \<and> k \<in> fst ` set m then Some st else map_of m k')"
proof (induction m)
  case (Cons e m)
  then show ?case by (cases e; cases "k' = k"; cases "k \<in> fst ` set m") simp_all
qed simp

lemma take_token_steps:
  assumes "\<not> bucket_disabled b" and "take_token rnd now key b = (ok, b')" and "tokens = refilled rnd b now (entry_for b now key)"
  shows "ok = (1 \<le> tokens) \<and> map_of (tb_buckets b') key = Some \<lparr>bs_tokens = (if ok then rnd (tokens - 1) else tokens), bs_last = now\<rparr> \<and>
    tb_capacity b' = tb_capacity b \<and> tb_refill_per_sec b' = tb_refill_per_sec b"
proof -
  have new: "map_of (make_room (tb_buckets b)) key = None" if "key \<notin> fst ` set (tb_buckets b)"
    using that make_room_subset [of "tb_buckets b"] by (auto simp: map_of_eq_None_iff)
  define l where "l = (if key \<in> fst ` set (tb_buckets b) then tb_buckets b else make_room (tb_buckets b) @ [(key, \<lparr>bs_tokens = tb_capacity b, bs_last = now\<rparr>)])"
  have "the (map_of l key) = entry_for b now key"
  proof (cases "key \<in> fst ` set (tb_buckets b)")
    case True
    then obtain st where "map_of (tb_buckets b) key = Some st" by (metis map_of_eq_None_iff option.exhaust)
    then show ?thesis using True by (simp add: l_def entry_for_def)
  next
    case False
    then have "map_of (tb_buckets b) key = None" by (simp add: map_of_eq_None_iff)
    then show ?thesis using False new by (simp add: l_def entry_for_def map_add_def)
  qed
  moreover have "key \<in> fst ` set l" by (simp add: l_def)
  moreover have "take_token rnd now key b = (let tokens = refilled rnd b now (the (map_of l key)) in (1 \<le> tokens,
      b\<lparr>tb_buckets := map (\<lambda>e. if fst e = key then (key, \<lparr>bs_tokens = (if 1 \<le> tokens then rnd (tokens - 1) else tokens), bs_last = now\<rparr>) else e) l\<rparr>))"
    using assms(1) by (simp add: take_token_def Let_def l_def)
  ultimately show ?thesis
    using assms(2,3) by (auto simp: Let_def map_update_key)
qed

lemma take_token_ok:
  assumes "rounds rnd" and "bucket_ok b"
  shows "bucket_ok (snd (take_token rnd now key b))"
proof (cases "bucket_disabled b")
  case True
  then show ?thesis using assms(2) by (simp add: take_token_def)
next
  case False
  obtain n where n: "n < 2 ^ 32" "tb_capacity b = of_nat n" and rest: "0 \<le> tb_refill_per_sec b" "distinct (map fst (tb_buckets b))"
      "length (tb_buckets b) \<le> MAX_TRACKED_PEERS"
    using assms(2) by (auto simp: bucket_ok_def)
  have toks: "0 \<le> bs_tokens st \<and> bs_tokens st \<le> tb_capacity b" if "(k, st) \<in> set (tb_buckets b)" for k st
    using assms(2) that unfolding bucket_ok_def by fast
  define l where "l = (if key \<in> fst ` set (tb_buckets b) then tb_buckets b else make_room (tb_buckets b) @ [(key, \<lparr>bs_tokens = tb_capacity b, bs_last = now\<rparr>)])"
  define tokens where "tokens = refilled rnd b now (the (map_of l key))"
  define st where "st = \<lparr>bs_tokens = (if 1 \<le> tokens then rnd (tokens - 1) else tokens), bs_last = now\<rparr>"
  have b': "snd (take_token rnd now key b) = b\<lparr>tb_buckets := map (\<lambda>e. if fst e = key then (key, st) else e) l\<rparr>"
    using False by (simp add: take_token_def Let_def l_def tokens_def st_def)
  have sub: "set (make_room (tb_buckets b)) \<subseteq> set (tb_buckets b)" "distinct (map fst (make_room (tb_buckets b)))"
    using make_room_subset [of "tb_buckets b"] rest(2) by blast+
  have l: "distinct (map fst l)" "length l \<le> MAX_TRACKED_PEERS"
    using sub rest(2,3) make_room_room [of "tb_buckets b"] by (auto simp: l_def)
  have ltok: "0 \<le> bs_tokens x \<and> bs_tokens x \<le> tb_capacity b" if "(k, x) \<in> set l" for k x
    using that toks sub n(2) by (auto simp: l_def split: if_splits)
  have "key \<in> fst ` set l" by (simp add: l_def)
  then obtain x where "map_of l key = Some x" by (metis map_of_eq_None_iff option.exhaust)
  then have "0 \<le> bs_tokens (the (map_of l key))" using ltok map_of_SomeD by fastforce
  then have t: "0 \<le> tokens \<and> tokens \<le> tb_capacity b"
    unfolding tokens_def using refilled_range [OF assms(1) rest(1)] n(2) by simp
  have "0 \<le> bs_tokens st \<and> bs_tokens st \<le> tb_capacity b"
    using t n rounds_pos [OF assms(1), of "tokens - 1"] rounds_le_nat [OF assms(1), of "tokens - 1" n] by (auto simp: st_def)
  moreover have "map fst (map (\<lambda>e. if fst e = key then (key, st) else e) l) = map fst l" by (simp add: comp_def)
  ultimately show ?thesis
    using l n rest(1) ltok unfolding b' by (auto simp: bucket_ok_def simp del: map_map)
qed

lemma evict_idle_ok: "bucket_ok b \<Longrightarrow> bucket_ok (evict_idle now b)"
  by (auto simp: bucket_ok_def evict_idle_def distinct_map_filter intro: order_trans [OF length_filter_le])

lemma sweep_due_ok: "bucket_ok b \<Longrightarrow> bucket_ok (snd (sweep_due b))"
  by (auto simp: bucket_ok_def sweep_due_def split: prod.split)

section \<open>Bursts\<close>

text \<open>The number of grants of successive calls for one key at one instant.\<close>

fun grants :: "nat \<Rightarrow> (rat \<Rightarrow> rat) \<Rightarrow> nat \<Rightarrow> string \<Rightarrow> token_bucket \<Rightarrow> nat" where
  "grants 0 rnd now key b = 0"
| "grants (Suc k) rnd now key b = (case take_token rnd now key b of (ok, b') \<Rightarrow> of_bool ok + grants k rnd now key b')"

lemma refill_at_once:
  assumes "rounds rnd" and "bs_last st = now" and "bs_tokens st \<le> of_nat j" and "j \<le> 2 ^ 32"
  shows "refilled rnd b now st \<le> of_nat j"
proof -
  have zero: "rnd 0 = 0" using rounds_nat [OF assms(1), of 0] by simp
  then have "secs_f64 rnd 0 = 0" by (simp add: secs_f64_def)
  then have "refilled rnd b now st = min (rnd (bs_tokens st)) (tb_capacity b)" using zero by (simp add: refilled_def assms(2))
  then show ?thesis using rounds_le_nat [OF assms(1,3,4)] by simp
qed

lemma grants_bound:
  assumes "rounds rnd" and "\<not> bucket_disabled b" and "refilled rnd b now (entry_for b now key) \<le> of_nat j" and "j \<le> 2 ^ 32"
  shows "grants k rnd now key b \<le> j"
  using assms(2-4)
proof (induction k arbitrary: b j)
  case (Suc k)
  obtain ok b' where take: "take_token rnd now key b = (ok, b')" by force
  let ?t = "refilled rnd b now (entry_for b now key)"
  note step = take_token_steps [OF Suc.prems(1) take refl]
  have on: "\<not> bucket_disabled b'" using Suc.prems(1) step by (simp add: bucket_disabled_def)
  have e': "entry_for b' now key = \<lparr>bs_tokens = (if ok then rnd (?t - 1) else ?t), bs_last = now\<rparr>" using step by (simp add: entry_for_def)
  show ?case
  proof (cases ok)
    case True
    have "(of_nat 1 :: rat) \<le> of_nat j" using step True Suc.prems(2) by simp
    then obtain i where i: "j = Suc i" by (cases j) (simp_all del: of_nat_Suc)
    have "rnd (?t - 1) \<le> of_nat i" using Suc.prems(2,3) i by (intro rounds_le_nat [OF assms(1)]) simp_all
    then have "refilled rnd b' now (entry_for b' now key) \<le> of_nat i"
      using Suc.prems(3) i True e' by (intro refill_at_once [OF assms(1)]) simp_all
    then have "grants k rnd now key b' \<le> i" using Suc.IH [OF on] Suc.prems(3) i by simp
    then show ?thesis using take True i by simp
  next
    case False
    have "refilled rnd b' now (entry_for b' now key) \<le> of_nat j"
      using Suc.prems(2,3) False e' by (intro refill_at_once [OF assms(1)]) simp_all
    then have "grants k rnd now key b' \<le> j" using Suc.IH [OF on] Suc.prems(3) by simp
    then show ?thesis using take False by simp
  qed
qed simp

section \<open>Properties\<close>

text \<open>Any sequence of requests and sweeps, at any times.\<close>

datatype limiter_op = Request nat string | Sweep nat

fun limiter_step :: "(rat \<Rightarrow> rat) \<Rightarrow> token_bucket \<Rightarrow> limiter_op \<Rightarrow> token_bucket" where
  "limiter_step rnd b (Request now key) = fst (snd (rate_limit_call rnd now key (ok_act ()) (b, ())))"
| "limiter_step rnd b (Sweep now) = evict_idle now b"

lemma rate_limit_bucket:
  "fst (snd (rate_limit_call rnd now key service (b, s))) =
     snd (take_token rnd now key (if fst (sweep_due b) then evict_idle now (snd (sweep_due b)) else snd (sweep_due b)))"
  by (simp add: rate_limit_call_def Let_def split: prod.split)

lemma limiter_step_ok:
  assumes "rounds rnd" and "bucket_ok b"
  shows "bucket_ok (limiter_step rnd b x)"
proof (cases x)
  case (Request now key)
  show ?thesis unfolding Request limiter_step.simps rate_limit_bucket
    by (rule take_token_ok [OF assms(1)]) (simp add: evict_idle_ok sweep_due_ok assms(2))
qed (simp add: evict_idle_ok assms(2))

lemma new_bucket_ok:
  assumes "rounds rnd"
  shows "bucket_ok (token_bucket_new rnd capacity per_minute)"
proof -
  have "unat capacity < 2 ^ 32" using unsigned_less [of capacity, where ?'a = nat] by simp
  moreover have "0 \<le> rnd (of_nat (unat per_minute) / 60)"
    by (rule rounds_pos [OF assms], rule divide_nonneg_nonneg) (rule of_nat_0_le_iff, simp)
  ultimately show ?thesis by (auto simp: bucket_ok_def token_bucket_new_def)
qed

text \<open>
  C28: the table of the limiter is bounded. After any sequence of requests of any peers and sweeps at any times, it tracks at most 4096 peers, each
  once, and no peer has less than no token or more than the capacity.
\<close>

theorem limiter_bounded:
  assumes "rounds rnd" and "b = foldl (limiter_step rnd) (token_bucket_new rnd capacity per_minute) xs"
  shows "length (tb_buckets b) \<le> 4096 \<and> distinct (map fst (tb_buckets b)) \<and>
    (\<forall>(k, st) \<in> set (tb_buckets b). 0 \<le> bs_tokens st \<and> bs_tokens st \<le> of_nat (unat capacity))"
proof -
  have cap: "tb_capacity (limiter_step rnd x y) = tb_capacity x" for x y
    by (cases y) (auto simp: rate_limit_call_def evict_idle_def sweep_due_def take_token_def Let_def ok_act_def split: prod.splits)
  have "bucket_ok b \<and> tb_capacity b = of_nat (unat capacity)"
    unfolding assms(2) by (induction xs rule: rev_induct) (simp_all add: new_bucket_ok [OF assms(1)] limiter_step_ok [OF assms(1)] cap, simp add: token_bucket_new_def)
  then show ?thesis by (auto simp: bucket_ok_def MAX_TRACKED_PEERS_def)
qed

lemma exact_rounds: "rounds id"
  by (simp add: rounds_def mono_def)

theorem limiter_bounded_witness:
  "length (tb_buckets (foldl (limiter_step id) (token_bucket_new id 2 60) [Request 5 ''a'', Request 6 ''b'', Sweep 9])) \<le> 4096"
  using limiter_bounded [OF exact_rounds refl, of 2 60 "[Request 5 ''a'', Request 6 ''b'', Sweep 9]"] by blast

text \<open>
  A burst is capped. However many requests a peer sends at one instant to an enabled limiter whose table meets its invariant, it grants at most as
  many as the capacity.
\<close>

theorem burst_capped:
  assumes "rounds rnd" and "bucket_ok b" and "tb_refill_per_sec b \<noteq> 0"
  shows "of_nat (grants k rnd now key b) \<le> tb_capacity b"
proof (cases k)
  case 0
  then show ?thesis using assms(2) by (auto simp: bucket_ok_def)
next
  case (Suc i)
  obtain n where n: "n < 2 ^ 32" "tb_capacity b = of_nat n" using assms(2) by (auto simp: bucket_ok_def)
  have on: "\<not> bucket_disabled b" using assms(3) by (simp add: bucket_disabled_def)
  have "refilled rnd b now st \<le> of_nat n" for st by (simp add: refilled_def n(2))
  then have "grants k rnd now key b \<le> n"
    using grants_bound [OF assms(1) on] n(1) by simp
  then show ?thesis by (simp add: n(2))
qed

theorem burst_capped_witness: "grants 5 id 7 ''a'' (token_bucket_new id 2 60) \<le> 2"
  using burst_capped [OF exact_rounds new_bucket_ok [OF exact_rounds], of 2 60 5 7 "''a''"]
  by (simp add: token_bucket_new_def)

text \<open>
  Two workers may both claim one sweep. When a second worker counts between the two atomic operations of a worker that is due, both find the
  sweep due, and the counter wraps around.
\<close>

theorem sweep_race:
  assumes "sweep_count 63 = (seen1, c1)" and "sweep_count c1 = (seen2, c2)"
  shows "sweep_claims seen1 \<and> sweep_claims seen2 \<and> sweep_reset seen2 (sweep_reset seen1 c2) = - 64"
  using assms by (auto simp: sweep_count_def sweep_claims_def sweep_reset_def IDLE_SWEEP_EVERY_def)

theorem sweep_race_witness: "sweep_claims 63 \<and> sweep_claims 64 \<and> sweep_reset 64 (sweep_reset 63 65) = - 64"
  using sweep_race [of 63 64 64 65] by (simp add: sweep_count_def)

section \<open>The gate\<close>

text \<open>The downloads that hold a permit, with the gate they share.\<close>

inductive gate_run :: "nat \<Rightarrow> concurrency_gate \<times> nat \<Rightarrow> bool" for n where
  opened: "gate_run n (gate_new n, 0)"
| admitted: "gate_run n (g, held) \<Longrightarrow> gate_acquire g = (True, g') \<Longrightarrow> gate_run n (g', Suc held)"
| turned_away: "gate_run n (g, held) \<Longrightarrow> gate_acquire g = (False, g') \<Longrightarrow> gate_run n (g', held)"
| ended: "gate_run n (g, Suc held) \<Longrightarrow> gate_run n (permit_drop g, held)"

text \<open>
  The gate bounds the downloads. In every run of downloads that start, end and are abandoned, an enabled gate has at most its number of
  permits out, and it turns a download away exactly if all of them are.
\<close>

theorem gate_bounds_downloads:
  assumes "gate_run n (g, held)" and "0 < n"
  shows "held \<le> n \<and> (fst (gate_acquire g) \<longleftrightarrow> held < n)"
proof -
  have "cg_max g = Some n \<and> cg_free g + held = n"
    using assms
    by (induction "(g, held)" arbitrary: g held rule: gate_run.induct)
      (auto simp: gate_new_def gate_acquire_def gate_disabled_def permit_drop_def split: if_splits)
  then show ?thesis by (auto simp: gate_acquire_def gate_disabled_def)
qed

theorem gate_bounds_downloads_witness: "gate_run 1 (\<lparr>cg_max = Some 1, cg_free = 0\<rparr>, 1) \<and> \<not> fst (gate_acquire \<lparr>cg_max = Some 1, cg_free = 0\<rparr>)"
proof -
  have "gate_run 1 (\<lparr>cg_max = Some 1, cg_free = 0\<rparr>, Suc 0)"
    by (rule gate_run.admitted [OF gate_run.opened]) (simp add: gate_new_def gate_acquire_def gate_disabled_def)
  then show ?thesis using gate_bounds_downloads [of 1 "\<lparr>cg_max = Some 1, cg_free = 0\<rparr>" 1] by simp
qed

end
