(* ===== verification/Sync_Routes.thy ===== *)
theory Sync_Routes
  imports Snapshot_Slots Rate_Limits Fs_Model
begin

text \<open>
  The routes of the replicas, \<^verbatim>\<open>src/src/sync/route.rs\<close>: the pointer of the caller's replica with its validator, the advance, and the
  gateway to the objects of the replica with its cache headers and its gate. The subject comes from the verified token, so it is an argument. The
  normal form of a path and the read of an object are of the object-store crate and are arguments too.
\<close>

section \<open>Validators\<close>

definition status_etag :: "u64 option \<Rightarrow> u64 \<Rightarrow> string" where
  "status_etag applied head =
     (case applied of
        Some a \<Rightarrow> [CHR 0x22] @ ''snap-'' @ decimal (unat a) @ ''-h'' @ decimal (unat head) @ [CHR 0x22]
      | None \<Rightarrow> [CHR 0x22] @ ''snap-none-h'' @ decimal (unat head) @ [CHR 0x22])"

definition advance_etag :: "u64 \<Rightarrow> bool \<Rightarrow> string" where
  "advance_etag applied_seq pending =
     [CHR 0x22] @ ''snap-'' @ decimal (unat applied_seq) @ ''-p'' @ (if pending then ''1'' else ''0'') @ [CHR 0x22]"

definition normalize_etag :: "string \<Rightarrow> string" where
  "normalize_etag tag =
     (let t1 = trim is_blank tag;
          t2 = trim is_blank (case strip_prefix ''W/'' t1 of None \<Rightarrow> t1 | Some t \<Rightarrow> t) in
      case Option.bind (strip_prefix [CHR 0x22] t2) (strip_suffix [CHR 0x22]) of None \<Rightarrow> t2 | Some t \<Rightarrow> t)"

definition etag_matches :: "string \<Rightarrow> string \<Rightarrow> bool" where
  "etag_matches header etag \<longleftrightarrow>
     (if trim is_blank header = ''*'' then True
      else list_ex (\<lambda>tag. normalize_etag tag = normalize_etag etag) (split_on CHR '','' header))"

definition not_modified :: "string option \<Rightarrow> string \<Rightarrow> bool" where
  "not_modified if_none_match etag = (case header_str if_none_match of None \<Rightarrow> False | Some header \<Rightarrow> etag_matches header etag)"

section \<open>The pointer\<close>

datatype 'b sync_body = NoBody | StatusBody string "u64 option" u64 | AdvanceBody string u64 bool | ObjectBody 'b

record 'b sync_response =
  sr_status :: nat
  sr_etag :: "string option"
  sr_cache_control :: "string option"
  sr_content_type :: "string option"
  sr_content_length :: "nat option"
  sr_body :: "'b sync_body"
  sr_permit :: bool

definition pointer_response :: "nat \<Rightarrow> string \<Rightarrow> 'b sync_body \<Rightarrow> 'b sync_response" where
  "pointer_response status etag body =
     \<lparr>sr_status = status, sr_etag = Some etag, sr_cache_control = None,
      sr_content_type = (if body = NoBody then None else Some ''application/json''), sr_content_length = None, sr_body = body, sr_permit = False\<rparr>"

definition status_handler :: "('s, 't, 'v, 'e, 'l, 'o) snapshot_manager \<Rightarrow> string \<Rightarrow> string option \<Rightarrow>
    (('s, 'e, 'l, 'o) sync_world, fs_error, 'b sync_response) act" where
  "status_handler mgr sub if_none_match =
     bind_act (on_wal (wal_head (fe_ops (sm_fs mgr)) (sm_wal mgr))) (\<lambda>head.
     bind_act (load_applied mgr sub) (\<lambda>applied.
     let etag = status_etag applied head in
     ok_act (if not_modified if_none_match etag then pointer_response 304 etag NoBody
             else pointer_response 200 etag (StatusBody (user_prefix mgr sub) applied head))))"

definition sync_handler :: "('s, 't, 'v, 'e, 'l, 'o) snapshot_manager \<Rightarrow> i64 \<Rightarrow> string \<Rightarrow> string option \<Rightarrow>
    (('s, 'e, 'l, 'o) sync_world, fs_error, 'b sync_response option) act" where
  "sync_handler mgr now sub if_none_match =
     bind_run (advance mgr now sub) (\<lambda>outcome.
     let etag = advance_etag (ao_applied_seq outcome) (ao_pending outcome) in
     ok_act (Some (if not_modified if_none_match etag then pointer_response 304 etag NoBody
                   else pointer_response 200 etag (AdvanceBody (user_prefix mgr sub) (ao_applied_seq outcome) (ao_pending outcome)))))"

section \<open>The objects\<close>

definition MUTABLE_OBJECTS :: "string list" where
  "MUTABLE_OBJECTS = [''manifest.json'', ''ownership.json'', ''probe/canary'']"

definition JSON_OBJECTS :: "string list" where
  "JSON_OBJECTS = [''manifest.json'', ''ownership.json'']"

definition is_one_object_of :: "(string \<Rightarrow> string) \<Rightarrow> string \<Rightarrow> string \<Rightarrow> string list \<Rightarrow> bool" where
  "is_one_object_of path_of path replica_prefix names = list_ex (\<lambda>name. path = path_of (replica_prefix @ ''/'' @ name)) names"

definition is_mutable_object_key :: "(string \<Rightarrow> string) \<Rightarrow> string \<Rightarrow> string \<Rightarrow> bool" where
  "is_mutable_object_key path_of path replica_prefix = is_one_object_of path_of path replica_prefix MUTABLE_OBJECTS"

definition is_json_object_key :: "(string \<Rightarrow> string) \<Rightarrow> string \<Rightarrow> string \<Rightarrow> bool" where
  "is_json_object_key path_of path replica_prefix = is_one_object_of path_of path replica_prefix JSON_OBJECTS"

definition object_cache_headers :: "bool \<Rightarrow> bool \<Rightarrow> 'b sync_response \<Rightarrow> 'b sync_response" where
  "object_cache_headers is_mutable is_json resp =
     resp\<lparr>sr_cache_control := Some (if is_mutable then ''no-cache'' else ''public, max-age=31536000, immutable''),
          sr_content_type := Some (if is_json then ''application/json'' else ''application/octet-stream'')\<rparr>"

definition bare_response :: "nat \<Rightarrow> string option \<Rightarrow> 'b sync_response" where
  "bare_response status etag =
     \<lparr>sr_status = status, sr_etag = etag, sr_cache_control = None, sr_content_type = None, sr_content_length = None, sr_body = NoBody, sr_permit = False\<rparr>"

definition object_not_modified :: "string option \<Rightarrow> bool \<Rightarrow> bool \<Rightarrow> 'b sync_response" where
  "object_not_modified etag is_mutable is_json = object_cache_headers is_mutable is_json (bare_response 304 etag)"

definition object_response :: "'b \<Rightarrow> bool \<Rightarrow> bool \<Rightarrow> string option \<Rightarrow> nat \<Rightarrow> bool \<Rightarrow> 'b sync_response" where
  "object_response bytes is_mutable is_json etag len permit =
     (object_cache_headers is_mutable is_json (bare_response 200 etag))\<lparr>sr_content_length := Some len, sr_body := ObjectBody bytes, sr_permit := permit\<rparr>"

text \<open>
  \<open>object_handler\<close>, over the bucket and the gate. A permit that does not move into the body goes back when the handler returns. An object is its
  validator, the ends of its range and its bytes.
\<close>

definition object_handler :: "('s, 't, 'v, 'e, 'l, 'o) snapshot_manager \<Rightarrow> (string \<Rightarrow> string) \<Rightarrow>
    (string \<Rightarrow> ('o, os_error, string option \<times> (nat \<times> nat) \<times> 'b) act) \<Rightarrow> string \<Rightarrow> string \<Rightarrow> string option \<Rightarrow>
    ('o \<times> concurrency_gate, fs_error, 'b sync_response) act" where
  "object_handler mgr path_of get sub tail if_none_match w =
     (case resolve_object mgr sub tail of
        Inl e \<Rightarrow> (Inl e, w)
      | Inr key \<Rightarrow>
          let object_path = path_of key; replica_prefix = path_of (user_prefix mgr sub);
              is_mutable = is_mutable_object_key path_of object_path replica_prefix;
              is_json = is_json_object_key path_of object_path replica_prefix in
          case gate_acquire (snd w) of (permit, gate) \<Rightarrow>
          let release = (\<lambda>g. if permit then permit_drop g else g) in
          if \<not> permit \<and> \<not> gate_disabled gate then (Inl TooManyRequests, (fst w, gate))
          else case get object_path (fst w) of
            (Inl (OsNotFound _), b) \<Rightarrow> (Inr (bare_response 404 None), (b, release gate))
          | (Inl (OsOther e), b) \<Rightarrow> (Inl (Internal e), (b, release gate))
          | (Inr (etag, (first, last_), bytes), b) \<Rightarrow>
              if (case etag of None \<Rightarrow> False | Some current \<Rightarrow> not_modified if_none_match current)
              then (Inr (object_not_modified etag is_mutable is_json), (b, release gate))
              else (Inr (object_response bytes is_mutable is_json etag (last_ - first) permit), (b, gate)))"

section \<open>Validators are faithful\<close>

lemma trim_quoted [simp]: "trim is_blank (CHR 0x22 # s @ [CHR 0x22]) = CHR 0x22 # s @ [CHR 0x22]"
  by (simp add: trim_def is_blank_def)

lemma normalize_quoted: "normalize_etag ([CHR 0x22] @ s @ [CHR 0x22]) = s"
  by (simp add: normalize_etag_def Let_def strip_prefix_def strip_suffix_def suffix_def)

lemma etag_matches_quoted:
  assumes "CHR '','' \<notin> set s"
  shows "etag_matches ([CHR 0x22] @ s @ [CHR 0x22]) ([CHR 0x22] @ t @ [CHR 0x22]) \<longleftrightarrow> s = t"
proof -
  have "split_on CHR '','' ([CHR 0x22] @ s @ [CHR 0x22]) = [[CHR 0x22] @ s @ [CHR 0x22]]" using assms by (intro split_on_none) simp
  moreover have "trim is_blank ([CHR 0x22] @ s @ [CHR 0x22]) \<noteq> ''*''" by simp
  ultimately show ?thesis unfolding etag_matches_def by (simp only: if_False list.pred_inject list_ex_iff set_simps bex_simps normalize_quoted simp_thms)
qed

lemma decimal_plain [simp]: "CHR ''-'' \<notin> set (decimal n)" "CHR '','' \<notin> set (decimal n)" "CHR ''n'' \<notin> set (decimal n)"
  by (rule digit_not, simp)+

lemma split_dash: "decimal m @ CHR ''-'' # r = decimal n @ CHR ''-'' # t \<longleftrightarrow> m = n \<and> r = t"
proof -
  have "split_once CHR ''-'' (decimal k @ CHR ''-'' # x) = Some (decimal k, x)" for k x by (rule split_once_append) simp
  then show ?thesis by (metis decimal_inj option.inject prod.inject)
qed

lemma none_not_decimal [simp]: "CHR ''n'' # s \<noteq> decimal n @ t" "decimal n @ t \<noteq> CHR ''n'' # s"
  using decimal_plain(3) [of n] decimal_nonempty [of n] by (cases "decimal n"; auto)+

definition status_tag :: "u64 option \<Rightarrow> u64 \<Rightarrow> string" where
  "status_tag applied head = ''snap-'' @ (case applied of Some a \<Rightarrow> decimal (unat a) | None \<Rightarrow> ''none'') @ ''-h'' @ decimal (unat head)"

definition advance_tag :: "u64 \<Rightarrow> bool \<Rightarrow> string" where
  "advance_tag n pending = ''snap-'' @ decimal (unat n) @ ''-p'' @ (if pending then ''1'' else ''0'')"

lemma etag_quoted: "status_etag a h = [CHR 0x22] @ status_tag a h @ [CHR 0x22]" "advance_etag n p = [CHR 0x22] @ advance_tag n p @ [CHR 0x22]"
  by (simp_all add: status_etag_def status_tag_def advance_etag_def advance_tag_def split: option.split)

lemma status_tag_inj: "status_tag a h = status_tag a' h' \<longleftrightarrow> a = a' \<and> h = h'"
  by (cases a; cases a') (auto simp: status_tag_def split_dash decimal_inj word_unat_eq_iff)

lemma advance_tag_inj: "advance_tag n p = advance_tag n' p' \<longleftrightarrow> n = n' \<and> p = p'"
  by (auto simp: advance_tag_def split_dash word_unat_eq_iff)

lemma tag_chars:
  "c \<in> set (status_tag a h) \<Longrightarrow> c \<in> set ''snap-noneh'' \<or> of_char c \<in> {48..<58 :: nat}"
  "c \<in> set (advance_tag n p) \<Longrightarrow> c \<in> set ''snap-p01'' \<or> of_char c \<in> {48..<58 :: nat}"
  by (auto simp: status_tag_def advance_tag_def dest: decimal_digits split: option.splits if_splits)

lemma tag_plain: "CHR '','' \<notin> set (status_tag a h)" "CHR '','' \<notin> set (advance_tag n p)"
  using tag_chars(1) [of "CHR '',''" a h] tag_chars(2) [of "CHR '',''" n p] by auto

lemma tag_visible:
  "c \<in> set (status_tag a h) \<Longrightarrow> CHR '' '' \<le> c \<and> c \<le> CHR ''~''" "c \<in> set (advance_tag n p) \<Longrightarrow> CHR '' '' \<le> c \<and> c \<le> CHR ''~''"
  by (drule tag_chars, auto simp: less_eq_char_def)+

lemma header_quoted: "(\<And>c. c \<in> set s \<Longrightarrow> CHR '' '' \<le> c \<and> c \<le> CHR ''~'') \<Longrightarrow> header_str (Some ([CHR 0x22] @ s @ [CHR 0x22])) = Some ([CHR 0x22] @ s @ [CHR 0x22])"
  by (auto simp: header_str_def list_all_iff)

lemma header_etag: "header_str (Some (status_etag a h)) = Some (status_etag a h)" "header_str (Some (advance_etag n p)) = Some (advance_etag n p)"
  unfolding etag_quoted by (rule header_quoted, erule tag_visible)+

lemma status_not_modified: "not_modified (Some (status_etag a h)) (status_etag a' h') \<longleftrightarrow> a = a' \<and> h = h'"
  unfolding not_modified_def header_etag option.case unfolding etag_quoted etag_matches_quoted [OF tag_plain(1)] by (rule status_tag_inj)

lemma advance_not_modified: "not_modified (Some (advance_etag n p)) (advance_etag n' p') \<longleftrightarrow> n = n' \<and> p = p'"
  unfolding not_modified_def header_etag option.case unfolding etag_quoted etag_matches_quoted [OF tag_plain(2)] by (rule advance_tag_inj)

section \<open>Prefixes of two subjects\<close>

lemma prefixes_apart:
  assumes "length (sm_sha256 mgr s1) = length (sm_sha256 mgr s2)" and "user_prefix mgr s1 @ ''/'' @ t1 = user_prefix mgr s2 @ ''/'' @ t2"
  shows "sm_sha256 mgr s1 = sm_sha256 mgr s2"
proof -
  have "hex_encode (sm_sha256 mgr s1) @ ''/'' @ t1 = hex_encode (sm_sha256 mgr s2) @ ''/'' @ t2" using assms(2) by (simp add: user_prefix_def safe_sub_def)
  moreover have "length (hex_encode (sm_sha256 mgr s1)) = length (hex_encode (sm_sha256 mgr s2))" using assms(1) by (simp add: hex_encode_length)
  ultimately have "hex_encode (sm_sha256 mgr s1) = hex_encode (sm_sha256 mgr s2)" by (simp add: append_eq_append_conv)
  then show ?thesis by (simp add: hex_encode_inj)
qed

lemma resolve_object_under: "resolve_object mgr sub t = Inr k \<Longrightarrow> k = user_prefix mgr sub @ ''/'' @ t \<and> [] \<notin> set (split_on CHR ''/'' t) \<and> ''..'' \<notin> set (split_on CHR ''/'' t)"
  by (auto simp: resolve_object_def list_ex_iff split: if_splits)

section \<open>Properties\<close>

text \<open>
  C29: the gateway shows a caller its own replica only. The answer to a request does not depend on any object outside the prefix of the caller's
  subject, a path that climbs out of it is refused, and no key belongs to the prefixes of two subjects unless the digest, of 32 bytes, collides on
  them.
\<close>

theorem gateway_isolates_subjects:
  assumes "\<And>k. get (path_of (user_prefix mgr sub @ ''/'' @ k)) = get' (path_of (user_prefix mgr sub @ ''/'' @ k))"
    and "\<And>x. length (sm_sha256 mgr x) = 32" and "sm_sha256 mgr sub = sm_sha256 mgr sub2 \<longrightarrow> sub = sub2"
  shows "object_handler mgr path_of get sub tail inm = object_handler mgr path_of get' sub tail inm \<and>
    (''..'' \<in> set (split_on CHR ''/'' tail) \<longrightarrow> fst (object_handler mgr path_of get sub tail inm w) = Inl (BadRequest ''invalid object path'')) \<and>
    (user_prefix mgr sub @ ''/'' @ t1 = user_prefix mgr sub2 @ ''/'' @ t2 \<longrightarrow> sub = sub2)"
proof (intro conjI impI ext)
  show "object_handler mgr path_of get sub tail inm v = object_handler mgr path_of get' sub tail inm v" for v
  proof (cases "resolve_object mgr sub tail")
    case (Inr k)
    then have "get (path_of k) = get' (path_of k)" using resolve_object_under assms(1) by metis
    then show ?thesis by (cases "gate_acquire (snd v)") (simp add: object_handler_def Inr Let_def)
  qed (simp add: object_handler_def)
  show "fst (object_handler mgr path_of get sub tail inm w) = Inl (BadRequest ''invalid object path'')" if "''..'' \<in> set (split_on CHR ''/'' tail)"
    using that by (auto simp: object_handler_def resolve_object_def list_ex_iff)
  show "sub = sub2" if "user_prefix mgr sub @ ''/'' @ t1 = user_prefix mgr sub2 @ ''/'' @ t2"
    using prefixes_apart [OF _ that] assms(2,3) by simp
qed

text \<open>
  C30: a poll is answered without a body exactly if nothing changed. When a client sends the validator of an earlier full answer of its pointer, the
  answer is 304 exactly if a request without a validator would now get the body of that answer.
\<close>

theorem poll_not_modified_exact:
  assumes "status_handler mgr sub h0 w0 = (Inr r0, w0')" and "sr_status r0 = 200"
    and "status_handler mgr sub (sr_etag r0) w = (Inr r, w')" and "status_handler mgr sub None w = (Inr full, w'')"
  shows "sr_status r = 304 \<longleftrightarrow> sr_body full = sr_body r0"
proof -
  obtain a h where r0: "sr_etag r0 = Some (status_etag a h)" "sr_body r0 = StatusBody (user_prefix mgr sub) a h"
    using assms(1,2) by (auto simp: status_handler_def bind_act_def ok_act_def Let_def pointer_response_def split: sum.splits prod.splits if_splits)
  show ?thesis
    using assms(3,4) unfolding r0
    by (auto simp: status_handler_def bind_act_def ok_act_def Let_def pointer_response_def not_modified_def [of None] header_str_def [of None] status_not_modified
        split: sum.splits prod.splits if_splits)
qed

text \<open>
  No permit of the gate is lost. Whatever the gateway answers, the permits that are free and the one that travels with the body are as many as
  were free before, and a permit is taken only if one was free.
\<close>

theorem gateway_keeps_permits:
  assumes "object_handler mgr path_of get sub tail inm (b, g) = (q, (b', g'))"
  shows "cg_max g' = cg_max g \<and> cg_free g = cg_free g' + (case q of Inr r \<Rightarrow> of_bool (sr_permit r) | Inl _ \<Rightarrow> 0)"
proof (cases "gate_acquire g")
  case (Pair permit gate)
  then have g: "cg_max gate = cg_max g" "cg_free g = cg_free gate + of_bool permit"
    by (auto simp: gate_acquire_def split: if_splits)
  show ?thesis
    using assms g
    by (auto simp: object_handler_def Pair Let_def permit_drop_def bare_response_def object_not_modified_def object_response_def object_cache_headers_def
        split: sum.splits prod.splits os_error.splits if_splits)
qed

text \<open>
  An object that changes under its name is never cached as immutable. Whatever spelling of the path reaches it, an answer for one of the three
  mutable objects tells the client to revalidate, and a 304 carries the same cache headers as the full answer.
\<close>

theorem mutable_objects_revalidate:
  assumes "object_handler mgr path_of get sub tail inm w = (Inr r, w')" and "sr_status r = 200 \<or> sr_status r = 304"
    and "path_of (user_prefix mgr sub @ ''/'' @ tail) = path_of (path_of (user_prefix mgr sub) @ ''/'' @ name)" and "name \<in> set MUTABLE_OBJECTS"
  shows "sr_cache_control r = Some ''no-cache''"
proof -
  obtain k where k: "resolve_object mgr sub tail = Inr k" using assms(1) by (cases "resolve_object mgr sub tail") (auto simp: object_handler_def)
  then have "k = user_prefix mgr sub @ ''/'' @ tail" using resolve_object_under by metis
  then have "is_mutable_object_key path_of (path_of k) (path_of (user_prefix mgr sub))"
    using assms(3,4) by (auto simp: is_mutable_object_key_def is_one_object_of_def list_ex_iff)
  then show ?thesis
    using assms(1,2)
    by (auto simp: object_handler_def k Let_def bare_response_def object_not_modified_def object_response_def object_cache_headers_def
        split: sum.splits prod.splits os_error.splits if_splits)
qed

section \<open>Witnesses\<close>

text \<open>A bucket whose every object has the same bytes, and a digest of 32 bytes.\<close>

definition same_object :: "string \<Rightarrow> (mem_bucket, os_error, string option \<times> (nat \<times> nat) \<times> string) act" where
  "same_object p = ok_act (Some ''tag'', (0, 2), ''hi'')"

definition padded :: "(sync_val mem_kv, (string \<times> sync_val option) list, sync_val, mem_enforcer, wal_val mem_kv wal, mem_bucket) snapshot_manager" where
  "padded = mem_manager\<lparr>sm_sha256 := (\<lambda>s. take 32 (s @ replicate 32 CHR ''.''))\<rparr>"

lemma same_object_run:
  "resolve_object mem_manager ''alice'' ''manifest.json'' = Inr (user_prefix mem_manager ''alice'' @ ''/manifest.json'')"
  "object_handler mem_manager id same_object ''alice'' ''manifest.json'' None ([], gate_new 1) =
     (Inr (object_response ''hi'' True True (Some ''tag'') 2 True), ([], \<lparr>cg_max = Some 1, cg_free = 0\<rparr>))"
proof -
  show key: "resolve_object mem_manager ''alice'' ''manifest.json'' = Inr (user_prefix mem_manager ''alice'' @ ''/manifest.json'')" by code_simp
  show "object_handler mem_manager id same_object ''alice'' ''manifest.json'' None ([], gate_new 1) =
     (Inr (object_response ''hi'' True True (Some ''tag'') 2 True), ([], \<lparr>cg_max = Some 1, cg_free = 0\<rparr>))"
    by (simp add: object_handler_def key gate_acquire_def gate_new_def gate_disabled_def same_object_def ok_act_def Let_def not_modified_def header_str_def
        is_mutable_object_key_def is_json_object_key_def is_one_object_of_def MUTABLE_OBJECTS_def JSON_OBJECTS_def)
qed

theorem gateway_isolates_subjects_witness:
  "object_handler padded id same_object ''alice'' ''manifest.json'' None =
     object_handler padded id (\<lambda>p. if prefix (user_prefix padded ''alice'') p then same_object p else err_act (OsOther ''down'')) ''alice'' ''manifest.json'' None"
  by (rule gateway_isolates_subjects [where ?sub2.0 = "''carol''", THEN conjunct1]) (auto simp: padded_def)

theorem gateway_keeps_permits_witness:
  "object_handler mem_manager id same_object ''alice'' ''manifest.json'' None ([], gate_new 1) =
     (Inr (object_response ''hi'' True True (Some ''tag'') 2 True), ([], \<lparr>cg_max = Some 1, cg_free = 0\<rparr>)) \<and> cg_free (gate_new 1) = 1"
  using gateway_keeps_permits [OF same_object_run(2)] same_object_run(2) by (simp add: object_response_def)

theorem mutable_objects_revalidate_witness: "sr_cache_control (object_response ''hi'' True True (Some ''tag'') 2 True) = Some ''no-cache''"
  using mutable_objects_revalidate [OF same_object_run(2), of "''manifest.json''"]
  by (simp add: object_response_def object_cache_headers_def bare_response_def MUTABLE_OBJECTS_def)

lemma pointer_run:
  "on_wal (wal_head (fe_ops (sm_fs mem_manager)) (sm_wal mem_manager)) new_replica = (Inr 3, new_replica)"
  "load_applied mem_manager ''alice'' new_replica = (Inr None, new_replica)"
  by code_simp+

definition first_pointer :: "string option \<Rightarrow> unit sync_response" where
  "first_pointer h = (let etag = status_etag None 3 in
     if not_modified h etag then pointer_response 304 etag NoBody else pointer_response 200 etag (StatusBody (user_prefix mem_manager ''alice'') None 3))"

lemma first_pointer_run: "status_handler mem_manager ''alice'' h new_replica = (Inr (first_pointer h), new_replica)"
  using pointer_run by (simp add: status_handler_def bind_act_def ok_act_def first_pointer_def Let_def)

theorem poll_not_modified_exact_witness: "sr_status (first_pointer (sr_etag (first_pointer None))) = 304"
proof -
  have "sr_status (first_pointer None) = 200" by (simp add: first_pointer_def not_modified_def header_str_def pointer_response_def)
  then show ?thesis using poll_not_modified_exact [OF first_pointer_run _ first_pointer_run first_pointer_run, of None] by simp
qed

end
