(* ===== verification/Fs_Tokens.thy ===== *)
theory Fs_Tokens
  imports Policy_Adapter
begin

text \<open>
  The capability tokens of \<^verbatim>\<open>src/src/fs/token.rs\<close> and the keys of \<^verbatim>\<open>src/src/fs/mod.rs\<close> that sign them. A string is its bytes. The
  digest and the token library are arguments: \<open>jl_encode\<close> signs claims with a secret, \<open>jl_decode\<close> answers the claims of a token whose
  signature verifies and that has not expired by the clock it reads. The random key of an unconfigured run is an argument.
\<close>

section \<open>Secrets\<close>

record fs_claims =
  fc_sub :: string
  fc_file_id :: string
  fc_act :: string
  fc_exp :: u64

record jwt_lib =
  jl_encode :: "string \<Rightarrow> fs_claims \<Rightarrow> string \<Rightarrow> string + string"
  jl_decode :: "string \<Rightarrow> string \<Rightarrow> u64 \<Rightarrow> fs_claims option"

definition DEFAULT_TTL_SECS :: u64 where "DEFAULT_TTL_SECS = 300"

text \<open>\<open>u8::from_str_radix\<close> on two hexadecimal digits.\<close>

definition hex_value :: "char \<Rightarrow> nat" where
  "hex_value c = (let n = of_char c in if n \<le> 57 then n - 48 else if n \<le> 70 then n - 55 else n - 87)"

fun hex_pairs :: "string \<Rightarrow> string" where
  "hex_pairs (a # b # r) = char_of (16 * hex_value a + hex_value b) # hex_pairs r"
| "hex_pairs _ = []"

definition parse_secret_hex :: "string \<Rightarrow> string + string" where
  "parse_secret_hex s =
     (if length s \<noteq> 64 \<or> \<not> list_all is_ascii_hexdigit s
      then Inl (''capability secret must be 64 hex chars (32 bytes), got '' @ decimal (length s) @ '' chars'')
      else Inr (hex_pairs s))"

definition kid_for :: "(string \<Rightarrow> string) \<Rightarrow> string \<Rightarrow> string" where
  "kid_for sha256 secret = hex_encode (take 4 (sha256 secret))"

section \<open>Tokens\<close>

definition mint :: "jwt_lib \<Rightarrow> i64 \<Rightarrow> string \<Rightarrow> string \<Rightarrow> action \<Rightarrow> string \<Rightarrow> string \<Rightarrow> u64 option \<Rightarrow> fs_error + string" where
  "mint lib now sub file_id act kid secret ttl_secs =
     (let exp = word_of_int now + (case ttl_secs of None \<Rightarrow> DEFAULT_TTL_SECS | Some t \<Rightarrow> t) in
      case jl_encode lib kid \<lparr>fc_sub = sub, fc_file_id = file_id, fc_act = act_text act, fc_exp = exp\<rparr> secret of
        Inl e \<Rightarrow> Inl (Internal e)
      | Inr token \<Rightarrow> Inr token)"

text \<open>The library reads the clock for the decode and the code reads it again: \<open>seen\<close> and \<open>now\<close>.\<close>

fun verify :: "jwt_lib \<Rightarrow> u64 \<Rightarrow> u64 \<Rightarrow> string \<Rightarrow> string \<Rightarrow> action \<Rightarrow> string list \<Rightarrow> fs_error + fs_claims" where
  "verify lib seen now token file_id act [] = Inl Forbidden"
| "verify lib seen now token file_id act (secret # secrets) =
     (case jl_decode lib token secret seen of
        None \<Rightarrow> verify lib seen now token file_id act secrets
      | Some claims \<Rightarrow>
          if fc_exp claims < now then Inl Forbidden
          else if fc_file_id claims \<noteq> file_id \<or> fc_act claims \<noteq> act_text act then Inl Forbidden
          else Inr claims)"

section \<open>Keys\<close>

record token_key =
  tk_kid :: string
  tk_secret :: string

record token_keys =
  tks_current :: token_key
  tks_previous :: "token_key option"

definition token_key_of :: "(string \<Rightarrow> string) \<Rightarrow> string \<Rightarrow> token_key" where
  "token_key_of sha256 secret = \<lparr>tk_kid = kid_for sha256 secret, tk_secret = secret\<rparr>"

definition token_keys_ephemeral :: "(string \<Rightarrow> string) \<Rightarrow> string \<Rightarrow> token_keys" where
  "token_keys_ephemeral sha256 random = \<lparr>tks_current = token_key_of sha256 random, tks_previous = None\<rparr>"

definition token_keys_from_hex :: "(string \<Rightarrow> string) \<Rightarrow> string \<Rightarrow> string option \<Rightarrow> fs_error + token_keys" where
  "token_keys_from_hex sha256 current previous =
     (case parse_secret_hex current of
        Inl e \<Rightarrow> Inl (BadRequest e)
      | Inr c \<Rightarrow>
          (case previous of
             None \<Rightarrow> Inr \<lparr>tks_current = token_key_of sha256 c, tks_previous = None\<rparr>
           | Some s \<Rightarrow>
               (case parse_secret_hex s of
                  Inl e \<Rightarrow> Inl (BadRequest e)
                | Inr p \<Rightarrow> Inr \<lparr>tks_current = token_key_of sha256 c, tks_previous = Some (token_key_of sha256 p)\<rparr>)))"

definition keys_mint :: "jwt_lib \<Rightarrow> i64 \<Rightarrow> token_keys \<Rightarrow> string \<Rightarrow> string \<Rightarrow> action \<Rightarrow> fs_error + string" where
  "keys_mint lib now keys sub file_id act =
     mint lib now sub file_id act (tk_kid (tks_current keys)) (tk_secret (tks_current keys)) None"

definition keys_verify :: "jwt_lib \<Rightarrow> u64 \<Rightarrow> u64 \<Rightarrow> token_keys \<Rightarrow> string \<Rightarrow> string \<Rightarrow> action \<Rightarrow> fs_error + unit" where
  "keys_verify lib seen now keys token file_id act =
     (case verify lib seen now token file_id act
             (tk_secret (tks_current keys) # (case tks_previous keys of None \<Rightarrow> [] | Some k \<Rightarrow> [tk_secret k])) of
        Inl e \<Rightarrow> Inl e
      | Inr _ \<Rightarrow> Inr ())"

section \<open>Secrets are read back\<close>

lemma hex_value_digit: "n < 16 \<Longrightarrow> hex_value (hex_digit n) = n"
  by (auto simp: hex_value_def hex_digit_def Let_def)

lemma hex_pairs_encode: "hex_pairs (hex_encode s) = s"
  by (induction s) (simp_all add: hex_encode_Cons hex_value_digit char_halves)

lemma hex_pairs_len: "length (hex_pairs s) = length s div 2"
  by (induction s rule: hex_pairs.induct) simp_all

lemma parse_secret_encode: "parse_secret_hex (hex_encode s) = (if length s = 32 then Inr s else Inl (''capability secret must be 64 hex chars (32 bytes), got '' @ decimal (2 * length s) @ '' chars''))"
  by (auto simp: parse_secret_hex_def hex_encode_length hex_encode_hex hex_pairs_encode)

lemma parse_secret_len: "parse_secret_hex s = Inr k \<Longrightarrow> length k = 32"
  by (auto simp: parse_secret_hex_def hex_pairs_len split: if_splits)

lemma act_text_eq: "act_text a = act_text b \<longleftrightarrow> a = b"
  by (cases a; cases b) simp_all

section \<open>Properties\<close>

text \<open>
  C35: a token grants exactly what it was minted for. Keys that were configured as the hexadecimal form of two secrets of 32 bytes mint a token; it is
  accepted by them, and by the next keys that keep the secret as the previous one, for its own file and action until 300 seconds have passed, and for
  no other file, no other action and at no later time.
\<close>

theorem token_grants_exactly:
  assumes "\<And>kid c s tk at. jl_encode lib kid c s = Inr tk \<Longrightarrow> jl_decode lib tk s at = (if fc_exp c < at then None else Some c)"
    and "\<And>kid c s tk s' at. jl_encode lib kid c s = Inr tk \<Longrightarrow> s' \<noteq> s \<Longrightarrow> jl_decode lib tk s' at = None"
    and "length old = 32" and "length new = 32"
    and "token_keys_from_hex sha256 (hex_encode old) None = Inr keys"
    and "token_keys_from_hex sha256 (hex_encode new) (Some (hex_encode old)) = Inr rotated"
    and "keys_mint lib t keys sub file act = Inr token" and "0 \<le> t" and "t + 300 < 2 ^ 63"
    and "ks \<in> {keys, rotated}" and "seen \<le> now"
  shows "keys_verify lib seen now ks token f a = (if f = file \<and> a = act \<and> uint now \<le> t + 300 then Inr () else Inl Forbidden)"
proof -
  let ?c = "\<lparr>fc_sub = sub, fc_file_id = file, fc_act = act_text act, fc_exp = word_of_int t + 300\<rparr>"
  have old: "tk_secret (tks_current keys) = old" "tks_previous keys = None"
    using assms(3,5) by (auto simp: token_keys_from_hex_def parse_secret_encode token_key_of_def)
  have new: "tk_secret (tks_current rotated) = new" "map_option tk_secret (tks_previous rotated) = Some old"
    using assms(3,4,6) by (auto simp: token_keys_from_hex_def parse_secret_encode token_key_of_def)
  have enc: "jl_encode lib (tk_kid (tks_current keys)) ?c old = Inr token"
    using assms(7) by (auto simp: keys_mint_def mint_def old DEFAULT_TTL_SECS_def Let_def split: sum.splits)
  have exp: "fc_exp ?c < n \<longleftrightarrow> t + 300 < uint n" for n
  proof -
    have "uint (word_of_int (t + 300) :: u64) = t + 300" unfolding uint_word_of_int using assms(8,9) by (intro mod_pos_pos_trivial) simp_all
    then show ?thesis by (simp add: word_less_def)
  qed
  have one: "verify lib seen now token f a [old] = (if f = file \<and> a = act \<and> uint now \<le> t + 300 then Inr ?c else Inl Forbidden)"
    using assms(11) exp [of now] exp [of seen] unfolding verify.simps assms(1) [OF enc] by (auto simp: act_text_eq word_le_def)
  have two: "new \<noteq> old \<Longrightarrow> verify lib seen now token f a [new, old] = verify lib seen now token f a [old]"
    using assms(2) [OF enc, of new] by simp
  have same: "verify lib seen now token f a [old, old] = verify lib seen now token f a [old]"
    by (simp split: option.split)
  have "verify lib seen now token f a (tk_secret (tks_current ks) # (case tks_previous ks of None \<Rightarrow> [] | Some k \<Rightarrow> [tk_secret k])) =
      verify lib seen now token f a [old]"
    using assms(10) old new two same by (cases "new = old") (auto simp del: verify.simps)
  then show ?thesis unfolding keys_verify_def one by simp
qed

text \<open>A library that signs by writing the secret and the claims out.\<close>

definition plain_encode :: "string \<Rightarrow> fs_claims \<Rightarrow> string \<Rightarrow> string + string" where
  "plain_encode kid c s =
     Inr (hex_encode s @ CHR ''.'' # hex_encode (fc_sub c) @ CHR ''.'' # hex_encode (fc_file_id c) @ CHR ''.'' # hex_encode (fc_act c) @ CHR ''.'' # decimal (unat (fc_exp c)))"

definition plain_decode :: "string \<Rightarrow> string \<Rightarrow> u64 \<Rightarrow> fs_claims option" where
  "plain_decode t s now =
     (case split_on CHR ''.'' t of
        [k, a, b, c, e] \<Rightarrow>
          (if k \<noteq> hex_encode s \<or> of_nat (read_decimal e) < now then None
           else Some \<lparr>fc_sub = hex_pairs a, fc_file_id = hex_pairs b, fc_act = hex_pairs c, fc_exp = of_nat (read_decimal e)\<rparr>)
      | _ \<Rightarrow> None)"

definition plain_lib :: jwt_lib where
  "plain_lib = \<lparr>jl_encode = plain_encode, jl_decode = plain_decode\<rparr>"

lemma dot_free: "CHR ''.'' \<notin> set (hex_encode s)" "CHR ''.'' \<notin> set (decimal n)"
proof -
  show "CHR ''.'' \<notin> set (hex_encode s)" using hex_encode_hex [of s] by (auto simp: list_all_iff is_ascii_hexdigit_def Let_def)
  show "CHR ''.'' \<notin> set (decimal n)" using decimal_digits [of "CHR ''.''" n] by auto
qed

lemma plain_roundtrip:
  "jl_encode plain_lib kid c s = Inr tk \<Longrightarrow> jl_decode plain_lib tk s' at = (if s' \<noteq> s \<or> fc_exp c < at then None else Some c)"
  by (auto simp: plain_lib_def plain_encode_def plain_decode_def split_on_append split_on_none dot_free hex_encode_inj read_decimal_decimal hex_pairs_encode)

theorem token_grants_exactly_witness:
  "\<exists>keys token. token_keys_from_hex id (hex_encode (replicate 32 CHR ''k'')) None = Inr keys \<and>
     keys_mint plain_lib 1000 keys ''ann'' ''f1'' Read = Inr token \<and>
     keys_verify plain_lib 1200 1200 keys token ''f1'' Read = Inr () \<and> keys_verify plain_lib 1301 1301 keys token ''f1'' Read = Inl Forbidden"
proof -
  let ?k = "replicate 32 CHR ''k''"
  obtain keys where k: "token_keys_from_hex id (hex_encode ?k) None = Inr keys" by (auto simp: token_keys_from_hex_def parse_secret_encode)
  obtain rot where r: "token_keys_from_hex id (hex_encode ?k) (Some (hex_encode ?k)) = Inr rot" by (auto simp: token_keys_from_hex_def parse_secret_encode)
  obtain token where t: "keys_mint plain_lib 1000 keys ''ann'' ''f1'' Read = Inr token"
    by (auto simp: keys_mint_def mint_def plain_lib_def plain_encode_def Let_def)
  have "keys_verify plain_lib n n keys token ''f1'' Read = (if uint n \<le> 1300 then Inr () else Inl Forbidden)" for n
    using token_grants_exactly [OF _ _ _ _ k r t, of keys n n "''f1''" Read] plain_roundtrip by simp
  then show ?thesis using k t by force
qed

end
