(* ===== verification/Fs_Routes.thy ===== *)
theory Fs_Routes
  imports Engine_Props Api_Error Fs_Tokens
begin

text \<open>
  The routes of \<^verbatim>\<open>src/src/fs/route.rs\<close>: the range of a download, the name it is offered under, and the handlers over the file engine. The
  caller is the subject of the verified claims. The characters of a name are the code points below 256, for which \<open>char::is_control\<close> and
  \<open>char::is_whitespace\<close> are written out. Headers are values of the response; the stream of a body is the stream of the object.
\<close>

section \<open>Ranges\<close>

datatype range_outcome = Full | Ranged u64 u64 | Unsatisfiable

definition parse_range :: "string option \<Rightarrow> u64 \<Rightarrow> range_outcome" where
  "parse_range header len =
     (case Option.bind (map_option (trim is_blank) header) (strip_prefix ''bytes='') of
        None \<Rightarrow> Full
      | Some spec \<Rightarrow>
          if CHR '','' \<in> set spec then Full
          else case split_once CHR ''-'' spec of
            None \<Rightarrow> Full
          | Some (start_s, end_s) \<Rightarrow>
              if len = 0 then Unsatisfiable
              else if start_s = [] then
                (case parse_u64 end_s of
                   None \<Rightarrow> Full
                 | Some n \<Rightarrow> if n = 0 then Full else Ranged (len - min n len) (len - 1))
              else case parse_u64 start_s of
                None \<Rightarrow> Full
              | Some start \<Rightarrow>
                  if start \<ge> len then Unsatisfiable
                  else case (if end_s = [] then Some (len - 1) else map_option (\<lambda>e. min e (len - 1)) (parse_u64 end_s)) of
                    None \<Rightarrow> Full
                  | Some end_inclusive \<Rightarrow> if end_inclusive < start then Full else Ranged start end_inclusive)"

section \<open>File names\<close>

definition is_control :: "char \<Rightarrow> bool" where
  "is_control c \<longleftrightarrow> (let n = of_char c :: nat in n < 32 \<or> 127 \<le> n \<and> n < 160)"

definition is_whitespace :: "char \<Rightarrow> bool" where
  "is_whitespace c \<longleftrightarrow> (let n = of_char c :: nat in 9 \<le> n \<and> n \<le> 13 \<or> n = 32 \<or> n = 133 \<or> n = 160)"

definition base_name :: "string \<Rightarrow> string" where
  "base_name name = rev (takeWhile (\<lambda>c. c \<noteq> CHR ''/'' \<and> c \<noteq> CHR 0x5C) (rev name))"

definition sanitize_filename :: "string \<Rightarrow> string" where
  "sanitize_filename name =
     (let cleaned = map (\<lambda>c. if c = CHR 0x22 \<or> c = CHR 0x5C then CHR ''_'' else c) (filter (\<lambda>c. \<not> is_control c) (base_name name));
          truncated = trim is_whitespace (take 100 (trim is_whitespace cleaned)) in
      if truncated = [] then ''file'' else truncated)"

section \<open>Handlers\<close>

datatype fs_body = EmptyBody | FileIdJson string | ProgressJson progress_response | MetaJson file_metadata | StreamBody object_stream

record fs_response =
  rp_status :: nat
  rp_content_type :: "string option"
  rp_disposition :: "string option"
  rp_accept_ranges :: "string option"
  rp_content_length :: "u64 option"
  rp_content_range :: "string option"
  rp_body :: fs_body

datatype route_error = FsFailed fs_error | ApiFailed api_error

definition plain_reply :: "nat \<Rightarrow> fs_body \<Rightarrow> fs_response" where
  "plain_reply status body = \<lparr>rp_status = status, rp_content_type = None, rp_disposition = None, rp_accept_ranges = None,
     rp_content_length = None, rp_content_range = None, rp_body = body\<rparr>"

definition download :: "nat \<Rightarrow> file_record \<Rightarrow> string option \<Rightarrow> object_stream \<Rightarrow> fs_response" where
  "download status rec content_range obj =
     \<lparr>rp_status = status, rp_content_type = Some (fr_mimetype rec),
      rp_disposition = Some (''inline; filename='' @ [CHR 0x22] @ sanitize_filename (fr_name rec) @ [CHR 0x22]),
      rp_accept_ranges = Some ''bytes'', rp_content_length = Some (str_size obj), rp_content_range = content_range, rp_body = StreamBody obj\<rparr>"

definition get_file_route :: "('s, 't, 'v, 'o, 'l) fs_engine \<Rightarrow> string option \<Rightarrow> string \<Rightarrow> string \<Rightarrow> (('s, 'o, 'l) fs_world, fs_error, fs_response) act" where
  "get_file_route eng range_header file_id caller =
     bind_act (get_metadata eng file_id caller) (\<lambda>m.
     case parse_range (header_str range_header) (fm_size m) of
       Full \<Rightarrow> bind_act (get_object eng file_id caller) (\<lambda>(rec, obj). ok_act (download 200 rec None obj))
     | Ranged start end_inclusive \<Rightarrow>
         bind_act (get_object_range eng file_id caller start (end_inclusive + 1)) (\<lambda>(rec, obj).
         let stop = start + (str_size obj - (if str_size obj = 0 then 0 else 1)) in
         ok_act (download 206 rec
           (Some (''bytes '' @ decimal (unat start) @ ''-'' @ decimal (unat stop) @ ''/'' @ decimal (unat (fm_size m)))) obj))
     | Unsatisfiable \<Rightarrow>
         ok_act ((plain_reply 416 EmptyBody)\<lparr>rp_content_range := Some (''bytes */'' @ decimal (unat (fm_size m)))\<rparr>))"

definition init_upload_route :: "('s, 't, 'v, 'o, 'l) fs_engine \<Rightarrow> (u64 \<Rightarrow> bool) \<Rightarrow> i64 \<Rightarrow> string \<Rightarrow> init_request \<Rightarrow> string \<Rightarrow>
    (('s, 'o, 'l) fs_world, fs_error, fs_response) act" where
  "init_upload_route eng fits now fresh req caller =
     bind_act (init_upload eng fits now fresh req caller) (\<lambda>file_id. ok_act (plain_reply 201 (FileIdJson file_id)))"

text \<open>The headers of a part: the checksum under either name, and a length that is a number.\<close>

definition checksum_header :: "string option \<Rightarrow> string option \<Rightarrow> string option" where
  "checksum_header x_checksum checksum = (case header_str x_checksum of Some s \<Rightarrow> Some s | None \<Rightarrow> header_str checksum)"

definition upload_part_route :: "('s, 't, 'v, 'o, 'l) fs_engine \<Rightarrow> string \<Rightarrow> u64 \<Rightarrow> (string + bytes) list \<Rightarrow> string option \<Rightarrow> string option \<Rightarrow>
    string option \<Rightarrow> string \<Rightarrow> (('s, 'o, 'l) fs_world, fs_error, fs_response) act" where
  "upload_part_route eng file_id idx payload x_checksum checksum content_length caller =
     bind_act (upload_part eng file_id idx (map (\<lambda>r. case r of Inl _ \<Rightarrow> Inl (BadRequest ''request body interrupted'') | Inr b \<Rightarrow> Inr b) payload)
       (Option.bind (header_str content_length) parse_u64) (checksum_header x_checksum checksum) caller) (\<lambda>_.
     ok_act (plain_reply 204 EmptyBody))"

definition complete_upload_route :: "('s, 't, 'v, 'o, 'l) fs_engine \<Rightarrow> i64 \<Rightarrow> i64 \<Rightarrow> string \<Rightarrow> complete_request \<Rightarrow> string \<Rightarrow>
    (('s, 'o, 'l) fs_world, fs_error, fs_response) act" where
  "complete_upload_route eng now ts file_id req caller =
     bind_act (res_act (validate_complete is_whitespace req)) (\<lambda>_.
     bind_act (complete_upload eng now ts file_id req caller) (\<lambda>_. ok_act (plain_reply 200 (FileIdJson file_id))))"

definition cancel_upload_route :: "('s, 't, 'v, 'o, 'l) fs_engine \<Rightarrow> string \<Rightarrow> string \<Rightarrow> (('s, 'o, 'l) fs_world, fs_error, fs_response) act" where
  "cancel_upload_route eng file_id caller =
     bind_act (cancel_upload eng file_id caller) (\<lambda>_. ok_act (plain_reply 204 EmptyBody))"

definition get_progress_route :: "('s, 't, 'v, 'o, 'l) fs_engine \<Rightarrow> (u64 \<Rightarrow> u64 \<Rightarrow> u64) \<Rightarrow> string \<Rightarrow> string \<Rightarrow>
    (('s, 'o, 'l) fs_world, fs_error, fs_response) act" where
  "get_progress_route eng ratio file_id caller =
     bind_act (get_progress eng ratio file_id caller) (\<lambda>p. ok_act (plain_reply 200 (ProgressJson p)))"

definition get_metadata_route :: "('s, 't, 'v, 'o, 'l) fs_engine \<Rightarrow> string \<Rightarrow> string \<Rightarrow> (('s, 'o, 'l) fs_world, fs_error, fs_response) act" where
  "get_metadata_route eng file_id caller =
     bind_act (get_metadata eng file_id caller) (\<lambda>m. ok_act (plain_reply 200 (MetaJson m)))"

definition delete_file_route :: "('s, 't, 'v, 'o, 'l) fs_engine \<Rightarrow> i64 \<Rightarrow> string \<Rightarrow> string \<Rightarrow> (('s, 'o, 'l) fs_world, fs_error, fs_response) act" where
  "delete_file_route eng ts file_id caller =
     bind_act (engine_delete_file eng ts file_id caller) (\<lambda>_. ok_act (plain_reply 204 EmptyBody))"

section \<open>Ranges are inside the object\<close>

lemma trim_set: "set (trim p s) \<subseteq> set s"
  by (auto simp: trim_def dest!: set_dropWhileD)

lemma trim_length: "length (trim p s) \<le> length s"
  unfolding trim_def length_rev using length_dropWhile_le [of p s] length_dropWhile_le [of p "rev (dropWhile p s)"] by simp

lemma trim_ends: "trim p s \<noteq> [] \<Longrightarrow> \<not> p (hd (trim p s)) \<and> \<not> p (last (trim p s))"
proof -
  let ?u = "dropWhile p s" and ?t = "dropWhile p (rev (dropWhile p s))"
  assume "trim p s \<noteq> []"
  then have t: "?t \<noteq> []" and u: "?u \<noteq> []" by (auto simp: trim_def dest: set_dropWhileD)
  have "last ?t = last (rev ?u)" using t by (subst dropWhile_eq_drop, subst last_drop) (auto simp: dropWhile_eq_drop)
  then have "last ?t = hd ?u" using u by (simp add: last_rev)
  then show ?thesis using hd_dropWhile [OF u] hd_dropWhile [OF t] t by (simp add: trim_def hd_rev last_rev)
qed

lemma trim_id: "s = [] \<or> \<not> p (hd s) \<and> \<not> p (last s) \<Longrightarrow> trim p s = s"
proof -
  assume ends: "s = [] \<or> \<not> p (hd s) \<and> \<not> p (last s)"
  then have "dropWhile p s = s" by (cases s) auto
  moreover have "dropWhile p (rev s) = rev s" using ends by (cases s rule: rev_cases) auto
  ultimately show ?thesis by (simp add: trim_def)
qed

lemma last_index:
  fixes n k :: u64
  assumes "n \<noteq> 0"
  shows "n - 1 < n" and "k \<noteq> 0 \<Longrightarrow> n - min k n \<le> n - 1"
proof -
  have pos: "0 < unat n" using assms by (simp add: unat_gt_0)
  have one: "unat (n - 1) = unat n - 1" using assms by (rule unat_minus_one)
  then show "n - 1 < n" using pos by (simp add: word_less_nat_alt)
  show "n - min k n \<le> n - 1" if "k \<noteq> 0"
  proof -
    have "0 < unat (min k n)" using assms that by (simp add: unat_gt_0 min_def)
    then show ?thesis using one by (simp add: word_le_nat_alt unat_sub [OF min.cobounded2])
  qed
qed

lemma next_index:
  fixes e n :: u64
  assumes "e < n"
  shows "unat (e + 1) = unat e + 1" and "e + 1 \<le> n"
proof -
  have "unat e + 1 < 2 ^ 64" using assms unsigned_less [of n, where 'a = nat] by (simp add: word_less_nat_alt)
  then show u: "unat (e + 1) = unat e + 1" by (simp add: unat_word_ariths)
  show "e + 1 \<le> n" using assms unfolding word_le_nat_alt u word_less_nat_alt by simp
qed

lemma parse_range_inside:
  assumes "parse_range h n = Ranged s e"
  shows "s \<le> e" and "e < n" and "clamp_range n s (e + 1) = (s, e + 1)"
proof -
  have n: "n \<noteq> 0" using assms by (auto simp: parse_range_def split: option.splits if_splits)
  show se: "s \<le> e" and en: "e < n"
    using assms n last_index [OF n] by (auto simp: parse_range_def not_less split: option.splits if_splits intro: le_less_trans [OF min.cobounded2])
  have "s \<le> e + 1" "s \<le> n" using se en next_index [OF en] by (simp_all add: word_le_nat_alt word_less_nat_alt)
  then show "clamp_range n s (e + 1) = (s, e + 1)" using next_index(2) [OF en] by (simp add: clamp_range_def min_absorb1 max_absorb1)
qed

subsection \<open>The requests, as they are written\<close>

text \<open>
  The specification of a range, over whole numbers and independent of the parser. A number is written in decimal, with
  zeros before it or without. A header asks for a span, for all from an offset, for the last bytes; it has a range with a bound that is no
  number (after a start that may be one); or it has no range: it is missing, of another unit, of several ranges or without a dash.
\<close>

datatype range_request = NoRange | Span nat nat | From nat | Last nat | Garbled "nat option"

definition written :: "string \<Rightarrow> nat \<Rightarrow> bool" where
  "written s n \<longleftrightarrow> n < 2 ^ 64 \<and> (\<exists>k. s = replicate k CHR ''0'' @ decimal n)"

definition no_number :: "string \<Rightarrow> bool" where
  "no_number s \<longleftrightarrow> (\<exists>c \<in> set s. of_char c \<notin> {48..<58 :: nat} \<and> c \<noteq> CHR ''+'')"

fun asks :: "string \<Rightarrow> range_request \<Rightarrow> bool" where
  "asks u NoRange \<longleftrightarrow> \<not> prefix ''bytes='' u \<or> CHR '','' \<in> set u \<or> CHR ''-'' \<notin> set u"
| "asks u (Span a b) \<longleftrightarrow> (\<exists>s e. u = ''bytes='' @ s @ ''-'' @ e \<and> written s a \<and> written e b)"
| "asks u (From a) \<longleftrightarrow> (\<exists>s. u = ''bytes='' @ s @ ''-'' \<and> written s a)"
| "asks u (Last n) \<longleftrightarrow> (\<exists>e. u = ''bytes=-'' @ e \<and> written e n)"
| "asks u (Garbled None) \<longleftrightarrow> CHR '','' \<notin> set u \<and> (\<exists>s e. u = ''bytes='' @ s @ ''-'' @ e \<and> CHR ''-'' \<notin> set s \<and>
     (no_number s \<or> s = [] \<and> (e = [] \<or> no_number e)))"
| "asks u (Garbled (Some a)) \<longleftrightarrow> CHR '','' \<notin> set u \<and> (\<exists>s e. u = ''bytes='' @ s @ ''-'' @ e \<and> written s a \<and> no_number e)"

definition requested :: "string option \<Rightarrow> range_request \<Rightarrow> bool" where
  "requested header req \<longleftrightarrow> (case header of None \<Rightarrow> req = NoRange | Some t \<Rightarrow> asks (trim is_blank t) req)"

text \<open>
  What the comment on \<open>parse_range\<close> promises for each of them, on an object of \<open>len\<close> bytes: no range can be met on an empty object, a
  range past the end cannot, and a header that is no usable range, bounds in reverse order included, is answered with the whole.
\<close>

datatype range_answer = Whole | Part nat nat | NoPart

fun promised :: "range_request \<Rightarrow> nat \<Rightarrow> range_answer" where
  "promised NoRange len = Whole"
| "promised (Span a b) len = (if len = 0 then NoPart else if b < a then Whole else if len \<le> a then NoPart else Part a (min b (len - 1)))"
| "promised (From a) len = (if len \<le> a then NoPart else Part a (len - 1))"
| "promised (Last n) len = (if len = 0 then NoPart else if n = 0 then Whole else Part (len - min n len) (len - 1))"
| "promised (Garbled x) len = Whole"

text \<open>
  Where the code answers otherwise: it compares the start with the length before it looks at the end, and the length with zero before it reads
  either, and says that the range cannot be met.
\<close>

fun refused_early :: "range_request \<Rightarrow> nat \<Rightarrow> bool" where
  "refused_early (Span a b) len \<longleftrightarrow> b < a \<and> len \<le> a"
| "refused_early (Garbled x) len \<longleftrightarrow> len = 0 \<or> (\<exists>a. x = Some a \<and> len \<le> a)"
| "refused_early _ len \<longleftrightarrow> False"

definition answered :: "range_request \<Rightarrow> nat \<Rightarrow> range_answer" where
  "answered req len = (if refused_early req len then NoPart else promised req len)"

fun outcome_of :: "range_answer \<Rightarrow> range_outcome" where
  "outcome_of Whole = Full"
| "outcome_of (Part x y) = Ranged (of_nat x) (of_nat y)"
| "outcome_of NoPart = Unsatisfiable"

lemma answered_inside: "answered req len = Part x y \<Longrightarrow> x \<le> y \<and> y < len"
  by (cases req) (auto simp: answered_def split: if_splits)

lemma written_digits: "written s n \<Longrightarrow> c \<in> set s \<Longrightarrow> of_char c \<in> {48..<58 :: nat}"
  using decimal_digits by (auto simp: written_def)

lemma written_chars: "written s n \<Longrightarrow> s \<noteq> [] \<and> CHR ''-'' \<notin> set s \<and> CHR '','' \<notin> set s"
  using written_digits [of s n "CHR ''-''"] written_digits [of s n "CHR '',''"] by (auto simp: written_def decimal_nonempty)

lemma parse_written:
  assumes "written s n"
  shows "parse_u64 s = Some (of_nat n)"
proof -
  obtain c r where s: "s = c # r" using written_chars [OF assms] by (cases s) auto
  have "list_all is_digit s" using written_digits [OF assms] by (simp add: list_all_iff is_digit_def)
  moreover have "c \<noteq> CHR ''+''" using written_digits [OF assms, of c] s by auto
  moreover have "read_decimal s = n" using assms by (auto simp: written_def read_decimal_zeroes read_decimal_decimal)
  ultimately show ?thesis using assms s by (simp add: parse_u64_def written_def)
qed

lemma parse_no_number: "no_number s \<Longrightarrow> parse_u64 s = None"
proof -
  assume "no_number s"
  then obtain c where "c \<in> set s" "\<not> is_digit c" "c \<noteq> CHR ''+''" by (auto simp: no_number_def is_digit_def)
  then show ?thesis by (cases s) (auto simp: parse_u64_def list_all_iff Let_def)
qed

text \<open>The parser on a range with one dash that splits it, by the two bounds.\<close>

lemma parse_bounds:
  assumes "trim is_blank t = ''bytes='' @ s @ ''-'' @ e" and "CHR ''-'' \<notin> set s" and "CHR '','' \<notin> set s" and "CHR '','' \<notin> set e"
  shows "parse_range (Some t) n =
     (if n = 0 then Unsatisfiable
      else if s = [] then (case parse_u64 e of None \<Rightarrow> Full | Some k \<Rightarrow> if k = 0 then Full else Ranged (n - min k n) (n - 1))
      else case parse_u64 s of None \<Rightarrow> Full | Some x \<Rightarrow>
        if x \<ge> n then Unsatisfiable
        else case (if e = [] then Some (n - 1) else map_option (\<lambda>y. min y (n - 1)) (parse_u64 e)) of
          None \<Rightarrow> Full | Some y \<Rightarrow> if y < x then Full else Ranged x y)"
proof -
  have "split_once CHR ''-'' (s @ ''-'' @ e) = Some (s, e)" using split_once_append [OF assms(2)] by simp
  then show ?thesis
    unfolding parse_range_def option.map assms(1) Option.bind.simps bind.simps strip_prefix_append option.case
    using assms(3,4) by simp
qed

lemma parse_no_range:
  assumes "asks (trim is_blank t) NoRange"
  shows "parse_range (Some t) n = Full"
proof (cases "strip_prefix ''bytes='' (trim is_blank t)")
  case None
  then show ?thesis by (simp add: parse_range_def)
next
  case (Some spec)
  then have "trim is_blank t = ''bytes='' @ spec" by (auto simp: strip_prefix_def prefix_def split: if_splits)
  then have "CHR '','' \<in> set spec \<or> split_once CHR ''-'' spec = None" using assms by (auto simp: split_once_None)
  then show ?thesis by (auto simp: parse_range_def Some)
qed

lemma unat_of_nat_u64: "k < 2 ^ 64 \<Longrightarrow> unat (of_nat k :: u64) = k"
  by (simp add: unsigned_of_nat take_bit_nat_eq_self)

lemma of_nat_min_last:
  fixes n :: u64
  assumes "b < 2 ^ 64" and "n \<noteq> 0"
  shows "min (of_nat b) (n - 1) = of_nat (min b (unat n - 1))"
unfolding word_unat_eq_iff
proof -
  have "unat (of_nat b :: u64) = b" using assms(1) by (simp add: unat_of_nat_u64)
  moreover have "min b (unat n - 1) < 2 ^ 64" using assms(1) by simp
  ultimately show "unat (min (of_nat b) (n - 1)) = unat (of_nat (min b (unat n - 1)) :: u64)"
    using unat_minus_one [OF assms(2)] by (simp add: unat_of_nat_u64 min_def word_le_nat_alt)
qed

lemma bound_of_nat:
  fixes n :: u64
  assumes "a < 2 ^ 64"
  shows "n \<le> of_nat a \<longleftrightarrow> unat n \<le> a" "of_nat a < n \<longleftrightarrow> a < unat n" "b < 2 ^ 64 \<Longrightarrow> (of_nat b :: u64) < of_nat a \<longleftrightarrow> b < a"
    "(of_nat a :: u64) = 0 \<longleftrightarrow> a = 0"
  using assms by (simp_all add: word_le_nat_alt word_less_nat_alt unat_of_nat_u64 unat_eq_0 [symmetric])

lemma parse_range_answers:
  assumes "requested h req"
  shows "parse_range h n = outcome_of (answered req (unat n))"
proof (cases h)
  case None
  then show ?thesis using assms by (simp add: requested_def parse_range_def answered_def)
next
  case (Some t)
  then have asks: "asks (trim is_blank t) req" using assms by (simp add: requested_def)
  have z: "n = 0 \<longleftrightarrow> unat n = 0" by (simp add: unat_eq_0)
  have last: "n - 1 = of_nat (unat n - 1)" if "n \<noteq> 0" using unat_minus_one [OF that] unsigned_less [of n, where 'a = nat]
    by (simp add: word_unat_eq_iff unat_of_nat_u64)
  show ?thesis
  proof (cases req)
    case NoRange
    then show ?thesis using parse_no_range asks by (simp add: Some answered_def)
  next
    case (Span a b)
    then obtain s e where u: "trim is_blank t = ''bytes='' @ s @ ''-'' @ e" and w: "written s a" "written e b" using asks by auto
    have lt: "a < 2 ^ 64" "b < 2 ^ 64" "min b (unat n - 1) < 2 ^ 64" using w by (auto simp: written_def)
    let ?y = "min b (unat n - 1)"
    have "parse_range (Some t) n = (if n = 0 \<or> n \<le> of_nat a then Unsatisfiable
        else if min (of_nat b) (n - 1) < of_nat a then Full else Ranged (of_nat a) (min (of_nat b) (n - 1)))"
      using parse_bounds [OF u, of n] written_chars [OF w(1)] written_chars [OF w(2)]
      by (simp add: parse_written [OF w(1)] parse_written [OF w(2)])
    also have "\<dots> = (if n = 0 \<or> unat n \<le> a then Unsatisfiable else if ?y < a then Full else Ranged (of_nat a) (of_nat ?y))"
      by (simp add: of_nat_min_last [OF lt(2)] bound_of_nat(1) [OF lt(1)] bound_of_nat(3) [OF lt(1) lt(3)] del: One_nat_def)
    also have "\<dots> = outcome_of (answered (Span a b) (unat n))"
      using z by (auto simp: answered_def)
    finally show ?thesis by (simp add: Some Span)
  next
    case (From a)
    then obtain s where u: "trim is_blank t = ''bytes='' @ s @ ''-'' @ []" and w: "written s a" using asks by auto
    have lt: "a < 2 ^ 64" "unat n - 1 < 2 ^ 64" using w unsigned_less [of n, where 'a = nat] by (auto simp: written_def)
    have "parse_range (Some t) n = (if n = 0 \<or> n \<le> of_nat a then Unsatisfiable else if n - 1 < of_nat a then Full else Ranged (of_nat a) (n - 1))"
      using parse_bounds [OF u, of n] written_chars [OF w] by (simp add: parse_written [OF w])
    also have "\<dots> = (if n = 0 \<or> unat n \<le> a then Unsatisfiable else if unat n - 1 < a then Full else Ranged (of_nat a) (of_nat (unat n - 1)))"
    proof (cases "n = 0")
      case False
      show ?thesis unfolding bound_of_nat(1) [OF lt(1)] last [OF False] bound_of_nat(3) [OF lt(1) lt(2)] by (rule refl)
    qed simp
    also have "\<dots> = outcome_of (answered (From a) (unat n))"
      using z by (auto simp: answered_def)
    finally show ?thesis by (simp add: Some From)
  next
    case (Last k)
    then obtain e where u: "trim is_blank t = ''bytes='' @ [] @ ''-'' @ e" and w: "written e k" using asks by auto
    have lt: "k < 2 ^ 64" using w by (auto simp: written_def)
    have "unat (min (of_nat k) n) = min k (unat n)" using lt by (simp add: min_def word_le_nat_alt unat_of_nat_u64)
    then have "unat (n - min (of_nat k) n) = unat n - min k (unat n)" by (simp only: unat_sub [OF min.cobounded2])
    then have part: "n - min (of_nat k) n = of_nat (unat n - min k (unat n))"
      using unsigned_less [of n, where 'a = nat] by (simp add: word_unat_eq_iff unat_of_nat_u64 del: of_nat_diff)
    show ?thesis
      using parse_bounds [OF u, of n] written_chars [OF w] last part
      by (auto simp: Some Last answered_def parse_written [OF w] bound_of_nat [OF lt] z)
  next
    case (Garbled x)
    show ?thesis
    proof (cases x)
      case None
      then obtain s e where u: "trim is_blank t = ''bytes='' @ s @ ''-'' @ e" and dash: "CHR ''-'' \<notin> set s"
        and comma: "CHR '','' \<notin> set (trim is_blank t)" and bad: "no_number s \<or> s = [] \<and> (e = [] \<or> no_number e)"
        using asks [unfolded Garbled None asks.simps] by blast
      have commas: "CHR '','' \<notin> set s" "CHR '','' \<notin> set e" using comma by (simp_all add: u)
      have "parse_u64 [] = None" by (simp add: parse_u64_def)
      then have "if s = [] then parse_u64 e = None else parse_u64 s = None"
        using bad parse_no_number [of s] parse_no_number [of e] by (auto simp: no_number_def)
      then show ?thesis
        using parse_bounds [OF u dash commas, of n] z by (cases "s = []") (simp_all add: Some Garbled None answered_def)
    next
      case (Some a)
      then obtain s e where u: "trim is_blank t = ''bytes='' @ s @ ''-'' @ e" and w: "written s a" "CHR '','' \<notin> set e" "no_number e"
        using asks Garbled by auto
      have lt: "a < 2 ^ 64" using w by (auto simp: written_def)
      have "e \<noteq> []" using w(3) by (auto simp: no_number_def)
      then show ?thesis
        using parse_bounds [OF u _ _ w(2), of n] written_chars [OF w(1)]
        by (auto simp: \<open>h = Some t\<close> Garbled Some answered_def z parse_written [OF w(1)] parse_no_number [OF w(3)] bound_of_nat [OF lt])
    qed
  qed
qed

section \<open>Names are safe\<close>

definition safe_char :: "char \<Rightarrow> bool" where
  "safe_char c \<longleftrightarrow> \<not> is_control c \<and> c \<noteq> CHR 0x22 \<and> c \<noteq> CHR 0x5C \<and> c \<noteq> CHR ''/''"

definition safe_name :: "string \<Rightarrow> bool" where
  "safe_name s \<longleftrightarrow> s \<noteq> [] \<and> length s \<le> 100 \<and> list_all safe_char s \<and> \<not> is_whitespace (hd s) \<and> \<not> is_whitespace (last s)"

lemma base_name_chars: "c \<in> set (base_name s) \<Longrightarrow> c \<noteq> CHR ''/'' \<and> c \<noteq> CHR 0x5C \<and> c \<in> set s"
  by (auto simp: base_name_def dest: set_takeWhileD)

lemma base_name_id: "CHR ''/'' \<notin> set s \<Longrightarrow> CHR 0x5C \<notin> set s \<Longrightarrow> base_name s = s"
  unfolding base_name_def by (subst takeWhile_eq_all_conv [THEN iffD2]) auto

lemma cleaned_chars:
  "c \<in> set (map (\<lambda>c. if c = CHR 0x22 \<or> c = CHR 0x5C then CHR ''_'' else c) (filter (\<lambda>c. \<not> is_control c) (base_name name))) \<Longrightarrow> safe_char c"
  using base_name_chars by (auto simp: safe_char_def is_control_def Let_def)

lemma clean_id: "list_all safe_char s \<Longrightarrow>
    map (\<lambda>c. if c = CHR 0x22 \<or> c = CHR 0x5C then CHR ''_'' else c) (filter (\<lambda>c. \<not> is_control c) (base_name s)) = s"
proof -
  assume s: "list_all safe_char s"
  then have "base_name s = s" by (intro base_name_id) (auto simp: list_all_iff safe_char_def)
  moreover have "filter (\<lambda>c. \<not> is_control c) s = s" using s by (auto simp: list_all_iff safe_char_def filter_id_conv)
  moreover have "map (\<lambda>c. if c = CHR 0x22 \<or> c = CHR 0x5C then CHR ''_'' else c) s = s" using s by (intro map_idI) (auto simp: list_all_iff safe_char_def)
  ultimately show ?thesis by simp
qed

section \<open>Properties\<close>

text \<open>
  The name of a download cannot break the header it is put in. Whatever name a file has, the name that is sent is not empty, has at most 100
  characters, holds no control character, quote, backslash or slash and no space at its ends, so it stays inside the quotes; a name that is safe
  already is sent as it is, and so sanitizing twice changes nothing.
\<close>

theorem filename_sanitized: "safe_name (sanitize_filename n) \<and> (sanitize_filename n = n \<longleftrightarrow> safe_name n)"
proof -
  define cleaned where "cleaned = map (\<lambda>c. if c = CHR 0x22 \<or> c = CHR 0x5C then CHR ''_'' else c) (filter (\<lambda>c. \<not> is_control c) (base_name n))"
  define t where "t = trim is_whitespace (take 100 (trim is_whitespace cleaned))"
  have san: "sanitize_filename n = (if t = [] then ''file'' else t)" by (simp add: sanitize_filename_def cleaned_def t_def Let_def)
  have "set t \<subseteq> set cleaned" unfolding t_def using trim_set [of is_whitespace] set_take_subset by (meson order_trans)
  then have chars: "list_all safe_char t" using cleaned_chars by (auto simp: cleaned_def list_all_iff)
  have len: "length t \<le> 100" unfolding t_def using trim_length [of is_whitespace "take 100 (trim is_whitespace cleaned)"] by simp
  have "safe_name ''file''" by code_simp
  then have safe: "safe_name (sanitize_filename n)" using san chars len trim_ends [of is_whitespace] by (auto simp: safe_name_def t_def)
  have "sanitize_filename n = n" if n: "safe_name n"
  proof -
    have "cleaned = n" unfolding cleaned_def using n by (intro clean_id) (simp add: safe_name_def)
    then have "t = n" using n by (simp add: t_def trim_id safe_name_def)
    then show ?thesis using san n by (simp add: safe_name_def)
  qed
  then show ?thesis using safe by metis
qed

text \<open>
  What a stream carries: its chunks, in order, are these bytes, or the first of them up to a chunk that fails.
\<close>

definition chunk_bytes :: "(fs_error + bytes) list \<Rightarrow> bytes" where
  "chunk_bytes cs = concat (map projr (takeWhile (\<lambda>c. \<not> isl c) cs))"

definition carries :: "object_stream \<Rightarrow> bytes \<Rightarrow> bool" where
  "carries obj z \<longleftrightarrow> (if list_all (\<lambda>c. \<not> isl c) (str_chunks obj) then chunk_bytes (str_chunks obj) = z else prefix (chunk_bytes (str_chunks obj)) z)"

text \<open>A reply that sends the bytes of an answer, and says so in its headers.\<close>

definition sends :: "range_answer \<Rightarrow> bytes \<Rightarrow> fs_response \<Rightarrow> bool" where
  "sends answer z resp \<longleftrightarrow>
     (case answer of
        Whole \<Rightarrow> rp_status resp = 200 \<and> rp_content_range resp = None \<and> rp_content_length resp = Some (of_nat (length z)) \<and>
          (\<exists>obj. rp_body resp = StreamBody obj \<and> carries obj z)
      | Part x y \<Rightarrow> x \<le> y \<and> y < length z \<and> rp_status resp = 206 \<and> rp_content_length resp = Some (of_nat (y + 1 - x)) \<and>
          rp_content_range resp = Some (''bytes '' @ decimal x @ ''-'' @ decimal y @ ''/'' @ decimal (length z)) \<and>
          (\<exists>obj. rp_body resp = StreamBody obj \<and> carries obj (take (y + 1 - x) (drop x z)))
      | NoPart \<Rightarrow> rp_status resp = 416 \<and> rp_body resp = EmptyBody \<and> rp_content_range resp = Some (''bytes */'' @ decimal (length z)))"

lemma last_sent:
  fixes x y :: u64
  assumes "x \<le> y" and "y < n"
  shows "x + (y + 1 - x - (if y + 1 - x = 0 then 0 else 1)) = y"
proof -
  have "unat (y + 1) \<noteq> unat x" using next_index(1) [OF assms(2)] assms(1) by (simp add: word_le_nat_alt)
  then have "y + 1 - x \<noteq> 0" by (metis eq_iff_diff_eq_0)
  then show ?thesis by simp
qed

context engine_over
begin

lemma e_metadata_record:
  assumes "at w m b l"
  shows "wp (get_metadata eng i caller)
      (\<lambda>r w'. at w' m b l \<and> (\<forall>fm. r = Inr fm \<longrightarrow> may_access eng m caller i Read \<and> (\<exists>rec. frec cod m i = Some rec \<and> fm_size fm = fr_size rec))) w"
  unfolding get_metadata_def wp_bind [of "readable_file _ _ _"]
  by (rule e_readable [OF assms]) auto

lemma e_range_bytes:
  assumes "at w m b l" and "frec cod m i = Some rec" and "b (loc (en_bucket eng) (fr_s3_key rec)) = Some z"
    and get: "\<And>c body c'. good c \<Longrightarrow> objs c (loc (en_bucket eng) (fr_s3_key rec)) = Some z \<Longrightarrow>
      s3_get_object_range (en_s3 eng) (en_bucket eng) (fr_s3_key rec) x y c = (Inr body, c') \<Longrightarrow> P body"
    and "clamp_range (fr_size rec) x y = (x, y)"
  shows "wp (get_object_range eng i caller x y) (\<lambda>r w'. \<forall>rec' s. r = Inr (rec', s) \<longrightarrow> rec' = rec \<and> P s) w"
  unfolding get_object_range_def wp_bind [of "readable_file _ _ _"]
proof (rule e_readable [OF assms(1)], unfold sum.case)
  fix w' rec'
  assume w': "at w' m b l" and "frec cod m i = Some rec'"
  then have "rec' = rec" "good (fw_s3 w')" "objs (fw_s3 w') (loc (en_bucket eng) (fr_s3_key rec)) = Some z" using assms(2,3) atD [OF w'] by auto
  then show "wp (let (start, stop) = clamp_range (fr_size rec') x y in
      bind_act (on_s3 (s3_get_object_range (en_s3 eng) (en_bucket eng) (fr_s3_key rec') start stop)) (\<lambda>body. ok_act (rec', body)))
      (\<lambda>r w'. \<forall>rec' s. r = Inr (rec', s) \<longrightarrow> rec' = rec \<and> P s) w'"
    by (auto simp: assms(5) wp_def on_s3_def act_eqs dest: get split: prod.split)
qed simp

lemma e_whole_bytes:
  assumes "at w m b l" and "frec cod m i = Some rec" and "b (loc (en_bucket eng) (fr_s3_key rec)) = Some z"
    and get: "\<And>c body c'. good c \<Longrightarrow> objs c (loc (en_bucket eng) (fr_s3_key rec)) = Some z \<Longrightarrow>
      s3_get_object_stream (en_s3 eng) (en_bucket eng) (fr_s3_key rec) c = (Inr body, c') \<Longrightarrow> P body"
  shows "wp (get_object eng i caller) (\<lambda>r w'. \<forall>rec' s. r = Inr (rec', s) \<longrightarrow> rec' = rec \<and> P s) w"
  unfolding get_object_def wp_bind [of "readable_file _ _ _"]
proof (rule e_readable [OF assms(1)], unfold sum.case)
  fix w' rec'
  assume w': "at w' m b l" and "frec cod m i = Some rec'"
  then have "rec' = rec" "good (fw_s3 w')" "objs (fw_s3 w') (loc (en_bucket eng) (fr_s3_key rec)) = Some z" using assms(2,3) atD [OF w'] by auto
  then show "wp (bind_act (on_s3 (s3_get_object_stream (en_s3 eng) (en_bucket eng) (fr_s3_key rec'))) (\<lambda>body. ok_act (rec', body)))
      (\<lambda>r w'. \<forall>rec' s. r = Inr (rec', s) \<longrightarrow> rec' = rec \<and> P s) w'"
    by (auto simp: wp_def on_s3_def act_eqs dest: get split: prod.split)
qed simp

text \<open>What the store is asked to do: to answer a read of an object, or of a range inside it, with these bytes and their number.\<close>

definition serves_bytes :: bool where
  "serves_bytes \<longleftrightarrow> (\<forall>k z c body c'. good c \<longrightarrow> objs c (loc (en_bucket eng) k) = Some z \<longrightarrow>
     (s3_get_object_stream (en_s3 eng) (en_bucket eng) k c = (Inr body, c') \<longrightarrow> str_size body = of_nat (length z) \<and> carries body z) \<and>
     (\<forall>x y. x \<le> y \<longrightarrow> unat y \<le> length z \<longrightarrow> s3_get_object_range (en_s3 eng) (en_bucket eng) k x y c = (Inr body, c') \<longrightarrow>
        str_size body = y - x \<and> carries body (take (unat y - unat x) (drop (unat x) z))))"

lemma e_download:
  assumes "at w m b l" and serves: serves_bytes and rec: "frec cod m i = Some rec"
    and z: "b (loc (en_bucket eng) (fr_s3_key rec)) = Some z" "length z = unat (fr_size rec)"
    and req: "requested (header_str h) req" and run: "get_file_route eng h i caller w = (Inr resp, w')"
  shows "may_access eng m caller i Read \<and> sends (answered req (length z)) z resp"
proof -
  obtain fm w1 where meta: "get_metadata eng i caller w = (Inr fm, w1)"
    using run by (auto simp: get_file_route_def bind_act_eq)
  have at1: "at w1 m b l" and may: "may_access eng m caller i Read" and size: "fm_size fm = fr_size rec"
    using wpD [OF e_metadata_record [OF assms(1)] meta] rec by auto
  note parsed = parse_range_answers [OF req, of "fr_size rec", folded z(2)]
  note step = run [unfolded get_file_route_def bind_act_run [where m = "get_metadata eng i caller", OF meta] size parsed]
  have "sends (answered req (length z)) z resp"
  proof (cases "answered req (length z)")
    case Whole
    obtain rec' obj w2 where get: "get_object eng i caller w1 = (Inr (rec', obj), w2)" and resp: "resp = download 200 rec' None obj"
      using step by (auto simp: Whole bind_act_eq)
    have "str_size obj = of_nat (length z) \<and> carries obj z"
      using wpD [OF e_whole_bytes [OF at1 rec z(1), where P = "\<lambda>s. str_size s = of_nat (length z) \<and> carries s z"] get] serves
      unfolding serves_bytes_def by blast
    then show ?thesis by (auto simp: Whole sends_def resp download_def)
  next
    case NoPart
    then show ?thesis using step z(2) by (auto simp: sends_def plain_reply_def)
  next
    case (Part p q)
    define x y :: u64 where "x = of_nat p" and "y = of_nat q"
    have "parse_range (header_str h) (fr_size rec) = Ranged x y" using parsed Part by (simp add: x_def y_def)
    note inside = parse_range_inside [OF this]
    have bounds: "p \<le> q" "q < length z" using answered_inside [OF Part] by auto
    have "length z < 2 ^ 64" using z(2) unsigned_less [of "fr_size rec", where 'a = nat] by simp
    then have xy: "unat x = p" "unat y = q" using bounds by (simp_all add: x_def y_def unat_of_nat_u64)
    obtain rec' obj w2 where get: "get_object_range eng i caller x (y + 1) w1 = (Inr (rec', obj), w2)"
      and resp: "resp = download 206 rec' (Some (''bytes '' @ decimal (unat x) @ ''-'' @
          decimal (unat (x + (str_size obj - (if str_size obj = 0 then 0 else 1)))) @ ''/'' @ decimal (unat (fr_size rec)))) obj"
      using step by (auto simp: Part x_def y_def bind_act_eq Let_def)
    have ends: "x \<le> y + 1" "unat (y + 1) \<le> length z" "unat (y + 1) = q + 1"
      using next_index [OF inside(2)] inside(1) z(2) by (simp_all add: word_le_nat_alt xy)
    have sz: "str_size obj = y + 1 - x" and body: "carries obj (take (q + 1 - p) (drop p z))"
      using wpD [OF e_range_bytes [OF at1 rec z(1) _ inside(3), where P = "\<lambda>s. str_size s = y + 1 - x \<and> carries s (take (q + 1 - p) (drop p z))"] get]
        serves ends xy unfolding serves_bytes_def by metis+
    have last: "x + (str_size obj - (if str_size obj = 0 then 0 else 1)) = y" unfolding sz using inside(1,2) by (rule last_sent)
    have resp': "resp = download 206 rec' (Some (''bytes '' @ decimal p @ ''-'' @ decimal q @ ''/'' @ decimal (length z))) obj"
      unfolding resp last xy z(2) by (rule refl)
    have "str_size obj = of_nat (q + 1 - p)"
      using sz ends(1,3) bounds \<open>length z < 2 ^ 64\<close> by (simp add: word_unat_eq_iff unat_sub xy unat_of_nat_u64 del: of_nat_diff)
    then show ?thesis unfolding Part sends_def range_answer.case resp' using bounds body by (simp add: download_def)
  qed
  then show ?thesis using may by blast
qed

end

text \<open>
  C34: a download answers the range it was asked for, with the bytes of that range. The range of a header is read off its text and the answer is what the
  comment on the parser promises, over whole numbers: a span, an offset or a number of last bytes that meets the file is answered with status 206, headers that give
  the span, and exactly those bytes of the file; a range past the end with status 416; no usable range with status 200 and the whole file. The
  exceptions are named: bounds in reverse order past the end, and a bound that is no number on an empty file or after a start past the end, are
  answered with 416 and not with the whole file. Only a caller granted the read is answered. Numbers are below \<open>2 ^ 64\<close>, the markers of
  the file are of rows without a colon, its object is as long as its record says, and the store serves the bytes of its objects.
\<close>

theorem download_serves_range:
  assumes "engine_over eng kvabs txov good objs loc sink feed finv capacity" and "good (fw_s3 w)" and "finv (fw_feed w)"
    and "\<And>k z c body c'. good c \<Longrightarrow> objs c (loc (en_bucket eng) k) = Some z \<Longrightarrow>
      s3_get_object_stream (en_s3 eng) (en_bucket eng) k c = (Inr body, c') \<Longrightarrow> str_size body = of_nat (length z) \<and> carries body z"
    and "\<And>k x y z c body c'. good c \<Longrightarrow> objs c (loc (en_bucket eng) k) = Some z \<Longrightarrow> x \<le> y \<Longrightarrow> unat y \<le> length z \<Longrightarrow>
      s3_get_object_range (en_s3 eng) (en_bucket eng) k x y c = (Inr body, c') \<Longrightarrow>
      str_size body = y - x \<and> carries body (take (unat y - unat x) (drop (unat x) z))"
    and "frec (fe_cod (en_store eng)) (meta kvabs w) i = Some rec"
    and "objs (fw_s3 w) (loc (en_bucket eng) (fr_s3_key rec)) = Some z" and "length z = unat (fr_size rec)"
    and "plain_markers (meta kvabs w) i" and "requested (header_str h) req"
    and "get_file_route eng h i caller w = (Inr resp, w')"
  shows "granted eng (meta kvabs w) caller i Read \<and>
    sends (if refused_early req (length z) then NoPart else promised req (length z)) z resp"
proof -
  have "engine_over.serves_bytes eng good objs loc"
    unfolding engine_over.serves_bytes_def [OF assms(1)] using assms(4,5) by blast
  from engine_over.e_download [OF assms(1) engine_over.atI [OF assms(1-3)] this assms(6-8,10,11)] show ?thesis
    by (simp add: answered_def may_access_granted [OF assms(9)])
qed

lemma mem_serves:
  "map_of (mb_objs (oc_backend c)) (client_path mem_ce (en_bucket demo_engine) k) = Some z \<Longrightarrow>
     s3_get_object_stream (en_s3 demo_engine) (en_bucket demo_engine) k c = (Inr body, c') \<Longrightarrow> str_size body = of_nat (length z) \<and> carries body z"
  "map_of (mb_objs (oc_backend c)) (client_path mem_ce (en_bucket demo_engine) k) = Some z \<Longrightarrow> x \<le> y \<Longrightarrow>
     s3_get_object_range (en_s3 demo_engine) (en_bucket demo_engine) k x y c = (Inr body, c') \<Longrightarrow>
     str_size body = y - x \<and> carries body (take (unat y - unat x) (drop (unat x) z))"
  by (auto simp: object_store_client_def client_get_object_stream_def client_get_object_range_def on_backend_def mem_be_def act_eqs
      map_chunks_def carries_def chunk_bytes_def unat_sub client_path_def split: option.splits)

lemma first_bytes: "''bytes='' @ decimal 1 @ ''-'' @ decimal 2 = ''bytes=1-2''"
proof -
  have "digit_char 2 = CHR ''2''" "digit_char 1 = CHR ''1''" by code_simp+
  then show ?thesis by (simp add: decimal.simps)
qed

lemma first_bytes_requested: "requested (header_str (Some ''bytes=1-2'')) (Span 1 2)"
proof -
  have plain: "header_str (Some ''bytes=1-2'') = Some ''bytes=1-2''" "trim is_blank ''bytes=1-2'' = ''bytes=1-2''" by code_simp+
  have "written (decimal k) k" if "k < 2 ^ 64" for k
    unfolding written_def using that by (auto intro!: exI [of _ 0])
  then have "written (decimal 1) 1" "written (decimal 2) 2" by simp_all
  then have "asks ''bytes=1-2'' (Span 1 2)" unfolding asks.simps using first_bytes [symmetric] by blast
  then show ?thesis using plain by (simp add: requested_def del: asks.simps)
qed

theorem download_serves_range_witness:
  "\<exists>resp w' obj. get_file_route demo_engine (Some ''bytes=1-2'') ''u1'' ''ann'' (demo_world one_file) = (Inr resp, w') \<and>
     rp_status resp = 206 \<and> rp_content_length resp = Some 2 \<and> rp_body resp = StreamBody obj \<and> carries obj ''el''"
proof -
  note defs = readable_file_def can_access_def rows_for_file_def scan_prefix_def engine_run_defs one_file_def
        demo_file_def mem_gets_def mem_list_def limit_of_def in_range_def map_filter_simps row_of_marker_def is_marker_of_def
        rel_prefix_def prefix_scan_end_def file_key_def files_prefix_def file_meta_suffix_def
        object_store_client_def client_get_object_range_def on_backend_def mem_be_def client_path_def
  have parsed: "parse_range (header_str (Some ''bytes=1-2'')) 5 = Ranged 1 2"
    using parse_range_answers [OF first_bytes_requested, of 5] by (simp add: answered_def)
  obtain fm w1 where m: "get_metadata demo_engine ''u1'' ''ann'' (demo_world one_file) = (Inr fm, w1)" "fm_size fm = 5" "w1 = demo_world one_file"
    by (simp add: get_metadata_def defs)
  obtain rec s w2 where g: "get_object_range demo_engine ''u1'' ''ann'' 1 3 (demo_world one_file) = (Inr (rec, s), w2)"
    by (simp add: get_object_range_def clamp_range_def defs)
  obtain resp where run: "get_file_route demo_engine (Some ''bytes=1-2'') ''u1'' ''ann'' (demo_world one_file) = (Inr resp, w2)"
    by (simp add: g get_file_route_def bind_act_def m parsed Let_def ok_act_def)
  have rec: "frec (fe_cod (en_store demo_engine)) (meta mem_abs (demo_world one_file)) ''u1'' = Some demo_file"
    by (simp add: demo_world_ok(4) frec_def value_at_def one_file_def plain_fs_codec_def)
  have z: "map_of (mb_objs (oc_backend (fw_s3 (demo_world one_file)))) (client_path mem_ce (en_bucket demo_engine) (fr_s3_key demo_file)) = Some ''hello''"
    "length ''hello'' = unat (fr_size demo_file)"
    by (simp_all add: demo_file_def demo_world_def client_path_def mem_be_def)
  have "\<not> prefix rel_prefix (file_key ''u1'')" by (simp add: rel_prefix_def file_key_def files_prefix_def)
  then have plain: "plain_markers (meta mem_abs (demo_world one_file)) ''u1''"
    by (auto simp: demo_world_ok(4) plain_markers_def one_file_def split: if_splits)
  have "sends (if refused_early (Span 1 2) (length ''hello'') then NoPart else promised (Span 1 2) (length ''hello'')) ''hello'' resp"
    by (rule conjunct2 [OF download_serves_range [OF memeng.engine_over_axioms demo_world_ok(1,2) mem_serves(1) mem_serves(2) rec z plain
          first_bytes_requested run]])
  then show ?thesis using run by (auto simp: sends_def)
qed

end
