(* ===== verification/Jwt_Auth.thy ===== *)
theory Jwt_Auth
  imports Api_Error "HOL-Library.AList"
begin

text \<open>
  The authentication middleware of \<^verbatim>\<open>src/src/http/middleware\<close>: the bearer header (\<open>bearer_token.rs\<close>), the store of the provider's
  signing keys (\<open>jwks.rs\<close>) and the check of a token (\<open>jwt.rs\<close>). The token library is an argument: what it reads of a key, the claims of a
  payload that is not verified, the key identifier of a header, and the verified decode. The request of the keys from the provider is an
  argument too. Instants are numbers, and one reading of a clock is an argument of each operation.
\<close>

section \<open>The bearer header\<close>

definition to_lower :: "char \<Rightarrow> char" where
  "to_lower c = (let n = of_char c :: nat in if 65 \<le> n \<and> n \<le> 90 then char_of (n + 32) else c)"

definition eq_ignore_ascii_case :: "string \<Rightarrow> string \<Rightarrow> bool" where
  "eq_ignore_ascii_case s t \<longleftrightarrow> map to_lower s = map to_lower t"

definition parse_bearer_token :: "string \<Rightarrow> string option" where
  "parse_bearer_token auth_str =
     (case split_once CHR '' '' auth_str of
        None \<Rightarrow> None
      | Some (scheme, token) \<Rightarrow>
          if eq_ignore_ascii_case scheme ''Bearer'' then (if trim is_blank token = [] then None else Some token) else None)"

definition extract_bearer_token :: "string option \<Rightarrow> string option" where
  "extract_bearer_token authorization = Option.bind (header_str authorization) parse_bearer_token"

section \<open>The store of the keys\<close>

datatype key_algorithm = NoAlgorithm | UnknownAlgorithm | KeyAlgorithm string

record ('j, 'a, 'k) jwk_lib =
  jk_octet :: "'j \<Rightarrow> bool"
  jk_algorithm :: "'j \<Rightarrow> key_algorithm"
  jk_from_str :: "string \<Rightarrow> 'a option"
  jk_rs256 :: 'a
  jk_from_jwk :: "'j \<Rightarrow> 'k option"
  jk_kid :: "'j \<Rightarrow> string option"

record ('a, 'k) signing_key =
  sk_decoding_key :: 'k
  sk_algorithm :: 'a

definition to_signing_key :: "('j, 'a, 'k) jwk_lib \<Rightarrow> 'j \<Rightarrow> (string \<times> ('a, 'k) signing_key) option" where
  "to_signing_key lib jwk =
     (if jk_octet lib jwk then None
      else
        Option.bind (case jk_algorithm lib jwk of
                       KeyAlgorithm alg \<Rightarrow> jk_from_str lib alg
                     | _ \<Rightarrow> Some (jk_rs256 lib)) (\<lambda>algorithm.
        Option.bind (jk_from_jwk lib jwk) (\<lambda>decoding_key.
        Option.bind (jk_kid lib jwk) (\<lambda>kid.
        Some (kid, \<lparr>sk_decoding_key = decoding_key, sk_algorithm = algorithm\<rparr>)))))"

text \<open>The map of the keys: a later entry of one identifier replaces the earlier one.\<close>

definition collect_keys :: "(string \<times> 'b) list \<Rightarrow> (string \<times> 'b) list" where
  "collect_keys entries = fold (\<lambda>(k, v). AList.update k v) entries []"

definition fetch_keys :: "('j, 'a, 'k) jwk_lib \<Rightarrow> ('n, string, 'j list) act \<Rightarrow> ('n, string, (string \<times> ('a, 'k) signing_key) list) act" where
  "fetch_keys lib fetch = bind_act fetch (\<lambda>jwks. ok_act (collect_keys (List.map_filter (to_signing_key lib) jwks)))"

definition JWKS_REFRESH_DEBOUNCE :: nat where "JWKS_REFRESH_DEBOUNCE = 5 * 1000000000"

record ('a, 'k) jwks_keys =
  kk_keys :: "(string \<times> ('a, 'k) signing_key) list"
  kk_last_refresh :: nat
  kk_refresh_debounce :: nat

definition jwks_build :: "('j, 'a, 'k) jwk_lib \<Rightarrow> ('n, string, 'j list) act \<Rightarrow> nat \<Rightarrow> nat \<Rightarrow> ('n, string, ('a, 'k) jwks_keys) act" where
  "jwks_build lib fetch refresh_debounce now =
     bind_act (fetch_keys lib fetch) (\<lambda>keys.
     if keys = [] then err_act ''No usable signing keys found in JWKS''
     else ok_act \<lparr>kk_keys = keys, kk_last_refresh = now, kk_refresh_debounce = refresh_debounce\<rparr>)"

definition jwks_lookup :: "string option \<Rightarrow> ('a, 'k) jwks_keys \<Rightarrow> ('a, 'k) signing_key option" where
  "jwks_lookup kid store =
     (case kid of
        Some i \<Rightarrow> map_of (kk_keys store) i
      | None \<Rightarrow> (case kk_keys store of [(_, key)] \<Rightarrow> Some key | _ \<Rightarrow> None))"

text \<open>\<open>maybe_refresh\<close>: the critical section that takes the window, and what a fetch that landed leaves in the cache.\<close>

definition take_window :: "nat \<Rightarrow> ('a, 'k) jwks_keys \<Rightarrow> bool \<times> ('a, 'k) jwks_keys" where
  "take_window now store =
     (if now - kk_last_refresh store < kk_refresh_debounce store then (False, store)
      else (True, store\<lparr>kk_last_refresh := now\<rparr>))"

definition land_keys :: "string + (string \<times> ('a, 'k) signing_key) list \<Rightarrow> ('a, 'k) jwks_keys \<Rightarrow> ('a, 'k) jwks_keys" where
  "land_keys result store = (case result of Inr keys \<Rightarrow> if keys = [] then store else store\<lparr>kk_keys := keys\<rparr> | Inl _ \<Rightarrow> store)"

definition maybe_refresh :: "('j, 'a, 'k) jwk_lib \<Rightarrow> ('n, string, 'j list) act \<Rightarrow> nat \<Rightarrow> ('a, 'k) jwks_keys \<times> 'n \<Rightarrow> ('a, 'k) jwks_keys \<times> 'n" where
  "maybe_refresh lib fetch now w =
     (case take_window now (fst w) of
        (False, store) \<Rightarrow> (store, snd w)
      | (True, store) \<Rightarrow> (case fetch_keys lib fetch (snd w) of (result, n) \<Rightarrow> (land_keys result store, n)))"

definition jwks_get :: "('j, 'a, 'k) jwk_lib \<Rightarrow> ('n, string, 'j list) act \<Rightarrow> nat \<Rightarrow> string option \<Rightarrow> ('a, 'k) jwks_keys \<times> 'n \<Rightarrow>
    ('a, 'k) signing_key option \<times> (('a, 'k) jwks_keys \<times> 'n)" where
  "jwks_get lib fetch now kid w =
     (case jwks_lookup kid (fst w) of
        Some key \<Rightarrow> (Some key, w)
      | None \<Rightarrow> let w' = maybe_refresh lib fetch now w in (jwks_lookup kid (fst w'), w'))"

section \<open>Issuers\<close>

definition TENANT_PLACEHOLDER :: string where "TENANT_PLACEHOLDER = ''{tenantid}''"
definition AUTH_COOKIE :: string where "AUTH_COOKIE = ''auth_token''"

text \<open>\<open>str::split_once\<close> with a string.\<close>

fun split_once_str :: "string \<Rightarrow> string \<Rightarrow> (string \<times> string) option" where
  "split_once_str p [] = (if p = [] then Some ([], []) else None)"
| "split_once_str p (x # xs) =
     (if prefix p (x # xs) then Some ([], drop (length p) (x # xs))
      else map_option (\<lambda>(a, b). (x # a, b)) (split_once_str p xs))"

record issuer_template =
  it_prefix :: string
  it_suffix :: string
  it_allowed_tenants :: "string list"

definition template_parse :: "string \<Rightarrow> string list \<Rightarrow> issuer_template option" where
  "template_parse issuer allowed =
     map_option (\<lambda>(p, s). \<lparr>it_prefix = p, it_suffix = s, it_allowed_tenants = allowed\<rparr>) (split_once_str TENANT_PLACEHOLDER issuer)"

definition template_resolve :: "issuer_template \<Rightarrow> string \<Rightarrow> string" where
  "template_resolve t tenant_id = it_prefix t @ tenant_id @ it_suffix t"

definition resolve_checked :: "issuer_template \<Rightarrow> string \<Rightarrow> string + string" where
  "resolve_checked t tenant_id =
     (if list_ex (\<lambda>allowed. allowed = tenant_id) (it_allowed_tenants t) then Inr (template_resolve t tenant_id)
      else Inl (''tenant `'' @ tenant_id @ ''` is not in the configured allowlist''))"

section \<open>Tokens\<close>

record 'a validation =
  va_algorithms :: "'a list"
  va_audience :: "string list"
  va_issuer :: "string list option"

record ('a, 'k, 'c) token_lib =
  tl_header_kid :: "string \<Rightarrow> string + string option"
  tl_claim :: "string \<Rightarrow> string \<Rightarrow> string option"
  tl_decode :: "string \<Rightarrow> 'k \<Rightarrow> 'a validation \<Rightarrow> nat \<Rightarrow> string + 'c"

text \<open>\<open>tl_claim\<close> reads a text field of a payload: the base64 form, the JSON form and the field.\<close>

definition extract_unverified_claim :: "('a, 'k, 'c) token_lib \<Rightarrow> string \<Rightarrow> string \<Rightarrow> string option" where
  "extract_unverified_claim lib token field = (case split_on CHR ''.'' token of _ # payload # _ \<Rightarrow> tl_claim lib payload field | _ \<Rightarrow> None)"

definition tenant_of :: "('a, 'k, 'c) token_lib \<Rightarrow> string \<Rightarrow> string option" where
  "tenant_of lib token = (case extract_unverified_claim lib token ''tid'' of None \<Rightarrow> None | Some t \<Rightarrow> if t = [] then None else Some t)"

record ('a, 'k, 'c, 'j, 'n) jwt_middleware =
  jm_jwks :: "('j, 'a, 'k) jwk_lib"
  jm_fetch :: "('n, string, 'j list) act"
  jm_tokens :: "('a, 'k, 'c) token_lib"
  jm_validation :: "'a validation"
  jm_issuer_template :: "issuer_template option"

definition jwt_new_with_jks :: "('j, 'a, 'k) jwk_lib \<Rightarrow> ('n, string, 'j list) act \<Rightarrow> ('a, 'k, 'c) token_lib \<Rightarrow> string \<Rightarrow> string \<Rightarrow> nat \<Rightarrow>
    ('n, string, ('a, 'k, 'c, 'j, 'n) jwt_middleware \<times> ('a, 'k) jwks_keys) act" where
  "jwt_new_with_jks lib fetch tokens audience issuer now =
     bind_act (jwks_build lib fetch JWKS_REFRESH_DEBOUNCE now) (\<lambda>keys.
     let issuer_template = template_parse issuer [] in
     ok_act (\<lparr>jm_jwks = lib, jm_fetch = fetch, jm_tokens = tokens,
       jm_validation = \<lparr>va_algorithms = [jk_rs256 lib], va_audience = [audience],
         va_issuer = (if issuer_template = None then Some [issuer] else None)\<rparr>,
       jm_issuer_template = issuer_template\<rparr>, keys))"

definition with_allowed_tenants :: "string list \<Rightarrow> ('a, 'k, 'c, 'j, 'n) jwt_middleware \<Rightarrow> ('a, 'k, 'c, 'j, 'n) jwt_middleware" where
  "with_allowed_tenants allowed m = m\<lparr>jm_issuer_template := map_option (\<lambda>t. t\<lparr>it_allowed_tenants := allowed\<rparr>) (jm_issuer_template m)\<rparr>"

section \<open>The middleware\<close>

text \<open>\<open>decide\<close>: the claims of a token, or the reason it is unusable and whether that refuses the request.\<close>

definition pin_issuer :: "('a, 'k, 'c, 'j, 'n) jwt_middleware \<Rightarrow> string \<Rightarrow> 'a \<Rightarrow> (string \<times> bool) + 'a validation" where
  "pin_issuer m token alg =
     (let v = (jm_validation m)\<lparr>va_algorithms := [alg]\<rparr> in
      case jm_issuer_template m of
        None \<Rightarrow> Inr v
      | Some template \<Rightarrow>
          (case tenant_of (jm_tokens m) token of
             None \<Rightarrow> Inl (''token has no tenant identifier'', True)
           | Some tenant_id \<Rightarrow>
               (case resolve_checked template tenant_id of
                  Inl cause \<Rightarrow> Inl (cause, True)
                | Inr expected \<Rightarrow> Inr (v\<lparr>va_issuer := Some [expected]\<rparr>))))"

definition decide :: "('a, 'k, 'c, 'j, 'n) jwt_middleware \<Rightarrow> nat \<Rightarrow> nat \<Rightarrow> string \<Rightarrow> (('a, 'k) jwks_keys \<times> 'n, string \<times> bool, 'c) act" where
  "decide m instant now token w =
     (case tl_header_kid (jm_tokens m) token of
        Inl e \<Rightarrow> (Inl (''undecodable header: '' @ e, True), w)
      | Inr kid \<Rightarrow>
          (case jwks_get (jm_jwks m) (jm_fetch m) instant kid w of
             (None, w') \<Rightarrow> (Inl (''no signing key matches kid'', True), w')
           | (Some key, w') \<Rightarrow>
               (case pin_issuer m token (sk_algorithm key) of
                  Inl e \<Rightarrow> (Inl e, w')
                | Inr v \<Rightarrow>
                    (case tl_decode (jm_tokens m) token (sk_decoding_key key) v now of
                       Inl e \<Rightarrow> (Inl (''token failed validation: '' @ e, False), w')
                     | Inr claims \<Rightarrow> (Inr claims, w')))))"

text \<open>A request as the middleware sees it, and a response with its \<open>Set-Cookie\<close> headers.\<close>

record auth_request =
  ar_bearer :: "string option"
  ar_cookie :: "string option"

record 'b auth_response =
  ap_set_cookies :: "string list"
  ap_rest :: 'b

definition chosen_token :: "auth_request \<Rightarrow> string option" where
  "chosen_token req = (case ar_bearer req of Some t \<Rightarrow> Some t | None \<Rightarrow> ar_cookie req)"

definition chosen_from_cookie :: "auth_request \<Rightarrow> bool" where
  "chosen_from_cookie req \<longleftrightarrow> ar_bearer req = None \<and> ar_cookie req \<noteq> None"

definition sets_session :: "string list \<Rightarrow> bool" where
  "sets_session headers = list_ex (\<lambda>v. header_str (Some v) \<noteq> None \<and> prefix (AUTH_COOKIE @ ''='') v \<and> \<not> prefix (AUTH_COOKIE @ ''=;'') v) headers"

definition CLEAR_SESSION :: string where
  "CLEAR_SESSION = ''auth_token=; Path=/; Max-Age=0; HttpOnly; SameSite=Lax''"

definition clear_stale :: "bool \<Rightarrow> 'b auth_response \<Rightarrow> 'b auth_response" where
  "clear_stale clears_session resp =
     (if clears_session \<and> \<not> sets_session (ap_set_cookies resp)
      then resp\<lparr>ap_set_cookies := ap_set_cookies resp @ [CLEAR_SESSION]\<rparr> else resp)"

definition jwt_call :: "('a, 'k, 'c, 'j, 'n) jwt_middleware \<Rightarrow> nat \<Rightarrow> nat \<Rightarrow> auth_request \<Rightarrow> ('c option \<Rightarrow> ('s, api_error, 'b auth_response) act) \<Rightarrow>
    (('a, 'k) jwks_keys \<times> 'n) \<times> 's \<Rightarrow> (api_error + 'b auth_response) \<times> (('a, 'k) jwks_keys \<times> 'n) \<times> 's" where
  "jwt_call m instant now req service w =
     (let serve = (\<lambda>claims unusable jw.
            case service claims (snd w) of
              (Inl e, s) \<Rightarrow> (Inl e, (jw, s))
            | (Inr resp, s) \<Rightarrow> (Inr (clear_stale (unusable \<and> chosen_from_cookie req) resp), (jw, s))) in
      case chosen_token req of
        None \<Rightarrow> serve None False (fst w)
      | Some token \<Rightarrow>
          (case decide m instant now token (fst w) of
             (Inr claims, jw) \<Rightarrow> serve (Some claims) False jw
           | (Inl (reason, hard), jw) \<Rightarrow>
               if hard then (Inl (InvalidCredentials reason), (jw, snd w)) else serve None True jw))"

text \<open>\<open>Validated::from_request\<close>\<close>

definition validated :: "'c option \<Rightarrow> api_error + 'c" where
  "validated claims = (case claims of None \<Rightarrow> Inl MissingCredentials | Some c \<Rightarrow> Inr c)"

text \<open>\<open>BearerTokenMiddlewareService::call\<close> puts the token of the header, if there is one, where \<open>jwt_call\<close> reads it.\<close>

definition bearer_call :: "string option \<Rightarrow> auth_request \<Rightarrow> auth_request" where
  "bearer_call authorization req = (case extract_bearer_token authorization of None \<Rightarrow> req | Some token \<Rightarrow> req\<lparr>ar_bearer := Some token\<rparr>)"

section \<open>Runs of the key store\<close>

text \<open>
  The requests of a process share one store. A request that misses takes the window or leaves it; a fetch lands whenever its answer comes. A state is
  the store, the instants at which fetches started, latest first, and the clock.
\<close>

inductive jwks_run :: "('j, 'a, 'k) jwk_lib \<Rightarrow> ('n, string, 'j list) act \<Rightarrow> nat \<Rightarrow> ('a, 'k) jwks_keys \<Rightarrow> nat list \<Rightarrow> nat \<Rightarrow> bool" for lib fetch d where
  built: "jwks_build lib fetch d now n = (Inr store, n') \<Longrightarrow> jwks_run lib fetch d store [] now"
| missed: "jwks_run lib fetch d store starts t \<Longrightarrow> t \<le> now \<Longrightarrow> take_window now store = (taken, store') \<Longrightarrow>
    jwks_run lib fetch d store' (if taken then now # starts else starts) now"
| landed: "jwks_run lib fetch d store starts t \<Longrightarrow> fetch_keys lib fetch n = (result, n') \<Longrightarrow> jwks_run lib fetch d (land_keys result store) starts t"

definition keys_from :: "('j, 'a, 'k) jwk_lib \<Rightarrow> (string \<times> ('a, 'k) signing_key) list \<Rightarrow> bool" where
  "keys_from lib keys \<longleftrightarrow> distinct (map fst keys) \<and> (\<forall>e \<in> set keys. \<exists>jwk. to_signing_key lib jwk = Some e)"

lemma collect_keys_fold:
  "(distinct (map fst (fold (\<lambda>(k, v). AList.update k v) entries acc)) \<longleftrightarrow> distinct (map fst acc)) \<and>
   set (fold (\<lambda>(k, v). AList.update k v) entries acc) \<subseteq> set entries \<union> set acc"
proof (induction entries arbitrary: acc)
  case (Cons e es)
  obtain k v where e: "e = (k, v)" by force
  have "set (AList.update k v acc) \<subseteq> insert (k, v) (set acc)" by (induction acc) auto
  moreover have "distinct (map fst (AList.update k v acc)) \<longleftrightarrow> distinct (map fst acc)"
    using distinct_update [of acc k v] by (induction acc) (auto simp: update_keys)
  ultimately show ?case
    using Cons.IH [of "AList.update k v acc"] by (auto simp: e)
qed auto

lemma fetch_keys_from: "fetch_keys lib fetch n = (Inr keys, n') \<Longrightarrow> keys_from lib keys"
  using collect_keys_fold [where acc = "[]"]
  by (fastforce simp: fetch_keys_def bind_act_eq keys_from_def collect_keys_def map_filter_set)

lemma lookup_key: "keys_from lib (kk_keys store) \<Longrightarrow> jwks_lookup kid store = Some key \<Longrightarrow> \<exists>i. (i, key) \<in> set (kk_keys store)"
  by (auto simp: jwks_lookup_def dest: map_of_SomeD split: option.splits list.splits prod.splits)

section \<open>What the middleware accepts\<close>

definition accepted :: "('a, 'k, 'c, 'j, 'n) jwt_middleware \<Rightarrow> nat \<Rightarrow> string \<Rightarrow> ('a, 'k) signing_key \<Rightarrow> 'c \<Rightarrow> bool" where
  "accepted m now token key claims \<longleftrightarrow>
     (\<exists>v. tl_decode (jm_tokens m) token (sk_decoding_key key) v now = Inr claims \<and> va_algorithms v = [sk_algorithm key] \<and>
        va_audience v = va_audience (jm_validation m) \<and>
        (case jm_issuer_template m of
           None \<Rightarrow> va_issuer v = va_issuer (jm_validation m)
         | Some t \<Rightarrow> \<exists>tenant \<in> set (it_allowed_tenants t). tenant_of (jm_tokens m) token = Some tenant \<and> va_issuer v = Some [template_resolve t tenant]))"

lemma pin_issuer_cases:
  assumes "pin_issuer m token alg = Inr v"
  shows "va_algorithms v = [alg] \<and> va_audience v = va_audience (jm_validation m) \<and>
    (case jm_issuer_template m of
       None \<Rightarrow> va_issuer v = va_issuer (jm_validation m)
     | Some t \<Rightarrow> \<exists>tenant \<in> set (it_allowed_tenants t). tenant_of (jm_tokens m) token = Some tenant \<and> va_issuer v = Some [template_resolve t tenant])"
  using assms by (auto simp: pin_issuer_def Let_def resolve_checked_def list_ex_iff split: option.splits sum.splits if_splits)

lemma pin_issuer_hard: "pin_issuer m token alg = Inl (e, hard) \<Longrightarrow> hard"
  by (auto simp: pin_issuer_def Let_def split: option.splits sum.splits)

lemma jwks_get_found: "jwks_get lib fetch now kid w = (Some key, w') \<Longrightarrow> jwks_lookup kid (fst w') = Some key"
  by (auto simp: jwks_get_def Let_def split: option.splits)

lemma decide_ok:
  "decide m instant now token w = (Inr claims, w') \<longleftrightarrow>
     (\<exists>kid key v. tl_header_kid (jm_tokens m) token = Inr kid \<and> jwks_get (jm_jwks m) (jm_fetch m) instant kid w = (Some key, w') \<and>
        pin_issuer m token (sk_algorithm key) = Inr v \<and> tl_decode (jm_tokens m) token (sk_decoding_key key) v now = Inr claims)"
  by (auto simp: decide_def split: sum.splits prod.splits option.splits)

lemma decide_soft:
  assumes "decide m instant now token w = (Inl (e, False), w')"
  shows "\<exists>alg v. pin_issuer m token alg = Inr v"
  using assms by (auto simp: decide_def dest: pin_issuer_hard split: sum.splits prod.splits option.splits)

lemma decide_accepts:
  assumes "decide m instant now token w = (Inr claims, w')"
  shows "\<exists>kid key. tl_header_kid (jm_tokens m) token = Inr kid \<and> jwks_lookup kid (fst w') = Some key \<and> accepted m now token key claims"
  using assms unfolding decide_ok accepted_def by (blast dest: jwks_get_found pin_issuer_cases)

text \<open>The handler ran with the given claims, and the answer is its answer, perhaps with the clearing of a stale cookie added.\<close>

definition served :: "('c option \<Rightarrow> ('s, api_error, 'b auth_response) act) \<Rightarrow> 'c option \<Rightarrow> bool \<Rightarrow> 's \<Rightarrow> api_error + 'b auth_response \<Rightarrow> 's \<Rightarrow> bool" where
  "served service claims clears s r s' \<longleftrightarrow>
     (case service claims s of (Inl e, s1) \<Rightarrow> r = Inl e \<and> s' = s1 | (Inr resp, s1) \<Rightarrow> r = Inr (clear_stale clears resp) \<and> s' = s1)"

lemma jwt_call_cases:
  assumes "jwt_call m instant now req service w = (r, w')"
  obtains (anonymous) "chosen_token req = None" "served service None False (snd w) r (snd w')"
  | (valid) token claims where "chosen_token req = Some token" "decide m instant now token (fst w) = (Inr claims, fst w')"
      "served service (Some claims) False (snd w) r (snd w')"
  | (stale) token reason where "chosen_token req = Some token" "decide m instant now token (fst w) = (Inl (reason, False), fst w')"
      "served service None (chosen_from_cookie req) (snd w) r (snd w')"
  | (refused) token reason where "chosen_token req = Some token" "decide m instant now token (fst w) = (Inl (reason, True), fst w')"
      "r = Inl (InvalidCredentials reason)" "snd w' = snd w"
proof (cases "chosen_token req")
  case None
  then show ?thesis using assms anonymous by (auto simp: jwt_call_def served_def Let_def split: prod.splits sum.splits)
next
  case (Some token)
  obtain d jw where d: "decide m instant now token (fst w) = (d, jw)" by (rule prod.exhaust)
  show ?thesis
  proof (cases d)
    case (Inr claims)
    then show ?thesis using assms Some d by (intro valid [OF Some]) (auto simp: jwt_call_def served_def Let_def split: prod.splits sum.splits)
  next
    case (Inl e)
    obtain reason hard where e: "e = (reason, hard)" by (rule prod.exhaust)
    show ?thesis
    proof (cases hard)
      case True
      then show ?thesis using assms Some d Inl e by (intro refused [OF Some]) (auto simp: jwt_call_def Let_def)
    next
      case False
      then show ?thesis using assms Some d Inl e by (intro stale [OF Some]) (auto simp: jwt_call_def served_def Let_def split: prod.splits sum.splits)
    qed
  qed
qed

section \<open>Properties\<close>

text \<open>
  C36: a flood of tokens with unknown keys reaches the provider at most once per window, and never costs the service its keys. In every run of the
  key store two fetches start at least the debounce apart, also when the fetches fail; the store is never empty; and every key in it is one that
  the provider published for verifying, never a shared secret.
\<close>

theorem jwks_refresh_bounded:
  assumes "jwks_run lib fetch d store starts t"
  shows "sorted_wrt (\<lambda>later earlier. earlier + d \<le> later) starts \<and> kk_keys store \<noteq> [] \<and>
    (\<forall>e \<in> set (kk_keys store). \<exists>jwk. \<not> jk_octet lib jwk \<and> to_signing_key lib jwk = Some e)"
proof -
  have "sorted_wrt (\<lambda>later earlier. earlier + d \<le> later) starts \<and> kk_keys store \<noteq> [] \<and> keys_from lib (kk_keys store) \<and>
      kk_refresh_debounce store = d \<and> (\<forall>s \<in> set starts. s \<le> kk_last_refresh store) \<and> kk_last_refresh store \<le> t"
    using assms
  proof (induction rule: jwks_run.induct)
    case (built now n store n')
    then show ?case by (auto simp: jwks_build_def bind_act_eq dest: fetch_keys_from split: if_splits)
  next
    case (missed store starts t now taken store')
    then show ?case by (fastforce simp: take_window_def split: if_splits)
  next
    case (landed store starts t n result n')
    then show ?case by (auto simp: land_keys_def dest: fetch_keys_from split: sum.splits)
  qed
  then show ?thesis by (auto simp: keys_from_def to_signing_key_def split: if_splits) 
qed

text \<open>
  C31: a handler sees only claims that were verified. When the middleware hands claims to a handler, they are the verified decode of the token of the
  request, the header before the cookie, with a key of the store that matches its identifier, pinned to the algorithm of that key, the configured
  audience, and the configured issuer or the one of a tenant on the allowlist. In every other case the handler runs without claims or not at all, and a
  token of a provider with tenants whose tenant is not on the list never reaches it.
\<close>

theorem handler_claims_verified:
  assumes "jwt_call m instant now req service w = (r, w')"
  shows "((\<exists>token kid key claims. chosen_token req = Some token \<and> tl_header_kid (jm_tokens m) token = Inr kid \<and>
      jwks_lookup kid (fst (fst w')) = Some key \<and> accepted m now token key claims \<and> served service (Some claims) False (snd w) r (snd w')) \<or>
    (\<exists>clears. served service None clears (snd w) r (snd w') \<and> (clears \<longrightarrow> chosen_from_cookie req)) \<or>
    (\<exists>reason. r = Inl (InvalidCredentials reason)) \<and> snd w' = snd w) \<and>
    (\<forall>t token. jm_issuer_template m = Some t \<longrightarrow> chosen_token req = Some token \<longrightarrow>
      tenant_of (jm_tokens m) token \<notin> Some ` set (it_allowed_tenants t) \<longrightarrow>
      (\<exists>reason. r = Inl (InvalidCredentials reason)) \<and> snd w' = snd w)"
  using assms
proof (cases rule: jwt_call_cases)
  case anonymous
  then show ?thesis by auto
next
  case (valid token claims)
  obtain kid key where k: "tl_header_kid (jm_tokens m) token = Inr kid" "jwks_lookup kid (fst (fst w')) = Some key" "accepted m now token key claims"
    using decide_accepts [OF valid(2)] by blast
  then have "tenant_of (jm_tokens m) token \<in> Some ` set (it_allowed_tenants t)" if "jm_issuer_template m = Some t" for t
    using that by (auto simp: accepted_def)
  then show ?thesis using k valid by auto
next
  case (stale token reason)
  obtain alg v where "pin_issuer m token alg = Inr v" using decide_soft [OF stale(2)] by blast
  then have "tenant_of (jm_tokens m) token \<in> Some ` set (it_allowed_tenants t)" if "jm_issuer_template m = Some t" for t
    using pin_issuer_cases that by fastforce
  then show ?thesis using stale by auto
next
  case (refused token reason)
  then show ?thesis by auto
qed

text \<open>
  C40: a session cookie that outlives the key it was signed with locks the browser out. When the only credential of a request is a cookie whose key is
  no longer in the store, not even after a refresh, the middleware refuses the request whatever the route is, so the login never runs, and it
  does not clear the cookie.
\<close>

theorem rotated_key_locks_out:
  assumes "ar_bearer req = None" and "ar_cookie req = Some token" and "tl_header_kid (jm_tokens m) token = Inr kid"
    and "jwks_get (jm_jwks m) (jm_fetch m) instant kid (fst w) = (None, jw)"
  shows "jwt_call m instant now req service w = (Inl (InvalidCredentials ''no signing key matches kid''), (jw, snd w))"
  using assms by (simp add: jwt_call_def chosen_token_def decide_def Let_def)

section \<open>Witnesses\<close>

text \<open>A provider with one key, whose tokens are a key, a tenant and a text, and are valid until the tenth second.\<close>

definition plain_jwks :: "(string, string, string) jwk_lib" where
  "plain_jwks = \<lparr>jk_octet = (\<lambda>j. j = ''oct''), jk_algorithm = (\<lambda>_. UnknownAlgorithm), jk_from_str = Some, jk_rs256 = ''RS256'',
     jk_from_jwk = Some, jk_kid = Some\<rparr>"

definition plain_tokens :: "(string, string, string) token_lib" where
  "plain_tokens = \<lparr>
     tl_header_kid = (\<lambda>t. Inr (Some (hd (split_on CHR ''.'' t)))),
     tl_claim = (\<lambda>payload field. if field = ''tid'' then Some payload else None),
     tl_decode = (\<lambda>t k v now. if now \<le> 10 then Inr t else Inl ''expired'')\<rparr>"

definition one_key :: "(nat, string, string list) act" where
  "one_key n = (Inr [''oct'', ''k1''], Suc n)"

definition first_keys :: "(string, string) jwks_keys" where
  "first_keys = \<lparr>kk_keys = [(''k1'', \<lparr>sk_decoding_key = ''k1'', sk_algorithm = ''RS256''\<rparr>)], kk_last_refresh = 100, kk_refresh_debounce = 5\<rparr>"

definition tenant_middleware :: "(string, string, string, string, nat) jwt_middleware" where
  "tenant_middleware = \<lparr>jm_jwks = plain_jwks, jm_fetch = one_key, jm_tokens = plain_tokens,
     jm_validation = \<lparr>va_algorithms = [''RS256''], va_audience = [''app''], va_issuer = None\<rparr>,
     jm_issuer_template = Some \<lparr>it_prefix = ''https://idp/'', it_suffix = ''/v2'', it_allowed_tenants = [''t1'']\<rparr>\<rparr>"

lemma first_keys_built: "jwks_build plain_jwks one_key 5 100 0 = (Inr first_keys, 1)"
  by (simp add: jwks_build_def fetch_keys_def one_key_def bind_act_def collect_keys_def map_filter_simps to_signing_key_def plain_jwks_def first_keys_def ok_act_def)

theorem jwks_refresh_bounded_witness:
  "sorted_wrt (\<lambda>later earlier. earlier + 5 \<le> later) [112 :: nat, 106] \<and> kk_keys (first_keys\<lparr>kk_last_refresh := 112\<rparr>) \<noteq> []"
proof -
  have "jwks_run plain_jwks one_key 5 first_keys [] 100" by (rule jwks_run.built [OF first_keys_built])
  then have "jwks_run plain_jwks one_key 5 (first_keys\<lparr>kk_last_refresh := 106\<rparr>) [106] 106"
    using jwks_run.missed [where now = 106 and taken = True] by (fastforce simp: take_window_def first_keys_def)
  then have "jwks_run plain_jwks one_key 5 (first_keys\<lparr>kk_last_refresh := 112\<rparr>) [112, 106] 112"
    using jwks_run.missed [where now = 112 and taken = True] by (fastforce simp: take_window_def first_keys_def)
  from jwks_refresh_bounded [OF this] show ?thesis by simp
qed

theorem handler_claims_verified_witness:
  "\<exists>reason. fst (jwt_call tenant_middleware 101 3 \<lparr>ar_bearer = Some ''k1.t9.x'', ar_cookie = None\<rparr>
     (\<lambda>c s. (Inr \<lparr>ap_set_cookies = [], ap_rest = c\<rparr>, Suc s)) ((first_keys, 0), 7)) = Inl (InvalidCredentials reason)"
proof -
  let ?req = "\<lparr>ar_bearer = Some ''k1.t9.x'', ar_cookie = None\<rparr>"
  let ?w = "((first_keys, 0 :: nat), 7 :: nat)" and ?s = "\<lambda>(c :: string option) s. (Inr \<lparr>ap_set_cookies = [], ap_rest = c\<rparr>, Suc s)"
  have t: "chosen_token ?req = Some ''k1.t9.x''" "tenant_of plain_tokens ''k1.t9.x'' = Some ''t9''"
    by (simp_all add: chosen_token_def tenant_of_def extract_unverified_claim_def plain_tokens_def)
  obtain r w' where run: "jwt_call tenant_middleware 101 3 ?req ?s ?w = (r, w')" by (rule prod.exhaust)
  have "\<exists>reason. r = Inl (InvalidCredentials reason)"
    using handler_claims_verified [OF run, THEN conjunct2] t by (simp add: tenant_middleware_def)
  then show ?thesis using run by simp
qed

theorem rotated_key_locks_out_witness:
  "fst (jwt_call tenant_middleware 101 20 \<lparr>ar_bearer = None, ar_cookie = Some ''k0.t1.x''\<rparr>
     (\<lambda>c s. (Inr \<lparr>ap_set_cookies = [], ap_rest = c\<rparr>, Suc s)) ((first_keys, 0), 7)) = Inl (InvalidCredentials ''no signing key matches kid'')"
proof -
  let ?req = "\<lparr>ar_bearer = None, ar_cookie = Some ''k0.t1.x''\<rparr>"
  have kid: "tl_header_kid (jm_tokens tenant_middleware) ''k0.t1.x'' = Inr (Some ''k0'')" by (simp add: tenant_middleware_def plain_tokens_def)
  have "jwks_get (jm_jwks tenant_middleware) (jm_fetch tenant_middleware) 101 (Some ''k0'') (first_keys, 0) = (None, (first_keys, 0))"
    by (simp add: jwks_get_def jwks_lookup_def first_keys_def maybe_refresh_def take_window_def)
  then show ?thesis
    using rotated_key_locks_out [of ?req, OF _ _ kid, where w = "((first_keys, 0), 7)" and now = 20 and
      service = "\<lambda>c s. (Inr \<lparr>ap_set_cookies = [], ap_rest = c\<rparr>, Suc s)"] by simp
qed

end
