(* ===== verification/Oidc_Flow.thy ===== *)
theory Oidc_Flow
  imports Jwt_Auth
begin

text \<open>
  The login of \<^verbatim>\<open>src/src/oidc/mod.rs\<close> and \<^verbatim>\<open>src/src/oidc/route.rs\<close>: the client of the identity provider with its tenant gate, and the
  routes of the scope \<open>/auth\<close> with their cookies. The provider library is an argument: its requests over the network, the verification of an
  identity token, and what it reads of a document or an address. Random values are arguments. The audit lines and the task that waits for a
  revocation are left out; the request that the task sends is \<open>revoke_token\<close>.
\<close>

section \<open>The client\<close>

datatype oidc_error =
    OidcConfiguration string
  | UrlParse string
  | HttpClient string
  | Discovery string
  | ExchangeFailure string
  | MissingIdToken
  | InvalidToken string
  | Revocation string

record token_response =
  tr_id_token :: "string option"
  tr_refresh_token :: "string option"

record ('p, 'm) oidc_lib =
  ol_get_discovery :: "string \<Rightarrow> ('p, oidc_error, string) act"
  ol_json_field :: "string \<Rightarrow> string \<Rightarrow> string + string option"
  ol_metadata :: "string \<Rightarrow> string + 'm"
  ol_fetch_jwks :: "'m \<Rightarrow> ('p, string, 'm) act"
  ol_revocation_url :: "string \<Rightarrow> string + string"
  ol_redirect_url :: "string \<Rightarrow> string + string"
  ol_exchange_ready :: "string + unit"
  ol_exchange :: "string \<Rightarrow> string \<Rightarrow> ('p, string, token_response) act"
  ol_refresh :: "string \<Rightarrow> ('p, string, token_response) act"
  ol_verify :: "bool \<Rightarrow> string \<Rightarrow> string option \<Rightarrow> string + unit"
  ol_revoke :: "string \<Rightarrow> string \<Rightarrow> string \<Rightarrow> ('p, string, nat) act"
  ol_claim :: "string \<Rightarrow> string \<Rightarrow> string option"
  ol_scheme :: "string \<Rightarrow> string option"
  ol_join :: "string \<Rightarrow> (string \<times> string option) option"

record oidc_config =
  cf_client_id :: string
  cf_client_secret :: string
  cf_issuer_url :: string
  cf_redirect_url :: string
  cf_allowed_tenants :: "string list"

record 'm oidc_client =
  cl_metadata :: 'm
  cl_revocation :: "string option"
  cl_client_secret :: string
  cl_issuer :: string
  cl_issuer_template :: "issuer_template option"
  cl_redirect_url :: string
  cl_allowed_tenants :: "string list"

text \<open>\<open>str::trim_end_matches\<close> and \<open>str::replace\<close>, the latter from left to right.\<close>

definition trim_end :: "char \<Rightarrow> string \<Rightarrow> string" where
  "trim_end c s = rev (dropWhile (\<lambda>x. x = c) (rev s))"

function replace_str :: "string \<Rightarrow> string \<Rightarrow> string \<Rightarrow> string" where
  "replace_str p r [] = []"
| "replace_str p r (x # xs) =
     (if p \<noteq> [] \<and> prefix p (x # xs) then r @ replace_str p r (drop (length p) (x # xs)) else x # replace_str p r xs)"
  by pat_completeness auto
termination by (relation "measure (\<lambda>(_, _, s). length s)") auto

definition map_fail :: "('e \<Rightarrow> 'f) \<Rightarrow> 'e + 'a \<Rightarrow> 'f + 'a" where
  "map_fail f r = (case r of Inl e \<Rightarrow> Inl (f e) | Inr x \<Rightarrow> Inr x)"

definition oidc_new :: "('p, 'm) oidc_lib \<Rightarrow> oidc_config \<Rightarrow> ('p, oidc_error, 'm oidc_client) act" where
  "oidc_new lib config =
     bind_act (ol_get_discovery lib (trim_end CHR ''/'' (cf_issuer_url config) @ ''/.well-known/openid-configuration'')) (\<lambda>body.
     bind_act (res_act (map_fail Discovery (ol_json_field lib body ''revocation_endpoint''))) (\<lambda>revocation_endpoint.
     bind_act (res_act (map_fail Discovery (ol_json_field lib body ''issuer''))) (\<lambda>iss.
     bind_act (some_act (Discovery ''metadata missing issuer'') iss) (\<lambda>raw_issuer.
     let template = template_parse raw_issuer (cf_allowed_tenants config) in
     if (case template of Some t \<Rightarrow> it_allowed_tenants t = [] | None \<Rightarrow> False)
     then err_act (OidcConfiguration (''issuer '' @ [CHR 0x22] @ raw_issuer @ [CHR 0x22] @ '' is a multi-tenant template but no allowed tenants are configured; set [authorization].allowed_tenants''))
     else
       let body' = (if template \<noteq> None then replace_str ''{tenantid}'' (replicate 32 CHR ''0'') body else body) in
       bind_act (res_act (map_fail Discovery (ol_metadata lib body'))) (\<lambda>provider_metadata.
       bind_act (map_err_act Discovery (ol_fetch_jwks lib provider_metadata)) (\<lambda>metadata.
       bind_act (case revocation_endpoint of
                   None \<Rightarrow> ok_act None
                 | Some endpoint \<Rightarrow>
                     bind_act (res_act (map_fail (\<lambda>e. OidcConfiguration (''invalid revocation endpoint: '' @ e)) (ol_revocation_url lib endpoint)))
                       (\<lambda>url. ok_act (Some url))) (\<lambda>revocation.
       bind_act (res_act (map_fail UrlParse (ol_redirect_url lib (cf_redirect_url config)))) (\<lambda>_.
       ok_act \<lparr>cl_metadata = metadata, cl_revocation = revocation, cl_client_secret = cf_client_secret config, cl_issuer = raw_issuer, cl_issuer_template = template,
         cl_redirect_url = cf_redirect_url config, cl_allowed_tenants = cf_allowed_tenants config\<rparr>))))))))"

text \<open>A text field of the payload of a token, as in \<open>jwt.rs\<close>.\<close>

definition unverified_claim :: "('p, 'm) oidc_lib \<Rightarrow> string \<Rightarrow> string \<Rightarrow> string option" where
  "unverified_claim lib token field = (case split_on CHR ''.'' token of _ # payload # _ \<Rightarrow> ol_claim lib payload field | _ \<Rightarrow> None)"

text \<open>The check of an identity token, the same in \<open>exchange_code\<close> and \<open>refresh_token\<close>: a refresh has no nonce to compare.\<close>

definition check_id_token :: "('p, 'm) oidc_lib \<Rightarrow> issuer_template option \<Rightarrow> string \<Rightarrow> string option \<Rightarrow> oidc_error + unit" where
  "check_id_token lib template raw nonce =
     (case template of
        None \<Rightarrow> map_fail InvalidToken (ol_verify lib True raw nonce)
      | Some t \<Rightarrow>
          (case ol_verify lib False raw nonce of
             Inl e \<Rightarrow> Inl (InvalidToken e)
           | Inr _ \<Rightarrow>
               (case unverified_claim lib raw ''tid'' of
                  None \<Rightarrow> Inl (InvalidToken ''token missing tenant identifier'')
                | Some tenant_id \<Rightarrow>
                    if tenant_id = [] then Inl (InvalidToken ''token missing tenant identifier'')
                    else
                      (case resolve_checked t tenant_id of
                         Inl e \<Rightarrow> Inl (InvalidToken e)
                       | Inr expected \<Rightarrow>
                           if unverified_claim lib raw ''iss'' \<noteq> Some expected
                           then Inl (InvalidToken (''token issuer does not match tenant `'' @ tenant_id @ ''`''))
                           else Inr ()))))"

definition exchange_code :: "('p, 'm) oidc_lib \<Rightarrow> 'm oidc_client \<Rightarrow> string \<Rightarrow> string \<Rightarrow> string \<Rightarrow> ('p, oidc_error, string \<times> string option) act" where
  "exchange_code lib client auth_code nonce pkce_verifier =
     bind_act (res_act (map_fail OidcConfiguration (ol_exchange_ready lib))) (\<lambda>_.
     bind_act (map_err_act ExchangeFailure (ol_exchange lib auth_code pkce_verifier)) (\<lambda>token_response.
     bind_act (some_act MissingIdToken (tr_id_token token_response)) (\<lambda>id_token.
     bind_act (res_act (check_id_token lib (cl_issuer_template client) id_token (Some nonce))) (\<lambda>_.
     ok_act (id_token, tr_refresh_token token_response)))))"

definition refresh_token :: "('p, 'm) oidc_lib \<Rightarrow> 'm oidc_client \<Rightarrow> string \<Rightarrow> ('p, oidc_error, string \<times> string option) act" where
  "refresh_token lib client token =
     bind_act (res_act (map_fail OidcConfiguration (ol_exchange_ready lib))) (\<lambda>_.
     bind_act (map_err_act ExchangeFailure (ol_refresh lib token)) (\<lambda>token_response.
     bind_act (some_act MissingIdToken (tr_id_token token_response)) (\<lambda>id_token.
     bind_act (res_act (check_id_token lib (cl_issuer_template client) id_token None)) (\<lambda>_.
     ok_act (id_token, tr_refresh_token token_response)))))"

definition has_revocation_endpoint :: "'m oidc_client \<Rightarrow> bool" where
  "has_revocation_endpoint client \<longleftrightarrow> cl_revocation client \<noteq> None"

definition revoke_token :: "('p, 'm) oidc_lib \<Rightarrow> 'm oidc_client \<Rightarrow> string \<Rightarrow> ('p, oidc_error, unit) act" where
  "revoke_token lib client token =
     (case cl_revocation client of
        None \<Rightarrow> ok_act ()
      | Some url \<Rightarrow>
          bind_act (map_err_act Revocation (ol_revoke lib url (cl_client_secret client) token)) (\<lambda>status.
          if 200 \<le> status \<and> status < 300 then ok_act () else err_act (Revocation (''provider returned '' @ decimal status))))"

definition secure_scheme :: "('p, 'm) oidc_lib \<Rightarrow> string \<Rightarrow> bool" where
  "secure_scheme lib callback_url = (case ol_scheme lib callback_url of None \<Rightarrow> True | Some s \<Rightarrow> s = ''https'')"

definition secure_cookies :: "('p, 'm) oidc_lib \<Rightarrow> 'm oidc_client \<Rightarrow> bool" where
  "secure_cookies lib client = secure_scheme lib (cl_redirect_url client)"

section \<open>Return paths\<close>

definition contains :: "string \<Rightarrow> string \<Rightarrow> bool" where
  "contains p s \<longleftrightarrow> list_ex (prefix p) (suffixes s)"

text \<open>The characters are the code points below 256.\<close>

definition is_valid_return_to :: "('p, 'm) oidc_lib \<Rightarrow> string \<Rightarrow> bool" where
  "is_valid_return_to lib v \<longleftrightarrow>
     (if \<not> prefix ''/'' v \<or> prefix ''//'' v \<or> CHR 0x5C \<in> set v \<or> contains ''%5c'' v \<or> contains ''%5C'' v \<or>
         list_ex (\<lambda>c. of_char c < (32 :: nat) \<or> 127 \<le> (of_char c :: nat) \<and> of_char c < (160 :: nat)) v
      then False
      else case ol_join lib v of None \<Rightarrow> False | Some (scheme, host) \<Rightarrow> scheme = ''http'' \<and> host = Some ''localhost'')"

definition has_error_param :: "string \<Rightarrow> bool" where
  "has_error_param query = list_ex (\<lambda>pair. hd (split_on CHR ''='' pair) = ''error'') (split_on CHR ''&'' query)"

definition redirect_target :: "string \<Rightarrow> string option \<Rightarrow> string" where
  "redirect_target return_to error =
     (case error of
        None \<Rightarrow> return_to
      | Some err_code \<Rightarrow>
          let (before_fragment, fragment) = (case split_once CHR ''#'' return_to of Some (b, f) \<Rightarrow> (b, Some f) | None \<Rightarrow> (return_to, None));
              query = map_option snd (split_once CHR ''?'' before_fragment);
              has_error = (case query of None \<Rightarrow> False | Some q \<Rightarrow> has_error_param q);
              target = (if has_error then before_fragment
                        else before_fragment @
                          (if suffix ''?'' before_fragment \<or> suffix ''&'' before_fragment then ''error=''
                           else if query \<noteq> None then ''&error='' else ''?error='') @ err_code) in
          target @ (case fragment of None \<Rightarrow> [] | Some f \<Rightarrow> CHR ''#'' # f))"

section \<open>Cookies and responses\<close>

text \<open>Every cookie is \<open>HttpOnly\<close>, \<open>SameSite=Lax\<close> and for the path \<open>/\<close>; the lifetime is in seconds.\<close>

record cookie =
  ck_name :: string
  ck_value :: string
  ck_secure :: bool
  ck_max_age :: nat

definition clear_cookie :: "string \<Rightarrow> bool \<Rightarrow> cookie" where
  "clear_cookie name secure = \<lparr>ck_name = name, ck_value = [], ck_secure = secure, ck_max_age = 0\<rparr>"

record auth_body =
  ab_success :: bool
  ab_token :: "string option"
  ab_error :: "string option"

record oidc_response =
  or_status :: nat
  or_location :: "string option"
  or_cookies :: "cookie list"
  or_body :: "auth_body option"

definition auth_failed :: "string \<Rightarrow> auth_body" where
  "auth_failed message = \<lparr>ab_success = False, ab_token = None, ab_error = Some message\<rparr>"

definition auth_flow_cookies :: "bool \<Rightarrow> cookie list" where
  "auth_flow_cookies secure =
     [clear_cookie ''oidc_csrf'' secure, clear_cookie ''oidc_nonce'' secure, clear_cookie ''oidc_pkce'' secure, clear_cookie ''oidc_return_to'' secure]"

definition callback_failure :: "nat \<Rightarrow> string \<Rightarrow> string \<Rightarrow> string option \<Rightarrow> bool \<Rightarrow> oidc_response" where
  "callback_failure status message err_code return_to secure =
     (case return_to of
        Some r \<Rightarrow> \<lparr>or_status = 302, or_location = Some (redirect_target r (Some err_code)), or_cookies = auth_flow_cookies secure, or_body = None\<rparr>
      | None \<Rightarrow> \<lparr>or_status = status, or_location = None, or_cookies = auth_flow_cookies secure, or_body = Some (auth_failed message)\<rparr>)"

definition session_cookies :: "string \<Rightarrow> string option \<Rightarrow> bool \<Rightarrow> cookie list" where
  "session_cookies token refresh secure =
     \<lparr>ck_name = ''auth_token'', ck_value = token, ck_secure = secure, ck_max_age = 7 * 86400\<rparr> #
     (case refresh of None \<Rightarrow> [] | Some rt \<Rightarrow> [\<lparr>ck_name = ''refresh_token'', ck_value = rt, ck_secure = secure, ck_max_age = 30 * 86400\<rparr>])"

section \<open>Routes\<close>

record auth_url =
  au_url :: string
  au_csrf_token :: string
  au_nonce :: string
  au_pkce_verifier :: string

definition login_cookie :: "bool \<Rightarrow> string \<Rightarrow> string \<Rightarrow> cookie" where
  "login_cookie secure name v = \<lparr>ck_name = name, ck_value = v, ck_secure = secure, ck_max_age = 300\<rparr>"

definition login :: "('p, 'm) oidc_lib \<Rightarrow> 'm oidc_client \<Rightarrow> auth_url \<Rightarrow> string option \<Rightarrow> oidc_response" where
  "login lib client auth_data return_to =
     (if (case return_to of Some r \<Rightarrow> \<not> is_valid_return_to lib r | None \<Rightarrow> False)
      then \<lparr>or_status = 400, or_location = None, or_cookies = [], or_body = Some (auth_failed ''invalid return_to'')\<rparr>
      else
        let base = login_cookie (secure_cookies lib client) in
        \<lparr>or_status = 302, or_location = Some (au_url auth_data),
         or_cookies = [base ''oidc_csrf'' (au_csrf_token auth_data), base ''oidc_nonce'' (au_nonce auth_data), base ''oidc_pkce'' (au_pkce_verifier auth_data)] @
           (case return_to of None \<Rightarrow> [] | Some r \<Rightarrow> [base ''oidc_return_to'' r]),
         or_body = None\<rparr>)"

record callback_query =
  cq_code :: "string option"
  cq_state :: "string option"
  cq_error :: "string option"

text \<open>The status, the message and the code that a failed exchange is reported with.\<close>

fun callback_error :: "oidc_error \<Rightarrow> nat \<times> string \<times> string" where
  "callback_error (ExchangeFailure _) = (401, ''authentication failed'', ''authentication_failed'')"
| "callback_error MissingIdToken = (401, ''authentication failed'', ''authentication_failed'')"
| "callback_error (InvalidToken _) = (401, ''authentication failed'', ''authentication_failed'')"
| "callback_error _ = (500, ''internal server error'', ''internal_error'')"

definition callback :: "('p, 'm) oidc_lib \<Rightarrow> 'm oidc_client \<Rightarrow> (string \<rightharpoonup> string) \<Rightarrow> callback_query \<Rightarrow> 'p \<Rightarrow> oidc_response \<times> 'p" where
  "callback lib client cookies query p =
     (let secure = secure_cookies lib client;
          return_to = (case cookies ''oidc_return_to'' of None \<Rightarrow> None | Some v \<Rightarrow> if is_valid_return_to lib v then Some v else None) in
      case cq_error query of
        Some provider_error \<Rightarrow>
          (if provider_error = ''access_denied'' then callback_failure 403 ''access denied'' ''access_denied'' return_to secure
           else callback_failure 401 ''authentication failed'' ''authentication_failed'' return_to secure, p)
      | None \<Rightarrow>
          (case (cookies ''oidc_csrf'', cookies ''oidc_nonce'', cookies ''oidc_pkce'') of
             (Some csrf, Some nonce, Some pkce) \<Rightarrow>
               (case (cq_code query, cq_state query) of
                  (Some auth_code, Some state) \<Rightarrow>
                    if state \<noteq> csrf then (callback_failure 401 ''Invalid state parameter'' ''invalid_state'' return_to secure, p)
                    else
                      (case exchange_code lib client auth_code nonce pkce p of
                         (Inr (token, refresh), p') \<Rightarrow>
                           (case return_to of
                              Some r \<Rightarrow> \<lparr>or_status = 302, or_location = Some r,
                                          or_cookies = auth_flow_cookies secure @ session_cookies token refresh secure, or_body = None\<rparr>
                            | None \<Rightarrow> \<lparr>or_status = 200, or_location = None,
                                          or_cookies = auth_flow_cookies secure @ session_cookies token refresh secure,
                                          or_body = Some \<lparr>ab_success = True, ab_token = Some token, ab_error = None\<rparr>\<rparr>, p')
                       | (Inl e, p') \<Rightarrow>
                           (case callback_error e of (status, message, err_code) \<Rightarrow> callback_failure status message err_code return_to secure, p'))
                | _ \<Rightarrow> (callback_failure 401 ''authentication failed'' ''authentication_failed'' return_to secure, p))
           | _ \<Rightarrow> (callback_failure 400 ''Session expired or security cookies missing'' ''security_cookies_missing'' return_to secure, p)))"

definition refresh_route :: "('p, 'm) oidc_lib \<Rightarrow> 'm oidc_client \<Rightarrow> (string \<rightharpoonup> string) \<Rightarrow> 'p \<Rightarrow> oidc_response \<times> 'p" where
  "refresh_route lib client cookies p =
     (case cookies ''refresh_token'' of
        None \<Rightarrow> (\<lparr>or_status = 401, or_location = None, or_cookies = [], or_body = Some (auth_failed ''missing refresh token'')\<rparr>, p)
      | Some token \<Rightarrow>
          (case refresh_token lib client token p of
             (Inr (id_token, new_refresh), p') \<Rightarrow>
               (\<lparr>or_status = 200, or_location = None, or_cookies = session_cookies id_token new_refresh (secure_cookies lib client),
                 or_body = Some \<lparr>ab_success = True, ab_token = Some id_token, ab_error = None\<rparr>\<rparr>, p')
           | (Inl e, p') \<Rightarrow> (\<lparr>or_status = 401, or_location = None, or_cookies = [], or_body = Some (auth_failed ''authentication failed'')\<rparr>, p')))"

text \<open>The token, if any, whose revocation the route starts, and its answer.\<close>

definition logout :: "('p, 'm) oidc_lib \<Rightarrow> 'm oidc_client \<Rightarrow> (string \<rightharpoonup> string) \<Rightarrow> string option \<times> oidc_response" where
  "logout lib client cookies =
     (let secure = secure_cookies lib client in
      (if has_revocation_endpoint client then cookies ''refresh_token'' else None,
       \<lparr>or_status = 204, or_location = None, or_cookies = [clear_cookie ''auth_token'' secure, clear_cookie ''refresh_token'' secure], or_body = None\<rparr>))"

text \<open>The session probe: the claims of the verified token.\<close>

datatype audience = Single string | Multi "string list"

record claims =
  cm_iss :: string
  cm_sub :: string
  cm_aud :: audience
  cm_exp :: u64
  cm_nbf :: "u64 option"
  cm_iat :: "u64 option"
  cm_nonce :: "string option"
  cm_jti :: "string option"

record me_response =
  me_sub :: string
  me_iss :: string
  me_aud :: "string list"
  me_exp :: u64

definition me :: "claims option \<Rightarrow> api_error + me_response" where
  "me token_claims =
     (case validated token_claims of
        Inl e \<Rightarrow> Inl e
      | Inr c \<Rightarrow> Inr \<lparr>me_sub = cm_sub c, me_iss = cm_iss c, me_aud = (case cm_aud c of Single a \<Rightarrow> [a] | Multi v \<Rightarrow> v), me_exp = cm_exp c\<rparr>)"

section \<open>Trusted tokens\<close>

definition token_trusted :: "('p, 'm) oidc_lib \<Rightarrow> issuer_template option \<Rightarrow> string \<Rightarrow> string option \<Rightarrow> bool" where
  "token_trusted lib template raw nonce \<longleftrightarrow>
     (case template of
        None \<Rightarrow> ol_verify lib True raw nonce = Inr ()
      | Some t \<Rightarrow> ol_verify lib False raw nonce = Inr () \<and>
          (\<exists>tenant \<in> set (it_allowed_tenants t). unverified_claim lib raw ''tid'' = Some tenant \<and> unverified_claim lib raw ''iss'' = Some (template_resolve t tenant)))"

lemma check_id_token_trusted: "check_id_token lib template raw nonce = Inr () \<Longrightarrow> token_trusted lib template raw nonce"
  by (auto simp: check_id_token_def token_trusted_def map_fail_def resolve_checked_def list_ex_iff split: option.splits sum.splits if_splits)

lemma exchange_code_ok:
  assumes "exchange_code lib client c nonce pkce p = (Inr (token, refresh), p')"
  shows "\<exists>tr. ol_exchange lib c pkce p = (Inr tr, p') \<and> tr_id_token tr = Some token \<and> tr_refresh_token tr = refresh \<and>
    token_trusted lib (cl_issuer_template client) token (Some nonce)"
  using assms by (auto simp: exchange_code_def act_eqs res_act_def dest!: check_id_token_trusted split: sum.splits option.splits)

lemma refresh_token_ok:
  assumes "refresh_token lib client t p = (Inr (token, refresh), p')"
  shows "\<exists>tr. ol_refresh lib t p = (Inr tr, p') \<and> tr_id_token tr = Some token \<and> token_trusted lib (cl_issuer_template client) token None"
  using assms by (auto simp: refresh_token_def act_eqs res_act_def dest!: check_id_token_trusted split: sum.splits option.splits)

lemma failure_sets_nothing: "c \<in> set (or_cookies (callback_failure st m e r s)) \<Longrightarrow> c \<in> set (auth_flow_cookies s)"
  by (auto simp: callback_failure_def split: option.splits)

lemma flow_names: "c \<in> set (auth_flow_cookies s) \<Longrightarrow> ck_name c \<noteq> ''auth_token'' \<and> ck_name c \<noteq> ''refresh_token''"
  by (auto simp: auth_flow_cookies_def clear_cookie_def)

text \<open>The outcomes of the callback: a failure, or a session after a verified exchange.\<close>

definition error_codes :: "string list" where
  "error_codes = [''access_denied'', ''authentication_failed'', ''security_cookies_missing'', ''invalid_state'', ''internal_error'']"

lemma error_codes_plain: "e \<in> set error_codes \<Longrightarrow> CHR 0x5C \<notin> set e \<and> list_all (\<lambda>c. 32 \<le> (of_char c :: nat)) e"
proof -
  have "list_all (\<lambda>e. CHR 0x5C \<notin> set e \<and> list_all (\<lambda>c. 32 \<le> (of_char c :: nat)) e) error_codes" by code_simp
  then show "e \<in> set error_codes \<Longrightarrow> CHR 0x5C \<notin> set e \<and> list_all (\<lambda>c. 32 \<le> (of_char c :: nat)) e" by (simp add: list_all_iff)
qed

lemma error_code_in [simp]: "''access_denied'' \<in> set error_codes" "''authentication_failed'' \<in> set error_codes"
    "''security_cookies_missing'' \<in> set error_codes" "''invalid_state'' \<in> set error_codes" "''internal_error'' \<in> set error_codes"
  by (simp_all add: error_codes_def)

definition failed_login :: "('p, 'm) oidc_lib \<Rightarrow> 'm oidc_client \<Rightarrow> oidc_response \<Rightarrow> bool" where
  "failed_login lib client resp \<longleftrightarrow>
     (\<exists>st m e r. resp = callback_failure st m e r (secure_cookies lib client) \<and> (\<forall>v. r = Some v \<longrightarrow> is_valid_return_to lib v) \<and>
        e \<in> set error_codes)"

definition verified_login :: "('p, 'm) oidc_lib \<Rightarrow> 'm oidc_client \<Rightarrow> (string \<rightharpoonup> string) \<Rightarrow> callback_query \<Rightarrow> 'p \<Rightarrow> oidc_response \<Rightarrow> 'p \<Rightarrow> string \<Rightarrow> string option \<Rightarrow> bool" where
  "verified_login lib client cookies query p resp p' token refresh \<longleftrightarrow>
     (\<exists>auth_code csrf nonce pkce. cq_error query = None \<and> cq_code query = Some auth_code \<and> cq_state query = Some csrf \<and>
        cookies ''oidc_csrf'' = Some csrf \<and> cookies ''oidc_nonce'' = Some nonce \<and> cookies ''oidc_pkce'' = Some pkce \<and>
        exchange_code lib client auth_code nonce pkce p = (Inr (token, refresh), p')) \<and>
     or_cookies resp = auth_flow_cookies (secure_cookies lib client) @ session_cookies token refresh (secure_cookies lib client) \<and>
     (\<forall>l. or_location resp = Some l \<longrightarrow> is_valid_return_to lib l)"

lemma failed_loginI:
  assumes "resp = callback_failure st m e r (secure_cookies lib client)"
    and "r = (case cookies ''oidc_return_to'' of None \<Rightarrow> None | Some v \<Rightarrow> if is_valid_return_to lib v then Some v else None)"
    and "e \<in> set error_codes"
  shows "failed_login lib client resp"
  unfolding failed_login_def using assms by (intro exI [of _ st] exI [of _ m] exI [of _ e] exI [of _ r]) (auto split: option.splits if_splits)

lemma callback_error_code: "snd (snd (callback_error e)) \<in> {''authentication_failed'', ''internal_error''}"
  by (cases e) simp_all

lemma callback_cases:
  assumes "callback lib client cookies query p = (resp, p')"
  shows "failed_login lib client resp \<or> (\<exists>token refresh. verified_login lib client cookies query p resp p' token refresh)"
proof -
  define r where "r = (case cookies ''oidc_return_to'' of None \<Rightarrow> None | Some v \<Rightarrow> if is_valid_return_to lib v then Some v else None)"
  note fail = failed_loginI [where r = r and cookies = cookies, OF _ r_def]
  have valid: "r = Some v \<Longrightarrow> is_valid_return_to lib v" for v by (auto simp: r_def split: option.splits if_splits)
  note run = assms [unfolded callback_def Let_def, folded r_def]
  show ?thesis
  proof (cases "cq_error query")
    case (Some e)
    then show ?thesis using run fail by (auto split: if_splits)
  next
    case None
    show ?thesis
    proof (cases "cookies ''oidc_csrf'' = None \<or> cookies ''oidc_nonce'' = None \<or> cookies ''oidc_pkce'' = None \<or> cq_code query = None \<or> cq_state query = None")
      case True
      then show ?thesis using run None fail by (auto split: option.splits)
    next
      case False
      then obtain csrf nonce pkce auth_code state where some: "cookies ''oidc_csrf'' = Some csrf" "cookies ''oidc_nonce'' = Some nonce"
        "cookies ''oidc_pkce'' = Some pkce" "cq_code query = Some auth_code" "cq_state query = Some state" by auto
      obtain q p1 where ex: "exchange_code lib client auth_code nonce pkce p = (q, p1)" by (rule prod.exhaust)
      show ?thesis
      proof (cases "state = csrf")
        case False
        then show ?thesis using run None some fail by auto
      next
        case True
        show ?thesis
        proof (cases q)
          case (Inl e)
          obtain st m c where c: "callback_error e = (st, m, c)" by (rule prod_cases3)
          then show ?thesis using run None some True ex Inl fail callback_error_code [of e] by auto
        next
          case (Inr y)
          obtain token refresh where y: "y = (token, refresh)" by (rule prod.exhaust)
          have "verified_login lib client cookies query p resp p' token refresh"
            using run None some True ex Inr y valid by (auto simp: verified_login_def split: option.splits)
          then show ?thesis by blast
        qed
      qed
    qed
  qed
qed

section \<open>Return paths stay on the site\<close>

definition on_site :: "string \<Rightarrow> bool" where
  "on_site l \<longleftrightarrow> prefix ''/'' l \<and> \<not> prefix ''//'' l \<and> CHR 0x5C \<notin> set l \<and> list_all (\<lambda>c. 32 \<le> (of_char c :: nat)) l"

lemma valid_on_site: "is_valid_return_to lib v \<Longrightarrow> on_site v"
  by (auto simp: is_valid_return_to_def on_site_def list_ex_iff list_all_iff not_less split: if_splits)

lemma on_site_extend:
  assumes "on_site (b @ r)" and "b \<noteq> []" and "CHR 0x5C \<notin> set x" and "list_all (\<lambda>c. 32 \<le> (of_char c :: nat)) x" and "x = [] \<or> hd x \<noteq> CHR ''/''"
  shows "on_site (b @ x)"
proof -
  obtain b' where b: "b = CHR ''/'' # b'" using assms(1,2) by (cases b) (auto simp: on_site_def)
  then show ?thesis using assms by (cases b'; cases x) (auto simp: on_site_def)
qed

lemma redirect_on_site:
  assumes "on_site v" and "CHR 0x5C \<notin> set e" and "list_all (\<lambda>c. 32 \<le> (of_char c :: nat)) e"
  shows "on_site (redirect_target v (Some e))"
proof -
  define bf where "bf = (case split_once CHR ''#'' v of Some (b, f) \<Rightarrow> (b, Some f) | None \<Rightarrow> (v, None))"
  define tail where "tail = (case snd bf of None \<Rightarrow> [] | Some f \<Rightarrow> CHR ''#'' # f)"
  have v: "v = fst bf @ tail" by (auto simp: bf_def tail_def dest: split_once_Some split: option.splits)
  moreover have "fst bf \<noteq> []" using assms(1) v by (auto simp: on_site_def tail_def split: option.splits)
  moreover have tail: "CHR 0x5C \<notin> set tail" "list_all (\<lambda>c. 32 \<le> (of_char c :: nat)) tail" "tail = [] \<or> hd tail = CHR ''#''"
    using assms(1) v by (auto simp: on_site_def tail_def split: option.splits)
  moreover obtain x where x: "redirect_target v (Some e) = fst bf @ x @ tail" "x \<in> {[], ''error='' @ e, ''&error='' @ e, ''?error='' @ e}"
  proof -
    have "\<exists>x \<in> {[], ''error='' @ e, ''&error='' @ e, ''?error='' @ e}. redirect_target v (Some e) = fst bf @ x @ tail"
      by (simp add: redirect_target_def case_prod_unfold Let_def bf_def [symmetric] tail_def [symmetric])
    then show ?thesis using that by blast
  qed
  moreover have "CHR 0x5C \<notin> set (x @ tail)" "list_all (\<lambda>c. 32 \<le> (of_char c :: nat)) (x @ tail)" "x @ tail = [] \<or> hd (x @ tail) \<noteq> CHR ''/''"
    using x(2) tail assms(2,3) by (auto simp: hd_append)
  ultimately show ?thesis using on_site_extend [of "fst bf" tail "x @ tail"] assms(1) by simp
qed

section \<open>Properties\<close>

text \<open>
  C32: a session starts only with a verified token. When the callback sets the session cookie, the provider reported no error, the state of the request
  is the value of the browser's own cookie, the code was exchanged with the verifier of that browser, and the cookie is the identity token of that
  exchange, verified for the nonce of that browser; with a provider of many tenants the tenant is on the allowlist and the issuer is its issuer. A
  refresh sets only a token verified in the same way but for the nonce.
\<close>

theorem session_needs_verified_token:
  assumes "callback lib client cookies query p = (resp, p')" and "refresh_route lib client cookies2 q = (resp2, q')"
  shows "(\<forall>c \<in> set (or_cookies resp). ck_name c = ''auth_token'' \<longrightarrow>
      (\<exists>auth_code csrf nonce pkce tr. cq_error query = None \<and> cq_code query = Some auth_code \<and> cq_state query = Some csrf \<and>
         cookies ''oidc_csrf'' = Some csrf \<and> cookies ''oidc_nonce'' = Some nonce \<and> cookies ''oidc_pkce'' = Some pkce \<and>
         ol_exchange lib auth_code pkce p = (Inr tr, p') \<and> tr_id_token tr = Some (ck_value c) \<and>
         token_trusted lib (cl_issuer_template client) (ck_value c) (Some nonce))) \<and>
    (\<forall>c \<in> set (or_cookies resp2). ck_name c = ''auth_token'' \<longrightarrow>
      (\<exists>t tr. cookies2 ''refresh_token'' = Some t \<and> ol_refresh lib t q = (Inr tr, q') \<and> tr_id_token tr = Some (ck_value c) \<and>
         token_trusted lib (cl_issuer_template client) (ck_value c) None))"
proof (intro conjI ballI impI)
  fix c assume c: "c \<in> set (or_cookies resp)" "ck_name c = ''auth_token''"
  then have "\<not> failed_login lib client resp" using failure_sets_nothing flow_names by (fastforce simp: failed_login_def)
  then obtain token refresh where v: "verified_login lib client cookies query p resp p' token refresh" using callback_cases [OF assms(1)] by blast
  then have "ck_value c = token" using c flow_names by (auto simp: verified_login_def session_cookies_def split: option.splits)
  moreover obtain auth_code csrf nonce pkce where e: "cq_error query = None" "cq_code query = Some auth_code" "cq_state query = Some csrf"
      "cookies ''oidc_csrf'' = Some csrf" "cookies ''oidc_nonce'' = Some nonce" "cookies ''oidc_pkce'' = Some pkce"
      "exchange_code lib client auth_code nonce pkce p = (Inr (token, refresh), p')" using v unfolding verified_login_def by blast
  ultimately show "\<exists>auth_code csrf nonce pkce tr. cq_error query = None \<and> cq_code query = Some auth_code \<and> cq_state query = Some csrf \<and>
      cookies ''oidc_csrf'' = Some csrf \<and> cookies ''oidc_nonce'' = Some nonce \<and> cookies ''oidc_pkce'' = Some pkce \<and>
      ol_exchange lib auth_code pkce p = (Inr tr, p') \<and> tr_id_token tr = Some (ck_value c) \<and>
      token_trusted lib (cl_issuer_template client) (ck_value c) (Some nonce)"
    using exchange_code_ok [OF e(7)] e(1-6) by auto
next
  fix c assume c: "c \<in> set (or_cookies resp2)" "ck_name c = ''auth_token''"
  then obtain t token refresh where t: "cookies2 ''refresh_token'' = Some t" "refresh_token lib client t q = (Inr (token, refresh), q')" "ck_value c = token"
    using assms(2) by (auto simp: refresh_route_def session_cookies_def split: option.splits prod.splits sum.splits)
  show "\<exists>t tr. cookies2 ''refresh_token'' = Some t \<and> ol_refresh lib t q = (Inr tr, q') \<and> tr_id_token tr = Some (ck_value c) \<and>
      token_trusted lib (cl_issuer_template client) (ck_value c) None"
    using refresh_token_ok [OF t(2)] t(1,3) by auto
qed

text \<open>
  C37: whatever the outcome, the callback ends the login. It clears all four cookies of the login, so their values cannot be used again, and sets no
  other cookie than those of a session; and it never sends the browser to another site: an address it redirects to is a path of this site, without
  backslash or control characters, and so is the address with the code of an error added to it.
\<close>

theorem callback_ends_login:
  assumes "callback lib client cookies query p = (resp, p')"
  shows "set (auth_flow_cookies (secure_cookies lib client)) \<subseteq> set (or_cookies resp) \<and>
    (\<forall>c \<in> set (or_cookies resp) - set (auth_flow_cookies (secure_cookies lib client)). ck_name c \<in> {''auth_token'', ''refresh_token''}) \<and>
    (\<forall>l. or_location resp = Some l \<longrightarrow> on_site l)"
  using callback_cases [OF assms]
proof (elim disjE exE)
  assume "failed_login lib client resp"
  then obtain st m e r where f: "resp = callback_failure st m e r (secure_cookies lib client)" "\<forall>v. r = Some v \<longrightarrow> is_valid_return_to lib v"
    "e \<in> set error_codes" unfolding failed_login_def by blast
  have "CHR 0x5C \<notin> set e" "list_all (\<lambda>c. 32 \<le> (of_char c :: nat)) e" using error_codes_plain [OF f(3)] by simp_all
  then have "on_site (redirect_target v (Some e))" if "r = Some v" for v using redirect_on_site valid_on_site f(2) that by blast
  then show ?thesis using f(1) by (auto simp: callback_failure_def split: option.splits)
next
  fix token refresh
  assume "verified_login lib client cookies query p resp p' token refresh"
  then show ?thesis using valid_on_site by (auto simp: verified_login_def session_cookies_def split: option.splits)
qed

section \<open>Witnesses\<close>

text \<open>A provider that issues one token for the right code and verifier; its tokens have the tenant as the payload.\<close>

definition plain_provider :: "(nat, unit) oidc_lib" where
  "plain_provider = \<lparr>
     ol_get_discovery = (\<lambda>_. ok_act ''{}''), ol_json_field = (\<lambda>_ _. Inr None), ol_metadata = (\<lambda>_. Inr ()), ol_fetch_jwks = ok_act,
     ol_revocation_url = Inr, ol_redirect_url = Inr, ol_exchange_ready = Inr (),
     ol_exchange = (\<lambda>c v n. (if c = ''code'' \<and> v = ''ver'' then Inr \<lparr>tr_id_token = Some ''h.t1.s'', tr_refresh_token = Some ''r''\<rparr> else Inl ''denied'', Suc n)),
     ol_refresh = (\<lambda>t n. (Inr \<lparr>tr_id_token = Some ''h.t1.s'', tr_refresh_token = None\<rparr>, Suc n)),
     ol_verify = (\<lambda>_ t nonce. if nonce \<in> {None, Some ''non''} then Inr () else Inl ''nonce''),
     ol_revoke = (\<lambda>_ _ _. ok_act 200),
     ol_claim = (\<lambda>payload field. Some (if field = ''tid'' then payload else ''https://idp/'' @ payload)),
     ol_scheme = (\<lambda>_. Some ''https''), ol_join = (\<lambda>_. Some (''http'', Some ''localhost''))\<rparr>"

definition plain_client :: "unit oidc_client" where
  "plain_client = \<lparr>cl_metadata = (), cl_revocation = None, cl_client_secret = ''s'', cl_issuer = ''https://idp/{tenantid}'',
     cl_issuer_template = Some \<lparr>it_prefix = ''https://idp/'', it_suffix = [], it_allowed_tenants = [''t1'']\<rparr>,
     cl_redirect_url = ''https://app/auth/callback'', cl_allowed_tenants = [''t1'']\<rparr>"

definition browser :: "string \<rightharpoonup> string" where
  "browser = [''oidc_csrf'' \<mapsto> ''st'', ''oidc_nonce'' \<mapsto> ''non'', ''oidc_pkce'' \<mapsto> ''ver'', ''refresh_token'' \<mapsto> ''r'']"

definition good_query :: callback_query where
  "good_query = \<lparr>cq_code = Some ''code'', cq_state = Some ''st'', cq_error = None\<rparr>"

lemma browser_cookies: "browser ''oidc_csrf'' = Some ''st''" "browser ''oidc_nonce'' = Some ''non''" "browser ''oidc_pkce'' = Some ''ver''"
    "browser ''refresh_token'' = Some ''r''" "browser ''oidc_return_to'' = None"
  by (simp_all add: browser_def)

definition logged_in :: oidc_response where
  "logged_in = \<lparr>or_status = 200, or_location = None, or_cookies = auth_flow_cookies True @ session_cookies ''h.t1.s'' (Some ''r'') True,
     or_body = Some \<lparr>ab_success = True, ab_token = Some ''h.t1.s'', ab_error = None\<rparr>\<rparr>"

lemma good_exchange: "exchange_code plain_provider plain_client ''code'' ''non'' ''ver'' 0 = (Inr (''h.t1.s'', Some ''r''), 1)"
  by (simp add: exchange_code_def bind_act_def res_act_def map_err_act_def some_act_def ok_act_def map_fail_def plain_provider_def plain_client_def
      check_id_token_def unverified_claim_def resolve_checked_def template_resolve_def)

lemma good_login: "callback plain_provider plain_client browser good_query 0 = (logged_in, 1)"
proof -
  have "secure_cookies plain_provider plain_client" by (simp add: secure_cookies_def secure_scheme_def plain_provider_def)
  then show ?thesis using good_exchange by (simp add: callback_def Let_def browser_cookies good_query_def logged_in_def)
qed

theorem session_needs_verified_token_witness:
  "callback plain_provider plain_client browser good_query 0 = (logged_in, 1) \<and>
   token_trusted plain_provider (cl_issuer_template plain_client) ''h.t1.s'' (Some ''non'')"
proof -
  obtain r q where r: "refresh_route plain_provider plain_client browser 0 = (r, q)" by (rule prod.exhaust)
  have "\<lparr>ck_name = ''auth_token'', ck_value = ''h.t1.s'', ck_secure = True, ck_max_age = 7 * 86400\<rparr> \<in> set (or_cookies logged_in)"
    by (simp add: logged_in_def session_cookies_def)
  then show ?thesis
    using session_needs_verified_token [OF good_login r, THEN conjunct1, rule_format] good_login browser_cookies by fastforce
qed

theorem callback_ends_login_witness:
  "set (auth_flow_cookies True) \<subseteq> set (or_cookies (fst (callback plain_provider plain_client browser good_query 0)))"
proof -
  have "secure_cookies plain_provider plain_client" by (simp add: secure_cookies_def secure_scheme_def plain_provider_def)
  then show ?thesis using callback_ends_login [OF good_login] good_login by simp
qed

end
