(* ===== verification/Service_Health.thy ===== *)
theory Service_Health
  imports Prelude
begin

text \<open>
  Readiness, \<^verbatim>\<open>src/src/http/health.rs\<close> and the check that \<^verbatim>\<open>src/src/main.rs\<close> wires to it: the flags of the dependencies, the background
  task that is to refresh them, and the probe route. The timer is of the runtime library and is an argument: \<open>ti_tick\<close> waits for the next tick of
  the interval and \<open>ti_timeout\<close> does so for a bounded time, each from one instant, in milliseconds, to another.
\<close>

section \<open>Flags and probes\<close>

record dependency_health =
  dh_s3 :: bool
  dh_oidc :: bool

definition dependency_health_new :: dependency_health where
  "dependency_health_new = \<lparr>dh_s3 = True, dh_oidc = True\<rparr>"

definition is_healthy :: "dependency_health \<Rightarrow> bool" where
  "is_healthy h \<longleftrightarrow> dh_s3 h \<and> dh_oidc h"

definition set_s3 :: "bool \<Rightarrow> dependency_health \<Rightarrow> dependency_health" where
  "set_s3 v h = h\<lparr>dh_s3 := v\<rparr>"

definition set_oidc :: "bool \<Rightarrow> dependency_health \<Rightarrow> dependency_health" where
  "set_oidc v h = h\<lparr>dh_oidc := v\<rparr>"

record 't timer_lib =
  ti_deadline :: "'t \<Rightarrow> nat"
  ti_tick :: "'t \<Rightarrow> nat \<Rightarrow> nat \<times> 't"
  ti_timeout :: "nat \<Rightarrow> 't \<Rightarrow> nat \<Rightarrow> bool \<times> nat \<times> 't"

definition PROBE_PERIOD :: nat where "PROBE_PERIOD = 10000"

text \<open>One round of the loop of \<open>spawn_probes\<close>, \<open>None\<close> when the task ends. The two requests are asked of the state \<open>n\<close> of the outside world.\<close>

record ('t, 'n) probe_state =
  ps_now :: nat
  ps_timer :: 't
  ps_health :: dependency_health
  ps_world :: 'n

definition probe_round :: "'t timer_lib \<Rightarrow> (nat \<Rightarrow> bool) \<Rightarrow> ('n \<Rightarrow> bool \<times> 'n) \<Rightarrow> ('n \<Rightarrow> bool \<times> 'n) \<Rightarrow> ('t, 'n) probe_state \<Rightarrow> ('t, 'n) probe_state option" where
  "probe_round lib cancelled list_s3 get_oidc s =
     (case ti_tick lib (ps_timer s) (ps_now s) of (w1, t1) \<Rightarrow>
        if cancelled w1 then None
        else case ti_timeout lib 100 t1 w1 of (ticked, w2, t2) \<Rightarrow>
          if \<not> ticked then Some (s\<lparr>ps_now := w2, ps_timer := t2\<rparr>)
          else if cancelled w2 then None
          else
            case list_s3 (ps_world s) of (s3_ok, n1) \<Rightarrow>
            case get_oidc n1 of (oidc_ok, n2) \<Rightarrow>
            Some \<lparr>ps_now = w2, ps_timer = t2, ps_health = set_oidc oidc_ok (set_s3 s3_ok (ps_health s)), ps_world = n2\<rparr>)"

fun spawn_probes :: "nat \<Rightarrow> 't timer_lib \<Rightarrow> (nat \<Rightarrow> bool) \<Rightarrow> ('n \<Rightarrow> bool \<times> 'n) \<Rightarrow> ('n \<Rightarrow> bool \<times> 'n) \<Rightarrow> ('t, 'n) probe_state \<Rightarrow> ('t, 'n) probe_state" where
  "spawn_probes 0 lib cancelled list_s3 get_oidc s = s"
| "spawn_probes (Suc k) lib cancelled list_s3 get_oidc s =
     (case probe_round lib cancelled list_s3 get_oidc s of None \<Rightarrow> s | Some s' \<Rightarrow> spawn_probes k lib cancelled list_s3 get_oidc s')"

section \<open>Routes\<close>

definition readiness :: "bool \<Rightarrow> bool \<Rightarrow> bool \<Rightarrow> dependency_health \<Rightarrow> bool" where
  "readiness policy_unlocked lease_lost primary_lost h \<longleftrightarrow> policy_unlocked \<and> \<not> lease_lost \<and> \<not> primary_lost \<and> is_healthy h"

definition ready :: "bool option \<Rightarrow> dependency_health option \<Rightarrow> nat" where
  "ready check h =
     (if check = Some False then 503
      else case h of Some d \<Rightarrow> if is_healthy d then 200 else 503 | None \<Rightarrow> 200)"

definition health :: nat where "health = 200"

section \<open>Properties\<close>

text \<open>
  C39: the probes of the dependencies never run. The loop waits for a tick and then asks for the next one within 100 milliseconds; the ticks are ten
  seconds apart, so the wait fails and the round ends before the probes. While the task is scheduled within a second, the flags stay as they
  were for any number of rounds, whatever the object store and the provider would answer, nothing is asked of them, and readiness does not depend
  on them.
\<close>

theorem dependency_probes_never_run:
  assumes "\<And>t now w t'. ti_tick lib t now = (w, t') \<Longrightarrow> max now (ti_deadline lib t) \<le> w \<and> w \<le> max now (ti_deadline lib t) + 1000 \<and>
      ti_deadline lib t' = ti_deadline lib t + PROBE_PERIOD"
    and "\<And>d t now ok w t'. ti_timeout lib d t now = (ok, w, t') \<Longrightarrow> now + d < ti_deadline lib t \<Longrightarrow> \<not> ok \<and> t' = t \<and> w \<le> now + d + 1000"
    and "ps_now s \<le> ti_deadline lib (ps_timer s)" and "s' = spawn_probes k lib cancelled list_s3 get_oidc s"
  shows "ps_health s' = ps_health s \<and> ps_world s' = ps_world s \<and>
    (ps_health s = dependency_health_new \<longrightarrow> (readiness unlocked lost fenced (ps_health s') \<longleftrightarrow> unlocked \<and> \<not> lost \<and> \<not> fenced))"
proof -
  have round: "ps_health r' = ps_health r \<and> ps_world r' = ps_world r \<and> ps_now r' \<le> ti_deadline lib (ps_timer r')"
    if "probe_round lib cancelled list_s3 get_oidc r = Some r'" "ps_now r \<le> ti_deadline lib (ps_timer r)" for r r'
  proof -
    obtain w1 t1 where tick: "ti_tick lib (ps_timer r) (ps_now r) = (w1, t1)" by (rule prod.exhaust)
    obtain ok w2 t2 where wait: "ti_timeout lib 100 t1 w1 = (ok, w2, t2)" by (rule prod_cases3)
    have t: "w1 \<le> ti_deadline lib (ps_timer r) + 1000" "ti_deadline lib t1 = ti_deadline lib (ps_timer r) + 10000"
      using assms(1) [OF tick] that(2) by (simp_all add: PROBE_PERIOD_def)
    then have "w1 + 100 < ti_deadline lib t1" by simp
    from assms(2) [OF wait this] have "\<not> ok" "t2 = t1" "w2 \<le> w1 + 100 + 1000" by simp_all
    then show ?thesis using that(1) tick wait t by (auto simp: probe_round_def split: if_splits)
  qed
  have "ps_now s \<le> ti_deadline lib (ps_timer s) \<Longrightarrow> ps_health (spawn_probes k lib cancelled list_s3 get_oidc s) = ps_health s \<and>
      ps_world (spawn_probes k lib cancelled list_s3 get_oidc s) = ps_world s"
    by (induction k arbitrary: s) (auto dest: round split: option.split)
  then show ?thesis using assms(3,4) by (simp add: readiness_def is_healthy_def dependency_health_new_def)
qed

text \<open>A timer that is the instant of its next tick and is never late.\<close>

definition punctual :: "nat timer_lib" where
  "punctual = \<lparr>ti_deadline = id, ti_tick = (\<lambda>t now. (max now t, t + PROBE_PERIOD)),
     ti_timeout = (\<lambda>d t now. if t \<le> now + d then (True, max now t, t + PROBE_PERIOD) else (False, now + d, t))\<rparr>"

theorem dependency_probes_never_run_witness:
  "ps_health (spawn_probes 8640 punctual (\<lambda>_. False) (\<lambda>n. (False, Suc n)) (\<lambda>n. (False, Suc n))
     \<lparr>ps_now = 0, ps_timer = 0, ps_health = dependency_health_new, ps_world = 0 :: nat\<rparr>) = dependency_health_new"
  by (rule dependency_probes_never_run [where lib = punctual and s = "\<lparr>ps_now = 0, ps_timer = 0, ps_health = dependency_health_new, ps_world = 0 :: nat\<rparr>",
        OF _ _ _ refl, THEN conjunct1, simplified]) (auto simp: punctual_def split: if_splits)

end
