(* ===== verification/Service_Config.thy ===== *)
theory Service_Config
  imports Fs_Routes Lease Oidc_Flow
begin

text \<open>
  The configuration of the server, \<^verbatim>\<open>src/src/config.rs\<close>, and the keys that \<^verbatim>\<open>src/src/main.rs\<close> makes of it: the overlay of the environment,
  the validation, the loader. The parsers of a document and of an address, and the environment, are arguments; \<open>uc_scheme\<close> answers the scheme of an
  address. A sampling ratio is of any type with its test. The settings of a build with the message broker are left out.
\<close>

section \<open>Settings\<close>

datatype s3_backend = S3Backend | MemoryBackend

record 'f service_config =
  sc_public_address :: string
  sc_listen_port :: nat
  sc_client_id :: string
  sc_client_secret :: string
  sc_issuer_url :: string
  sc_allowed_tenants :: "string list"
  sc_db_prefix :: string
  sc_mirror_master :: bool
  sc_writer_lease_ttl_secs :: u64
  sc_s3_backend :: s3_backend
  sc_s3_bucket :: string
  sc_s3_region :: string
  sc_s3_endpoint_url :: "string option"
  sc_s3_force_path_style :: bool
  sc_s3_access_key_id :: "string option"
  sc_s3_secret_access_key :: "string option"
  sc_capability_secret :: "string option"
  sc_capability_previous :: "string option"
  sc_service_name :: string
  sc_otlp_endpoint :: "string option"
  sc_sample_ratio :: 'f
  sc_allowed_origins :: "string list"
  sc_rate_per_minute :: u32
  sc_rate_burst :: u32
  sc_max_concurrent_downloads :: nat

record 'f config_lib =
  uc_scheme :: "string \<Rightarrow> string + string"
  uc_ratio_ok :: "'f \<Rightarrow> bool"
  uc_parse :: "string \<Rightarrow> string + 'f service_config"

definition burst_or_rate :: "'f service_config \<Rightarrow> u32" where
  "burst_or_rate c = (if sc_rate_burst c = 0 then sc_rate_per_minute c else sc_rate_burst c)"

section \<open>The environment\<close>

definition prefer_env :: "string option \<Rightarrow> string \<Rightarrow> string" where
  "prefer_env env from_file = (case env of Some v \<Rightarrow> if v \<noteq> [] then v else from_file | None \<Rightarrow> from_file)"

definition prefer_env_opt :: "string option \<Rightarrow> string option \<Rightarrow> string option" where
  "prefer_env_opt env from_file = (case env of Some v \<Rightarrow> if v \<noteq> [] then Some v else from_file | None \<Rightarrow> from_file)"

definition apply_overrides_from :: "(string \<Rightarrow> string option) \<Rightarrow> 'f service_config \<Rightarrow> 'f service_config" where
  "apply_overrides_from var c =
     c\<lparr>sc_client_secret := prefer_env (var ''RUST_API_CLIENT_SECRET'') (sc_client_secret c),
       sc_s3_access_key_id := prefer_env_opt (var ''RUST_API_S3_ACCESS_KEY_ID'') (sc_s3_access_key_id c),
       sc_s3_secret_access_key := prefer_env_opt (var ''RUST_API_S3_SECRET_ACCESS_KEY'') (sc_s3_secret_access_key c),
       sc_capability_secret := prefer_env_opt (var ''RUST_API_CAPABILITY_SECRET'') (sc_capability_secret c),
       sc_capability_previous := prefer_env_opt (var ''RUST_API_CAPABILITY_SECRET_PREV'') (sc_capability_previous c),
       sc_allowed_origins :=
         (case var ''RUST_API_ALLOWED_ORIGINS'' of
            None \<Rightarrow> sc_allowed_origins c
          | Some raw \<Rightarrow>
              if trim is_whitespace raw = [] then sc_allowed_origins c
              else filter (\<lambda>s. s \<noteq> []) (map (trim is_whitespace) (split_on CHR '','' raw)))\<rparr>"

section \<open>Validation\<close>

definition check_url :: "'f config_lib \<Rightarrow> string \<Rightarrow> string \<Rightarrow> string + unit" where
  "check_url lib name url =
     (case uc_scheme lib url of
        Inl e \<Rightarrow> Inl (name @ '' is not a valid URL: '' @ e)
      | Inr scheme \<Rightarrow> if scheme \<noteq> ''http'' \<and> scheme \<noteq> ''https'' then Inl (name @ '' must use http(s), got '' @ scheme) else Inr ())"

fun check_each :: "('x \<Rightarrow> string + unit) \<Rightarrow> 'x list \<Rightarrow> string + unit" where
  "check_each f [] = Inr ()"
| "check_each f (x # xs) = (case f x of Inl e \<Rightarrow> Inl e | Inr _ \<Rightarrow> check_each f xs)"

definition check_secret :: "string option \<Rightarrow> string + unit" where
  "check_secret s = (case s of None \<Rightarrow> Inr () | Some k \<Rightarrow> (case parse_secret_hex k of Inl e \<Rightarrow> Inl e | Inr _ \<Rightarrow> Inr ()))"

definition reject :: "bool \<Rightarrow> string \<Rightarrow> string + unit" where
  "reject bad message = (if bad then Inl message else Inr ())"

definition then_check :: "string + unit \<Rightarrow> string + unit \<Rightarrow> string + unit" where
  "then_check a b = (case a of Inl e \<Rightarrow> Inl e | Inr _ \<Rightarrow> b)"

definition blank :: "string \<Rightarrow> bool" where
  "blank s \<longleftrightarrow> trim is_whitespace s = []"

definition validate_config :: "'f config_lib \<Rightarrow> 'f service_config \<Rightarrow> string + unit" where
  "validate_config lib c =
     then_check (check_url lib ''public_address'' (sc_public_address c))
     (then_check (check_url lib ''authorization.issuer_url'' (sc_issuer_url c))
     (then_check (reject (blank (sc_client_id c)) ''authorization.client_id must not be empty'')
     (then_check (reject (blank (sc_client_secret c)) ''authorization.client_secret must not be empty (or set RUST_API_CLIENT_SECRET)'')
     (then_check (if contains ''{tenantid}'' (sc_issuer_url c)
        then then_check (reject (list_ex blank (sc_allowed_tenants c)) ''authorization.allowed_tenants must not contain empty entries'')
               (reject (sc_allowed_tenants c = []) ''authorization.issuer_url is a multi-tenant template, so authorization.allowed_tenants must list every tenant this deployment trusts'')
        else Inr ())
     (then_check (reject (blank (sc_db_prefix c)) ''database.prefix must not be empty'')
     (then_check (reject (list_ex (\<lambda>seg. seg = ''..'' \<or> seg = ''.'') (split_on CHR ''/'' (sc_db_prefix c))) ''database.prefix must not contain '.' or '..' segments'')
     (then_check (reject (sc_writer_lease_ttl_secs c > 2 ^ 63 - 1) ''database.writer_lease_ttl_secs is above i64::MAX'')
     (then_check (if sc_s3_backend c = S3Backend
        then then_check (reject (blank (sc_s3_bucket c)) ''s3.bucket must not be empty'') (reject (blank (sc_s3_region c)) ''s3.region must not be empty'')
        else Inr ())
     (then_check (check_secret (sc_capability_secret c))
     (then_check (check_secret (sc_capability_previous c))
     (then_check (reject (\<not> uc_ratio_ok lib (sc_sample_ratio c)) ''observability.sample_ratio must be within 0.0..=1.0'')
     (check_each (check_url lib ''http.allowed_origins entry'') (sc_allowed_origins c)))))))))))))"

definition parse_toml :: "'f config_lib \<Rightarrow> string \<Rightarrow> string + 'f service_config" where
  "parse_toml lib content =
     (case uc_parse lib content of
        Inl e \<Rightarrow> Inl (''Failed to parse config file: '' @ e)
      | Inr c \<Rightarrow> (case validate_config lib c of Inl e \<Rightarrow> Inl (''Invalid config values: '' @ e) | Inr _ \<Rightarrow> Inr c))"

text \<open>\<open>try_from_with\<close>: the content of the file, or \<open>None\<close> if the path is no file or cannot be read.\<close>

definition try_from_with :: "'f config_lib \<Rightarrow> string option \<Rightarrow> (string \<Rightarrow> string option) \<Rightarrow> string + 'f service_config" where
  "try_from_with lib file_content var =
     (case file_content of
        None \<Rightarrow> Inl ''Failed to read config file''
      | Some content \<Rightarrow>
          (case parse_toml lib content of
             Inl e \<Rightarrow> Inl e
           | Inr c \<Rightarrow>
               let c' = apply_overrides_from var c in
               case validate_config lib c' of Inl e \<Rightarrow> Inl (''Invalid config values: '' @ e) | Inr _ \<Rightarrow> Inr c'))"

definition resolve_token_keys :: "(string \<Rightarrow> string) \<Rightarrow> string \<Rightarrow> 'f service_config \<Rightarrow> fs_error + token_keys" where
  "resolve_token_keys sha256 random c =
     (case sc_capability_secret c of
        Some current \<Rightarrow> token_keys_from_hex sha256 current (sc_capability_previous c)
      | None \<Rightarrow> Inr (token_keys_ephemeral sha256 random))"

section \<open>What a loaded configuration is good for\<close>

lemma then_check_ok [simp]: "then_check a b = Inr () \<longleftrightarrow> a = Inr () \<and> b = Inr ()"
  by (cases a) (auto simp: then_check_def)

lemma reject_ok [simp]: "reject bad m = Inr () \<longleftrightarrow> \<not> bad"
  by (simp add: reject_def)

lemma check_secret_ok: "check_secret s = Inr () \<longleftrightarrow> (\<forall>k. s = Some k \<longrightarrow> (\<exists>b. parse_secret_hex k = Inr b))"
  by (auto simp: check_secret_def split: option.splits sum.splits)

lemma split_once_str_contains: "p \<noteq> [] \<Longrightarrow> split_once_str p s \<noteq> None \<longleftrightarrow> contains p s"
proof (induction s)
  case (Cons x xs)
  then show ?case by (auto simp: contains_def list_ex_iff)
qed (auto simp: contains_def list_ex_iff)

lemma token_keys_resolved:
  assumes "check_secret (sc_capability_secret c) = Inr ()" and "check_secret (sc_capability_previous c) = Inr ()"
  shows "\<exists>keys. resolve_token_keys sha256 random c = Inr keys"
  using assms by (auto simp: resolve_token_keys_def token_keys_from_hex_def check_secret_ok split: option.splits sum.splits)

section \<open>Properties\<close>

text \<open>
  What the loader accepts, the start of the server can use. A loaded configuration gives token keys, with or without a rotation; its lease lives
  no longer than the lease can compare, an issuer with tenants has a list of them with no empty entry, and its prefix does not
  leave its scope. A secret of the environment that is not empty wins over the file, and is validated like it.
\<close>

theorem loaded_config_usable:
  assumes "try_from_with lib file_content var = Inr c"
  shows "(\<exists>keys. resolve_token_keys sha256 random c = Inr keys) \<and> uint (sc_writer_lease_ttl_secs c) < 2 ^ 63 \<and>
    (\<forall>t. template_parse (sc_issuer_url c) (sc_allowed_tenants c) = Some t \<longrightarrow> it_allowed_tenants t \<noteq> [] \<and> [] \<notin> set (it_allowed_tenants t)) \<and>
    ''..'' \<notin> set (split_on CHR ''/'' (sc_db_prefix c)) \<and>
    (\<forall>v. v \<noteq> [] \<longrightarrow> var ''RUST_API_CLIENT_SECRET'' = Some v \<longrightarrow> sc_client_secret c = v) \<and>
    (\<forall>v. v \<noteq> [] \<longrightarrow> var ''RUST_API_CAPABILITY_SECRET'' = Some v \<longrightarrow> sc_capability_secret c = Some v)"
proof -
  obtain c0 where c: "c = apply_overrides_from var c0" and valid: "validate_config lib c = Inr ()"
    using assms by (auto simp: try_from_with_def Let_def split: option.splits sum.splits)
  note ok = valid [unfolded validate_config_def then_check_ok reject_ok]
  have ttl: "uint (sc_writer_lease_ttl_secs c) < 2 ^ 63" using ok by (simp add: not_less word_le_def)
  have "it_allowed_tenants t \<noteq> [] \<and> [] \<notin> set (it_allowed_tenants t)" if t: "template_parse (sc_issuer_url c) (sc_allowed_tenants c) = Some t" for t
  proof -
    have "contains ''{tenantid}'' (sc_issuer_url c)"
      using t split_once_str_contains [of "''{tenantid}''" "sc_issuer_url c"] by (auto simp: template_parse_def TENANT_PLACEHOLDER_def)
    moreover have "it_allowed_tenants t = sc_allowed_tenants c" using t by (auto simp: template_parse_def)
    moreover have "blank []" by (simp add: blank_def trim_def)
    ultimately show ?thesis using ok by (auto simp: list_ex_iff)
  qed
  moreover have "\<exists>keys. resolve_token_keys sha256 random c = Inr keys" using ok by (intro token_keys_resolved) simp_all
  moreover have "''..'' \<notin> set (split_on CHR ''/'' (sc_db_prefix c))" using ok by (auto simp: list_ex_iff)
  ultimately show ?thesis using ttl by (simp add: c apply_overrides_from_def prefer_env_def prefer_env_opt_def)
qed

definition plain_config :: "bool service_config" where
  "plain_config = \<lparr>sc_public_address = ''http://app'', sc_listen_port = 8080, sc_client_id = ''id'', sc_client_secret = ''file'',
     sc_issuer_url = ''http://idp'', sc_allowed_tenants = [], sc_db_prefix = ''oxkv'', sc_mirror_master = False, sc_writer_lease_ttl_secs = 60,
     sc_s3_backend = MemoryBackend, sc_s3_bucket = [], sc_s3_region = [], sc_s3_endpoint_url = None, sc_s3_force_path_style = False, sc_s3_access_key_id = None, sc_s3_secret_access_key = None,
     sc_capability_secret = None, sc_capability_previous = None, sc_service_name = ''rust-api'', sc_otlp_endpoint = None, sc_sample_ratio = True, sc_allowed_origins = [],
     sc_rate_per_minute = 0, sc_rate_burst = 0, sc_max_concurrent_downloads = 0\<rparr>"

definition plain_config_lib :: "bool config_lib" where
  "plain_config_lib = \<lparr>uc_scheme = (\<lambda>_. Inr ''http''), uc_ratio_ok = id, uc_parse = (\<lambda>_. Inr plain_config)\<rparr>"

theorem loaded_config_usable_witness:
  "\<exists>c. try_from_with plain_config_lib (Some []) [''RUST_API_CLIENT_SECRET'' \<mapsto> ''env''] = Inr c \<and> sc_client_secret c = ''env''"
proof -
  have plain: "\<not> blank ''id''" "\<not> blank ''file''" "\<not> blank ''env''" "\<not> blank ''oxkv''" "\<not> contains ''{tenantid}'' ''http://idp''" by code_simp+
  obtain c where c: "try_from_with plain_config_lib (Some []) [''RUST_API_CLIENT_SECRET'' \<mapsto> ''env''] = Inr c"
    by (simp add: try_from_with_def parse_toml_def validate_config_def plain_config_lib_def plain_config_def check_url_def then_check_def reject_def
        check_secret_def plain apply_overrides_from_def prefer_env_def prefer_env_opt_def)
  then show ?thesis using loaded_config_usable [OF c] by simp
qed

end
