(* ===== verification/Policy_Command.thy ===== *)
theory Policy_Command
  imports Service_Config Policy_Import
begin

text \<open>
  The commands \<open>policy export\<close> and \<open>policy import\<close> of \<^verbatim>\<open>src/src/main.rs\<close>: the configuration is loaded, the writer lease of the prefix is claimed
  before any store is opened, the work runs, and the lease is given back. Opening a store bumps its epoch in the bucket, which
  fences whoever writes there, so that the order matters. The key-value library, the policy library, the files and the JSON form are arguments.
\<close>

section \<open>The world of a command\<close>

datatype policy_action =
    ActExport (pa_config: string) (pa_file: string)
  | ActImport (pa_config: string) (pa_file: string)

text \<open>A line of the standard output and an error of the command, with the values their texts are made of.\<close>

datatype command_output = Exported nat nat string | Imported nat nat nat string

datatype command_error =
    ConfigFailed string
  | LeaseStoreFailed string
  | LeaseRefused string string lease_error
  | StoreFailed store_error
  | EnforcerFailed string
  | PolicyFailed policy_error
  | FileFailed string
  | JsonFailed string

record ('o, 'f) command_world =
  co_bucket :: 'o
  co_files :: 'f
  co_out :: "command_output list"

text \<open>
  \<open>cb_build\<close> is \<open>build_s3_store\<close> for a prefix and \<open>cb_enforcer\<close> opens an enforcer over the store there; \<open>cb_wal_store\<close> is the store of the
  feed, and \<open>cb_saved\<close> is what the calls of the two have left in the bucket.
\<close>

record ('o, 'f, 'e, 's, 't, 'v) command_lib =
  cb_object_store :: "string + unit"
  cb_build :: "string \<Rightarrow> ('o, store_error, unit) act"
  cb_enforcer :: "string \<Rightarrow> ('o, string, 'e) act"
  cb_wal_store :: "string \<Rightarrow> 'o \<Rightarrow> 's"
  cb_saved :: "('e, 's wal) policy_world \<Rightarrow> 'o \<Rightarrow> 'o"
  cb_ops :: "'e enforcer_ops"
  cb_kv :: "('s, 't, 'v) kv_ops"
  cb_cod :: "'v wal_codec"
  cb_read :: "string \<Rightarrow> ('f, string, string) act"
  cb_write :: "string \<Rightarrow> string \<Rightarrow> ('f, string, unit) act"
  cb_to_json :: "policy_dump \<Rightarrow> string + string"
  cb_from_json :: "string \<Rightarrow> string + policy_dump"

abbreviation cmd_bucket :: "('o, command_error, 'a) act \<Rightarrow> (('o, 'f) command_world, command_error, 'a) act" where
  "cmd_bucket m \<equiv> focus_act co_bucket (\<lambda>s w. w\<lparr>co_bucket := s\<rparr>) m"

abbreviation cmd_files :: "('f, command_error, 'a) act \<Rightarrow> (('o, 'f) command_world, command_error, 'a) act" where
  "cmd_files m \<equiv> focus_act co_files (\<lambda>f w. w\<lparr>co_files := f\<rparr>) m"

definition print_line :: "command_output \<Rightarrow> (('o, 'f) command_world, command_error, unit) act" where
  "print_line line w = (Inr (), w\<lparr>co_out := co_out w @ [line]\<rparr>)"

section \<open>Export and import\<close>

definition policy_action_name :: "policy_action \<Rightarrow> string" where
  "policy_action_name action = (case action of ActExport _ _ \<Rightarrow> ''policy export'' | ActImport _ _ \<Rightarrow> ''policy import'')"

definition domain_prefix :: "string \<Rightarrow> string \<Rightarrow> string" where
  "domain_prefix db_prefix domain = db_prefix @ ''/'' @ domain"

definition export_policy :: "('o, 'f, 'e, 's, 't, 'v) command_lib \<Rightarrow> string \<Rightarrow> string \<Rightarrow> (('o, 'f) command_world, command_error, unit) act" where
  "export_policy lib db_prefix out =
     bind_act (cmd_bucket (map_err_act StoreFailed (cb_build lib (domain_prefix db_prefix ''policy'')))) (\<lambda>_.
     bind_act (cmd_bucket (map_err_act EnforcerFailed (cb_enforcer lib (domain_prefix db_prefix ''policy'')))) (\<lambda>enf.
     let dump = export_s3 (cb_ops lib) enf in
     bind_act (map_err_act JsonFailed (res_act (cb_to_json lib dump))) (\<lambda>text.
     bind_act (cmd_files (map_err_act FileFailed (cb_write lib out text))) (\<lambda>_.
     print_line (Exported (length (pd_p dump)) (length (pd_g dump)) out)))))"

definition import_into :: "('o, 'f, 'e, 's, 't, 'v) command_lib \<Rightarrow> (wal_op \<Rightarrow> i64) \<Rightarrow> string \<Rightarrow> policy_dump \<Rightarrow> 'e \<Rightarrow> ('o, command_error, import_report) act" where
  "import_into lib ts db_prefix dump enf s =
     (case import_s3 \<lparr>pe_ops = cb_ops lib, pe_feed = Some (wal_append (cb_kv lib) (cb_cod lib))\<rparr> ts dump
        \<lparr>pw_enforcer = enf, pw_feed = \<lparr>wal_store = cb_wal_store lib (domain_prefix db_prefix ''wal'') s, wal_latch = latch_new\<rparr>, pw_latch = latch_new\<rparr> of
        (r, pw) \<Rightarrow> (case r of Inl e \<Rightarrow> Inl (PolicyFailed e) | Inr report \<Rightarrow> Inr report, cb_saved lib pw s))"

definition import_policy :: "('o, 'f, 'e, 's, 't, 'v) command_lib \<Rightarrow> (wal_op \<Rightarrow> i64) \<Rightarrow> string \<Rightarrow> string \<Rightarrow> (('o, 'f) command_world, command_error, unit) act" where
  "import_policy lib ts db_prefix input =
     bind_act (cmd_bucket (map_err_act StoreFailed (cb_build lib (domain_prefix db_prefix ''policy'')))) (\<lambda>_.
     bind_act (cmd_bucket (map_err_act StoreFailed (cb_build lib (domain_prefix db_prefix ''wal'')))) (\<lambda>_.
     bind_act (cmd_files (map_err_act FileFailed (cb_read lib input))) (\<lambda>text.
     bind_act (map_err_act JsonFailed (res_act (cb_from_json lib text))) (\<lambda>dump.
     bind_act (cmd_bucket (map_err_act EnforcerFailed (cb_enforcer lib (domain_prefix db_prefix ''policy'')))) (\<lambda>enf.
     bind_act (cmd_bucket (import_into lib ts db_prefix dump enf)) (\<lambda>report.
     print_line (Imported (ir_rules_added report) (ir_groups_added report) (ir_duplicates report) db_prefix)))))))"

section \<open>The lease around the work\<close>

definition claim_writer_lease :: "('o, 'v, 'ver) os_ops \<Rightarrow> 'v lease_codec \<Rightarrow> string + unit \<Rightarrow> s3_backend \<Rightarrow> claim \<Rightarrow> string \<Rightarrow>
    ('o, command_error, writer_lease option) act" where
  "claim_writer_lease ops cod object_store backend c purpose =
     (if cl_ttl c = 0 \<or> backend = MemoryBackend then ok_act None
      else
        bind_act (map_err_act LeaseStoreFailed (res_act object_store)) (\<lambda>_.
        bind_act (map_err_act (LeaseRefused purpose (cl_db_prefix c)) (acquire ops cod c)) (\<lambda>lease.
        ok_act (Some lease))))"

text \<open>
  The task that renews the lease runs beside the work. \<open>before\<close> and \<open>later\<close> are its renewals: the work and the lease touch different objects, so that one
  during the work is as good as one before or after it. With the clock of a renewal comes what the other processes did to the bucket since the last.
\<close>

record 'o renewals =
  rn_before :: "(('o \<Rightarrow> 'o) \<times> i64) list"
  rn_later :: "(('o \<Rightarrow> 'o) \<times> i64) list"
  rn_shutdown :: "'o \<Rightarrow> 'o"

definition under_lease :: "('o, 'v, 'ver) os_ops \<Rightarrow> 'v lease_codec \<Rightarrow> 'o renewals \<Rightarrow> writer_lease option \<Rightarrow>
    (('o, 'f) command_world, command_error, unit) act \<Rightarrow> (('o, 'f) command_world, command_error, unit) act" where
  "under_lease ops cod rn guard work w =
     (case guard of
        None \<Rightarrow> work w
      | Some l \<Rightarrow>
          let (l1, s1) = renew_ticks ops cod (rn_before rn) l (co_bucket w);
              (result, w2) = work (w\<lparr>co_bucket := s1\<rparr>);
              (l3, s3) = spawn_renewer ops cod (rn_later rn) (rn_shutdown rn) l1 (co_bucket w2)
          in (result, w2\<lparr>co_bucket := s3\<rparr>))"

text \<open>The process that runs the command: its clock, its identity and its environment.\<close>

record cli_process =
  pr_now :: i64
  pr_instance :: string
  pr_pid :: u32
  pr_var :: "string \<Rightarrow> string option"

definition command_claim :: "cli_process \<Rightarrow> 'c service_config \<Rightarrow> claim" where
  "command_claim proc cfg = \<lparr>cl_db_prefix = trim_slashes (sc_db_prefix cfg), cl_ttl = sc_writer_lease_ttl_secs cfg, cl_now = pr_now proc,
     cl_instance = pr_instance proc, cl_pid = pr_pid proc\<rparr>"

definition load_config :: "('o, 'f, 'e, 's, 't, 'v) command_lib \<Rightarrow> 'c config_lib \<Rightarrow> cli_process \<Rightarrow> string \<Rightarrow> (('o, 'f) command_world, command_error, 'c service_config) act" where
  "load_config lib clib proc path =
     bind_act (cmd_files (try_act (cb_read lib path))) (\<lambda>content.
     map_err_act ConfigFailed (res_act (try_from_with clib (case content of Inl _ \<Rightarrow> None | Inr text \<Rightarrow> Some text) (pr_var proc))))"

definition run_policy_command :: "('o, 'f, 'e, 's, 't, 'v) command_lib \<Rightarrow> ('o, 'lv, 'ver) os_ops \<Rightarrow> 'lv lease_codec \<Rightarrow> 'c config_lib \<Rightarrow> cli_process \<Rightarrow>
    'o renewals \<Rightarrow> (wal_op \<Rightarrow> i64) \<Rightarrow> policy_action \<Rightarrow> (('o, 'f) command_world, command_error, unit) act" where
  "run_policy_command lib ops cod clib proc rn ts action =
     bind_act (load_config lib clib proc (pa_config action)) (\<lambda>cfg.
     let c = command_claim proc cfg; db_prefix = cl_db_prefix c in
     bind_act (cmd_bucket (claim_writer_lease ops cod (cb_object_store lib) (sc_s3_backend cfg) c (policy_action_name action))) (\<lambda>guard.
     under_lease ops cod rn guard
       (case action of
          ActExport _ file \<Rightarrow> export_policy lib db_prefix file
        | ActImport _ file \<Rightarrow> import_policy lib ts db_prefix file)))"

section \<open>A refused claim, and a lease that is given back\<close>

context lease_over
begin

lemma create_over_object:
  assumes "osabs s p = Some obj"
  shows "wp (write_record ops cod p r PutCreate) (\<lambda>q s'. \<exists>e. q = Inl e \<and> osabs s' = osabs s) s"
proof (rule wpI)
  fix q s'
  assume "write_record ops cod p r PutCreate s = (q, s')"
  from write_record_cases [OF this] show "\<exists>e. q = Inl e \<and> osabs s' = osabs s" using assms by auto
qed

lemma acquire_live:
  assumes "osabs s (claim_path ops c) = Some (v, ver)" and "dec_lease cod v = Inr r" and "is_live_at r (cl_now c)"
  shows "wp (acquire ops cod c) (\<lambda>q s'. \<exists>e. q = Inl e \<and> osabs s' = osabs s) s"
  unfolding acquire_def Let_def wp_bind wp_try
  by (rule wp_mono [OF create_over_object [OF assms(1)]]) (use assms in \<open>auto intro!: wp_fetch\<close>)

end

context bucket_reliable
begin

text \<open>A lease object of the process \<open>proc\<close>.\<close>

definition held_by :: "string \<Rightarrow> string \<Rightarrow> 'o \<Rightarrow> bool" where
  "held_by p proc s \<longleftrightarrow> (\<exists>v ver r. osabs s p = Some (v, ver) \<and> dec_lease cod v = Inr r \<and> lr_instance r = proc)"

lemma held_by_cong: "osabs s' p = osabs s p \<Longrightarrow> held_by p proc s' = held_by p proc s"
  by (simp add: held_by_def)

lemma fetch_own:
  assumes "held_by p proc s"
  obtains r ver s' where "fetch ops cod p pfx s = (Inr (Some (r, ver)), s')" and "osabs s' = osabs s" and "lr_instance r = proc"
  using assms fetch_runs [of s p _ _ pfx] by (fastforce simp: held_by_def)

lemma renew_own:
  assumes "held_by (wl_path l) (lr_instance (wl_record l)) s" and "renew ops cod now l s = (b, l', s')"
  shows "held_by (wl_path l) (lr_instance (wl_record l)) s' \<and> wl_path l' = wl_path l \<and> lr_instance (wl_record l') = lr_instance (wl_record l)"
proof (cases "wl_lost l")
  case True
  then show ?thesis using assms by (simp add: renew_def)
next
  case False
  obtain r ver s1 where f: "fetch ops cod (wl_path l) '''' s = (Inr (Some (r, ver)), s1)" "osabs s1 = osabs s" "lr_instance r = lr_instance (wl_record l)"
    using assms(1) by (rule fetch_own)
  define fresh where "fresh = (wl_record l)\<lparr>lr_renewed_at := now\<rparr>"
  obtain s2 bytes ver' where w: "write_record ops cod (wl_path l) fresh PutOverwrite s1 = (Inr (), s2)" "enc_lease cod fresh = Inr bytes"
      "osabs s2 = (osabs s1)(wl_path l \<mapsto> (bytes, ver'))"
    using write_lands [of PutOverwrite s1 "wl_path l" fresh] by auto
  then have "held_by (wl_path l) (lr_instance (wl_record l)) s2"
    using lease_codec [OF w(2)] by (simp add: held_by_def fresh_def)
  then show ?thesis using assms(2) False f w(1) by (auto simp: renew_def fresh_def)
qed

lemma renew_ticks_own:
  assumes "held_by (wl_path l) (lr_instance (wl_record l)) s" and "renew_ticks ops cod ticks l s = (l', s')"
    and "\<forall>(env, now) \<in> set ticks. \<forall>s. osabs (env s) (wl_path l) = osabs s (wl_path l)"
  shows "held_by (wl_path l) (lr_instance (wl_record l)) s' \<and> wl_path l' = wl_path l \<and> lr_instance (wl_record l') = lr_instance (wl_record l)"
  using assms
proof (induction ticks arbitrary: l s)
  case (Cons tick ticks)
  obtain env now where tick: "tick = (env, now)" by (cases tick)
  obtain b l1 s1 where r: "renew ops cod now l (env s) = (b, l1, s1)" by (cases "renew ops cod now l (env s)") auto
  have "held_by (wl_path l) (lr_instance (wl_record l)) (env s)"
    using Cons.prems(1,3) held_by_cong [of "env s" "wl_path l" s] by (simp add: tick)
  note own = renew_own [OF this r]
  have rest: "renew_ticks ops cod ticks l1 s1 = (l', s')" using Cons.prems(2) r by (simp add: tick)
  show ?case using Cons.IH [of l1 s1] own rest Cons.prems(3) by simp
qed simp

lemma release_own:
  assumes "held_by (wl_path l) (lr_instance (wl_record l)) s" and "\<And>p s. \<exists>s'. os_delete ops p s = (Inr (), s')"
  shows "osabs (release ops cod l s) (wl_path l) = None"
proof -
  obtain r ver s1 where f: "fetch ops cod (wl_path l) '''' s = (Inr (Some (r, ver)), s1)" "lr_instance r = lr_instance (wl_record l)"
    using assms(1) by (rule fetch_own)
  obtain s2 where "os_delete ops (wl_path l) s1 = (Inr (), s2)" using assms(2) by blast
  then show ?thesis using odelete_cases [of "wl_path l" s1 "Inr ()" s2] f by (auto simp: release_def)
qed

lemma under_lease_hands_back:
  assumes "held_by (wl_path l) (lr_instance (wl_record l)) (co_bucket w)" and "under_lease ops cod rn (Some l) work w = (r, w')"
    and work: "\<And>x. keeps (\<lambda>w. osabs (co_bucket w) (wl_path l) = x) work"
    and delete: "\<And>p s. \<exists>s'. os_delete ops p s = (Inr (), s')"
    and env: "\<forall>(env, now) \<in> set (rn_before rn @ rn_later rn). \<forall>s. osabs (env s) (wl_path l) = osabs s (wl_path l)"
      "\<And>s. osabs (rn_shutdown rn s) (wl_path l) = osabs s (wl_path l)"
  shows "osabs (co_bucket w') (wl_path l) = None"
proof -
  obtain l1 s1 where t1: "renew_ticks ops cod (rn_before rn) l (co_bucket w) = (l1, s1)" by (cases "renew_ticks ops cod (rn_before rn) l (co_bucket w)")
  obtain q w2 where w2: "work (w\<lparr>co_bucket := s1\<rparr>) = (q, w2)" by (cases "work (w\<lparr>co_bucket := s1\<rparr>)")
  obtain l3 s3 where t3: "renew_ticks ops cod (rn_later rn) l1 (co_bucket w2) = (l3, s3)" by (cases "renew_ticks ops cod (rn_later rn) l1 (co_bucket w2)")
  have own: "held_by (wl_path l) (lr_instance (wl_record l)) s1 \<and> wl_path l1 = wl_path l \<and> lr_instance (wl_record l1) = lr_instance (wl_record l)"
    using renew_ticks_own [OF assms(1) t1] env(1) by auto
  have "osabs (co_bucket w2) (wl_path l) = osabs s1 (wl_path l)" using keepsD [OF work w2, of "osabs s1 (wl_path l)"] by simp
  then have "held_by (wl_path l1) (lr_instance (wl_record l1)) (co_bucket w2)" using own held_by_cong [of "co_bucket w2" "wl_path l" s1] by simp
  from renew_ticks_own [OF this t3] have "held_by (wl_path l) (lr_instance (wl_record l)) s3 \<and> wl_path l3 = wl_path l \<and> lr_instance (wl_record l3) = lr_instance (wl_record l)"
    using env(1) own by auto
  then have "osabs (release ops cod l3 (rn_shutdown rn s3)) (wl_path l) = None"
    using release_own [of l3 "rn_shutdown rn s3"] delete env(2) held_by_cong [of "rn_shutdown rn s3" "wl_path l" s3] by simp
  then show ?thesis using assms(2) t1 w2 t3 by (auto simp: under_lease_def spawn_renewer_def)
qed

end

text \<open>The stores of the command keep to the objects of their own prefixes: nothing they do changes the view of the bucket.\<close>

definition stores_spare :: "('o, 'f, 'e, 's, 't, 'v) command_lib \<Rightarrow> ('o \<Rightarrow> 'x) \<Rightarrow> bool" where
  "stores_spare lib view \<longleftrightarrow> (\<forall>p x. keeps (\<lambda>s. view s = x) (cb_build lib p) \<and> keeps (\<lambda>s. view s = x) (cb_enforcer lib p)) \<and>
     (\<forall>pw s. view (cb_saved lib pw s) = view s)"

lemma keeps_bucket: "keeps P m \<Longrightarrow> keeps (\<lambda>w. P (co_bucket w)) (cmd_bucket m)"
  by (rule keepsI) (auto simp: focus_act_eq dest: keepsD)

lemma keeps_files: "keeps (\<lambda>w. P (co_bucket w)) (cmd_files m)"
  by (rule keepsI) (auto simp: focus_act_eq)

lemma keeps_print_line: "keeps (\<lambda>w. P (co_bucket w)) (print_line line)"
  by (rule keepsI) (auto simp: print_line_def)

lemma keeps_import_into:
  assumes "stores_spare lib view"
  shows "keeps (\<lambda>s. view s = x) (import_into lib ts p dump e)"
  using assms by (intro keepsI) (auto simp: import_into_def stores_spare_def split: prod.splits)

lemma work_spares:
  assumes "stores_spare lib view"
  shows "keeps (\<lambda>w. view (co_bucket w) = x) (export_policy lib p file)" "keeps (\<lambda>w. view (co_bucket w) = x) (import_policy lib ts p file)"
proof -
  have lib: "keeps (\<lambda>s. view s = x) (cb_build lib p)" "keeps (\<lambda>s. view s = x) (cb_enforcer lib p)" for p
    using assms by (simp_all add: stores_spare_def)
  note rules = keeps_bind keeps_map_err keeps_res lib keeps_import_into [OF assms] keeps_bucket [where P = "\<lambda>s. view s = x"]
    keeps_files [where P = "\<lambda>s. view s = x"] keeps_print_line [where P = "\<lambda>s. view s = x"]
  show "keeps (\<lambda>w. view (co_bucket w) = x) (export_policy lib p file)"
    unfolding export_policy_def Let_def by (intro rules)
  show "keeps (\<lambda>w. view (co_bucket w) = x) (import_policy lib ts p file)"
    unfolding import_policy_def by (intro rules)
qed

lemma load_config_bucket:
  assumes "load_config lib clib proc path w = (r, w')"
  shows "co_bucket w' = co_bucket w" "co_out w' = co_out w"
  using assms by (auto simp: load_config_def act_eqs)

section \<open>Properties\<close>

text \<open>
  C38: a command never displaces a live writer. Where the lease is on, a record at the prefix that is live on the clock of the command makes it fail, whatever the
  bucket answers to its calls, and it has then changed no object of the bucket: it has opened no store, so that it fences nobody, and it has written no file and printed nothing.
\<close>

theorem policy_command_spares_writer:
  assumes "lease_over ops osabs vcontent cod"
    and load: "load_config lib clib proc (pa_config action) w = (Inr cfg, w0)" and c: "c = command_claim proc cfg"
    and on: "sc_writer_lease_ttl_secs cfg \<noteq> 0" "sc_s3_backend cfg = S3Backend"
    and live: "osabs (co_bucket w) (claim_path ops c) = Some (v, ver)" "dec_lease cod v = Inr held" "is_live_at held (cl_now c)"
    and run: "run_policy_command lib ops cod clib proc rn ts action w = (r, w')"
  shows "(\<exists>e. r = Inl e) \<and> osabs (co_bucket w') = osabs (co_bucket w) \<and> co_files w' = co_files w0 \<and> co_out w' = co_out w"
proof -
  have "wp (acquire ops cod c) (\<lambda>q s'. \<exists>e. q = Inl e \<and> osabs s' = osabs (co_bucket w)) (co_bucket w)"
    by (rule lease_over.acquire_live [OF assms(1) live])
  then have "wp (claim_writer_lease ops cod (cb_object_store lib) (sc_s3_backend cfg) c purpose) (\<lambda>q s'. \<exists>e. q = Inl e \<and> osabs s' = osabs (co_bucket w)) (co_bucket w)" for purpose
    using on by (cases "cb_object_store lib") (auto simp: claim_writer_lease_def c command_claim_def elim!: wp_mono)
  from wpD [OF this] obtain e s1 where "claim_writer_lease ops cod (cb_object_store lib) (sc_s3_backend cfg) c (policy_action_name action) (co_bucket w) = (Inl e, s1)"
      and s1: "osabs s1 = osabs (co_bucket w)"
    by (metis prod.exhaust)
  then have "(r, w') = (Inl e, w0\<lparr>co_bucket := s1\<rparr>)"
    using run by (simp add: run_policy_command_def load Let_def bind_act_def focus_act_def load_config_bucket(1) [OF load] flip: c)
  then show ?thesis using s1 load_config_bucket(2) [OF load] by simp
qed

text \<open>
  A command gives the prefix back. If its claim succeeds on a bucket that answers every call, then however the export or import ends and however often
  the lease was renewed meanwhile, no lease object is left: the next start need not wait for the lease to run out. The stores and the other processes leave
  that object alone.
\<close>

theorem policy_command_hands_back:
  assumes reliable: "bucket_reliable ops osabs vcontent cod" and delete: "\<And>p s. \<exists>s'. os_delete ops p s = (Inr (), s')"
    and load: "load_config lib clib proc (pa_config action) w = (Inr cfg, w0)" and c: "c = command_claim proc cfg" and p: "p = claim_path ops c"
    and on: "sc_writer_lease_ttl_secs cfg \<noteq> 0" "sc_s3_backend cfg = S3Backend" "cb_object_store lib = Inr ()"
    and free: "acquire_decision p c (map_option (\<lambda>(v, _). dec_lease cod v) (osabs (co_bucket w) p)) = Inr l"
    and stores: "stores_spare lib (\<lambda>s. osabs s p)"
    and env: "\<forall>(env, now) \<in> set (rn_before rn @ rn_later rn). \<forall>s. osabs (env s) p = osabs s p" "\<And>s. osabs (rn_shutdown rn s) p = osabs s p"
    and run: "run_policy_command lib ops cod clib proc rn ts action w = (r, w')"
  shows "osabs (co_bucket w') p = None"
proof -
  obtain q s1 where acq: "acquire ops cod c (co_bucket w) = (q, s1)" by (cases "acquire ops cod c (co_bucket w)")
  note decided = bucket_reliable.acquire_decides [OF reliable p [symmetric] acq]
  then have q: "q = Inr l" using free by simp
  then obtain b ver where s1: "enc_lease cod (claim_record c) = Inr b" "osabs s1 = (osabs (co_bucket w))(p \<mapsto> (b, ver))" using decided by auto
  have l: "l = new_lease p (claim_record c)" using free by (auto simp: acquire_decision_def Let_def split: option.splits sum.splits if_splits)
  have "dec_lease cod b = Inr (claim_record c)"
    by (rule lease_over.lease_codec [OF bucket_reliable.axioms(1) [OF reliable] s1(1)])
  then have own: "bucket_reliable.held_by osabs cod (wl_path l) (lr_instance (wl_record l)) s1"
    by (simp add: bucket_reliable.held_by_def [OF reliable] s1(2) l new_lease_def)
  have claim: "claim_writer_lease ops cod (cb_object_store lib) (sc_s3_backend cfg) c purpose (co_bucket w) = (Inr (Some l), s1)" for purpose
    using on acq q by (simp add: claim_writer_lease_def c command_claim_def act_defs)
  define work where "work = (case action of ActExport _ file \<Rightarrow> export_policy lib (cl_db_prefix c) file | ActImport _ file \<Rightarrow> import_policy lib ts (cl_db_prefix c) file)"
  have work: "keeps (\<lambda>w. osabs (co_bucket w) (wl_path l) = x) work" for x
    using work_spares [OF stores] by (simp add: work_def l new_lease_def split: policy_action.split)
  have run: "under_lease ops cod rn (Some l) work (w0\<lparr>co_bucket := s1\<rparr>) = (r, w')"
    using run load by (cases action) (simp_all add: run_policy_command_def Let_def work_def claim load_config_bucket(1) [OF load] bind_act_def focus_act_def flip: c)
  have "osabs (co_bucket w') (wl_path l) = None"
    using bucket_reliable.under_lease_hands_back [OF reliable _ run work delete] own env by (simp add: l new_lease_def)
  then show ?thesis by (simp add: l new_lease_def)
qed

section \<open>Examples\<close>

text \<open>A bucket in memory whose stores mark their prefix when they are opened, and a policy with no rules.\<close>

definition mem_command_lib :: "((string \<times> lease_record option) list, string \<rightharpoonup> string, mem_enforcer, wal_val mem_kv, (string \<times> wal_val option) list, wal_val) command_lib" where
  "mem_command_lib = \<lparr>cb_object_store = Inr (), cb_build = (\<lambda>p s. (Inr (), (p @ ''/ownership.json'', None) # s)),
     cb_enforcer = (\<lambda>p s. (Inr (pw_enforcer empty_policy), s)), cb_wal_store = (\<lambda>p s. wal_store (pw_feed empty_policy)), cb_saved = (\<lambda>pw s. s),
     cb_ops = mem_enf, cb_kv = mem_ops, cb_cod = tag_codec,
     cb_read = (\<lambda>p fs. (case fs p of None \<Rightarrow> Inl ''no such file'' | Some x \<Rightarrow> Inr x, fs)), cb_write = (\<lambda>p x fs. (Inr (), fs(p \<mapsto> x))),
     cb_to_json = (\<lambda>d. Inr ''dump''), cb_from_json = (\<lambda>x. Inr \<lparr>pd_p = [], pd_g = []\<rparr>)\<rparr>"

definition leased_config :: "bool service_config" where
  "leased_config = plain_config\<lparr>sc_s3_backend := S3Backend, sc_s3_bucket := ''bucket'', sc_s3_region := ''eu''\<rparr>"

definition leased_config_lib :: "bool config_lib" where
  "leased_config_lib = plain_config_lib\<lparr>uc_parse := (\<lambda>_. Inr leased_config)\<rparr>"

definition operator_at :: "i64 \<Rightarrow> cli_process" where
  "operator_at now = \<lparr>pr_now = now, pr_instance = ''cli'', pr_pid = 7, pr_var = (\<lambda>_. None)\<rparr>"

text \<open>A server that renewed its lease of a minute at the second zero.\<close>

definition served_world :: "((string \<times> lease_record option) list, string \<rightharpoonup> string) command_world" where
  "served_world = \<lparr>co_bucket = [(''oxkv/_rust-api-writer-lease.json'',
       Some \<lparr>lr_instance = ''server'', lr_claimed_at = 0, lr_renewed_at = 0, lr_ttl_secs = 60, lr_pid = 1\<rparr>)],
     co_files = [''config.toml'' \<mapsto> []], co_out = []\<rparr>"

abbreviation "one_renewal \<equiv> \<lparr>rn_before = [(\<lambda>s. s, 101)], rn_later = [], rn_shutdown = (\<lambda>s. s)\<rparr>"

lemma config_loads: "load_config mem_command_lib leased_config_lib (operator_at now) ''config.toml'' served_world = (Inr leased_config, served_world)"
proof -
  have plain: "\<not> blank ''id''" "\<not> blank ''file''" "\<not> blank ''oxkv''" "\<not> blank ''bucket''" "\<not> blank ''eu''" "\<not> contains ''{tenantid}'' ''http://idp''" by code_simp+
  have "try_from_with leased_config_lib (Some []) (\<lambda>_. None) = Inr leased_config"
    by (simp add: try_from_with_def parse_toml_def validate_config_def leased_config_lib_def leased_config_def plain_config_lib_def plain_config_def check_url_def
        then_check_def reject_def check_secret_def plain apply_overrides_from_def prefer_env_def prefer_env_opt_def)
  then show ?thesis by (simp add: load_config_def act_defs mem_command_lib_def served_world_def operator_at_def)
qed

lemma example_path: "claim_path mem_os (command_claim (operator_at now) leased_config) = ''oxkv/_rust-api-writer-lease.json''"
  by (simp add: claim_path_def command_claim_def leased_config_def plain_config_def trim_slashes_def lease_path_def lease_key_def)

theorem policy_command_spares_writer_witness:
  "\<exists>e. fst (run_policy_command mem_command_lib mem_os plain_lease_codec leased_config_lib (operator_at 10) one_renewal (\<lambda>_. 0)
     (ActExport ''config.toml'' ''out.json'') served_world) = Inl e"
proof -
  obtain r w' where run: "run_policy_command mem_command_lib mem_os plain_lease_codec leased_config_lib (operator_at 10) one_renewal (\<lambda>_. 0)
      (ActExport ''config.toml'' ''out.json'') served_world = (r, w')"
    by fastforce
  have "is_live_at \<lparr>lr_instance = ''server'', lr_claimed_at = 0, lr_renewed_at = 0, lr_ttl_secs = 60, lr_pid = 1\<rparr> 10" by code_simp
  then show ?thesis
    using policy_command_spares_writer [OF memlease.lease_over_axioms _ refl _ _ _ _ _ run, of leased_config served_world]
    by (simp add: config_loads example_path run) (simp add: leased_config_def plain_config_def served_world_def mem_os_abs_def operator_at_def command_claim_def)
qed

text \<open>The same command, once the lease of the server has run out: it runs, with one renewal, and leaves no lease.\<close>

theorem policy_command_hands_back_witness:
  "mem_os_abs (co_bucket (snd (run_policy_command mem_command_lib mem_os plain_lease_codec leased_config_lib (operator_at 100) one_renewal (\<lambda>_. 0)
     (ActExport ''config.toml'' ''out.json'') served_world))) ''oxkv/_rust-api-writer-lease.json'' = None"
proof -
  obtain r w' where run: "run_policy_command mem_command_lib mem_os plain_lease_codec leased_config_lib (operator_at 100) one_renewal (\<lambda>_. 0)
      (ActExport ''config.toml'' ''out.json'') served_world = (r, w')"
    by fastforce
  let ?p = "''oxkv/_rust-api-writer-lease.json''" and ?c = "command_claim (operator_at 100) leased_config"
  have "\<not> is_live_at \<lparr>lr_instance = ''server'', lr_claimed_at = 0, lr_renewed_at = 0, lr_ttl_secs = 60, lr_pid = 1\<rparr> 100" by code_simp
  then have free: "acquire_decision ?p ?c (map_option (\<lambda>(v, _). dec_lease plain_lease_codec v) (mem_os_abs (co_bucket served_world) ?p)) = Inr (new_lease ?p (claim_record ?c))"
    by (simp add: acquire_decision_def served_world_def mem_os_abs_def operator_at_def command_claim_def)
  have stores: "stores_spare mem_command_lib (\<lambda>s. mem_os_abs s ?p)"
    by (auto simp: stores_spare_def keeps_def mem_command_lib_def mem_os_abs_def)
  have "mem_os_abs (co_bucket w') ?p = None"
    using policy_command_hands_back [OF memlease.bucket_reliable_axioms _ _ refl example_path [symmetric] _ _ _ free stores _ _ run] config_loads
    by (simp add: leased_config_def plain_config_def mem_command_lib_def)
  then show ?thesis by (simp add: run)
qed

end
