(* ===== verification/Spec2Isabelle.thy ===== *)
theory Spec2Isabelle
  imports Prelude Fencing Fs_Error Records Kv_Store Wal Lease Retry Queue_Types Memory_Queue Durable_Queue
    Queue_Worker Fs_Model Fs_Store Object_Client Fs_Engine Engine_Rules Engine_Props Fs_Gc
    Policy_Types Policy_Adapter Policy_Engine Policy_Props Api_Error Policy_Routes Policy_Import
    Snapshot Snapshot_Replay Snapshot_Rules Snapshot_Memory Snapshot_Props Snapshot_Build
    Session_Locks Snapshot_Slots Rate_Limits Sync_Routes Fs_Tokens Fs_Routes Jwt_Auth Oidc_Flow Service_Health Service_Config Policy_Command
begin

text \<open>
  A verification development of the service under \<^verbatim>\<open>src/\<close>: an HTTP server over one object-store bucket that keeps files with their metadata, a
  role-based policy, a change feed, a job queue, and one filtered replica of the metadata per user.

  \<^bold>\<open>How the program is put together.\<close> A process claims the writer lease of its prefix (\<^verbatim>\<open>lease.rs\<close>) before it opens any store. Its stores
  are transactional key-value stores of the library \<open>oxkv\<close>; a store whose epoch was taken over answers \<open>Fenced\<close>, which trips a latch
  (\<^verbatim>\<open>fencing.rs\<close>) that takes the process out of service. The file engine (\<^verbatim>\<open>fs/\<close>) and the policy engine (\<^verbatim>\<open>policy/\<close>) change their
  stores and announce each change on the feed (\<^verbatim>\<open>sync/wal.rs\<close>). The replicas (\<^verbatim>\<open>sync/snapshot.rs\<close>) are rebuilt from the metadata and the policy, or
  brought forward by a replay of the feed. Requests pass the rate limit (\<^verbatim>\<open>limits.rs\<close>) and the token check (\<^verbatim>\<open>http/middleware/\<close>), whose tokens come from the
  login (\<^verbatim>\<open>oidc/\<close>), and reach the routes of the components. Jobs go through a queue with two backends and a worker (\<^verbatim>\<open>queue/\<close>).

  \<^bold>\<open>How the code is modelled.\<close> An \<open>async fn\<close> that returns a \<open>Result\<close> is an action (\<open>act\<close> of \<open>Prelude\<close>) from a state to a result, \<open>Inl\<close> an error and
  \<open>Inr\<close> a value, and a state; the question mark is \<open>bind_act\<close>, a loop with early returns \<open>for_act\<close>. Sizes, counters and sequence numbers are 64-bit or 32-bit words
  where the code adds or compares them; the signed clock is an integer with its range written out. Libraries are records of operations: the key-value store (\<open>kv_ops\<close>),
  the object store (\<open>os_ops\<close> and the backend of \<open>Object_Client\<close>), the enforcer of the policy library (\<open>enforcer_ops\<close>), the JSON codecs, the token and login
  libraries, the clock. What the code relies on of them is a locale, and each is interpreted on an in-memory instance on which the examples run:
  \<open>kv_store\<close> and \<open>kv_readable\<close> (\<open>Kv_Store\<close>), \<open>bucket_store\<close>, \<open>lease_over\<close> and \<open>bucket_reliable\<close> (\<open>Lease\<close>), \<open>object_backend\<close> (\<open>Object_Client\<close>),
  \<open>enforcer\<close> (\<open>Policy_Engine\<close>). The interfaces inside the program are locales too: \<open>change_sink\<close> (\<open>Records\<close>), which the durable feed implements by a sublocale,
  \<open>job_queue\<close> and \<open>job_queue_total\<close> (\<open>Queue_Types\<close>), which both backends implement, \<open>s3_client\<close>, which the object client implements, \<open>fs_over\<close> (the metadata
  store), \<open>engine_over\<close> (the file engine over its three parts), \<open>rule_store\<close> and \<open>policy_over\<close> (the policy) and \<open>snapshot_over\<close> (the replicas over master, replica
  and scratch store). Every store call may fail at any point unless a statement says that it answers; a failed commit may have landed.

  \<^bold>\<open>Theories, sources and what is shown.\<close>

  \<^item> \<open>Prelude\<close>: machine integers, actions with their weakest preconditions, strings, ordered association lists.
  \<^item> \<open>Fencing\<close>, \<open>Fs_Error\<close>, \<open>Api_Error\<close>, \<open>Records\<close> (\<^verbatim>\<open>fencing.rs\<close>, \<^verbatim>\<open>fs/error.rs\<close>, \<^verbatim>\<open>http/error.rs\<close>, \<^verbatim>\<open>http/validation.rs\<close>, \<^verbatim>\<open>records.rs\<close>): the latch logs one
    error for any number of losses; error responses carry no internal detail.
  \<^item> \<open>Kv_Store\<close>: the key-value interface with transactions, ordered scans and the in-memory instance.
  \<^item> \<open>Wal\<close> (\<^verbatim>\<open>sync/wal.rs\<close>): an append refines appending to a list; a range reads back what was appended and shows no gap; a corrupt head is refused; the latch
    trips exactly on a fenced write.
  \<^item> \<open>Lease\<close> (\<^verbatim>\<open>lease.rs\<close>): \<open>acquire\<close> as one action and as single store calls, which agree; at most one of any number of interleaved starts wins; a start decides by the documented
    liveness of the record (\<open>acquire_spec\<close>, over whole numbers) except for a record renewed after its reading of the clock, which the code displaces; a renewal never
    takes a lease back from a successor; the wait of a refusal is exact.
  \<^item> \<open>Retry\<close> (\<^verbatim>\<open>retry.rs\<close>): the sleeps are exactly the doubling ones.
  \<^item> \<open>Queue_Types\<close>, \<open>Memory_Queue\<close>, \<open>Durable_Queue\<close>, \<open>Queue_Worker\<close> (\<^verbatim>\<open>queue.rs\<close>, \<^verbatim>\<open>queue/memory.rs\<close>, \<^verbatim>\<open>queue/durable.rs\<close>, \<^verbatim>\<open>queue/worker.rs\<close>): the contract of a
    queue on an abstract map of jobs and that both backends meet it when nobody else is at work; disjoint reservations, idempotent enqueue, bounded retries, atomic negative acknowledgement. The durable
    reservation is a sequence of transactions with other clients in the gaps between them (\<open>durable_reserve_among\<close>): its batch is right for the queue at its scan, and two of them may return one
    job; two durable enqueues of one key race too. In one round on either backend a worker settles every job of its batch as its handler decided, or the answer failed and the job stays.
  \<^item> \<open>Fs_Model\<close>, \<open>Fs_Store\<close>, \<open>Object_Client\<close> (\<^verbatim>\<open>fs/model.rs\<close>, \<^verbatim>\<open>fs/store.rs\<close>, \<^verbatim>\<open>fs/relation.rs\<close>, \<^verbatim>\<open>fs/s3.rs\<close>, \<^verbatim>\<open>fs/object_store.rs\<close>): accepted part sizes tile the file without
    overflow; reference counts are the numbers of attached rows; deletions cascade exactly; the paged walk is complete; a row id with a colon is misread; a multipart
    upload restored from its record completes.
  \<^item> \<open>Fs_Engine\<close>, \<open>Engine_Rules\<close>, \<open>Engine_Props\<close>, \<open>Session_Locks\<close> (\<^verbatim>\<open>fs/mod.rs\<close>): every request of the engine; merged parts are kept, a committed file is announced or its
    session remains, a deletion is announced first, reads need a grant on an attached row or, without one, ownership, for rows without a colon; the locks of the sessions exclude each other and drain.
  \<^item> \<open>Fs_Gc\<close> (\<^verbatim>\<open>fs/gc.rs\<close>): a sweep spares the metadata of referenced files, whatever fails, and deletes only bytes of expired single-part sessions, of unreferenced files and of no row
    (\<open>swept_bytes\<close>); an expired session can drop the bytes of a committed file.
  \<^item> \<open>Fs_Tokens\<close>, \<open>Fs_Routes\<close> (\<^verbatim>\<open>fs/token.rs\<close>, \<^verbatim>\<open>fs/route.rs\<close>): a token opens its own file and action until it expires; a download answers the range its header asks for,
    by a specification over the text and whole numbers (\<open>requested\<close>, \<open>promised\<close>), with those bytes, up to cases that are named (\<open>refused_early\<close>); the offered file name
    holds no control character, quote, backslash or slash.
  \<^item> \<open>Policy_Types\<close>, \<open>Policy_Adapter\<close>, \<open>Policy_Engine\<close>, \<open>Policy_Props\<close>, \<open>Policy_Routes\<close>, \<open>Policy_Import\<close> (\<^verbatim>\<open>policy/\<close>): the adapter refines a set of rules, with a save that may leave none when it fails, and its load is the inverse of its
    save; changes are announced, replaying the feed yields the policy, the bootstrap claim succeeds exactly while there is no holder, each route checks its permission and its pages tile; an import merges; lost
    and reordered announcements.
  \<^item> \<open>Snapshot\<close>, \<open>Snapshot_Replay\<close>, \<open>Snapshot_Rules\<close>, \<open>Snapshot_Memory\<close>, \<open>Snapshot_Props\<close>, \<open>Snapshot_Build\<close>, \<open>Snapshot_Slots\<close> (\<^verbatim>\<open>sync/snapshot.rs\<close>): the closure of the groups is exact, a
    resync converges, a replay adds only readable files and writes its marker last, a rebuild filters and ends, and the slots of the queue exclude and are freed; the merge of a rebuild loses
    files after a stale key, and a replay keeps revoked ones.
  \<^item> \<open>Sync_Routes\<close> (\<^verbatim>\<open>sync/route.rs\<close>): the gateway answers from the caller's replica only, keeps its permits, and answers 304 exactly for an unchanged body.
  \<^item> \<open>Rate_Limits\<close> (\<^verbatim>\<open>limits.rs\<close>): the table of peers is bounded, a burst is capped, downloads are bounded; two workers may sweep at once.
  \<^item> \<open>Jwt_Auth\<close>, \<open>Oidc_Flow\<close> (\<^verbatim>\<open>http/middleware/\<close>, \<^verbatim>\<open>oidc/\<close>): handlers see verified claims only, fetches of keys are debounced, a session needs a verified identity token, a callback
    ends its login and redirects inside the site; a rotated key locks a browser out.
  \<^item> \<open>Service_Health\<close>, \<open>Service_Config\<close> (\<^verbatim>\<open>http/health.rs\<close>, \<^verbatim>\<open>config.rs\<close>, \<^verbatim>\<open>main.rs\<close>): the probes of the dependencies never run; what the loader accepts can be used.
  \<^item> \<open>Policy_Command\<close> (\<^verbatim>\<open>main.rs\<close>): the commands that export and import a policy under the lease; they fail on a prefix with a live writer and have then changed nothing, and they give
    the lease back however the work ends.
  \<^item> This theory: the login behind the token check.

  \<^bold>\<open>Bounds and fuel.\<close> The loops over pages that no list bounds take fuel and answer \<open>None\<close> when it runs out: the paged walk (\<open>walk\<close>, \<open>next_file\<close>), the copy and the merge of a rebuild
  (\<open>copy_loop\<close>, \<open>next_data_key\<close>, \<open>merge_loop\<close>). One round of each consumes an entry of a finite store, so that fuel above the number of entries suffices:
  \<open>paged_walk_complete\<close> and \<open>rebuild_returns\<close> show that it does, the latter for every state of the stores, and \<open>pool_step_serves\<close> that a queued rebuild is finished. The closure of the groups
  (\<open>groups_loop\<close>) is a partial function with \<open>None\<close> for a loop that does not end; \<open>implicit_groups_exact\<close> shows that it returns, cycles included. Retries are bounded by their attempts.
  The worker, the renewals and the probe task run until they are cancelled and are stated for any list or number of rounds. Sequence numbers
  stop at the capacity of 64 bits, which appears as a hypothesis on the length of the feed.

  \<^bold>\<open>What is granted.\<close> A mutex makes its critical section one action; where sections of several tasks interleave and it matters, the steps are explicit (\<open>contend\<close>,
  \<open>lock_step\<close>, \<open>queue_step\<close>, \<open>jwks_run\<close>, \<open>gate_run\<close>) or the others act in named gaps (\<open>reserve_gap\<close>). The rounding of floating-point numbers in the rate limit is a monotone function that is exact on whole numbers up to \<open>2 ^ 32\<close>. Decoding is the inverse
  of encoding.

  \<^bold>\<open>Not modelled.\<close> The audit lines, metrics, spans and logs decide nothing. Opening the stores (\<^verbatim>\<open>db.rs\<close>), the client of the message broker, and the construction of the S3 builder only
  call libraries. The server of \<^verbatim>\<open>http/mod.rs\<close> is configuration of the web framework; the request identifier and the server time add a header each. \<^verbatim>\<open>reactive.rs\<close> registers
  services of a host application, of which there is none here. The start of the server in \<^verbatim>\<open>main.rs\<close> wires the parts above, after a claim of the lease like that of the commands; the RAM mirror of the metadata is a copy of
  the same keys. Timers and shutdown of the background tasks are left out except where a statement is about them.
\<close>

section \<open>The login behind the token check\<close>

text \<open>
  The scope \<open>/auth\<close> is wrapped in the middleware (\<^verbatim>\<open>src/src/oidc/route.rs\<close>, \<open>configure\<close>), so a callback runs behind it. \<open>render\<close> is the
  text of a cookie in its header, which the cookie library makes.
\<close>

definition callback_service :: "('p, 'm) oidc_lib \<Rightarrow> 'm oidc_client \<Rightarrow> (cookie \<Rightarrow> string) \<Rightarrow> (string \<rightharpoonup> string) \<Rightarrow> callback_query \<Rightarrow>
    'c option \<Rightarrow> ('p, api_error, oidc_response auth_response) act" where
  "callback_service lib client render cookies query user_claims p =
     (case callback lib client cookies query p of (resp, p') \<Rightarrow> (Inr \<lparr>ap_set_cookies = map render (or_cookies resp), ap_rest = resp\<rparr>, p'))"

definition session_headers :: "string list \<Rightarrow> string list" where
  "session_headers = filter (prefix (AUTH_COOKIE @ ''=''))"

lemma rendered_session:
  assumes "\<And>c. \<exists>attrs. render c = ck_name c @ ''='' @ ck_value c @ '';'' @ attrs" and "ck_name c = ''auth_token''" and "ck_value c \<noteq> []" and "CHR '';'' \<notin> set (ck_value c)"
  shows "prefix (AUTH_COOKIE @ ''='') (render c)" and "\<not> prefix (AUTH_COOKIE @ ''=;'') (render c)"
proof -
  obtain attrs where "render c = ck_name c @ ''='' @ ck_value c @ '';'' @ attrs" using assms(1) by blast
  then show "prefix (AUTH_COOKIE @ ''='') (render c)" "\<not> prefix (AUTH_COOKIE @ ''=;'') (render c)"
    using assms(2-4) by (cases "ck_value c"; simp add: AUTH_COOKIE_def)+
qed

lemma rendered_other:
  assumes "\<And>c. \<exists>attrs. render c = ck_name c @ ''='' @ ck_value c @ '';'' @ attrs"
    and "ck_name c \<in> {''oidc_csrf'', ''oidc_nonce'', ''oidc_pkce'', ''oidc_return_to'', ''refresh_token''}"
  shows "\<not> prefix (AUTH_COOKIE @ ''='') (render c)"
proof -
  obtain attrs where "render c = ck_name c @ ''='' @ ck_value c @ '';'' @ attrs" using assms(1) by blast
  then show ?thesis using assms(2) by (auto simp: AUTH_COOKIE_def)
qed

lemma flow_headers:
  assumes "\<And>c. \<exists>attrs. render c = ck_name c @ ''='' @ ck_value c @ '';'' @ attrs"
  shows "session_headers (map render (auth_flow_cookies secure)) = []"
  using rendered_other [OF assms] by (simp add: session_headers_def auth_flow_cookies_def clear_cookie_def)

lemma sets_session_headers: "sets_session hs \<Longrightarrow> session_headers hs \<noteq> []"
  by (auto simp: sets_session_def session_headers_def list_ex_iff filter_empty_conv)

lemma stale_cookie_served:
  assumes "ar_bearer req = None" and "ar_cookie req = Some old" and "decide m instant now old jw = (Inl (reason, False), jw')"
    and "callback lib client cookies query p = (resp, p')"
  shows "jwt_call m instant now req (callback_service lib client render cookies query) (jw, p) =
    (Inr (clear_stale True \<lparr>ap_set_cookies = map render (or_cookies resp), ap_rest = resp\<rparr>), (jw', p'))"
  using assms by (simp add: jwt_call_def chosen_token_def chosen_from_cookie_def callback_service_def Let_def)

text \<open>
  C33: a stale session never undoes a login. When a browser whose session token is no longer valid comes back from the provider, the callback runs, and
  the answer sets exactly one session: the token of the login if the login succeeds, and otherwise the empty one, so the browser stops sending the
  stale token. The header that clears the stale session is never added after the one that sets the new one.
\<close>

theorem login_replaces_stale_session:
  assumes "\<And>c. \<exists>attrs. render c = ck_name c @ ''='' @ ck_value c @ '';'' @ attrs"
    and "ar_bearer req = None" and "ar_cookie req = Some old" and "decide m instant now old jw = (Inl (reason, False), jw')"
    and "callback lib client cookies query p = (resp, p')"
    and "\<And>c. c \<in> set (or_cookies resp) \<Longrightarrow> ck_name c = ''auth_token'' \<Longrightarrow>
      ck_value c \<noteq> [] \<and> CHR '';'' \<notin> set (ck_value c) \<and> header_str (Some (render c)) \<noteq> None"
  shows "\<exists>r. jwt_call m instant now req (callback_service lib client render cookies query) (jw, p) = (Inr r, (jw', p')) \<and>
    session_headers (ap_set_cookies r) = [case find (\<lambda>c. ck_name c = ''auth_token'') (or_cookies resp) of Some c \<Rightarrow> render c | None \<Rightarrow> CLEAR_SESSION]"
proof -
  let ?h = "\<lparr>ap_set_cookies = map render (or_cookies resp), ap_rest = resp\<rparr>"
  have clear: "session_headers [CLEAR_SESSION] = [CLEAR_SESSION]" by (simp add: session_headers_def CLEAR_SESSION_def AUTH_COOKIE_def)
  have flow: "find (\<lambda>c. ck_name c = ''auth_token'') (auth_flow_cookies s) = None" for s by (simp add: auth_flow_cookies_def clear_cookie_def)
  consider (failed) "failed_login lib client resp" | (verified) token refresh where "verified_login lib client cookies query p resp p' token refresh"
    using callback_cases [OF assms(5)] by blast
  then have "session_headers (ap_set_cookies (clear_stale True ?h)) =
      [case find (\<lambda>c. ck_name c = ''auth_token'') (or_cookies resp) of Some c \<Rightarrow> render c | None \<Rightarrow> CLEAR_SESSION]"
  proof cases
    case failed
    then have r: "or_cookies resp = auth_flow_cookies (secure_cookies lib client)" by (auto simp: failed_login_def callback_failure_def split: option.splits)
    then have "\<not> sets_session (map render (or_cookies resp))" using flow_headers [OF assms(1)] sets_session_headers by metis
    then show ?thesis using flow_headers [OF assms(1)] clear r flow by (simp add: clear_stale_def session_headers_def)
  next
    case verified
    let ?s = "secure_cookies lib client"
    let ?c = "\<lparr>ck_name = ''auth_token'', ck_value = token, ck_secure = ?s, ck_max_age = 7 * 86400\<rparr>"
    obtain more where r: "or_cookies resp = auth_flow_cookies ?s @ ?c # more" "\<forall>c \<in> set more. ck_name c = ''refresh_token''"
      using verified by (auto simp: verified_login_def session_cookies_def split: option.splits)
    have c: "prefix (AUTH_COOKIE @ ''='') (render ?c)" "\<not> prefix (AUTH_COOKIE @ ''=;'') (render ?c)" "header_str (Some (render ?c)) \<noteq> None"
      using rendered_session [OF assms(1), of ?c] assms(6) [of ?c] r(1) by auto
    then have "sets_session (map render (or_cookies resp))" using r(1) by (auto simp: sets_session_def)
    moreover have "session_headers (map render more) = []" using rendered_other [OF assms(1)] r(2) by (auto simp: session_headers_def filter_empty_conv)
    moreover have "find (\<lambda>c. ck_name c = ''auth_token'') (or_cookies resp) = Some ?c" using flow [of ?s] r(1) by (simp add: auth_flow_cookies_def clear_cookie_def)
    ultimately show ?thesis using flow_headers [OF assms(1), of ?s] c(1) r(1) by (simp add: clear_stale_def session_headers_def)
  qed
  then show ?thesis using stale_cookie_served [OF assms(2-5)] by blast
qed

text \<open>The attributes of every cookie of the scope, with a session that ended at the tenth second.\<close>

definition plain_render :: "cookie \<Rightarrow> string" where
  "plain_render c = ck_name c @ ''='' @ ck_value c @ ''; HttpOnly; SameSite=Lax; Path=/''"

theorem login_replaces_stale_session_witness:
  "\<exists>r. fst (jwt_call tenant_middleware 101 20 \<lparr>ar_bearer = None, ar_cookie = Some ''k1.t1.x''\<rparr>
       (callback_service plain_provider plain_client plain_render browser good_query) ((first_keys, 0), 0)) = Inr r \<and>
     session_headers (ap_set_cookies r) = [''auth_token=h.t1.s; HttpOnly; SameSite=Lax; Path=/'']"
proof -
  let ?req = "\<lparr>ar_bearer = None, ar_cookie = Some ''k1.t1.x''\<rparr>"
  have d: "decide tenant_middleware 101 20 ''k1.t1.x'' (first_keys, 0) = (Inl (''token failed validation: expired'', False), (first_keys, 0))"
    by (simp add: decide_def tenant_middleware_def plain_tokens_def jwks_get_def jwks_lookup_def first_keys_def pin_issuer_def tenant_of_def
        extract_unverified_claim_def resolve_checked_def Let_def)
  have find: "find (\<lambda>c. ck_name c = ''auth_token'') (or_cookies logged_in) =
      Some \<lparr>ck_name = ''auth_token'', ck_value = ''h.t1.s'', ck_secure = True, ck_max_age = 7 * 86400\<rparr>"
    by (simp add: logged_in_def auth_flow_cookies_def clear_cookie_def session_cookies_def)
  have visible: "header_str (Some ''auth_token=h.t1.s; HttpOnly; SameSite=Lax; Path=/'') \<noteq> None" by code_simp
  have cookies: "ck_value c \<noteq> [] \<and> CHR '';'' \<notin> set (ck_value c) \<and> header_str (Some (plain_render c)) \<noteq> None"
    if "c \<in> set (or_cookies logged_in)" "ck_name c = ''auth_token''" for c
    using that visible by (auto simp: logged_in_def auth_flow_cookies_def clear_cookie_def session_cookies_def plain_render_def)
  have render: "\<exists>attrs. plain_render c = ck_name c @ ''='' @ ck_value c @ '';'' @ attrs" for c by (simp add: plain_render_def)
  have "\<exists>r. jwt_call tenant_middleware 101 20 ?req (callback_service plain_provider plain_client plain_render browser good_query) ((first_keys, 0), 0) =
      (Inr r, ((first_keys, 0), 1)) \<and> session_headers (ap_set_cookies r) =
      [case find (\<lambda>c. ck_name c = ''auth_token'') (or_cookies logged_in) of Some c \<Rightarrow> plain_render c | None \<Rightarrow> CLEAR_SESSION]"
    by (rule login_replaces_stale_session [OF render _ _ d good_login cookies]) simp_all
  then obtain r where "jwt_call tenant_middleware 101 20 ?req (callback_service plain_provider plain_client plain_render browser good_query) ((first_keys, 0), 0) =
      (Inr r, ((first_keys, 0), 1))" "session_headers (ap_set_cookies r) = [plain_render (the (find (\<lambda>c. ck_name c = ''auth_token'') (or_cookies logged_in)))]"
    unfolding find by auto
  then show ?thesis unfolding find by (intro exI [of _ r]) (simp add: plain_render_def)
qed

end
